(* ===== verification/Prelude.thy ===== *)
theory Prelude
  imports Main "HOL-Library.Word" "HOL-Library.List_Lexorder" "HOL-Library.Monad_Syntax"
begin

text \<open>
  What every component shares.  A \<open>std::string\<close> and a \<open>char\<close> buffer are lists of bytes
  (\<open>str\<close>), compared lexicographically by unsigned byte (\<open>List_Lexorder\<close>), as
  \<open>std::string::operator<\<close> does.  An operation that may not come back, or whose behaviour C++
  leaves undefined, has an \<open>option\<close> result in which \<open>None\<close> says so; an operation of the
  source that reports failure (\<open>return false\<close>) has an inner \<open>option\<close> or \<open>bool\<close> for it.
  The theory also holds the byte-codec interface (a locale), which every on-disk and on-wire format
  of the program is an instance of.
\<close>

unbundle bit_operations_syntax

type_synonym byte = "8 word"
type_synonym str = "byte list"
type_synonym u16 = "16 word"
type_synonym u32 = "32 word"
type_synonym u64 = "64 word"

named_theorems le_bytes \<open>evaluation of little-endian stores and loads\<close>
named_theorems codec_simps \<open>decoders applied to what the encoders wrote\<close>
named_theorems step_simps \<open>one-step unfoldings of the operations of a component\<close>

text \<open>String literals of the source.\<close>

definition lit :: "string \<Rightarrow> str" where
  "lit s = map of_char s"

text \<open>\<open>std::to_string\<close> of an unsigned value: the decimal digits.\<close>

fun dec_digits :: "nat \<Rightarrow> str" where
  "dec_digits n = (if n < 10 then [word_of_nat (48 + n)]
                   else dec_digits (n div 10) @ [word_of_nat (48 + n mod 10)])"

declare dec_digits.simps [simp del]

subsection \<open>Buffers\<close>

text \<open>Storing \<open>bs\<close> into a buffer from index \<open>i\<close> on, where it fits.\<close>

definition write_at :: "'a list \<Rightarrow> nat \<Rightarrow> 'a list \<Rightarrow> 'a list" where
  "write_at buf i bs = take i buf @ bs @ drop (i + length bs) buf"

lemma length_write_at [simp]:
  "i + length bs \<le> length buf \<Longrightarrow> length (write_at buf i bs) = length buf"
  by (simp add: write_at_def)

lemma drop_write_at:
  "i + length bs \<le> length buf \<Longrightarrow> drop i (write_at buf i bs) = bs @ drop (i + length bs) buf"
  by (simp add: write_at_def)

lemma drop_write_at_beyond:
  "i + length bs \<le> length buf \<Longrightarrow> i + length bs \<le> j \<Longrightarrow> drop j (write_at buf i bs) = drop j buf"
  by (simp add: write_at_def add.commute)

lemma take_write_at_before:
  "i + length bs \<le> length buf \<Longrightarrow> k \<le> i \<Longrightarrow> take k (write_at buf i bs) = take k buf"
  by (simp add: write_at_def)

lemma write_at_0 [simp]: "write_at buf 0 bs = bs @ drop (length bs) buf"
  by (simp add: write_at_def)

subsection \<open>Decoding a concatenation of records\<close>

text \<open>
  A decoder consumes one record from the front of the input and returns the rest, or \<open>None\<close>
  where the record is incomplete or malformed.  \<open>decode_all\<close> is the reading loop every replay of
  the program has: read records until one cannot be read.  \<open>fuel\<close> bounds the number of records;
  the length of the input is always enough, because a record has at least one byte.
\<close>

fun decode_all :: "(str \<Rightarrow> ('a \<times> str) option) \<Rightarrow> nat \<Rightarrow> str \<Rightarrow> 'a list" where
  "decode_all d 0 s = []"
| "decode_all d (Suc n) s = (case d s of None \<Rightarrow> [] | Some (x, r) \<Rightarrow> x # decode_all d n r)"

locale codec =
  fixes enc :: "'a \<Rightarrow> str"
    and dec :: "str \<Rightarrow> ('a \<times> str) option"
    and valid :: "'a \<Rightarrow> bool"
  assumes dec_enc: "valid x \<Longrightarrow> dec (enc x @ r) = Some (x, r)"
    and enc_nonempty: "valid x \<Longrightarrow> enc x \<noteq> []"
    and dec_end: "dec [] = None"
begin

lemma decode_all_tail:
  assumes "\<forall>x \<in> set xs. valid x" and "dec t = None" and "length xs < n"
  shows "decode_all dec n (concat (map enc xs) @ t) = xs"
  using assms
proof (induction xs arbitrary: n)
  case Nil
  then show ?case by (cases n) auto
next
  case (Cons x xs)
  then obtain m where n: "n = Suc m" by (cases n) auto
  from Cons show ?case by (simp add: n dec_enc)
qed

text \<open>What was appended record by record is read back record by record.\<close>

lemma decode_all_enc:
  assumes "\<forall>x \<in> set xs. valid x"
  shows "decode_all dec (Suc (length (concat (map enc xs)))) (concat (map enc xs)) = xs"
proof -
  have "length xs \<le> length (concat (map enc xs))"
    using assms
  proof (induction xs)
    case Nil
    then show ?case by simp
  next
    case (Cons x xs)
    then have "1 \<le> length (enc x)" using enc_nonempty [of x] by (cases "enc x") auto
    with Cons show ?case by auto
  qed
  then have "length xs < Suc (length (concat (map enc xs)))" by (rule le_imp_less_Suc)
  from decode_all_tail [OF assms dec_end this] show ?thesis by (simp only: append_Nil2)
qed

text \<open>The encoding is prefix-free, so the concatenation of records can be split in one way only.\<close>

lemma enc_inj:
  assumes "valid x" and "valid y" and "enc x @ r = enc y @ s"
  shows "x = y \<and> r = s"
proof -
  have "Some (x, r) = dec (enc x @ r)" by (rule dec_enc [OF assms(1), symmetric])
  also have "\<dots> = Some (y, s)" unfolding assms(3) by (rule dec_enc [OF assms(2)])
  finally show ?thesis by simp
qed

end

subsection \<open>Words\<close>

lemma mask8_u32: "(0xff :: u32) = mask 8"
  by (simp add: mask_eq_exp_minus_1)

lemma mask8_u64: "(0xff :: u64) = mask 8"
  by (simp add: mask_eq_exp_minus_1)

lemma mask7_u32: "(0x7f :: u32) = mask 7"
  by (simp add: mask_eq_exp_minus_1)

lemma unat_of_nat_u32 [simp]: "n < 4294967296 \<Longrightarrow> unat (word_of_nat n :: u32) = n"
  by (simp add: unat_of_nat)

lemma unat_of_nat_u64 [simp]: "n < 18446744073709551616 \<Longrightarrow> unat (word_of_nat n :: u64) = n"
  by (simp add: unat_of_nat)

lemma unat_of_nat_byte [simp]: "n < 256 \<Longrightarrow> unat (word_of_nat n :: byte) = n"
  by (simp add: unat_of_nat)

lemma unat_u32_bound [simp]: "unat (w :: u32) < 4294967296"
  using unsigned_less [of w] by simp

lemma unat_u64_bound [simp]: "unat (w :: u64) < 18446744073709551616"
  using unsigned_less [of w] by simp

lemma unat_byte_bound [simp]: "unat (w :: byte) < 256"
  using unsigned_less [of w] by simp

lemma u64_inc: "(i :: u64) < up \<Longrightarrow> unat (i + 1) = Suc (unat i)"
proof -
  assume "i < up"
  then have "unat i < unat up" by (simp add: word_less_nat_alt)
  then have "Suc (unat i) < 18446744073709551616" using unat_u64_bound [of up] by linarith
  then show ?thesis by (simp add: unat_word_ariths)
qed

lemma u64_dec: "(c :: u64) < i \<Longrightarrow> unat (i - 1) < unat i"
proof -
  assume "c < i"
  then have "i \<noteq> 0" by auto
  then have "0 < unat i" by (simp add: unat_gt_0)
  moreover have "unat (i - 1) = unat i - 1" using \<open>i \<noteq> 0\<close> by (simp add: unat_minus_one)
  ultimately show ?thesis by simp
qed

lemma u64_not_max: "unat (i :: u64) + 1 < 2 ^ 64 \<Longrightarrow> i \<noteq> - 1 \<and> unat (i + 1) = unat i + 1"
proof
  assume le: "unat i + 1 < 2 ^ 64"
  then show u: "unat (i + 1) = unat i + 1" by (simp add: unat_word_ariths)
  show "i \<noteq> - 1"
  proof
    assume "i = - 1"
    then have "i + 1 = 0" by simp
    with u show False by simp
  qed
qed

subsection \<open>Lists\<close>

lemma take_append_exact [simp]: "length xs = n \<Longrightarrow> take n (xs @ ys) = xs"
  by simp

lemma drop_append_exact [simp]: "length xs = n \<Longrightarrow> drop n (xs @ ys) = ys"
  by simp

end
