(* ===== verification/Coding.thy ===== *)
theory Coding
  imports Prelude
begin

text \<open>
  \<open>src/src/engine/coding.cc\<close>: the fixed-width little-endian codecs, the varint codec and the
  length-prefixed string codec that the WAL, the write batch and the SSTable are built from.

  \<open>EncodeVarint32\<close> is modelled as it is written: its loop body evaluates \<open>value >> 7\<close> without
  storing it, so for a value of 128 or more the loop never ends (and writes past the caller's
  five-byte buffer).  The result is \<open>None\<close> then, and every encoder above it is an \<open>option\<close>.
\<close>

subsection \<open>Fixed width\<close>

definition EncodeFixed32 :: "u32 \<Rightarrow> str" where
  "EncodeFixed32 v =
     [ucast (v AND 0xff), ucast (drop_bit 8 v AND 0xff),
      ucast (drop_bit 16 v AND 0xff), ucast (drop_bit 24 v AND 0xff)]"

text \<open>Reading four bytes through a pointer; \<open>None\<close> where fewer are there to be read.\<close>

fun DecodeFixed32 :: "str \<Rightarrow> u32 option" where
  "DecodeFixed32 (b0 # b1 # b2 # b3 # _) =
     Some (ucast b0 OR push_bit 8 (ucast b1) OR push_bit 16 (ucast b2) OR push_bit 24 (ucast b3))"
| "DecodeFixed32 _ = None"

definition EncodeFixed64 :: "u64 \<Rightarrow> str" where
  "EncodeFixed64 v =
     [ucast (v AND 0xff), ucast (drop_bit 8 v AND 0xff),
      ucast (drop_bit 16 v AND 0xff), ucast (drop_bit 24 v AND 0xff),
      ucast (drop_bit 32 v AND 0xff), ucast (drop_bit 40 v AND 0xff),
      ucast (drop_bit 48 v AND 0xff), ucast (drop_bit 56 v AND 0xff)]"

definition DecodeFixed64 :: "str \<Rightarrow> u64 option" where
  "DecodeFixed64 buf =
     do { lo \<leftarrow> DecodeFixed32 buf;
          hi \<leftarrow> DecodeFixed32 (drop 4 buf);
          Some (push_bit 32 (ucast hi) OR ucast lo) }"

definition PutFixed32 :: "str \<Rightarrow> u32 \<Rightarrow> str" where
  "PutFixed32 dst value = dst @ EncodeFixed32 value"

definition PutFixed64 :: "str \<Rightarrow> u64 \<Rightarrow> str" where
  "PutFixed64 dst value = dst @ EncodeFixed64 value"

lemma length_EncodeFixed32 [simp]: "length (EncodeFixed32 v) = 4"
  by (simp add: EncodeFixed32_def)

lemma length_EncodeFixed64 [simp]: "length (EncodeFixed64 v) = 8"
  by (simp add: EncodeFixed64_def)

lemma byte_cases_32:
  fixes n :: nat
  assumes "n < 32"
  obtains "n < 8" | "8 \<le> n" "n < 16" | "16 \<le> n" "n < 24" | "24 \<le> n" "n < 32"
  using assms by linarith

lemma join_bytes32:
  "ucast (ucast (v AND 0xff) :: byte) OR push_bit 8 (ucast (ucast (drop_bit 8 v AND 0xff) :: byte))
     OR push_bit 16 (ucast (ucast (drop_bit 16 v AND 0xff) :: byte))
     OR push_bit 24 (ucast (ucast (drop_bit 24 v AND 0xff) :: byte)) = (v :: u32)"
  (is "?l = v")
proof (rule bit_word_eqI)
  fix n
  assume "n < LENGTH(32)"
  then have n: "n < 32" by simp
  then show "bit ?l n = bit v n"
    by (cases rule: byte_cases_32) (auto simp: mask8_u32 bit_simps)
qed

lemma DecodeFixed32_Encode [le_bytes]: "DecodeFixed32 (EncodeFixed32 v @ r) = Some v"
  using join_bytes32 [of v] by (simp add: EncodeFixed32_def)

lemma DecodeFixed32_Encode_only [le_bytes]: "DecodeFixed32 (EncodeFixed32 v) = Some v"
  using DecodeFixed32_Encode [of v "[]"] by simp

lemma DecodeFixed32_None_iff: "DecodeFixed32 s = None \<longleftrightarrow> length s < 4"
  by (cases s rule: DecodeFixed32.cases) auto

lemma DecodeFixed32_take: "4 \<le> length s \<Longrightarrow> DecodeFixed32 (take 4 s @ r) = DecodeFixed32 s"
  by (cases s rule: DecodeFixed32.cases) auto

lemma EncodeFixed64_halves:
  "EncodeFixed64 v = EncodeFixed32 (ucast v) @ EncodeFixed32 (ucast (drop_bit 32 v))"
proof -
  have b: "(ucast (drop_bit k v AND 0xff) :: byte) = ucast (drop_bit k (ucast v :: u32) AND 0xff)"
    if "k \<le> 24" for k
    using that by (intro bit_word_eqI) (auto simp: mask8_u32 mask8_u64 bit_simps)
  have b': "(ucast (drop_bit (32 + k) v AND 0xff) :: byte)
      = ucast (drop_bit k (ucast (drop_bit 32 v) :: u32) AND 0xff)" if "k \<le> 24" for k
    using that by (intro bit_word_eqI) (auto simp: mask8_u32 mask8_u64 bit_simps ac_simps)
  show ?thesis
    using b [of 0] b [of 8] b [of 16] b [of 24] b' [of 0] b' [of 8] b' [of 16] b' [of 24]
    by (simp add: EncodeFixed64_def EncodeFixed32_def)
qed

lemma DecodeFixed64_Encode [le_bytes]: "DecodeFixed64 (EncodeFixed64 v @ r) = Some v"
proof -
  have "push_bit 32 (ucast (ucast (drop_bit 32 v) :: u32)) OR ucast (ucast v :: u32) = v"
    by (rule bit_word_eqI) (auto simp: bit_simps)
  then show ?thesis
    by (simp add: DecodeFixed64_def EncodeFixed64_halves le_bytes)
qed

lemma DecodeFixed64_Encode_only [le_bytes]: "DecodeFixed64 (EncodeFixed64 v) = Some v"
  using DecodeFixed64_Encode [of v "[]"] by simp

subsection \<open>Varint\<close>

partial_function (option) EncodeVarint32_loop :: "u32 \<Rightarrow> str \<Rightarrow> str option" where
  "EncodeVarint32_loop value buf =
     (if 128 \<le> value
      then EncodeVarint32_loop value (buf @ [ucast ((value AND 0x7f) OR 0x80)])
      else Some (buf @ [ucast (value AND 0x7f)]))"

text \<open>The bytes written into the caller's buffer (the returned length is their number).\<close>

definition EncodeVarint32 :: "u32 \<Rightarrow> str option" where
  "EncodeVarint32 value = EncodeVarint32_loop value []"

text \<open>
  The pair of the decoded value and the return value (\<open>-1\<close> after five bytes without an end);
  \<open>None\<close> where the loop would read past the bytes the pointer can reach.
\<close>

fun DecodeVarint32_loop :: "str \<Rightarrow> nat \<Rightarrow> nat \<Rightarrow> u32 \<Rightarrow> (u32 \<times> int) option" where
  "DecodeVarint32_loop [] len shift value = (if len < 5 then None else Some (value, -1))"
| "DecodeVarint32_loop (byte # buf) len shift value =
     (if len < 5 then
        let value' = value OR push_bit shift (ucast (byte AND 0x7f))
        in if byte AND 0x80 = 0 then Some (value', int (len + 1))
           else DecodeVarint32_loop buf (len + 1) (shift + 7) value'
      else Some (value, -1))"

definition DecodeVarint32 :: "str \<Rightarrow> (u32 \<times> int) option" where
  "DecodeVarint32 buf = DecodeVarint32_loop buf 0 0 0"

definition PutVarint32 :: "str \<Rightarrow> u32 \<Rightarrow> str option" where
  "PutVarint32 dst value = do { buf \<leftarrow> EncodeVarint32 value; Some (dst @ buf) }"

subsection \<open>Length-prefixed strings\<close>

text \<open>\<open>value.size()\<close> is narrowed to \<open>uint32_t\<close> by the call.\<close>

definition EncodeString :: "str \<Rightarrow> str \<Rightarrow> str option" where
  "EncodeString dst value =
     do { dst' \<leftarrow> PutVarint32 dst (word_of_nat (length value)); Some (dst' @ value) }"

definition PutLengthPrefixedString :: "str \<Rightarrow> str \<Rightarrow> str option" where
  "PutLengthPrefixedString dst value =
     do { dst' \<leftarrow> PutVarint32 dst (word_of_nat (length value)); Some (dst' @ value) }"

text \<open>
  \<open>mem\<close> is the storage the pointers range over, \<open>buf\<close> and \<open>limit\<close> offsets into it.  The inner
  \<open>None\<close> is \<open>return false\<close>; otherwise the string and the advanced \<open>buf\<close>.
\<close>

definition DecodeString :: "str \<Rightarrow> nat \<Rightarrow> nat \<Rightarrow> (str \<times> nat) option option" where
  "DecodeString mem buf limit =
     (case DecodeVarint32 (drop buf mem) of
        None \<Rightarrow> None
      | Some (len, consumed) \<Rightarrow>
          if consumed < 0 \<or> limit < buf + nat consumed + unat len then Some None
          else (let buf' = buf + nat consumed
                in Some (Some (take (unat len) (drop buf' mem), buf' + unat len))))"

subsection \<open>What the varint encoder does\<close>

lemma EncodeVarint32_loop_small:
  "EncodeVarint32_loop value buf = Some r \<Longrightarrow> value < 128"
proof -
  assume ret: "EncodeVarint32_loop value buf = Some r"
  show ?thesis
  proof (rule EncodeVarint32_loop.raw_induct [where P = "\<lambda>v b r. v < 128", OF _ ret])
    fix f :: "u32 \<Rightarrow> str \<Rightarrow> str option" and v b r
    assume IH: "\<And>v b r. f v b = Some r \<Longrightarrow> v < 128"
      and eq: "(if 128 \<le> v then f v (b @ [ucast ((v AND 0x7f) OR 0x80)])
                else Some (b @ [ucast (v AND 0x7f)])) = Some r"
    show "v < 128"
    proof (rule ccontr)
      assume nv: "\<not> v < 128"
      then have "128 \<le> v" by (rule leI)
      with eq have "f v (b @ [ucast ((v AND 0x7f) OR 0x80)]) = Some r" by (simp only: if_True)
      then have "v < 128" by (rule IH)
      with nv show False by (rule notE)
    qed
  qed
qed

lemma low7_small: "(v :: u32) < 128 \<Longrightarrow> v AND 0x7f = v"
proof -
  assume v: "v < 128"
  have "v AND mask 7 = v"
    by (rule less_mask_eq) (use v in simp)
  then show ?thesis by (simp add: mask7_u32)
qed

lemma EncodeVarint32_eq:
  "EncodeVarint32 v = (if v < 128 then Some [ucast v] else None)"
proof (cases "v < 128")
  case True
  then have "\<not> 128 \<le> v" by (simp only: not_le)
  then have "EncodeVarint32_loop v [] = Some [ucast (v AND 0x7f)]"
    by (subst EncodeVarint32_loop.simps) (simp only: if_False append_Nil)
  with True show ?thesis by (simp only: EncodeVarint32_def low7_small if_True)
next
  case False
  then show ?thesis
    unfolding EncodeVarint32_def
    by (cases "EncodeVarint32_loop v []") (simp_all add: EncodeVarint32_loop_small)
qed

lemma PutVarint32_eq: "PutVarint32 dst v = (if v < 128 then Some (dst @ [ucast v]) else None)"
  by (simp add: PutVarint32_def EncodeVarint32_eq)

subsection \<open>What the varint decoder does\<close>

text \<open>
  The format the source's comments describe: seven bits to a byte, low bits first, the high bit
  set on every byte but the last.
\<close>

function leb128 :: "u32 \<Rightarrow> str" where
  "leb128 v = (if v < 128 then [ucast v]
               else ucast ((v AND 0x7f) OR 0x80) # leb128 (drop_bit 7 v))"
  by pat_completeness auto
termination
proof (relation "measure unat")
  fix v :: u32
  assume "\<not> v < 128"
  then have "128 \<le> unat v" by (simp add: word_less_nat_alt)
  then show "(drop_bit 7 v, v) \<in> measure unat"
    using drop_bit_eq_div [of 7 "unat v"] by (simp add: unat_drop_bit_eq)
qed simp

declare leb128.simps [simp del]

lemma DecodeVarint32_loop_range:
  "DecodeVarint32_loop buf len shift x = Some (v, n) \<Longrightarrow> len \<le> 5 \<Longrightarrow>
     n = -1 \<or> (int len < n \<and> n \<le> 5 \<and> n \<le> int (len + length buf))"
  by (induction buf len shift x rule: DecodeVarint32_loop.induct)
     (auto simp: Let_def split: if_splits)

lemma DecodeVarint32_range:
  "DecodeVarint32 buf = Some (v, n) \<Longrightarrow> n = -1 \<or> (0 < n \<and> n \<le> 5 \<and> n \<le> int (length buf))"
  using DecodeVarint32_loop_range [of buf 0 0 0 v n] by (simp add: DecodeVarint32_def)

text \<open>A byte without the continuation bit anywhere ahead stops the loop inside the buffer.\<close>

lemma DecodeVarint32_loop_stops:
  "\<exists>b \<in> set buf. b AND 0x80 = 0 \<Longrightarrow> DecodeVarint32_loop buf len shift x \<noteq> None"
  by (induction buf len shift x rule: DecodeVarint32_loop.induct)
     (auto simp: Let_def split: if_splits)

lemma DecodeVarint32_stops: "\<exists>b \<in> set buf. b AND 0x80 = 0 \<Longrightarrow> DecodeVarint32 buf \<noteq> None"
  unfolding DecodeVarint32_def by (rule DecodeVarint32_loop_stops)

lemma byte_small:
  fixes b :: byte
  assumes "b < 128"
  shows "b AND 0x7f = b" and "b AND 0x80 = 0"
proof -
  have m: "b AND mask 7 = b" by (rule less_mask_eq) (use assms in simp)
  then show "b AND 0x7f = b" by (simp add: mask_eq_exp_minus_1)
  have "b AND 0x80 = (b AND mask 7) AND 0x80" by (simp only: m)
  then show "b AND 0x80 = 0" by (simp add: mask_eq_exp_minus_1 and.assoc)
qed

lemma DecodeVarint32_small [codec_simps]:
  "b < 128 \<Longrightarrow> DecodeVarint32 (b # r) = Some (ucast b, 1)"
  by (simp add: DecodeVarint32_def byte_small)

lemma take_bit_step:
  fixes v :: u32
  shows "take_bit k v OR push_bit k (ucast (ucast ((drop_bit k v AND 0x7f) OR 0x80) AND 0x7f :: byte))
           = take_bit (k + 7) v"
proof -
  have m: "(0x7f :: byte) = mask 7" by (simp add: mask_eq_exp_minus_1)
  have b: "\<not> bit (0x80 :: int) n" if "n < 7" for n
    using that bit_exp_iff [where 'a = int, of 7 n] by simp
  show ?thesis
    unfolding m mask7_u32
    by (rule bit_word_eqI) (auto simp: bit_simps b)
qed

lemma take_bit_last:
  fixes v :: u32
  assumes "drop_bit k v < 128"
  shows "take_bit k v OR push_bit k (ucast (ucast (drop_bit k v) :: byte)) = v"
proof -
  have "take_bit 7 (drop_bit k v) = drop_bit k v"
    using low7_small [OF assms] by (simp only: mask7_u32 take_bit_eq_mask)
  then have hi: "n < k + 7" if "bit v n" for n
    using that bit_drop_bit_eq [of k v, THEN fun_cong, of "n - k"]
      bit_take_bit_iff [of 7 "drop_bit k v" "n - k"]
    by (cases "n < k + 7") auto
  show ?thesis
  proof (rule bit_word_eqI)
    fix n
    assume "n < LENGTH(32)"
    then show "bit (take_bit k v OR push_bit k (ucast (ucast (drop_bit k v) :: byte))) n = bit v n"
      using hi [of n] by (auto simp: bit_simps)
  qed
qed


lemma high_bit_set: "\<not> (ucast ((x AND 0x7f) OR (0x80 :: u32)) :: byte) AND 0x80 = 0"
proof
  have "bit (0x80 :: int) 7" using bit_exp_iff [where 'a = int, of 7 7] by simp
  then have b: "bit ((ucast ((x AND 0x7f) OR (0x80 :: u32)) :: byte) AND 0x80) 7"
    by (simp add: bit_simps)
  assume "(ucast ((x AND 0x7f) OR (0x80 :: u32)) :: byte) AND 0x80 = 0"
  with b show False by simp
qed

lemma DecodeVarint32_loop_leb128:
  assumes "k = 7 * len" and "len < 5"
  shows "DecodeVarint32_loop (leb128 (drop_bit k v) @ r) len k (take_bit k v)
           = Some (v, int (len + length (leb128 (drop_bit k v))))"
  using assms
proof (induction "5 - len" arbitrary: len k)
  case 0
  then show ?case by simp
next
  case (Suc d)
  show ?case
  proof (cases "drop_bit k v < 128")
    case True
    have l: "leb128 (drop_bit k v) = [ucast (drop_bit k v)]"
      using True by (simp add: leb128.simps [of "drop_bit k v"])
    have "(ucast (drop_bit k v) :: byte) < 128"
      using True by (simp add: word_less_nat_alt unsigned_ucast_eq take_bit_eq_mod)
    then show ?thesis
      unfolding l using Suc.prems(2) take_bit_last [OF True] by (simp add: byte_small)
  next
    case False
    then have l: "leb128 (drop_bit k v) =
        ucast ((drop_bit k v AND 0x7f) OR 0x80) # leb128 (drop_bit (k + 7) v)"
      by (subst leb128.simps) (simp add: add.commute)
    have len: "len < 4"
    proof (rule ccontr)
      assume "\<not> len < 4"
      with Suc.prems have "k = 28" by simp
      have "unat (drop_bit 28 v) = unat v div 2 ^ 28"
        by (metis unat_drop_bit_eq drop_bit_eq_div)
      then have "unat (drop_bit k v) < 16"
        using less_mult_imp_div_less [of "unat v" 16 "2 ^ 28"] unat_u32_bound [of v]
        unfolding \<open>k = 28\<close> by simp
      with False show False by (simp add: word_less_nat_alt)
    qed
    have "DecodeVarint32_loop (leb128 (drop_bit (k + 7) v) @ r) (len + 1) (k + 7) (take_bit (k + 7) v)
        = Some (v, int (len + 1 + length (leb128 (drop_bit (k + 7) v))))"
      using Suc.hyps(1) [of "len + 1" "k + 7"] Suc.hyps(2) Suc.prems len by simp
    then show ?thesis
      unfolding l using Suc.prems(2) high_bit_set [of "drop_bit k v"] take_bit_step [of k v]
      by (simp add: Let_def)
  qed
qed

lemma DecodeVarint32_leb128: "DecodeVarint32 (leb128 v @ r) = Some (v, int (length (leb128 v)))"
  using DecodeVarint32_loop_leb128 [of 0 0 v r] by (simp add: DecodeVarint32_def)


subsection \<open>Length-prefixed strings, as bytes\<close>

text \<open>What the encoder writes for a string it can write: one length byte, then the bytes.\<close>

definition lp :: "str \<Rightarrow> str" where
  "lp v = word_of_nat (length v) # v"

lemma length_lp [simp]: "length (lp v) = Suc (length v)"
  by (simp add: lp_def)

lemma small_len_u32: "length v < 4294967296 \<Longrightarrow> (word_of_nat (length v) :: u32) < 128 \<longleftrightarrow> length v < 128"
  by (simp add: word_less_nat_alt)

lemma len_byte: "length v < 128 \<Longrightarrow> (ucast (word_of_nat (length v) :: u32) :: byte) = word_of_nat (length v)"
  by (rule word_unat_eq_iff [THEN iffD2]) (simp add: unsigned_ucast_eq take_bit_eq_mod)

lemma EncodeString_short [codec_simps]:
  "length v < 128 \<Longrightarrow> EncodeString dst v = Some (dst @ lp v)"
  by (simp add: EncodeString_def PutVarint32_eq small_len_u32 len_byte lp_def)

lemma EncodeString_long [codec_simps]:
  "128 \<le> length v \<Longrightarrow> length v < 4294967296 \<Longrightarrow> EncodeString dst v = None"
  by (simp add: EncodeString_def PutVarint32_eq small_len_u32)

lemma PutLengthPrefixedString_eq: "PutLengthPrefixedString dst v = EncodeString dst v"
  by (simp add: PutLengthPrefixedString_def EncodeString_def)

lemmas PutLengthPrefixedString_short [codec_simps] =
  EncodeString_short [folded PutLengthPrefixedString_eq]

lemmas PutLengthPrefixedString_long [codec_simps] =
  EncodeString_long [folded PutLengthPrefixedString_eq]

lemma len_byte_small: "length v < 128 \<Longrightarrow> (word_of_nat (length v) :: byte) < 128"
  by (simp add: word_less_nat_alt)

lemma unat_len_byte: "length v < 128 \<Longrightarrow> unat (ucast (word_of_nat (length v) :: byte) :: u32) = length v"
  by (simp add: unsigned_ucast_eq take_bit_eq_mod)

lemma DecodeString_lp [codec_simps]:
  assumes "length v < 128" and "drop p mem = lp v @ r" and "p + Suc (length v) \<le> limit"
  shows "DecodeString mem p limit = Some (Some (v, p + Suc (length v)))"
proof -
  have "drop (p + 1) mem = v @ r"
    using assms(2) drop_drop [of 1 p mem] by (simp add: lp_def)
  moreover have "DecodeVarint32 (drop p mem) = Some (ucast (word_of_nat (length v) :: byte), 1)"
    using assms(1,2) by (simp add: lp_def DecodeVarint32_small len_byte_small)
  ultimately show ?thesis
    using assms(1,3) by (simp add: DecodeString_def unat_len_byte)
qed

text \<open>A successful decode moves forward and stays below the limit.\<close>

lemma DecodeString_bounds:
  assumes "DecodeString mem p limit = Some (Some (v, q))" and "limit \<le> length mem"
  shows "p < q \<and> q \<le> limit \<and> length v < q - p \<and> v = take (length v) (drop (q - length v) mem)"
proof -
  from assms(1) obtain len n where d: "DecodeVarint32 (drop p mem) = Some (len, n)"
    by (cases "DecodeVarint32 (drop p mem)") (simp_all add: DecodeString_def split_paired_all)
  have n: "\<not> (n < 0 \<or> limit < p + nat n + unat len)"
  proof
    assume "n < 0 \<or> limit < p + nat n + unat len"
    then have "DecodeString mem p limit = Some None" by (simp only: DecodeString_def d) simp
    with assms(1) show False by simp
  qed
  have r: "DecodeString mem p limit =
      Some (Some (take (unat len) (drop (p + nat n) mem), p + nat n + unat len))"
    using n by (simp only: DecodeString_def d) (simp add: Let_def)
  from assms(1) have v: "v = take (unat len) (drop (p + nat n) mem)" and q: "q = p + nat n + unat len"
    unfolding r by (simp_all only: option.inject prod.inject)
  have pos: "0 < n" using DecodeVarint32_range [OF d] n by linarith
  have "unat len \<le> length mem - (p + nat n)" using n assms(2) by linarith
  then have len: "length v = unat len" unfolding v by simp
  have "q - length v = p + nat n" by (simp add: q len)
  then have "v = take (length v) (drop (q - length v) mem)" by (simp only: len v [symmetric])
  moreover have "p < q" "q \<le> limit" "length v < q - p" using pos n len q by linarith+
  ultimately show ?thesis by (intro conjI)
qed

text \<open>
  In the storage of a \<open>std::string\<close> (its bytes and the terminating zero) the decoder never reads
  past the end, whatever the bytes are.
\<close>

lemma DecodeString_defined:
  assumes "p < length mem" and "last mem = 0"
  shows "DecodeString mem p limit \<noteq> None"
proof -
  have "last (drop p mem) \<in> set (drop p mem)" using assms(1) by (intro last_in_set) simp
  moreover have "last (drop p mem) = 0" using assms by (simp add: last_drop)
  ultimately have "\<exists>b \<in> set (drop p mem). b AND 0x80 = 0" by (intro bexI [of _ 0]) auto
  then show ?thesis
    using DecodeVarint32_stops [of "drop p mem"]
    by (auto simp: DecodeString_def Let_def split: option.splits)
qed


text \<open>Moving forward needs no assumption on the limit: the loops over records end.\<close>

lemma DecodeString_advances:
  assumes "DecodeString mem p limit = Some (Some (v, q))"
  shows "p < q \<and> q \<le> limit"
proof -
  from assms obtain len n where d: "DecodeVarint32 (drop p mem) = Some (len, n)"
    by (cases "DecodeVarint32 (drop p mem)") (simp_all add: DecodeString_def split_paired_all)
  have n: "\<not> (n < 0 \<or> limit < p + nat n + unat len)"
  proof
    assume "n < 0 \<or> limit < p + nat n + unat len"
    then have "DecodeString mem p limit = Some None" by (simp only: DecodeString_def d) simp
    with assms show False by simp
  qed
  moreover have "0 < n" using DecodeVarint32_range [OF d] n by linarith
  moreover have "q = p + nat n + unat len"
    using assms n by (simp add: DecodeString_def d Let_def)
  ultimately show ?thesis by linarith
qed


subsection \<open>Properties\<close>

text \<open>
  \<open>EncodeVarint32\<close> returns exactly for the values below 128, and then with the one byte of the
  documented format; for every other value its loop never ends, because \<open>value >> 7\<close> is computed
  and dropped.
\<close>

theorem EncodeVarint32_diverges_from_128:
  "EncodeVarint32 v = (if v < 128 then Some (leb128 v) else None)"
  by (simp add: EncodeVarint32_eq leb128.simps [of v])

text \<open>
  \<open>DecodeVarint32\<close> inverts the documented varint format for every 32-bit value: it returns the
  value and the number of bytes of its encoding, whatever follows, and that number is at most 5.
\<close>

theorem DecodeVarint32_inverts_format:
  "DecodeVarint32 (leb128 v @ r) = Some (v, int (length (leb128 v))) \<and> length (leb128 v) \<le> 5"
  using DecodeVarint32_leb128 [of v r] DecodeVarint32_range [of "leb128 v @ r" v] by fastforce

text \<open>
  The fixed-width codecs invert each other for every 32-bit and every 64-bit value, whatever
  bytes follow in the buffer.
\<close>

theorem fixed_width_roundtrip:
  "DecodeFixed32 (PutFixed32 [] v @ r) = Some v \<and> DecodeFixed64 (PutFixed64 [] w @ r) = Some w"
  by (simp add: PutFixed32_def PutFixed64_def le_bytes)

end
