(* ===== verification/Crc32.thy ===== *)
theory Crc32
  imports Coding
begin

text \<open>
  The checksum of \<open>src/src/engine/coding.cc\<close> (\<open>crctab\<close>, \<open>ValueCRC32\<close>), the bit-by-bit division it
  tabulates, and what it detects.  Every WAL record, SSTable block and bloom-filter hash uses it.
\<close>

definition crctab :: "u32 list" where
  "crctab =
     [0x00000000, 0x04c11db7, 0x09823b6e, 0x0d4326d9, 0x130476dc, 0x17c56b6b,
      0x1a864db2, 0x1e475005, 0x2608edb8, 0x22c9f00f, 0x2f8ad6d6, 0x2b4bcb61,
      0x350c9b64, 0x31cd86d3, 0x3c8ea00a, 0x384fbdbd, 0x4c11db70, 0x48d0c6c7,
      0x4593e01e, 0x4152fda9, 0x5f15adac, 0x5bd4b01b, 0x569796c2, 0x52568b75,
      0x6a1936c8, 0x6ed82b7f, 0x639b0da6, 0x675a1011, 0x791d4014, 0x7ddc5da3,
      0x709f7b7a, 0x745e66cd, 0x9823b6e0, 0x9ce2ab57, 0x91a18d8e, 0x95609039,
      0x8b27c03c, 0x8fe6dd8b, 0x82a5fb52, 0x8664e6e5, 0xbe2b5b58, 0xbaea46ef,
      0xb7a96036, 0xb3687d81, 0xad2f2d84, 0xa9ee3033, 0xa4ad16ea, 0xa06c0b5d,
      0xd4326d90, 0xd0f37027, 0xddb056fe, 0xd9714b49, 0xc7361b4c, 0xc3f706fb,
      0xceb42022, 0xca753d95, 0xf23a8028, 0xf6fb9d9f, 0xfbb8bb46, 0xff79a6f1,
      0xe13ef6f4, 0xe5ffeb43, 0xe8bccd9a, 0xec7dd02d, 0x34867077, 0x30476dc0,
      0x3d044b19, 0x39c556ae, 0x278206ab, 0x23431b1c, 0x2e003dc5, 0x2ac12072,
      0x128e9dcf, 0x164f8078, 0x1b0ca6a1, 0x1fcdbb16, 0x018aeb13, 0x054bf6a4,
      0x0808d07d, 0x0cc9cdca, 0x7897ab07, 0x7c56b6b0, 0x71159069, 0x75d48dde,
      0x6b93dddb, 0x6f52c06c, 0x6211e6b5, 0x66d0fb02, 0x5e9f46bf, 0x5a5e5b08,
      0x571d7dd1, 0x53dc6066, 0x4d9b3063, 0x495a2dd4, 0x44190b0d, 0x40d816ba,
      0xaca5c697, 0xa864db20, 0xa527fdf9, 0xa1e6e04e, 0xbfa1b04b, 0xbb60adfc,
      0xb6238b25, 0xb2e29692, 0x8aad2b2f, 0x8e6c3698, 0x832f1041, 0x87ee0df6,
      0x99a95df3, 0x9d684044, 0x902b669d, 0x94ea7b2a, 0xe0b41de7, 0xe4750050,
      0xe9362689, 0xedf73b3e, 0xf3b06b3b, 0xf771768c, 0xfa325055, 0xfef34de2,
      0xc6bcf05f, 0xc27dede8, 0xcf3ecb31, 0xcbffd686, 0xd5b88683, 0xd1799b34,
      0xdc3abded, 0xd8fba05a, 0x690ce0ee, 0x6dcdfd59, 0x608edb80, 0x644fc637,
      0x7a089632, 0x7ec98b85, 0x738aad5c, 0x774bb0eb, 0x4f040d56, 0x4bc510e1,
      0x46863638, 0x42472b8f, 0x5c007b8a, 0x58c1663d, 0x558240e4, 0x51435d53,
      0x251d3b9e, 0x21dc2629, 0x2c9f00f0, 0x285e1d47, 0x36194d42, 0x32d850f5,
      0x3f9b762c, 0x3b5a6b9b, 0x0315d626, 0x07d4cb91, 0x0a97ed48, 0x0e56f0ff,
      0x1011a0fa, 0x14d0bd4d, 0x19939b94, 0x1d528623, 0xf12f560e, 0xf5ee4bb9,
      0xf8ad6d60, 0xfc6c70d7, 0xe22b20d2, 0xe6ea3d65, 0xeba91bbc, 0xef68060b,
      0xd727bbb6, 0xd3e6a601, 0xdea580d8, 0xda649d6f, 0xc423cd6a, 0xc0e2d0dd,
      0xcda1f604, 0xc960ebb3, 0xbd3e8d7e, 0xb9ff90c9, 0xb4bcb610, 0xb07daba7,
      0xae3afba2, 0xaafbe615, 0xa7b8c0cc, 0xa379dd7b, 0x9b3660c6, 0x9ff77d71,
      0x92b45ba8, 0x9675461f, 0x8832161a, 0x8cf30bad, 0x81b02d74, 0x857130c3,
      0x5d8a9099, 0x594b8d2e, 0x5408abf7, 0x50c9b640, 0x4e8ee645, 0x4a4ffbf2,
      0x470cdd2b, 0x43cdc09c, 0x7b827d21, 0x7f436096, 0x7200464f, 0x76c15bf8,
      0x68860bfd, 0x6c47164a, 0x61043093, 0x65c52d24, 0x119b4be9, 0x155a565e,
      0x18197087, 0x1cd86d30, 0x029f3d35, 0x065e2082, 0x0b1d065b, 0x0fdc1bec,
      0x3793a651, 0x3352bbe6, 0x3e119d3f, 0x3ad08088, 0x2497d08d, 0x2056cd3a,
      0x2d15ebe3, 0x29d4f654, 0xc5a92679, 0xc1683bce, 0xcc2b1d17, 0xc8ea00a0,
      0xd6ad50a5, 0xd26c4d12, 0xdf2f6bcb, 0xdbee767c, 0xe3a1cbc1, 0xe760d676,
      0xea23f0af, 0xeee2ed18, 0xf0a5bd1d, 0xf464a0aa, 0xf9278673, 0xfde69bc4,
      0x89b8fd09, 0x8d79e0be, 0x803ac667, 0x84fbdbd0, 0x9abc8bd5, 0x9e7d9662,
      0x933eb0bb, 0x97ffad0c, 0xafb010b1, 0xab710d06, 0xa6322bdf, 0xa2f33668,
      0xbcb4666d, 0xb8757bda, 0xb5365d03, 0xb1f740b4]"

text \<open>One byte of the loop, and the loop.\<close>

definition crc_step :: "u32 \<Rightarrow> byte \<Rightarrow> u32" where
  "crc_step crc p =
     (push_bit 8 crc AND 0xffffff00) XOR crctab ! unat ((drop_bit 24 crc AND 0xff) XOR ucast p)"

fun ValueCRC32 :: "u32 \<Rightarrow> str \<Rightarrow> u32" where
  "ValueCRC32 crc [] = crc"
| "ValueCRC32 crc (p # data) = ValueCRC32 (crc_step crc p) data"

lemma ValueCRC32_append: "ValueCRC32 c (xs @ ys) = ValueCRC32 (ValueCRC32 c xs) ys"
  by (induction xs arbitrary: c) auto

subsection \<open>The division the table stands for\<close>

text \<open>The generator (CRC-32/MPEG-2: no reflection) and one step of the division by it.\<close>

definition crc_poly :: u32 where
  "crc_poly = 0x04c11db7"

definition crc_shift :: "u32 \<Rightarrow> u32" where
  "crc_shift c = (if bit c 31 then push_bit 1 c XOR crc_poly else push_bit 1 c)"

fun crc_bits :: "nat \<Rightarrow> u32 \<Rightarrow> u32" where
  "crc_bits 0 c = c"
| "crc_bits (Suc n) c = crc_bits n (crc_shift c)"

fun crc_ref :: "u32 \<Rightarrow> str \<Rightarrow> u32" where
  "crc_ref c [] = c"
| "crc_ref c (b # bs) = crc_ref (crc_bits 8 (c XOR push_bit 24 (ucast b))) bs"

text \<open>Entry \<open>2 i\<close> is entry \<open>i\<close> shifted once more, and entry \<open>2 i + 1\<close> differs from it by the generator.\<close>

lemma crctab_doubling:
  "crctab = concat (map (\<lambda>c. [crc_shift c, crc_shift c XOR crc_poly]) (take 128 crctab))"
  by code_simp

lemma length_crctab [simp]: "length crctab = 256"
  by (simp add: crctab_def)

lemma bit_shl1: "bit (push_bit 1 (c :: u32)) n \<longleftrightarrow> 0 < n \<and> n < 32 \<and> bit c (n - 1)"
  by (simp only: bit_push_bit_iff possible_bit_word) auto

lemma shl1_xor: "push_bit 1 (a XOR b) = push_bit 1 a XOR push_bit 1 (b :: u32)"
  by (rule push_bit_xor)

lemma crc_shift_xor: "crc_shift (a XOR b) = crc_shift a XOR crc_shift b"
  by (cases "bit a 31"; cases "bit b 31";
      simp only: crc_shift_def bit_xor_iff shl1_xor simp_thms if_True if_False;
      rule bit_word_eqI; simp only: bit_xor_iff; blast)

lemma crc_bits_xor: "crc_bits n (a XOR b) = crc_bits n a XOR crc_bits n b"
  by (induction n arbitrary: a b) (auto simp: crc_shift_xor)

lemma crc_shift_inj: "crc_shift a = crc_shift b \<Longrightarrow> a = b"
proof -
  assume eq: "crc_shift a = crc_shift b"
  have z: "crc_shift x = 0 \<Longrightarrow> x = 0" for x
  proof -
    assume x: "crc_shift x = 0"
    have "bit crc_poly 0" by (simp add: crc_poly_def bit_0)
    then have "bit (crc_shift x) 0 \<longleftrightarrow> bit x 31"
      by (simp only: crc_shift_def bit_xor_iff bit_shl1 split: if_split) simp
    with x have n31: "\<not> bit x 31" by simp
    with x have s: "push_bit 1 x = 0" by (simp only: crc_shift_def if_False)
    show "x = 0"
    proof (rule bit_word_eqI)
      fix n
      assume n: "n < LENGTH(32)"
      have "\<not> bit (push_bit 1 x) (Suc n)" by (simp only: s) simp
      with n n31 show "bit x n = bit 0 n"
        by (cases "n = 31") (auto simp only: bit_shl1, auto)
    qed
  qed
  have "crc_shift (a XOR b) = 0" by (simp add: crc_shift_xor eq)
  then have "a XOR b = 0" by (rule z)
  then show "a = b" by (metis xor.left_neutral xor.right_neutral xor_self_eq xor.assoc)
qed

lemma crc_bits_inj: "crc_bits n a = crc_bits n b \<Longrightarrow> a = b"
  by (induction n arbitrary: a b) (auto dest: crc_shift_inj)


subsection \<open>The table-driven loop computes the division\<close>

lemma nth_concat_pairs:
  "i < length xs \<Longrightarrow> concat (map (\<lambda>c. [f c, g c]) xs) ! (2 * i) = f (xs ! i)
     \<and> concat (map (\<lambda>c. [f c, g c]) xs) ! Suc (2 * i) = g (xs ! i)"
proof (induction xs arbitrary: i)
  case Nil
  then show ?case by simp
next
  case (Cons x xs)
  then show ?case by (cases i) auto
qed

lemma crctab_rec:
  assumes "i < 128"
  shows "crctab ! (2 * i) = crc_shift (crctab ! i)"
    and "crctab ! Suc (2 * i) = crc_shift (crctab ! i) XOR crc_poly"
  using nth_concat_pairs [of i "take 128 crctab" crc_shift "\<lambda>c. crc_shift c XOR crc_poly"] assms
  by (simp_all flip: crctab_doubling)

lemma crc_bits_shift: "crc_bits n (crc_shift c) = crc_shift (crc_bits n c)"
  by (induction n arbitrary: c) auto

lemma crc_bits_top_one: "crc_bits 8 (push_bit 24 1) = crc_poly"
  by code_simp

lemma shift_index_double:
  assumes "i < 128"
  shows "push_bit 24 (word_of_nat (2 * i)) = crc_shift (push_bit 24 (word_of_nat i))"
proof -
  have "\<not> bit i 7"
  proof -
    have "take_bit 7 i = i" using assms by (simp add: take_bit_eq_mod)
    then show ?thesis by (metis bit_take_bit_iff less_irrefl)
  qed
  then have "\<not> bit (push_bit 24 (word_of_nat i :: u32)) 31"
    by (simp add: bit_push_bit_iff bit_of_nat_iff)
  then have "crc_shift (push_bit 24 (word_of_nat i)) = push_bit 1 (push_bit 24 (word_of_nat i))"
    by (simp only: crc_shift_def if_False)
  also have "\<dots> = push_bit 24 (word_of_nat (2 * i))"
    by (simp add: push_bit_eq_mult ac_simps)
  finally show ?thesis by simp
qed

lemma shift_index_odd:
  "push_bit 24 (word_of_nat (Suc (2 * i))) = push_bit 24 (word_of_nat (2 * i)) XOR (push_bit 24 1 :: u32)"
proof -
  have "(word_of_nat (Suc (2 * i)) :: u32) = word_of_nat (2 * i) XOR 1"
    by (simp add: xor_one_eq)
  then show ?thesis by (simp only: push_bit_xor)
qed

lemma crctab_nth: "i < 256 \<Longrightarrow> crctab ! i = crc_bits 8 (push_bit 24 (word_of_nat i))"
proof (induction i rule: less_induct)
  case (less i)
  show ?case
  proof (cases "i = 0")
    case True
    have "crc_bits 8 0 = 0" by code_simp
    moreover have "crctab ! 0 = 0" by (simp add: crctab_def)
    ultimately show ?thesis using True by simp
  next
    case False
    define j where "j = i div 2"
    have j: "j < i" "j < 128" and i: "i = 2 * j \<or> i = Suc (2 * j)"
      using False less.prems unfolding j_def by auto
    have IH: "crctab ! j = crc_bits 8 (push_bit 24 (word_of_nat j))"
      using less.IH [OF j(1)] j(2) by simp
    have even: "crctab ! (2 * j) = crc_bits 8 (push_bit 24 (word_of_nat (2 * j)))"
      by (simp only: crctab_rec [OF j(2)] IH shift_index_double [OF j(2)] crc_bits_shift)
    have "crctab ! Suc (2 * j) = crctab ! (2 * j) XOR crc_poly"
      by (simp only: crctab_rec [OF j(2)])
    then have "crctab ! Suc (2 * j) = crc_bits 8 (push_bit 24 (word_of_nat (Suc (2 * j))))"
      by (simp only: even shift_index_odd crc_bits_xor crc_bits_top_one)
    with even i show ?thesis by auto
  qed
qed

lemma crc_bits_low:
  assumes "\<And>m. 32 - n \<le> m \<Longrightarrow> \<not> bit c m" and "n \<le> 32"
  shows "crc_bits n c = push_bit n c"
  using assms
proof (induction n arbitrary: c)
  case 0
  then show ?case by simp
next
  case (Suc n)
  have "\<not> bit c 31" using Suc.prems(1) [of 31] by simp
  then have s: "crc_shift c = push_bit 1 c" by (simp only: crc_shift_def if_False)
  have "crc_bits n (push_bit 1 c) = push_bit n (push_bit 1 c)"
    by (rule Suc.IH) (use Suc.prems in \<open>auto simp only: bit_shl1\<close>)
  then show ?case by (simp add: s push_bit_push_bit)
qed

lemma crc_step_division: "crc_step c b = crc_bits 8 (c XOR push_bit 24 (ucast b))"
proof -
  define i :: u32 where "i = (drop_bit 24 c AND 0xff) XOR ucast b"
  define low :: u32 where "low = take_bit 24 c"
  have b8: "n < 8" if "bit b n" for n
    using bit_imp_le_length [OF that] by simp
  have i8: "take_bit 8 i = i"
    by (rule bit_word_eqI) (auto simp: i_def mask8_u32 bit_simps dest: b8)
  have "unat i = take_bit 8 (unat i)"
    using arg_cong [OF i8, of unat] by (simp add: unsigned_take_bit_eq)
  then have "unat i < 256" by (simp add: take_bit_eq_mod)
  then have tab: "crctab ! unat i = crc_bits 8 (push_bit 24 i)"
    by (simp add: crctab_nth)
  have split: "c XOR push_bit 24 (ucast b) = low XOR push_bit 24 i"
    by (rule bit_word_eqI) (auto simp: low_def i_def mask8_u32 bit_simps)
  have lo: "crc_bits 8 low = push_bit 8 c AND 0xffffff00"
  proof -
    have "crc_bits 8 low = push_bit 8 low"
      by (rule crc_bits_low) (auto simp: low_def bit_simps)
    also have "\<dots> = push_bit 8 c AND 0xffffff00"
    proof -
      have m: "(0xffffff00 :: u32) = push_bit 8 (mask 24)" by (simp add: mask_eq_exp_minus_1)
      show ?thesis unfolding m low_def by (rule bit_word_eqI) (auto simp: bit_simps)
    qed
    finally show ?thesis .
  qed
  show ?thesis
    unfolding split crc_bits_xor lo crc_step_def i_def [symmetric] tab ..
qed


lemma ValueCRC32_ref: "ValueCRC32 c data = crc_ref c data"
  by (induction data arbitrary: c) (simp_all only: ValueCRC32.simps crc_ref.simps crc_step_division)

subsection \<open>What it detects\<close>

lemma crc_step_inj_crc: "crc_step a b = crc_step a' b \<Longrightarrow> a = a'"
proof -
  let ?p = "push_bit 24 (ucast b) :: u32"
  assume "crc_step a b = crc_step a' b"
  then have "a XOR ?p = a' XOR ?p" unfolding crc_step_division by (rule crc_bits_inj)
  then have "(a XOR ?p) XOR ?p = (a' XOR ?p) XOR ?p" by (rule arg_cong)
  then show "a = a'" by (simp only: xor.assoc xor_self_eq xor.right_neutral)
qed

lemma ValueCRC32_inj_crc: "ValueCRC32 a data = ValueCRC32 a' data \<Longrightarrow> a = a'"
  by (induction data arbitrary: a a') (auto dest: crc_step_inj_crc)

text \<open>Four consecutive bytes enter the register as one 32-bit word, most significant byte first.\<close>

definition be32 :: "byte \<Rightarrow> byte \<Rightarrow> byte \<Rightarrow> byte \<Rightarrow> u32" where
  "be32 b1 b2 b3 b4 = push_bit 24 (ucast b1) XOR push_bit 16 (ucast b2)
                        XOR push_bit 8 (ucast b3) XOR ucast b4"

lemma crc_bits_add: "crc_bits m (crc_bits n c) = crc_bits (n + m) c"
  by (induction n arbitrary: c) auto

lemma byte_bits: "bit (b :: byte) n \<Longrightarrow> n < 8"
  using bit_imp_le_length [of b n] by simp

lemma crc_bits_byte:
  "k \<le> 24 \<Longrightarrow> k + n = 24 \<Longrightarrow> crc_bits n (push_bit k (ucast (b :: byte))) = push_bit 24 (ucast b)"
  by (subst crc_bits_low) (auto simp: bit_simps push_bit_push_bit add.commute dest: byte_bits)

lemma ValueCRC32_four:
  "ValueCRC32 c [b1, b2, b3, b4] = crc_bits 32 (c XOR be32 b1 b2 b3 b4)"
proof -
  have "ValueCRC32 c [b1, b2, b3, b4] =
      crc_bits 32 c XOR crc_bits 32 (push_bit 24 (ucast b1)) XOR crc_bits 24 (push_bit 24 (ucast b2))
        XOR crc_bits 16 (push_bit 24 (ucast b3)) XOR crc_bits 8 (push_bit 24 (ucast b4))"
    by (simp add: crc_step_division crc_bits_xor crc_bits_add xor.assoc del: crc_bits.simps)
  moreover have "crc_bits 24 (push_bit 24 (ucast b2)) = crc_bits 32 (push_bit 16 (ucast b2))"
    using crc_bits_add [of 24 8 "push_bit 16 (ucast b2)"] crc_bits_byte [of 16 8 b2] by simp
  moreover have "crc_bits 16 (push_bit 24 (ucast b3)) = crc_bits 32 (push_bit 8 (ucast b3))"
    using crc_bits_add [of 16 16 "push_bit 8 (ucast b3)"] crc_bits_byte [of 8 16 b3] by simp
  moreover have "crc_bits 8 (push_bit 24 (ucast b4)) = crc_bits 32 (ucast b4)"
    using crc_bits_add [of 8 24 "ucast b4"] crc_bits_byte [of 0 24 b4] by simp
  ultimately show ?thesis
    by (simp add: be32_def crc_bits_xor xor.assoc del: crc_bits.simps)
qed


lemma be32_bytes:
  "ucast (drop_bit 24 (be32 b1 b2 b3 b4)) = b1" "ucast (drop_bit 16 (be32 b1 b2 b3 b4)) = b2"
  "ucast (drop_bit 8 (be32 b1 b2 b3 b4)) = b3" "ucast (be32 b1 b2 b3 b4) = b4"
  by (rule bit_word_eqI, auto simp: be32_def bit_simps dest: byte_bits)+

lemma be32_inj:
  assumes "be32 b1 b2 b3 b4 = be32 c1 c2 c3 c4"
  shows "[b1, b2, b3, b4] = [c1, c2, c3, c4]"
  using be32_bytes [of b1 b2 b3 b4] be32_bytes [of c1 c2 c3 c4] unfolding assms by simp

lemma list_of_length_4: "length xs = 4 \<Longrightarrow> \<exists>a b c d. xs = [a, b, c, d]"
  by (auto simp: numeral_eq_Suc length_Suc_conv)

lemma ValueCRC32_inj_four:
  assumes "length bs = 4" and "length bs' = 4" and "ValueCRC32 c bs = ValueCRC32 c bs'"
  shows "bs = bs'"
proof -
  obtain b1 b2 b3 b4 c1 c2 c3 c4 where bs: "bs = [b1, b2, b3, b4]" and bs': "bs' = [c1, c2, c3, c4]"
    using assms(1,2) list_of_length_4 by meson
  have "crc_bits 32 (c XOR be32 b1 b2 b3 b4) = crc_bits 32 (c XOR be32 c1 c2 c3 c4)"
    using assms(3) unfolding bs bs' ValueCRC32_four .
  then have "c XOR be32 b1 b2 b3 b4 = c XOR be32 c1 c2 c3 c4" by (rule crc_bits_inj)
  then have "c XOR (c XOR be32 b1 b2 b3 b4) = c XOR (c XOR be32 c1 c2 c3 c4)" by (rule arg_cong)
  then have "be32 b1 b2 b3 b4 = be32 c1 c2 c3 c4"
    by (simp only: xor.assoc [symmetric] xor_self_eq xor.left_neutral)
  then show ?thesis unfolding bs bs' by (rule be32_inj)
qed

lemma ValueCRC32_burst:
  assumes "length bs = length bs'" and "length bs \<le> 4"
    and "ValueCRC32 c (xs @ bs @ ys) = ValueCRC32 c (xs @ bs' @ ys)"
  shows "bs = bs'"
proof -
  let ?c = "ValueCRC32 c xs" and ?z = "replicate (4 - length bs) (0 :: byte)"
  have "ValueCRC32 (ValueCRC32 ?c bs) ys = ValueCRC32 (ValueCRC32 ?c bs') ys"
    using assms(3) unfolding ValueCRC32_append .
  then have "ValueCRC32 ?c bs = ValueCRC32 ?c bs'" by (rule ValueCRC32_inj_crc)
  then have "ValueCRC32 ?c (bs @ ?z) = ValueCRC32 ?c (bs' @ ?z)" by (simp only: ValueCRC32_append)
  then have "bs @ ?z = bs' @ ?z" using assms(1,2) by (intro ValueCRC32_inj_four) auto
  then show ?thesis by simp
qed

subsection \<open>Properties\<close>

text \<open>
  The table-driven loop of \<open>ValueCRC32\<close> computes the CRC-32 remainder: for every initial value
  and every buffer it equals the bit-by-bit polynomial division by 0x04c11db7.
\<close>

theorem ValueCRC32_division: "ValueCRC32 c data = crc_ref c data"
  by (rule ValueCRC32_ref)

text \<open>
  The checksum detects every burst: whatever surrounds it, replacing up to four consecutive
  bytes of a buffer by different ones changes its CRC.
\<close>

theorem ValueCRC32_detects_burst:
  assumes "length bs = length bs'" and "length bs \<le> 4" and "bs \<noteq> bs'"
  shows "ValueCRC32 c (xs @ bs @ ys) \<noteq> ValueCRC32 c (xs @ bs' @ ys)"
  using ValueCRC32_burst [OF assms(1,2)] assms(3) by blast

theorem ValueCRC32_detects_burst_witness:
  "ValueCRC32 0xffffffff (lit ''abc'' @ [1, 2] @ lit ''d'') \<noteq> ValueCRC32 0xffffffff (lit ''abc'' @ [2, 1] @ lit ''d'')"
  by (rule ValueCRC32_detects_burst) simp_all

end
