(* ===== verification/WriteBatch.thy ===== *)
theory WriteBatch
  imports Coding
begin

text \<open>
  \<open>src/src/engine/db_write_batch.cc\<close> and the record types of \<open>log_format.h\<close>.  A batch is its
  serialised form \<open>rep_\<close>: eight bytes of sequence number, four bytes of count, the operations.
  \<open>Iterate\<close> replays it into a handler, which is a pair of functions on the handler's state.
\<close>

subsection \<open>log_format.h\<close>

definition kTypeDeletion :: byte where "kTypeDeletion = 0"
definition kTypeValue :: byte where "kTypeValue = 1"

subsection \<open>The batch\<close>

definition kBatchHeaderSize :: nat where "kBatchHeaderSize = 12"

definition WB_Clear :: str where
  "WB_Clear = replicate kBatchHeaderSize 0"

definition WB_Put :: "str \<Rightarrow> str \<Rightarrow> str \<Rightarrow> str option" where
  "WB_Put rep key v =
     do { count \<leftarrow> DecodeFixed32 (drop 8 rep);
          let rep1 = write_at rep 8 (EncodeFixed32 (count + 1)) @ [kTypeValue];
          rep2 \<leftarrow> EncodeString rep1 key;
          EncodeString rep2 v }"

definition WB_Delete :: "str \<Rightarrow> str \<Rightarrow> str option" where
  "WB_Delete rep key =
     do { count \<leftarrow> DecodeFixed32 (drop 8 rep);
          let rep1 = write_at rep 8 (EncodeFixed32 (count + 1)) @ [kTypeDeletion];
          EncodeString rep1 key }"

definition WB_Count :: "str \<Rightarrow> u32" where
  "WB_Count rep = (if length rep < kBatchHeaderSize then 0
                   else case DecodeFixed32 (drop 8 rep) of Some c \<Rightarrow> c | None \<Rightarrow> 0)"

definition WB_SetSequence :: "str \<Rightarrow> u64 \<Rightarrow> str" where
  "WB_SetSequence rep seq = (if 8 \<le> length rep then write_at rep 0 (EncodeFixed64 seq) else rep)"

definition WB_Sequence :: "str \<Rightarrow> u64" where
  "WB_Sequence rep = (if length rep < 8 then 0
                      else case DecodeFixed64 rep of Some s \<Rightarrow> s | None \<Rightarrow> 0)"

text \<open>
  The replay loop, over the storage \<open>mem\<close> of \<open>rep_\<close> (its bytes and the terminating zero).  The
  handler \<open>(put, del)\<close> acts on the state \<open>s\<close>; the result is its final state and the returned flag.
\<close>

function Iterate_loop ::
    "(str \<Rightarrow> str \<Rightarrow> 's \<Rightarrow> 's) \<Rightarrow> (str \<Rightarrow> 's \<Rightarrow> 's) \<Rightarrow> str \<Rightarrow> nat \<Rightarrow> nat \<Rightarrow> 's \<Rightarrow> ('s \<times> bool) option" where
  "Iterate_loop put del mem input limit s =
     (if input < limit then
        (let ty = mem ! input; p = input + 1 in
         if ty = kTypeValue then
           (case DecodeString mem p limit of
              None \<Rightarrow> None
            | Some None \<Rightarrow> Some (s, False)
            | Some (Some (key, p1)) \<Rightarrow>
                (case DecodeString mem p1 limit of
                   None \<Rightarrow> None
                 | Some None \<Rightarrow> Some (s, False)
                 | Some (Some (v, p2)) \<Rightarrow> Iterate_loop put del mem p2 limit (put key v s)))
         else if ty = kTypeDeletion then
           (case DecodeString mem p limit of
              None \<Rightarrow> None
            | Some None \<Rightarrow> Some (s, False)
            | Some (Some (key, p1)) \<Rightarrow> Iterate_loop put del mem p1 limit (del key s))
         else Some (s, False))
      else Some (s, True))"
  by pat_completeness auto
termination
proof (relation "measure (\<lambda>(put, del, mem, input, limit, s). limit - input)", goal_cases)
  case 1
  then show ?case by simp
next
  case (2 put del mem input limit s ty p a b key p1 c d v p2)
  then show ?case
    using DecodeString_advances [of mem p limit key p1] DecodeString_advances [of mem p1 limit v p2]
    by auto
next
  case (3 put del mem input limit s ty p a b key p1)
  then show ?case
    using DecodeString_advances [of mem p limit key p1] by auto
qed

declare Iterate_loop.simps [simp del]

definition WB_Iterate ::
    "(str \<Rightarrow> str \<Rightarrow> 's \<Rightarrow> 's) \<Rightarrow> (str \<Rightarrow> 's \<Rightarrow> 's) \<Rightarrow> str \<Rightarrow> 's \<Rightarrow> ('s \<times> bool) option" where
  "WB_Iterate put del rep s =
     (if length rep < kBatchHeaderSize then Some (s, False)
      else Iterate_loop put del (rep @ [0]) kBatchHeaderSize (length rep) s)"


subsection \<open>Batches as lists of operations\<close>

datatype batch_op = OpPut str str | OpDelete str

fun WB_add :: "str \<Rightarrow> batch_op \<Rightarrow> str option" where
  "WB_add rep (OpPut k v) = WB_Put rep k v"
| "WB_add rep (OpDelete k) = WB_Delete rep k"

fun WB_add_all :: "str \<Rightarrow> batch_op list \<Rightarrow> str option" where
  "WB_add_all rep [] = Some rep"
| "WB_add_all rep (x # xs) = do { rep' \<leftarrow> WB_add rep x; WB_add_all rep' xs }"

fun apply_op :: "(str \<Rightarrow> str \<Rightarrow> 's \<Rightarrow> 's) \<Rightarrow> (str \<Rightarrow> 's \<Rightarrow> 's) \<Rightarrow> batch_op \<Rightarrow> 's \<Rightarrow> 's" where
  "apply_op put del (OpPut k v) s = put k v s"
| "apply_op put del (OpDelete k) s = del k s"

fun op_bytes :: "batch_op \<Rightarrow> str" where
  "op_bytes (OpPut k v) = kTypeValue # lp k @ lp v"
| "op_bytes (OpDelete k) = kTypeDeletion # lp k"

fun op_short :: "batch_op \<Rightarrow> bool" where
  "op_short (OpPut k v) \<longleftrightarrow> length k < 128 \<and> length v < 128"
| "op_short (OpDelete k) \<longleftrightarrow> length k < 128"

text \<open>The header with a given sequence number and count.\<close>

definition batch_head :: "u64 \<Rightarrow> u32 \<Rightarrow> str" where
  "batch_head seq n = EncodeFixed64 seq @ EncodeFixed32 n"

lemma length_batch_head [simp]: "length (batch_head seq n) = 12"
  by (simp add: batch_head_def)

lemma WB_Clear_head: "WB_Clear = batch_head 0 0"
  by (simp add: WB_Clear_def batch_head_def kBatchHeaderSize_def EncodeFixed64_def EncodeFixed32_def
      numeral_eq_Suc)

lemma head_count [codec_simps]:
  "DecodeFixed32 (drop 8 (batch_head seq n)) = Some n"
  "DecodeFixed32 (drop 8 (batch_head seq n) @ r) = Some n"
  by (simp_all add: batch_head_def le_bytes)

lemma head_set_count [codec_simps]:
  "write_at (batch_head seq n @ r) 8 (EncodeFixed32 m) = batch_head seq m @ r"
  by (simp add: batch_head_def write_at_def)

lemma WB_add_short [step_simps]:
  "op_short x \<Longrightarrow> WB_add (batch_head seq n @ r) x = Some (batch_head seq (n + 1) @ r @ op_bytes x)"
  by (cases x) (simp_all add: WB_Put_def WB_Delete_def codec_simps)

lemma WB_add_all_short:
  "\<forall>x \<in> set xs. op_short x \<Longrightarrow> WB_add_all (batch_head seq n @ r) xs
     = Some (batch_head seq (n + word_of_nat (length xs)) @ r @ concat (map op_bytes xs))"
  by (induction xs arbitrary: n r) (auto simp: step_simps add.assoc)

lemmas WB_add_all_Clear =
  WB_add_all_short [of _ 0 0 "[]", folded WB_Clear_head, simplified]

lemma WB_add_long:
  assumes "128 \<le> length k" and "length k < 4294967296"
  shows "WB_Put (batch_head seq n @ r) k v = None" and "WB_Delete (batch_head seq n @ r) k = None"
  using assms by (simp_all add: WB_Put_def WB_Delete_def codec_simps)

subsection \<open>Replay\<close>

lemma kType_distinct [simp]: "kTypeDeletion \<noteq> kTypeValue"
  by (simp add: kTypeDeletion_def kTypeValue_def)

lemma drop_Cons_nth: "drop p mem = b # r \<Longrightarrow> mem ! p = b \<and> drop (Suc p) mem = r \<and> p < length mem"
  by (metis drop_eq_Nil list.distinct(1) list.inject Cons_nth_drop_Suc linorder_not_less)

lemma drop_append_step: "drop p mem = xs @ r \<Longrightarrow> drop (p + length xs) mem = r"
  by (metis add.commute append_eq_conv_conj drop_drop)

text \<open>One written operation is consumed in one turn of the loop.\<close>

lemma Iterate_loop_op:
  assumes "op_short x" and d: "drop p mem = op_bytes x @ r" and lim: "p + length (op_bytes x) \<le> limit"
  shows "Iterate_loop put del mem p limit s
           = Iterate_loop put del mem (p + length (op_bytes x)) limit (apply_op put del x s)"
proof (cases x)
  case (OpPut k v)
  have k: "length k < 128" and v: "length v < 128" using assms(1) OpPut by auto
  have m: "mem ! p = kTypeValue" and d1: "drop (Suc p) mem = lp k @ lp v @ r"
    using drop_Cons_nth [of p mem kTypeValue "lp k @ lp v @ r"] d OpPut by auto
  have d2: "drop (Suc p + length (lp k)) mem = lp v @ r"
    using drop_append_step [OF d1] .
  have 1: "DecodeString mem (Suc p) limit = Some (Some (k, Suc p + Suc (length k)))"
    using DecodeString_lp [OF k d1] lim OpPut by simp
  have 2: "DecodeString mem (Suc p + Suc (length k)) limit
      = Some (Some (v, Suc p + Suc (length k) + Suc (length v)))"
    using DecodeString_lp [OF v, of "Suc p + Suc (length k)" mem r limit] d2 lim OpPut by simp
  have "p + length (op_bytes x) = Suc p + Suc (length k) + Suc (length v)" by (simp add: OpPut)
  moreover have "p < limit" using lim OpPut by simp
  moreover have "apply_op put del x s = put k v s" by (simp add: OpPut)
  ultimately show ?thesis
    by (subst Iterate_loop.simps)
       (simp only: Let_def m 1 2 Suc_eq_plus1 [symmetric] simp_thms if_True option.case prod.case)
next
  case (OpDelete k)
  have k: "length k < 128" using assms(1) OpDelete by auto
  have m: "mem ! p = kTypeDeletion" and d1: "drop (Suc p) mem = lp k @ r"
    using drop_Cons_nth [of p mem kTypeDeletion "lp k @ r"] d OpDelete by auto
  have 1: "DecodeString mem (Suc p) limit = Some (Some (k, Suc p + Suc (length k)))"
    using DecodeString_lp [OF k d1] lim OpDelete by simp
  show ?thesis
    using lim OpDelete by (subst Iterate_loop.simps) (simp add: m 1)
qed

lemma Iterate_loop_ops:
  assumes "\<forall>x \<in> set xs. op_short x" and "drop p mem = concat (map op_bytes xs) @ r"
    and "limit = p + length (concat (map op_bytes xs))"
  shows "Iterate_loop put del mem p limit s = Some (fold (apply_op put del) xs s, True)"
  using assms
proof (induction xs arbitrary: p s)
  case Nil
  then show ?case by (simp add: Iterate_loop.simps)
next
  case (Cons x xs)
  have d: "drop p mem = op_bytes x @ concat (map op_bytes xs) @ r" using Cons.prems(2) by simp
  have "Iterate_loop put del mem p limit s
      = Iterate_loop put del mem (p + length (op_bytes x)) limit (apply_op put del x s)"
    using Cons.prems by (intro Iterate_loop_op [OF _ d]) auto
  also have "\<dots> = Some (fold (apply_op put del) xs (apply_op put del x s), True)"
    using Cons.prems drop_append_step [OF d] by (intro Cons.IH) auto
  finally show ?case by simp
qed

lemma WB_Iterate_ops:
  assumes "\<forall>x \<in> set xs. op_short x"
  shows "WB_Iterate put del (batch_head seq n @ concat (map op_bytes xs)) s
           = Some (fold (apply_op put del) xs s, True)"
  using Iterate_loop_ops [OF assms, of 12 "batch_head seq n @ concat (map op_bytes xs) @ [0]" "[0]"
      "12 + length (concat (map op_bytes xs))" put del s]
  by (simp add: WB_Iterate_def kBatchHeaderSize_def)


text \<open>The branches of one turn.\<close>

lemma Iterate_loop_end: "\<not> p < limit \<Longrightarrow> Iterate_loop put del mem p limit s = Some (s, True)"
  by (subst Iterate_loop.simps) simp

lemma Iterate_loop_other:
  "p < limit \<Longrightarrow> mem ! p \<noteq> kTypeValue \<Longrightarrow> mem ! p \<noteq> kTypeDeletion \<Longrightarrow>
     Iterate_loop put del mem p limit s = Some (s, False)"
  by (subst Iterate_loop.simps) (simp add: Let_def)

lemma Iterate_loop_fail:
  "p < limit \<Longrightarrow> DecodeString mem (Suc p) limit = Some None \<Longrightarrow>
     Iterate_loop put del mem p limit s = Some (s, False)"
  by (subst Iterate_loop.simps) (simp add: Let_def)

lemma Iterate_loop_put:
  "p < limit \<Longrightarrow> mem ! p = kTypeValue \<Longrightarrow> DecodeString mem (Suc p) limit = Some (Some (k, p1)) \<Longrightarrow>
     Iterate_loop put del mem p limit s =
       (case DecodeString mem p1 limit of None \<Rightarrow> None | Some None \<Rightarrow> Some (s, False)
        | Some (Some (v, p2)) \<Rightarrow> Iterate_loop put del mem p2 limit (put k v s))"
  by (subst Iterate_loop.simps) (simp add: Let_def)

lemma Iterate_loop_del:
  "p < limit \<Longrightarrow> mem ! p = kTypeDeletion \<Longrightarrow> DecodeString mem (Suc p) limit = Some (Some (k, p1)) \<Longrightarrow>
     Iterate_loop put del mem p limit s = Iterate_loop put del mem p1 limit (del k s)"
  by (subst Iterate_loop.simps) (simp add: Let_def)

text \<open>No content of \<open>rep_\<close> makes the replay read outside the string.\<close>

lemma Iterate_loop_defined:
  assumes mem: "last mem = 0" "limit < length mem"
  shows "\<exists>r. Iterate_loop put del mem p limit s = Some r"
proof (induction "limit - p" arbitrary: p s rule: less_induct)
  case less
  have dec: "\<exists>r. DecodeString mem q limit = Some r" if "q \<le> limit" for q
    using DecodeString_defined [of q mem limit] that mem by auto
  show ?case
  proof (cases "p < limit")
    case False
    then show ?thesis by (blast intro: Iterate_loop_end)
  next
    case p: True
    obtain o1 where o1: "DecodeString mem (Suc p) limit = Some o1" using dec p by fastforce
    consider "o1 = None" | "mem ! p \<noteq> kTypeValue" "mem ! p \<noteq> kTypeDeletion"
      | k p1 where "o1 = Some (k, p1)" "mem ! p = kTypeDeletion"
      | k p1 where "o1 = Some (k, p1)" "mem ! p = kTypeValue"
      by (cases o1) auto
    then show ?thesis
    proof cases
      case 1
      with o1 p show ?thesis by (blast intro: Iterate_loop_fail)
    next
      case 2
      with p show ?thesis by (blast intro: Iterate_loop_other)
    next
      case (3 k p1)
      with o1 DecodeString_advances [of mem "Suc p" limit k p1] p show ?thesis
        using less [of p1 "del k s"] by (auto simp: Iterate_loop_del)
    next
      case (4 k p1)
      then have e1: "DecodeString mem (Suc p) limit = Some (Some (k, p1))" using o1 by simp
      note adv = DecodeString_advances [OF e1]
      obtain o2 where o2: "DecodeString mem p1 limit = Some o2" using dec adv by blast
      show ?thesis
      proof (cases o2)
        case None
        then show ?thesis using Iterate_loop_put [OF p 4(2) e1, of put del s] o2 by auto
      next
        case (Some vp)
        obtain v p2 where vp: "vp = (v, p2)" by (cases vp)
        with Some o2 have e2: "DecodeString mem p1 limit = Some (Some (v, p2))" by simp
        have "limit - p2 < limit - p" using adv DecodeString_advances [OF e2] p by linarith
        then show ?thesis
          using Iterate_loop_put [OF p 4(2) e1, of put del s] e2 less [of p2 "put k v s"] by simp
      qed
    qed
  qed
qed

lemma WB_Iterate_defined: "\<exists>r. WB_Iterate put del rep s = Some r"
  using Iterate_loop_defined [of "rep @ [0]" "length rep" put del kBatchHeaderSize s]
  by (cases "length rep < kBatchHeaderSize") (auto simp: WB_Iterate_def)

subsection \<open>Properties\<close>

text \<open>
  Write batch round trip.  A cleared batch to which any sequence of \<open>Put\<close> and \<open>Delete\<close> calls with
  keys and values below 128 bytes is added counts the calls, and \<open>Iterate\<close> hands exactly these calls,
  in order, to the handler and returns true.
\<close>

theorem write_batch_roundtrip:
  assumes "\<forall>x \<in> set xs. op_short x"
  shows "\<exists>rep. WB_add_all WB_Clear xs = Some rep \<and> WB_Count rep = word_of_nat (length xs)
           \<and> WB_Iterate put del rep s = Some (fold (apply_op put del) xs s, True)"
  using WB_add_all_Clear [OF assms] WB_Iterate_ops [OF assms, of put del 0 _ s]
  by (simp add: WB_Count_def kBatchHeaderSize_def codec_simps)

theorem write_batch_roundtrip_witness:
  "\<exists>rep. WB_add_all WB_Clear [OpPut [1] [2, 3], OpDelete [4]] = Some rep
     \<and> WB_Count rep = word_of_nat (length [OpPut [1] [2, 3], OpDelete [4]])
     \<and> WB_Iterate (\<lambda>k v s. s(k \<mapsto> v)) (\<lambda>k s. s(k := None)) rep Map.empty
         = Some (fold (apply_op (\<lambda>k v s. s(k \<mapsto> v)) (\<lambda>k s. s(k := None)))
                   [OpPut [1] [2, 3], OpDelete [4]] Map.empty, True)"
  by (rule write_batch_roundtrip) simp

text \<open>
  Memory safety of replay.  For every byte string, however corrupt, \<open>Iterate\<close> terminates without
  reading outside the string and its terminator, with every handler.
\<close>

theorem write_batch_replay_safe: "\<exists>s' ok. WB_Iterate put del rep s = Some (s', ok)"
  using WB_Iterate_defined [of put del rep s] by (simp add: split_paired_Ex)

end
