(* ===== verification/Wal.thy ===== *)
theory Wal
  imports Crc32
begin

text \<open>
  \<open>src/src/engine/log_writer.cc\<close> and \<open>log_reader.cc\<close>: the write-ahead log.  A record is a seven-byte
  header (CRC, sixteen bits of length, type) and the payload.  The file is the list of its bytes.
  What the operating system does with a write is an argument of the operation: \<open>None\<close> when the stream
  took every byte and is good, \<open>Some n\<close> when only the first \<open>n\<close> bytes got through and the stream went
  bad, so that a record can be torn at any byte.  The stream is buffered: \<open>lw_file\<close> is what it was
  given, \<open>lw_synced\<close> how much of that the last \<open>Sync\<close> brought to the file, and a \<open>Sync\<close> that fails
  loses what lies beyond.  A stream that has failed takes nothing more (\<open>lw_good\<close>).
\<close>

subsection \<open>log_format.h\<close>

definition kHeaderSize :: nat where "kHeaderSize = 7"
definition kZeroType :: byte where "kZeroType = 0"
definition kFullType :: byte where "kFullType = 1"

subsection \<open>The writer\<close>

record log_writer =
  lw_file :: str
  lw_ok :: bool
  lw_good :: bool
  lw_synced :: nat

definition LogWriter_open :: "str \<Rightarrow> bool \<Rightarrow> bool \<Rightarrow> log_writer" where
  "LogWriter_open old trunc can_open =
     (if can_open then let f = (if trunc then [] else old) in
        \<lparr>lw_file = f, lw_ok = True, lw_good = True, lw_synced = length f\<rparr>
      else \<lparr>lw_file = old, lw_ok = False, lw_good = False, lw_synced = length old\<rparr>)"

definition record_crc :: "byte \<Rightarrow> str \<Rightarrow> u32" where
  "record_crc ty data = ValueCRC32 (ValueCRC32 0xFFFFFFFF [ty]) data"

text \<open>Header and payload; the length is narrowed to two bytes by the casts to \<open>char\<close>.\<close>

definition log_header :: "byte \<Rightarrow> str \<Rightarrow> str" where
  "log_header ty data =
     EncodeFixed32 (record_crc ty data)
       @ [word_of_nat (length data mod 256), word_of_nat (length data div 256), ty]"

definition physical_record :: "byte \<Rightarrow> str \<Rightarrow> str" where
  "physical_record ty data = log_header ty data @ data"

definition EmitPhysicalRecord ::
    "log_writer \<Rightarrow> byte \<Rightarrow> str \<Rightarrow> nat option \<Rightarrow> bool \<times> log_writer" where
  "EmitPhysicalRecord w ty data wr =
     (let rec = physical_record ty data in
      if \<not> lw_good w then (False, w\<lparr>lw_ok := False\<rparr>)
      else case wr of
        None \<Rightarrow> (True, w\<lparr>lw_file := lw_file w @ rec, lw_ok := True\<rparr>)
      | Some n \<Rightarrow> (False, w\<lparr>lw_file := lw_file w @ take n rec, lw_ok := False, lw_good := False\<rparr>))"

definition AddRecord :: "log_writer \<Rightarrow> str \<Rightarrow> nat option \<Rightarrow> bool \<times> log_writer" where
  "AddRecord w data wr =
     (if \<not> lw_ok w then (False, w) else EmitPhysicalRecord w kFullType data wr)"

text \<open>\<open>Sync\<close>: \<open>None\<close> when the flush writes everything, \<open>Some n\<close> when it fails after \<open>n\<close> of the pending bytes.\<close>

definition Sync :: "log_writer \<Rightarrow> nat option \<Rightarrow> bool \<times> log_writer" where
  "Sync w sy =
     (if \<not> lw_good w then (False, w)
      else case sy of
        None \<Rightarrow> (True, w\<lparr>lw_synced := length (lw_file w)\<rparr>)
      | Some n \<Rightarrow> let f = take (lw_synced w + n) (lw_file w) in
                  (False, w\<lparr>lw_file := f, lw_synced := length f, lw_good := False\<rparr>))"

subsection \<open>The reader\<close>

record log_reader =
  lr_file :: str
  lr_pos :: nat
  lr_ok :: bool
  lr_eof :: bool
  lr_open :: bool
  lr_good :: bool  \<comment> \<open>no error flag is set on the stream\<close>

definition LogReader_open :: "str option \<Rightarrow> log_reader" where
  "LogReader_open f =
     (case f of
        Some s \<Rightarrow> \<lparr>lr_file = s, lr_pos = 0, lr_ok = True, lr_eof = False, lr_open = True, lr_good = True\<rparr>
      | None \<Rightarrow> \<lparr>lr_file = [], lr_pos = 0, lr_ok = False, lr_eof = False, lr_open = False, lr_good = False\<rparr>)"

text \<open>\<open>seekg\<close> to an offset that is not negative as a \<open>streamoff\<close> succeeds, also past the end.\<close>

definition SkipToOffset :: "log_reader \<Rightarrow> u64 \<Rightarrow> bool \<times> log_reader" where
  "SkipToOffset r offset =
     (if \<not> lr_open r then (False, r)
      else if unat offset < 2 ^ 63 then (True, r\<lparr>lr_pos := unat offset, lr_good := True\<rparr>)
      else (False, r\<lparr>lr_good := False\<rparr>))"

text \<open>\<open>file_.read\<close>: the bytes read (\<open>gcount\<close> is their number); a short read sets the error flags.\<close>

definition stream_read :: "log_reader \<Rightarrow> nat \<Rightarrow> str \<times> log_reader" where
  "stream_read r n =
     (if lr_good r then
        let bs = take n (drop (lr_pos r) (lr_file r))
        in (bs, r\<lparr>lr_pos := lr_pos r + length bs, lr_good := (length bs = n)\<rparr>)
      else ([], r))"

definition ReadPhysicalRecord :: "log_reader \<Rightarrow> (byte \<times> str) option \<times> log_reader" where
  "ReadPhysicalRecord r =
     (let (header, r1) = stream_read r kHeaderSize in
      if length header < kHeaderSize then (None, r1)
      else let len = unat (header ! 5) * 256 + unat (header ! 4);
               ty = header ! 6;
               (payload, r2) = stream_read r1 len
           in if length payload < len then (None, r2\<lparr>lr_ok := False\<rparr>)
              else if DecodeFixed32 header \<noteq> Some (record_crc ty payload)
                   then (None, r2\<lparr>lr_ok := False\<rparr>)
              else (Some (ty, payload), r2))"

lemma ReadPhysicalRecord_advances:
  "ReadPhysicalRecord r = (Some x, r') \<Longrightarrow>
     lr_file r' = lr_file r \<and> lr_pos r < lr_pos r' \<and> lr_pos r' \<le> length (lr_file r)"
  by (auto simp: ReadPhysicalRecord_def stream_read_def kHeaderSize_def Let_def
      split: if_splits prod.splits)

function ReadRecord_loop :: "log_reader \<Rightarrow> str option \<times> log_reader" where
  "ReadRecord_loop r =
     (case ReadPhysicalRecord r of
        (None, r') \<Rightarrow> (None, r'\<lparr>lr_eof := True\<rparr>)
      | (Some (ty, fragment), r') \<Rightarrow>
          if ty = kFullType then (Some fragment, r')
          else if ty = kZeroType then ReadRecord_loop r'
          else (None, r'\<lparr>lr_ok := False\<rparr>))"
  by pat_completeness auto
termination
proof (relation "measure (\<lambda>r. length (lr_file r) - lr_pos r)", goal_cases)
  case 1
  then show ?case by simp
next
  case (2 r p r' x ty fragment)
  then show ?case
    using ReadPhysicalRecord_advances [of r "(ty, fragment)" r'] by auto
qed

declare ReadRecord_loop.simps [simp del]

definition ReadRecord :: "log_reader \<Rightarrow> str option \<times> log_reader" where
  "ReadRecord r = (if \<not> lr_ok r \<or> lr_eof r then (None, r) else ReadRecord_loop r)"

lemma ReadRecord_loop_advances:
  "ReadRecord_loop r = (Some x, r') \<Longrightarrow>
     lr_file r' = lr_file r \<and> lr_pos r < lr_pos r' \<and> lr_pos r' \<le> length (lr_file r)"
proof (induction r rule: ReadRecord_loop.induct)
  case (1 r)
  obtain o1 r1 where p: "ReadPhysicalRecord r = (o1, r1)" by (cases "ReadPhysicalRecord r")
  show ?case
  proof (cases o1)
    case None
    with p "1.prems" show ?thesis by (simp add: ReadRecord_loop.simps [of r])
  next
    case (Some tf)
    obtain ty f where tf: "tf = (ty, f)" by (cases tf)
    note adv = ReadPhysicalRecord_advances [of r "(ty, f)" r1]
    show ?thesis
      using "1.prems" "1.IH" [of o1 r1 "(ty, f)" ty f] adv p Some tf
      by (auto simp: ReadRecord_loop.simps [of r] split: if_splits)
  qed
qed

text \<open>The reading loop of \<open>DB::Recover\<close>: every record up to the first one that cannot be read.\<close>

function read_all :: "log_reader \<Rightarrow> str list" where
  "read_all r = (case ReadRecord r of (None, r') \<Rightarrow> [] | (Some x, r') \<Rightarrow> x # read_all r')"
  by pat_completeness auto
termination
proof (relation "measure (\<lambda>r. length (lr_file r) - lr_pos r)", goal_cases)
  case 1
  then show ?case by simp
next
  case (2 r p r' x)
  then show ?case
    using ReadRecord_loop_advances [of r x r'] by (auto simp: ReadRecord_def split: if_splits)
qed

declare read_all.simps [simp del]


subsection \<open>Reading back one record\<close>

lemma length_log_header [simp]: "length (log_header ty data) = 7"
  by (simp add: log_header_def)

lemma length_physical_record [simp]: "length (physical_record ty data) = 7 + length data"
  by (simp add: physical_record_def)

lemma log_header_crc: "DecodeFixed32 (log_header ty data) = Some (record_crc ty data)"
  unfolding log_header_def by (rule DecodeFixed32_Encode)

lemma log_header_type: "log_header ty data ! 6 = ty"
  by (simp add: log_header_def nth_append)

lemma log_header_length:
  assumes "length data < 65536"
  shows "unat (log_header ty data ! 5) * 256 + unat (log_header ty data ! 4) = length data"
proof -
  have "length data div 256 < 256" using assms by simp
  then show ?thesis by (simp add: log_header_def nth_append)
qed

text \<open>The reader at a position of a readable file.\<close>

definition reader_at :: "str \<Rightarrow> nat \<Rightarrow> log_reader" where
  "reader_at s p = \<lparr>lr_file = s, lr_pos = p, lr_ok = True, lr_eof = False, lr_open = True, lr_good = True\<rparr>"

lemma reader_at_sel [simp]:
  "lr_file (reader_at s p) = s" "lr_pos (reader_at s p) = p" "lr_ok (reader_at s p)"
  "\<not> lr_eof (reader_at s p)" "lr_good (reader_at s p)" "lr_open (reader_at s p)"
  "reader_at s p\<lparr>lr_pos := q\<rparr> = reader_at s q" "reader_at s p\<lparr>lr_good := True\<rparr> = reader_at s p"
  "reader_at s p\<lparr>lr_pos := q, lr_good := True\<rparr> = reader_at s q"
  by (simp_all add: reader_at_def)

lemma LogReader_open_at: "LogReader_open (Some s) = reader_at s 0"
  by (simp add: LogReader_open_def reader_at_def)

lemma stream_read_at:
  "n \<le> length (drop p s) \<Longrightarrow> stream_read (reader_at s p) n = (take n (drop p s), reader_at s (p + n))"
  by (simp add: stream_read_def Let_def min_def)

lemma stream_read_short:
  "length (drop p s) < n \<Longrightarrow> length (fst (stream_read (reader_at s p) n)) < n"
  by (simp add: stream_read_def Let_def)

lemma stream_read_exact:
  "drop p s = bs @ r \<Longrightarrow> stream_read (reader_at s p) (length bs) = (bs, reader_at s (p + length bs))"
  using stream_read_at [of "length bs" p s] by simp

text \<open>
  A header followed by \<open>length data\<close> bytes \<open>data'\<close>: the record is delivered exactly when the
  checksum of these bytes is the stored one.
\<close>

lemma ReadPhysicalRecord_header:
  assumes d: "drop p s = log_header ty data @ data' @ rest"
    and len: "length data < 65536" "length data' = length data"
  shows "ReadPhysicalRecord (reader_at s p) =
     (if record_crc ty data' = record_crc ty data
      then (Some (ty, data'), reader_at s (p + 7 + length data))
      else (None, reader_at s (p + 7 + length data)\<lparr>lr_ok := False\<rparr>))"
proof -
  have r1: "stream_read (reader_at s p) kHeaderSize = (log_header ty data, reader_at s (p + 7))"
    using stream_read_exact [OF d] by (simp add: kHeaderSize_def)
  have "drop (p + 7) s = data' @ rest"
    using drop_drop [of 7 p s] unfolding d by (simp add: add.commute)
  then have r2: "stream_read (reader_at s (p + 7)) (length data) = (data', reader_at s (p + 7 + length data))"
    using stream_read_exact [of "p + 7" s data' rest] len(2) by simp
  show ?thesis
    unfolding ReadPhysicalRecord_def r1
    by (simp add: Let_def log_header_length [OF len(1)] log_header_crc log_header_type
        kHeaderSize_def r2 len(2))
qed

lemma ReadPhysicalRecord_written [codec_simps]:
  assumes "drop p s = physical_record ty data @ rest" and "length data < 65536"
  shows "ReadPhysicalRecord (reader_at s p) = (Some (ty, data), reader_at s (p + 7 + length data))"
  using ReadPhysicalRecord_header [of p s ty data data rest] assms by (simp add: physical_record_def)

lemma ReadRecord_loop_written [codec_simps]:
  assumes "drop p s = physical_record kFullType data @ rest" and "length data < 65536"
  shows "ReadRecord_loop (reader_at s p) = (Some data, reader_at s (p + 7 + length data))"
  by (subst ReadRecord_loop.simps) (simp add: ReadPhysicalRecord_written [OF assms])

lemma ReadRecord_written [codec_simps]:
  assumes "drop p s = physical_record kFullType data @ rest" and "length data < 65536"
  shows "ReadRecord (reader_at s p) = (Some data, reader_at s (p + 7 + length data))"
  by (simp add: ReadRecord_def ReadRecord_loop_written [OF assms])

subsection \<open>A record that is not all there, and a record that was changed\<close>

lemma ReadPhysicalRecord_torn:
  assumes d: "drop p s = take n (physical_record ty data)" and n: "n < 7 + length data"
    and len: "length data < 65536"
  shows "fst (ReadPhysicalRecord (reader_at s p)) = None"
proof (cases "n < 7")
  case True
  then have "length (drop p s) < kHeaderSize" unfolding d kHeaderSize_def by simp
  from stream_read_short [OF this] show ?thesis
    by (cases "stream_read (reader_at s p) kHeaderSize") (simp add: ReadPhysicalRecord_def)
next
  case False
  have h: "drop p s = log_header ty data @ take (n - 7) data"
    using False unfolding d physical_record_def by simp
  have r1: "stream_read (reader_at s p) kHeaderSize = (log_header ty data, reader_at s (p + 7))"
    using stream_read_exact [OF h] by (simp add: kHeaderSize_def)
  have "drop (p + 7) s = take (n - 7) data"
    using drop_drop [of 7 p s] unfolding h by (simp add: add.commute)
  then have "length (drop (p + 7) s) < length data" using n False by simp
  from stream_read_short [OF this]
  show ?thesis
    unfolding ReadPhysicalRecord_def r1
    by (cases "stream_read (reader_at s (p + 7)) (length data)")
       (simp add: kHeaderSize_def Let_def log_header_length [OF len])
qed

lemma ReadRecord_None_if:
  "fst (ReadPhysicalRecord (reader_at s p)) = None \<Longrightarrow> fst (ReadRecord (reader_at s p)) = None"
  by (cases "ReadPhysicalRecord (reader_at s p)")
     (simp add: ReadRecord_def ReadRecord_loop.simps [of "reader_at s p"])

text \<open>The reader's view does not depend on what precedes its position.\<close>

definition shift_reader :: "nat \<Rightarrow> log_reader \<Rightarrow> log_reader" where
  "shift_reader k r = r\<lparr>lr_file := drop k (lr_file r), lr_pos := lr_pos r - k\<rparr>"

lemma stream_read_shift:
  "k \<le> lr_pos r \<Longrightarrow> stream_read (shift_reader k r) n = apsnd (shift_reader k) (stream_read r n)"
  by (simp add: stream_read_def shift_reader_def Let_def)

lemma stream_read_pos: "stream_read r n = (bs, r') \<Longrightarrow> lr_pos r \<le> lr_pos r'"
  by (auto simp: stream_read_def Let_def split: if_splits)

lemma shift_reader_ok: "(shift_reader k r)\<lparr>lr_ok := b\<rparr> = shift_reader k (r\<lparr>lr_ok := b\<rparr>)"
  by (simp add: shift_reader_def)

lemma ReadPhysicalRecord_shift:
  assumes "k \<le> lr_pos r"
  shows "ReadPhysicalRecord (shift_reader k r) = apsnd (shift_reader k) (ReadPhysicalRecord r)"
proof -
  obtain h r1 where h: "stream_read r kHeaderSize = (h, r1)" by (cases "stream_read r kHeaderSize")
  have "k \<le> lr_pos r1" using stream_read_pos [OF h] assms by simp
  then show ?thesis
    unfolding ReadPhysicalRecord_def stream_read_shift [OF assms] h
    by (auto simp: Let_def stream_read_shift shift_reader_ok split: prod.split)
qed


lemma shift_reader_eof: "(shift_reader k r)\<lparr>lr_eof := b\<rparr> = shift_reader k (r\<lparr>lr_eof := b\<rparr>)"
  by (simp add: shift_reader_def)

lemma ReadRecord_loop_shift:
  "k \<le> lr_pos r \<Longrightarrow> ReadRecord_loop (shift_reader k r) = apsnd (shift_reader k) (ReadRecord_loop r)"
proof (induction r rule: ReadRecord_loop.induct)
  case (1 r)
  obtain o1 r1 where p: "ReadPhysicalRecord r = (o1, r1)" by (cases "ReadPhysicalRecord r")
  have ps: "ReadPhysicalRecord (shift_reader k r) = (o1, shift_reader k r1)"
    using ReadPhysicalRecord_shift [OF "1.prems"] p by simp
  show ?case
  proof (cases o1)
    case None
    then show ?thesis
      by (simp add: ReadRecord_loop.simps [of r] ReadRecord_loop.simps [of "shift_reader k r"] p ps
          shift_reader_eof)
  next
    case (Some tf)
    obtain ty f where tf: "tf = (ty, f)" by (cases tf)
    have "k \<le> lr_pos r1"
      using ReadPhysicalRecord_advances [of r "(ty, f)" r1] p Some tf "1.prems" by simp
    then show ?thesis
      using "1.IH" [of o1 r1 "(ty, f)" ty f] p Some tf
      by (simp add: ReadRecord_loop.simps [of r] ReadRecord_loop.simps [of "shift_reader k r"] ps
          shift_reader_ok)
  qed
qed

lemma ReadRecord_shift:
  "k \<le> lr_pos r \<Longrightarrow> ReadRecord (shift_reader k r) = apsnd (shift_reader k) (ReadRecord r)"
  using ReadRecord_loop_shift [of k r] by (simp add: ReadRecord_def shift_reader_def)

lemma read_all_shift: "k \<le> lr_pos r \<Longrightarrow> read_all (shift_reader k r) = read_all r"
proof (induction r rule: read_all.induct)
  case (1 r)
  obtain o1 r1 where p: "ReadRecord r = (o1, r1)" by (cases "ReadRecord r")
  have ps: "ReadRecord (shift_reader k r) = (o1, shift_reader k r1)"
    using ReadRecord_shift [OF "1.prems"] p by simp
  show ?case
  proof (cases o1)
    case None
    then show ?thesis by (simp add: read_all.simps [of r] read_all.simps [of "shift_reader k r"] p ps)
  next
    case (Some x)
    have "lr_pos r \<le> lr_pos r1"
      using ReadRecord_loop_advances [of r x r1] p Some by (auto simp: ReadRecord_def split: if_splits)
    then show ?thesis
      using "1.IH" [of o1 r1 x] p Some "1.prems"
      by (simp add: read_all.simps [of r] read_all.simps [of "shift_reader k r"] ps)
  qed
qed

subsection \<open>The log as a record codec\<close>

text \<open>One \<open>ReadRecord\<close> on a file with contents \<open>s\<close>: the record and the unread rest.\<close>

definition wal_dec :: "str \<Rightarrow> (str \<times> str) option" where
  "wal_dec s = (case ReadRecord (LogReader_open (Some s)) of
      (Some d, r) \<Rightarrow> Some (d, drop (lr_pos r) s) | (None, _) \<Rightarrow> None)"

definition wal_valid :: "str \<Rightarrow> bool" where
  "wal_valid d \<longleftrightarrow> length d < 65536"

lemma shift_reader_at: "shift_reader k (reader_at s p) = reader_at (drop k s) (p - k)"
  by (simp add: shift_reader_def reader_at_def)

lemma ReadPhysicalRecord_at:
  "ReadPhysicalRecord (reader_at s p) = (Some x, r') \<Longrightarrow> r' = reader_at s (lr_pos r')"
  by (auto simp: ReadPhysicalRecord_def stream_read_def kHeaderSize_def Let_def
      split: if_splits prod.splits)


lemma ReadRecord_loop_at:
  "ReadRecord_loop r = (Some x, r') \<Longrightarrow> r = reader_at s p \<Longrightarrow> r' = reader_at s (lr_pos r')"
proof (induction r arbitrary: p rule: ReadRecord_loop.induct)
  case (1 r)
  obtain o1 r1 where q: "ReadPhysicalRecord r = (o1, r1)" by (cases "ReadPhysicalRecord r")
  show ?case
  proof (cases o1)
    case None
    with q "1.prems"(1) show ?thesis by (simp add: ReadRecord_loop.simps [of r])
  next
    case (Some tf)
    obtain ty f where tf: "tf = (ty, f)" by (cases tf)
    have r1: "r1 = reader_at s (lr_pos r1)"
      using ReadPhysicalRecord_at [of s p tf r1] q Some "1.prems"(2) by simp
    then show ?thesis
      using "1.prems"(1) "1.IH" [of o1 r1 "(ty, f)" ty f "lr_pos r1"] q Some tf
      by (auto simp: ReadRecord_loop.simps [of r] split: if_splits)
  qed
qed

lemma read_all_decode: "read_all (LogReader_open (Some s)) = decode_all wal_dec (Suc (length s)) s"
proof -
  have "read_all (reader_at s 0) = decode_all wal_dec n s" if "length s < n" for n
    using that
  proof (induction n arbitrary: s)
    case 0
    then show ?case by simp
  next
    case (Suc n)
    obtain o1 r1 where q: "ReadRecord (reader_at s 0) = (o1, r1)" by (cases "ReadRecord (reader_at s 0)")
    show ?case
    proof (cases o1)
      case None
      then show ?thesis
        using q by (simp add: read_all.simps [of "reader_at s 0"] wal_dec_def LogReader_open_at)
    next
      case (Some x)
      have q': "ReadRecord_loop (reader_at s 0) = (Some x, r1)"
        using q Some by (simp add: ReadRecord_def)
      then obtain p where r1: "r1 = reader_at s p" using ReadRecord_loop_at [OF q'] by blast
      have p: "0 < p" "p \<le> length s" using ReadRecord_loop_advances [OF q'] r1 by auto
      then have "length (drop p s) < n" using Suc.prems by simp
      then have "read_all (reader_at (drop p s) 0) = decode_all wal_dec n (drop p s)"
        by (rule Suc.IH)
      moreover have "read_all r1 = read_all (reader_at (drop p s) 0)"
        using read_all_shift [of p "reader_at s p"] r1 by (simp add: shift_reader_at)
      moreover have "wal_dec s = Some (x, drop p s)"
        using q Some by (simp add: wal_dec_def LogReader_open_at r1)
      ultimately show ?thesis
        using q Some by (simp add: read_all.simps [of "reader_at s 0"] r1)
    qed
  qed
  then show ?thesis by (simp add: LogReader_open_at del: decode_all.simps)
qed

lemma wal_dec_written: "wal_valid d \<Longrightarrow> wal_dec (physical_record kFullType d @ r) = Some (d, r)"
  using ReadRecord_written [of 0 "physical_record kFullType d @ r" d r]
  by (simp add: wal_dec_def wal_valid_def LogReader_open_at)

lemma wal_dec_empty: "wal_dec [] = None"
proof -
  have "fst (ReadPhysicalRecord (reader_at [] 0)) = None"
    using ReadPhysicalRecord_torn [of 0 "[]" 0 kFullType "[]"] by simp
  from ReadRecord_None_if [OF this] show ?thesis
    by (cases "ReadRecord (reader_at [] 0)") (simp add: wal_dec_def LogReader_open_at)
qed

lemma physical_record_nonempty: "physical_record ty d \<noteq> []"
  by (simp add: physical_record_def log_header_def)

interpretation wal: codec "physical_record kFullType" wal_dec wal_valid
  by unfold_locales (simp_all add: wal_dec_written wal_dec_empty physical_record_nonempty)

lemma wal_dec_torn:
  assumes "n < 7 + length d" and "wal_valid d"
  shows "wal_dec (take n (physical_record kFullType d)) = None"
proof -
  have "fst (ReadPhysicalRecord (reader_at (take n (physical_record kFullType d)) 0)) = None"
    using ReadPhysicalRecord_torn [of 0 _ n kFullType d] assms by (simp add: wal_valid_def)
  from ReadRecord_None_if [OF this] show ?thesis
    by (cases "ReadRecord (reader_at (take n (physical_record kFullType d)) 0)")
       (simp add: wal_dec_def LogReader_open_at)
qed

lemma wal_dec_corrupt:
  assumes len: "length d < 65536" "length d' = length d" and crc: "record_crc kFullType d' \<noteq> record_crc kFullType d"
  shows "wal_dec (log_header kFullType d @ d' @ r) = None"
proof -
  have "fst (ReadPhysicalRecord (reader_at (log_header kFullType d @ d' @ r) 0)) = None"
    using ReadPhysicalRecord_header [of 0 "log_header kFullType d @ d' @ r" kFullType d d' r] len crc by simp
  from ReadRecord_None_if [OF this] show ?thesis
    by (cases "ReadRecord (reader_at (log_header kFullType d @ d' @ r) 0)")
       (simp add: wal_dec_def LogReader_open_at)
qed

subsection \<open>Appending\<close>

fun add_all :: "log_writer \<Rightarrow> str list \<Rightarrow> log_writer" where
  "add_all w [] = w"
| "add_all w (d # ds) = add_all (snd (AddRecord w d None)) ds"

lemma AddRecord_ok [step_simps]:
  "lw_ok w \<Longrightarrow> lw_good w \<Longrightarrow> AddRecord w d None = (True, w\<lparr>lw_file := lw_file w @ physical_record kFullType d\<rparr>)"
  by (simp add: AddRecord_def EmitPhysicalRecord_def)

lemma AddRecord_torn [step_simps]:
  "lw_ok w \<Longrightarrow> lw_good w \<Longrightarrow> AddRecord w d (Some n) =
     (False, w\<lparr>lw_file := lw_file w @ take n (physical_record kFullType d), lw_ok := False, lw_good := False\<rparr>)"
  by (simp add: AddRecord_def EmitPhysicalRecord_def)

lemma add_all_file:
  "lw_ok w \<Longrightarrow> lw_good w \<Longrightarrow> lw_ok (add_all w ds) \<and> lw_good (add_all w ds) \<and> lw_file (add_all w ds)
     = lw_file w @ concat (map (physical_record kFullType) ds)"
  by (induction ds arbitrary: w) (auto simp: step_simps)

lemma read_all_written:
  assumes "\<forall>d \<in> set ds. wal_valid d" and "wal_dec t = None"
  shows "read_all (LogReader_open (Some (concat (map (physical_record kFullType) ds) @ t))) = ds"
proof -
  have "length ds \<le> length (concat (map (physical_record kFullType) ds))"
    by (induction ds) auto
  then show ?thesis
    unfolding read_all_decode by (intro wal.decode_all_tail [OF assms]) simp
qed

subsection \<open>Properties\<close>

text \<open>
  C37: the log survives a crash at any byte.  Records appended to an empty log, and then a record of
  which only the first \<open>n\<close> bytes reached the file (none for a clean shutdown), are recovered exactly:
  every completed record, in order, and nothing of the torn one, for all payloads below 64 KiB.
\<close>

theorem wal_crash_recovery:
  assumes "\<forall>x \<in> set ds. length x < 65536" and "length d < 65536" and "n < 7 + length d"
    and "w = add_all (LogWriter_open old True True) ds"
  shows "read_all (LogReader_open (Some (lw_file (snd (AddRecord w d (Some n)))))) = ds"
proof -
  have ok: "lw_ok (LogWriter_open old True True)" "lw_good (LogWriter_open old True True)" by (simp_all add: LogWriter_open_def)
  have "lw_file (snd (AddRecord w d (Some n)))
      = concat (map (physical_record kFullType) ds) @ take n (physical_record kFullType d)"
    using add_all_file [OF ok, of ds] by (simp add: assms(4) step_simps LogWriter_open_def)
  then show ?thesis
    using read_all_written [of ds] wal_dec_torn [of n d] assms by (simp add: wal_valid_def)
qed

theorem wal_crash_recovery_witness:
  "read_all (LogReader_open (Some (lw_file (snd (AddRecord
     (add_all (LogWriter_open [9] True True) [[1, 2], [3]]) [4, 5] (Some 8)))))) = [[1, 2], [3]]"
  by (rule wal_crash_recovery [where old = "[9]"]) simp_all

text \<open>
  C38: a damaged record is not replayed.  When up to four consecutive bytes of the payload of a
  record are changed, recovery delivers exactly the records before it: the checksum rejects it.
\<close>

theorem wal_corruption_detected:
  assumes "\<forall>x \<in> set ds. length x < 65536" and "length (xs @ bs @ ys) < 65536"
    and "length bs' = length bs" and "length bs \<le> 4" and "bs' \<noteq> bs"
  shows "read_all (LogReader_open (Some (concat (map (physical_record kFullType) ds)
            @ log_header kFullType (xs @ bs @ ys) @ (xs @ bs' @ ys) @ rest))) = ds"
proof -
  have "record_crc kFullType (xs @ bs' @ ys) \<noteq> record_crc kFullType (xs @ bs @ ys)"
    unfolding record_crc_def using ValueCRC32_burst [of bs' bs] assms(3-5) by metis
  then have "wal_dec (log_header kFullType (xs @ bs @ ys) @ (xs @ bs' @ ys) @ rest) = None"
    using assms(2,3) by (intro wal_dec_corrupt) auto
  then show ?thesis using read_all_written [of ds] assms(1) by (simp add: wal_valid_def)
qed

theorem wal_corruption_detected_witness:
  "read_all (LogReader_open (Some (concat (map (physical_record kFullType) [[7]])
      @ log_header kFullType ([1] @ [2] @ [3]) @ ([1] @ [5] @ [3]) @ [8]))) = [[7]]"
  by (rule wal_corruption_detected) simp_all

text \<open>
  After the end of the log was reached once, \<open>SkipToOffset\<close> reports success but every later
  \<open>ReadRecord\<close> still returns false, because \<open>eof_\<close> is never reset: the reader cannot be repositioned.
\<close>

theorem skip_does_not_resume:
  assumes "fst (ReadRecord r) = None" and "lr_open r" and "unat offset < 2 ^ 63"
  shows "fst (SkipToOffset (snd (ReadRecord r)) offset)
           \<and> fst (ReadRecord (snd (SkipToOffset (snd (ReadRecord r)) offset))) = None"
proof -
  have stuck: "(lr_open r' \<longleftrightarrow> lr_open r) \<and> (\<not> lr_ok r' \<or> lr_eof r')" if "ReadRecord r = (None, r')" for r'
  proof -
    have "ReadRecord_loop r1 = (None, r2) \<Longrightarrow> (lr_open r2 \<longleftrightarrow> lr_open r1) \<and> (\<not> lr_ok r2 \<or> lr_eof r2)" for r1 r2
    proof (induction r1 rule: ReadRecord_loop.induct)
      case (1 r1)
      obtain o1 r3 where q: "ReadPhysicalRecord r1 = (o1, r3)" by (cases "ReadPhysicalRecord r1")
      have "lr_open r3 \<longleftrightarrow> lr_open r1"
        using q by (auto simp: ReadPhysicalRecord_def stream_read_def Let_def split: if_splits prod.splits)
      then show ?case
        using "1.prems" "1.IH" [of o1 r3] q
        by (cases o1) (auto simp: ReadRecord_loop.simps [of r1] split: if_splits prod.splits)
    qed
    with that show ?thesis by (auto simp: ReadRecord_def split: if_splits)
  qed
  obtain r' where r': "ReadRecord r = (None, r')" using assms(1) by (cases "ReadRecord r") auto
  show ?thesis
    using stuck [OF r'] assms(2,3) by (simp add: r' SkipToOffset_def) (auto simp: ReadRecord_def)
qed

theorem skip_does_not_resume_witness:
  "fst (SkipToOffset (snd (ReadRecord (LogReader_open (Some [])))) 0)
     \<and> fst (ReadRecord (snd (SkipToOffset (snd (ReadRecord (LogReader_open (Some [])))) 0))) = None"
proof (rule skip_does_not_resume)
  show "fst (ReadRecord (LogReader_open (Some []))) = None"
    using wal_dec_empty by (cases "ReadRecord (LogReader_open (Some []))") (auto simp: wal_dec_def split: option.splits)
qed (simp_all add: LogReader_open_def)

end
