(* ===== verification/Bloom.thy ===== *)
theory Bloom
  imports Crc32
begin

text \<open>
  The bloom filter of \<open>src/src/engine/BloomFilter.h\<close>, which a table file carries and every point
  lookup asks first.  \<open>size_t\<close> is a 64-bit word; the bytes of \<open>data_\<close> are a list.  The contract
  the reader relies on (an added key is never reported absent) is the locale
  \<open>membership_filter\<close>; the filter is shown to implement a set of bit positions.
\<close>

record bloom =
  bf_bits :: u64
  bf_num_hashes :: nat
  bf_data :: "byte list"

text \<open>
  \<open>BloomFilter(entries, bits_per_key)\<close>.  The product is an \<open>int\<close> product (undefined when it
  overflows: \<open>None\<close>), converted to \<open>size_t\<close>.  The \<open>double\<close> \<open>0.69 * bits_per_key\<close> truncates to
  \<open>69 * b div 100\<close> for \<open>0 \<le> b < 300\<close>; other values are outside the model (\<open>None\<close>), the program
  only ever passes the default 10.
\<close>

definition BloomFilter_new :: "int \<Rightarrow> int \<Rightarrow> bloom option" where
  "BloomFilter_new entries bits_per_key =
     (if entries * bits_per_key < - (2 ^ 31) \<or> 2 ^ 31 \<le> entries * bits_per_key then None
      else if bits_per_key < 0 \<or> 300 \<le> bits_per_key then None
      else
        let bits0 = (word_of_int (entries * bits_per_key) :: u64);
            bits = (if bits0 < 64 then 64 else bits0);
            bits_aligned = ((bits + 7) div 8) * 8;
            n0 = nat (69 * bits_per_key div 100)
        in Some \<lparr> bf_bits = bits_aligned,
                  bf_num_hashes = (if n0 < 1 then 1 else n0),
                  bf_data = replicate (unat (bits_aligned div 8)) 0 \<rparr>)"

text \<open>\<open>BloomFilter(raw_data)\<close>: one byte for the number of hashes, then the bit array.\<close>

definition BloomFilter_of_raw :: "str \<Rightarrow> bloom" where
  "BloomFilter_of_raw raw_data =
     (case raw_data of
        [] \<Rightarrow> \<lparr> bf_bits = 0, bf_num_hashes = 1, bf_data = [] \<rparr>
      | b # rest \<Rightarrow> \<lparr> bf_bits = word_of_nat (length rest) * 8, bf_num_hashes = unat b, bf_data = rest \<rparr>)"

text \<open>
  The loop of \<open>Add\<close>: \<open>h % bits_\<close> is undefined for \<open>bits_ = 0\<close> and the store is undefined outside
  the array; both are \<open>None\<close>.
\<close>

fun Add_loop :: "nat \<Rightarrow> u32 \<Rightarrow> str \<Rightarrow> bloom \<Rightarrow> bloom option" where
  "Add_loop 0 h key bf = Some bf"
| "Add_loop (Suc i) h key bf =
     (if bf_bits bf = 0 then None
      else
        let bit_pos = unat ((ucast h :: u64) mod bf_bits bf)
        in if length (bf_data bf) \<le> bit_pos div 8 then None
           else Add_loop i (ValueCRC32 h key) key
                  (bf\<lparr> bf_data := (bf_data bf)[bit_pos div 8 :=
                        bf_data bf ! (bit_pos div 8) OR push_bit (bit_pos mod 8) 1] \<rparr>))"

definition BF_Add :: "str \<Rightarrow> bloom \<Rightarrow> bloom option" where
  "BF_Add key bf = Add_loop (bf_num_hashes bf) (ValueCRC32 0 key) key bf"

fun MayContain_loop :: "nat \<Rightarrow> u32 \<Rightarrow> str \<Rightarrow> bloom \<Rightarrow> bool option" where
  "MayContain_loop 0 h key bf = Some True"
| "MayContain_loop (Suc i) h key bf =
     (if bf_bits bf = 0 then None
      else
        let bit_pos = unat (ucast ((ucast h :: u64) mod bf_bits bf) :: u32)
        in if length (bf_data bf) \<le> bit_pos div 8 then None
           else if bf_data bf ! (bit_pos div 8) AND push_bit (bit_pos mod 8) 1 = 0 then Some False
           else MayContain_loop i (ValueCRC32 h key) key bf)"

definition BF_MayContain :: "bloom \<Rightarrow> str \<Rightarrow> bool option" where
  "BF_MayContain bf key =
     (if bf_data bf = [] then Some True
      else MayContain_loop (bf_num_hashes bf) (ValueCRC32 0 key) key bf)"

text \<open>The bytes \<open>Finish\<close> writes for a filter: \<open>NumHashes()\<close> in one byte, then \<open>RawData()\<close>.\<close>

definition BF_serialize :: "bloom \<Rightarrow> str" where
  "BF_serialize bf = word_of_nat (bf_num_hashes bf) # bf_data bf"

fun BF_add_all :: "str list \<Rightarrow> bloom \<Rightarrow> bloom option" where
  "BF_add_all [] bf = Some bf"
| "BF_add_all (k # ks) bf = BF_Add k bf \<bind> BF_add_all ks"

subsection \<open>The contract of a filter\<close>

text \<open>
  What a reader may rely on: an operation on a well-formed filter never fails, an added key is
  reported, and no later insertion makes a reported key unreported.
\<close>

locale membership_filter =
  fixes add :: "'k \<Rightarrow> 'f \<Rightarrow> 'f option"
    and may :: "'f \<Rightarrow> 'k \<Rightarrow> bool option"
    and wf :: "'f \<Rightarrow> bool"
  assumes add_defined: "wf f \<Longrightarrow> \<exists>g. add k f = Some g"
    and add_wf: "wf f \<Longrightarrow> add k f = Some g \<Longrightarrow> wf g"
    and add_member: "wf f \<Longrightarrow> add k f = Some g \<Longrightarrow> may g k = Some True"
    and add_keeps: "wf f \<Longrightarrow> add k f = Some g \<Longrightarrow> may f k' = Some True \<Longrightarrow> may g k' = Some True"
begin

fun add_all :: "'k list \<Rightarrow> 'f \<Rightarrow> 'f option" where
  "add_all [] f = Some f"
| "add_all (k # ks) f = add k f \<bind> add_all ks"

lemma add_all_defined: "wf f \<Longrightarrow> \<exists>g. add_all ks f = Some g \<and> wf g"
proof (induction ks arbitrary: f)
  case Nil
  then show ?case by simp
next
  case (Cons k ks)
  then obtain f1 where f1: "add k f = Some f1" using add_defined by blast
  with Cons.prems have "wf f1" by (rule add_wf)
  with Cons.IH f1 show ?case by simp
qed

lemma add_all_keeps:
  "wf f \<Longrightarrow> add_all ks f = Some g \<Longrightarrow> may f k = Some True \<Longrightarrow> may g k = Some True"
proof (induction ks arbitrary: f)
  case Nil
  then show ?case by simp
next
  case (Cons k' ks)
  then obtain f1 where f1: "add k' f = Some f1" using add_defined by blast
  with Cons.prems have "wf f1" by (blast intro: add_wf)
  moreover have "may f1 k = Some True" using add_keeps [OF Cons.prems(1) f1 Cons.prems(3)] .
  moreover have "add_all ks f1 = Some g" using Cons.prems(2) f1 by simp
  ultimately show ?case using Cons.IH by blast
qed

lemma no_false_negative:
  "wf f \<Longrightarrow> add_all ks f = Some g \<Longrightarrow> k \<in> set ks \<Longrightarrow> may g k = Some True"
proof (induction ks arbitrary: f)
  case Nil
  then show ?case by simp
next
  case (Cons k' ks)
  then obtain f1 where f1: "add k' f = Some f1" using add_defined by blast
  with Cons.prems have wf1: "wf f1" by (blast intro: add_wf)
  have rest: "add_all ks f1 = Some g" using Cons.prems(2) f1 by simp
  show ?case
  proof (cases "k \<in> set ks")
    case True
    with wf1 rest show ?thesis by (rule Cons.IH)
  next
    case False
    with Cons.prems(3) have "k = k'" by simp
    with add_member [OF Cons.prems(1) f1] have "may f1 k = Some True" by simp
    with wf1 rest show ?thesis by (rule add_all_keeps)
  qed
qed

end

subsection \<open>The filter as a set of bit positions\<close>

text \<open>
  The positions a key probes, the set bits of the array, and the well-formedness of a filter built
  by a constructor: \<open>bits_\<close> is the length of the array in bits.  The bound keeps the \<open>uint32_t\<close> of
  \<open>MayContain\<close> and the \<open>size_t\<close> of \<open>Add\<close> the same position.
\<close>

fun probes :: "nat \<Rightarrow> u32 \<Rightarrow> str \<Rightarrow> nat \<Rightarrow> nat list" where
  "probes 0 h key n = []"
| "probes (Suc i) h key n = unat h mod n # probes i (ValueCRC32 h key) key n"

definition key_probes :: "bloom \<Rightarrow> str \<Rightarrow> nat set" where
  "key_probes bf key = set (probes (bf_num_hashes bf) (ValueCRC32 0 key) key (8 * length (bf_data bf)))"

definition bit_set :: "bloom \<Rightarrow> nat set" where
  "bit_set bf = {p. p < 8 * length (bf_data bf) \<and> bit (bf_data bf ! (p div 8)) (p mod 8)}"

definition bloom_wf :: "bloom \<Rightarrow> bool" where
  "bloom_wf bf \<longleftrightarrow> unat (bf_bits bf) = 8 * length (bf_data bf) \<and> bf_data bf \<noteq> []"

lemma bit_pos_Add:
  "unat ((ucast (h :: u32) :: u64) mod w) = unat h mod unat w"
  proof -
  have "take_bit 64 (unat h) = unat h"
    by (rule take_bit_nat_eq_self) (rule less_trans [OF unat_u32_bound], simp)
  then show ?thesis by (simp add: unat_mod unsigned_ucast_eq)
qed

lemma bit_pos_MayContain:
  "unat (ucast ((ucast (h :: u32) :: u64) mod w) :: u32) = unat h mod unat w"
proof -
  have "unat h mod unat w \<le> unat h" by (rule mod_less_eq_dividend)
  also have "\<dots> < 2 ^ 32" using unsigned_less [of h] by simp
  finally have "unat h mod unat w < 2 ^ 32" .
  then show ?thesis
    by (simp only: unsigned_ucast_eq bit_pos_Add take_bit_eq_mod) simp
qed

lemma Add_loop_step:
  assumes "unat (bf_bits bf) = 8 * length (bf_data bf)" and "bf_data bf \<noteq> []"
    and p: "p = unat h mod (8 * length (bf_data bf))"
  shows "Add_loop (Suc i) h key bf =
           Add_loop i (ValueCRC32 h key) key
             (bf\<lparr> bf_data := (bf_data bf)[p div 8 := bf_data bf ! (p div 8) OR push_bit (p mod 8) 1] \<rparr>)"
    and "p < 8 * length (bf_data bf)"
proof -
  show lt: "p < 8 * length (bf_data bf)" using assms by simp
  have "bf_bits bf \<noteq> 0" using assms(1,2) by (metis length_0_conv mult_is_0 unat_0 zero_neq_numeral)
  moreover have "\<not> length (bf_data bf) \<le> p div 8" using lt by simp
  ultimately show "Add_loop (Suc i) h key bf =
           Add_loop i (ValueCRC32 h key) key
             (bf\<lparr> bf_data := (bf_data bf)[p div 8 := bf_data bf ! (p div 8) OR push_bit (p mod 8) 1] \<rparr>)"
    by (simp add: Let_def bit_pos_Add assms(1) p [symmetric])
qed

text \<open>Setting one bit adds one position.\<close>

lemma bit_set_update:
  assumes "p < 8 * length (bf_data bf)"
  shows "bit_set (bf\<lparr> bf_data := (bf_data bf)[p div 8 := bf_data bf ! (p div 8) OR push_bit (p mod 8) 1] \<rparr>)
           = insert p (bit_set bf)"
proof -
  have l: "p div 8 < length (bf_data bf)" using assms by simp
  have eq: "q div 8 = p div 8 \<and> q mod 8 = p mod 8 \<longleftrightarrow> q = p" for q :: nat
    by (metis div_mult_mod_eq)
  have "bit ((bf_data bf)[p div 8 := bf_data bf ! (p div 8) OR push_bit (p mod 8) 1] ! (q div 8)) (q mod 8)
          \<longleftrightarrow> bit (bf_data bf ! (q div 8)) (q mod 8) \<or> q = p" for q
  proof (cases "q div 8 = p div 8")
    case True
    have "bit (push_bit (p mod 8) 1 :: byte) (q mod 8) \<longleftrightarrow> q mod 8 = p mod 8"
      by (simp add: bit_exp_iff)
    with True l eq [of q] show ?thesis by (simp add: bit_or_iff)
  next
    case False
    with l show ?thesis by auto
  qed
  with assms show ?thesis by (auto simp: bit_set_def)
qed

lemma Add_loop_bit_set:
  assumes "bloom_wf bf"
  shows "\<exists>g. Add_loop i h key bf = Some g \<and> bloom_wf g \<and> bf_num_hashes g = bf_num_hashes bf \<and>
             bf_bits g = bf_bits bf \<and> length (bf_data g) = length (bf_data bf) \<and>
             bit_set g = bit_set bf \<union> set (probes i h key (8 * length (bf_data bf)))"
  using assms
proof (induction i arbitrary: h bf)
  case 0
  then show ?case by simp
next
  case (Suc i)
  let ?p = "unat h mod (8 * length (bf_data bf))"
  let ?b = "bf\<lparr> bf_data := (bf_data bf)[?p div 8 := bf_data bf ! (?p div 8) OR push_bit (?p mod 8) 1] \<rparr>"
  have wf: "unat (bf_bits bf) = 8 * length (bf_data bf)" "bf_data bf \<noteq> []"
    using Suc.prems by (auto simp: bloom_wf_def)
  have "bloom_wf ?b" using wf by (simp add: bloom_wf_def)
  from Suc.IH [OF this, of "ValueCRC32 h key"] show ?case
    unfolding Add_loop_step(1) [OF wf refl]
    using bit_set_update [OF Add_loop_step(2) [OF wf refl], of h] by (auto simp: )
qed

lemma BF_Add_bit_set:
  assumes "bloom_wf bf"
  shows "\<exists>g. BF_Add key bf = Some g \<and> bloom_wf g \<and> bf_num_hashes g = bf_num_hashes bf \<and>
             bf_bits g = bf_bits bf \<and> length (bf_data g) = length (bf_data bf) \<and>
             bit_set g = bit_set bf \<union> key_probes bf key"
  using Add_loop_bit_set [OF assms] unfolding BF_Add_def key_probes_def by blast

lemma test_bit_and: "(b :: byte) AND push_bit n 1 = 0 \<longleftrightarrow> \<not> bit b n" if "n < 8"
proof -
  have "b AND push_bit n 1 = 0 \<longleftrightarrow> (\<forall>m < 8. \<not> (bit b m \<and> m = n))"
    by (subst bit_eq_iff [of "b AND push_bit n 1" 0]) (simp add: bit_and_iff bit_exp_iff)
  with that show ?thesis by blast
qed

lemma MayContain_loop_bit_set:
  assumes "bloom_wf bf"
  shows "MayContain_loop i h key bf =
           Some (set (probes i h key (8 * length (bf_data bf))) \<subseteq> bit_set bf)"
proof (induction i arbitrary: h)
  case 0
  then show ?case by simp
next
  case (Suc i)
  let ?p = "unat h mod (8 * length (bf_data bf))"
  have wf: "unat (bf_bits bf) = 8 * length (bf_data bf)" "bf_data bf \<noteq> []"
    using assms by (auto simp: bloom_wf_def)
  have lt: "?p < 8 * length (bf_data bf)" using wf by simp
  then have l: "\<not> length (bf_data bf) \<le> ?p div 8" by simp
  have nz: "bf_bits bf \<noteq> 0" using wf by (metis length_0_conv mult_is_0 unat_0 zero_neq_numeral)
  have "MayContain_loop (Suc i) h key bf =
          (if bf_data bf ! (?p div 8) AND push_bit (?p mod 8) 1 = 0 then Some False
           else MayContain_loop i (ValueCRC32 h key) key bf)"
    using nz l by (simp add: Let_def bit_pos_MayContain wf(1))
  also have "bf_data bf ! (?p div 8) AND push_bit (?p mod 8) 1 = 0 \<longleftrightarrow> ?p \<notin> bit_set bf"
    using lt test_bit_and [of "?p mod 8" "bf_data bf ! (?p div 8)"] by (simp add: bit_set_def)
  finally show ?case using Suc.IH by simp
qed

text \<open>\<open>MayContain\<close> says yes exactly when every position the key probes is set.\<close>

lemma BF_MayContain_bit_set:
  assumes "bloom_wf bf"
  shows "BF_MayContain bf key = Some (key_probes bf key \<subseteq> bit_set bf)"
  using MayContain_loop_bit_set [OF assms] assms
  by (auto simp: BF_MayContain_def key_probes_def bloom_wf_def)

text \<open>The filter meets the contract.\<close>

interpretation bf: membership_filter BF_Add BF_MayContain bloom_wf
proof unfold_locales
  fix f k g k'
  assume wf: "bloom_wf f"
  obtain g0 where g0: "BF_Add k f = Some g0" "bloom_wf g0" "bf_num_hashes g0 = bf_num_hashes f"
    "length (bf_data g0) = length (bf_data f)" "bit_set g0 = bit_set f \<union> key_probes f k"
    using BF_Add_bit_set [OF wf] by blast
  then have probes: "key_probes g0 x = key_probes f x" for x by (simp add: key_probes_def)
  show "\<exists>g. BF_Add k f = Some g" using g0 by simp
  assume g: "BF_Add k f = Some g"
  with g0 have gg: "g = g0" by simp
  with g0 show "bloom_wf g" by simp
  show "BF_MayContain g k = Some True" using g0 gg probes by (auto simp: BF_MayContain_bit_set)
  assume "BF_MayContain f k' = Some True"
  then show "BF_MayContain g k' = Some True"
    using g0 gg probes wf by (auto simp: BF_MayContain_bit_set)
qed

lemma BF_add_all_eq: "BF_add_all ks f = bf.add_all ks f"
  proof (induction ks arbitrary: f)
  case Nil
  then show ?case by simp
next
  case (Cons k ks)
  then show ?case by (cases "BF_Add k f") auto
qed

lemma BF_add_all_shape:
  assumes "bloom_wf f" and "BF_add_all ks f = Some g"
  shows "bf_num_hashes g = bf_num_hashes f \<and> length (bf_data g) = length (bf_data f) \<and> bf_bits g = bf_bits f"
  using assms
proof (induction ks arbitrary: f)
  case Nil
  then show ?case by simp
next
  case (Cons k ks)
  obtain f1 where f1: "BF_Add k f = Some f1" "bloom_wf f1" "bf_num_hashes f1 = bf_num_hashes f"
    "bf_bits f1 = bf_bits f" "length (bf_data f1) = length (bf_data f)"
    using BF_Add_bit_set [OF Cons.prems(1)] by blast
  with Cons.prems have "BF_add_all ks f1 = Some g" by simp
  from Cons.IH [OF f1(2) this] f1 show ?case by simp
qed

subsection \<open>Construction and the stored form\<close>

text \<open>With the default 10 bits per key the filter has six hashes and a well-formed array.\<close>

lemma BloomFilter_new_wf:
  assumes "n < 214748364"
  shows "\<exists>f. BloomFilter_new (int n) 10 = Some f \<and> bloom_wf f \<and> bf_num_hashes f = 6 \<and>
             length (bf_data f) = (max 64 (10 * n) + 7) div 8 \<and> bit_set f = {}"
proof -
  let ?b0 = "word_of_int (int n * 10) :: u64"
  have w: "?b0 = word_of_nat (10 * n)" by (simp add: mult.commute)
  have u: "unat ?b0 = 10 * n" unfolding w using assms by (simp only: unat_of_nat) simp
  let ?b = "if ?b0 < 64 then 64 else ?b0"
  have ub: "unat ?b = max 64 (10 * n)" using u by (auto simp: word_less_nat_alt)
  have ub7: "unat (?b + 7) = max 64 (10 * n) + 7"
    using ub assms by (subst unat_plus_if') (simp del: if_image_distrib)
  have ud: "unat ((?b + 7) div 8) = (max 64 (10 * n) + 7) div 8"
    unfolding unat_div ub7 by simp
  have um: "unat ((?b + 7) div 8 * 8) = (max 64 (10 * n) + 7) div 8 * 8"
    using ud assms by (subst unat_mult_lem [THEN iffD1]) auto
  have ul: "unat ((?b + 7) div 8 * 8 div 8) = (max 64 (10 * n) + 7) div 8"
    unfolding unat_div um by simp
  have pos: "0 < (max 64 (10 * n) + 7) div 8" by simp
  show ?thesis
    using assms um ul pos
    by (simp add: BloomFilter_new_def Let_def bloom_wf_def bit_set_def del: of_int_mult of_int_of_nat_eq) auto
qed

lemma BloomFilter_of_raw_serialize:
  assumes "bloom_wf f" and "bf_num_hashes f < 256"
  shows "BloomFilter_of_raw (BF_serialize f) = f"
proof -
  have "word_of_nat (length (bf_data f)) * 8 = bf_bits f"
  proof -
    have "bf_bits f = word_of_nat (unat (bf_bits f))" by simp
    also have "\<dots> = word_of_nat (8 * length (bf_data f))" using assms by (simp add: bloom_wf_def)
    finally show ?thesis by (simp add: mult.commute)
  qed
  with assms show ?thesis by (simp add: BloomFilter_of_raw_def BF_serialize_def)
qed


lemma BF_add_all_bit_set:
  assumes "bloom_wf f" and "BF_add_all ks f = Some g"
  shows "bit_set g = bit_set f \<union> (\<Union>k \<in> set ks. key_probes f k)"
  using assms
proof (induction ks arbitrary: f)
  case Nil
  then show ?case by simp
next
  case (Cons k ks)
  obtain f1 where f1: "BF_Add k f = Some f1" "bloom_wf f1" "bf_num_hashes f1 = bf_num_hashes f"
    "length (bf_data f1) = length (bf_data f)" "bit_set f1 = bit_set f \<union> key_probes f k"
    using BF_Add_bit_set [OF Cons.prems(1)] by blast
  then have "key_probes f1 = key_probes f" by (simp add: key_probes_def fun_eq_iff)
  moreover from f1 Cons.prems have "BF_add_all ks f1 = Some g" by simp
  ultimately show ?case using Cons.IH [OF f1(2)] f1(5) by auto
qed

text \<open>What \<open>Finish\<close> and \<open>Open\<close> do with a filter, in one statement: built, stored, loaded.\<close>

lemma filter_stored:
  assumes "length ks < 214748364"
  shows "\<exists>f g. BloomFilter_new (int (length ks)) 10 = Some f \<and> BF_add_all ks f = Some g \<and> bloom_wf g \<and>
           bf_num_hashes g = 6 \<and> BloomFilter_of_raw (BF_serialize g) = g \<and>
           length (bf_data g) = (max 64 (10 * length ks) + 7) div 8 \<and>
           (\<forall>k \<in> set ks. BF_MayContain g k = Some True)"
proof -
  obtain f where f: "BloomFilter_new (int (length ks)) 10 = Some f" "bloom_wf f" "bf_num_hashes f = 6"
    "length (bf_data f) = (max 64 (10 * length ks) + 7) div 8"
    using BloomFilter_new_wf [OF assms] by blast
  obtain g where g: "BF_add_all ks f = Some g" "bloom_wf g"
    using bf.add_all_defined [OF f(2)] BF_add_all_eq by metis
  have "\<forall>k \<in> set ks. BF_MayContain g k = Some True"
    using bf.no_false_negative [OF f(2)] g(1) by (simp add: BF_add_all_eq)
  moreover have "bf_num_hashes g = 6" "length (bf_data g) = (max 64 (10 * length ks) + 7) div 8"
    using BF_add_all_shape [OF f(2) g(1)] f by auto
  moreover from g(2) this(1) have "BloomFilter_of_raw (BF_serialize g) = g"
    by (simp add: BloomFilter_of_raw_serialize)
  ultimately show ?thesis using f g by blast
qed

subsection \<open>Properties\<close>

text \<open>
  No false negatives, across the disk.  A filter sized for any number of keys (up to the \<open>int\<close>
  range of \<open>entries * 10\<close>), filled with them, written by \<open>Finish\<close> and loaded back by \<open>Open\<close>, is
  built without a fault and reports every one of the keys.
\<close>

theorem bloom_no_false_negatives:
  assumes "length ks < 214748364" and "k \<in> set ks"
  shows "\<exists>f g. BloomFilter_new (int (length ks)) 10 = Some f \<and> BF_add_all ks f = Some g \<and>
           BF_MayContain (BloomFilter_of_raw (BF_serialize g)) k = Some True"
  using filter_stored [OF assms(1)] assms(2) by metis

theorem bloom_no_false_negatives_witness:
  "\<exists>f g. BloomFilter_new 2 10 = Some f \<and> BF_add_all [[1, 2], [3]] f = Some g \<and>
     BF_MayContain (BloomFilter_of_raw (BF_serialize g)) [3] = Some True"
  using bloom_no_false_negatives [of "[[1, 2], [3]]" "[3]"] by simp

text \<open>
  The exact answer of the filter.  After any insertions into a fresh filter, \<open>MayContain\<close> says
  yes exactly when every bit position of the key is a position of some inserted key: its only false
  positives are collisions of positions.
\<close>

theorem bloom_answers_exactly:
  assumes "n < 214748364" and "BloomFilter_new (int n) 10 = Some f" and "BF_add_all ks f = Some g"
  shows "BF_MayContain g key = Some (key_probes f key \<subseteq> (\<Union>k \<in> set ks. key_probes f k))"
proof -
  obtain f' where "BloomFilter_new (int n) 10 = Some f'" "bloom_wf f'" "bit_set f' = {}"
    using BloomFilter_new_wf [OF assms(1)] by blast
  with assms(2) have wf: "bloom_wf f" and em: "bit_set f = {}" by auto
  have "bloom_wf g" using bf.add_all_defined [OF wf, of ks] assms(3) by (simp add: BF_add_all_eq)
  moreover have "key_probes g = key_probes f"
    using BF_add_all_shape [OF wf assms(3)] by (simp add: key_probes_def fun_eq_iff)
  ultimately show ?thesis
    using BF_add_all_bit_set [OF wf assms(3)] em by (simp add: BF_MayContain_bit_set)
qed

theorem bloom_answers_exactly_witness:
  "\<exists>f g. BloomFilter_new 1 10 = Some f \<and> BF_add_all [[7]] f = Some g \<and>
     BF_MayContain g [8] = Some (key_probes f [8] \<subseteq> key_probes f [7])"
proof -
  obtain f g where fg: "BloomFilter_new (int 1) 10 = Some f" "BF_add_all [[7]] f = Some g"
    using filter_stored [of "[[7]]"] by auto
  with bloom_answers_exactly [OF _ fg, of "[8]"] show ?thesis by auto
qed

end
