(* ===== verification/Decimal.thy ===== *)
theory Decimal
  imports Prelude
begin

text \<open>
  Numbers as text: \<open>std::to_string\<close> and the \<open>%06llu\<close> of the file names (\<open>src/src/engine/db.cc\<close>,
  \<open>src/src/datanode/datanode_block_store.cc\<close>), and the value of a digit string.
\<close>

lemma dec_digits_range: "b \<in> set (dec_digits n) \<Longrightarrow> 48 \<le> unat b \<and> unat b < 58"
proof (induction n rule: dec_digits.induct)
  case (1 n)
  have u: "unat (word_of_nat (48 + k) :: byte) = 48 + k" if "k < 10" for k
    by (rule unat_of_nat_byte) (use that in simp)
  show ?case
  proof (cases "n < 10")
    case True
    with "1.prems" have "b = word_of_nat (48 + n)" by (subst (asm) dec_digits.simps) simp
    with u [OF True] True show ?thesis by simp
  next
    case False
    with "1.prems" have "b \<in> set (dec_digits (n div 10)) \<or> b = word_of_nat (48 + n mod 10)"
      by (subst (asm) dec_digits.simps) auto
    with "1.IH" [OF False] u [of "n mod 10"] show ?thesis by auto
  qed
qed

fun digits_val :: "nat \<Rightarrow> str \<Rightarrow> nat" where
  "digits_val acc [] = acc"
| "digits_val acc (d # ds) = digits_val (10 * acc + (unat d - 48)) ds"

lemma digits_val_append: "digits_val acc (xs @ ys) = digits_val (digits_val acc xs) ys"
  by (induction xs arbitrary: acc) auto

lemma digits_val_dec: "digits_val 0 (dec_digits n) = n"
proof (induction n rule: dec_digits.induct)
  case (1 n)
  have u: "unat (word_of_nat (48 + k) :: byte) = 48 + k" if "k < 10" for k
    by (rule unat_of_nat_byte) (use that in simp)
  show ?case
  proof (cases "n < 10")
    case True
    have "digits_val 0 (dec_digits n) = unat (word_of_nat (48 + n) :: byte) - 48"
      by (subst dec_digits.simps) (simp only: True if_True digits_val.simps mult_0_right add_0)
    with u [OF True] show ?thesis by simp
  next
    case False
    have "digits_val 0 (dec_digits n) =
        10 * digits_val 0 (dec_digits (n div 10)) + (unat (word_of_nat (48 + n mod 10) :: byte) - 48)"
      by (subst dec_digits.simps) (simp only: False if_False digits_val_append digits_val.simps)
    with "1" [OF False] u [of "n mod 10"] show ?thesis by simp
  qed
qed

lemma dec_digits_inj: "dec_digits m = dec_digits n \<Longrightarrow> m = n"
  by (metis digits_val_dec)

text \<open>\<open>%06llu\<close>\<close>

definition pad6 :: "u64 \<Rightarrow> str" where
  "pad6 n = (let d = dec_digits (unat n) in replicate (6 - length d) 48 @ d)"

definition is_space :: "byte \<Rightarrow> bool" where
  "is_space b \<longleftrightarrow> b = 32 \<or> (9 \<le> b \<and> b \<le> 13)"

definition digit :: "byte \<Rightarrow> bool" where
  "digit b \<longleftrightarrow> 48 \<le> b \<and> b < 58"

lemma digit_unat: "digit b \<longleftrightarrow> 48 \<le> unat b \<and> unat b < 58"
  by (simp add: digit_def word_le_nat_alt word_less_nat_alt)

lemma pad6_value: "digits_val 0 (pad6 n) = unat n"
proof -
  have "digits_val 0 (replicate k 48) = 0" for k by (induction k) simp_all
  then show ?thesis by (simp add: pad6_def Let_def digits_val_append digits_val_dec)
qed

lemma pad6_digits: "b \<in> set (pad6 n) \<Longrightarrow> digit b"
  using dec_digits_range [of b "unat n"] by (auto simp: pad6_def Let_def digit_unat)

lemma dec_digits_length: "n < 10 ^ k \<Longrightarrow> 0 < k \<Longrightarrow> length (dec_digits n) \<le> k"
proof (induction k arbitrary: n)
  case (Suc k)
  show ?case
  proof (cases "n < 10")
    case False
    then have "0 < k" using Suc.prems by (cases k) auto
    moreover have "n div 10 < 10 ^ k" using Suc.prems by (simp add: less_mult_imp_div_less mult.commute)
    ultimately show ?thesis using Suc.IH [of "n div 10"] False by (subst dec_digits.simps) simp
  qed (subst dec_digits.simps, simp)
qed simp

lemma length_pad6: "unat n < 1000000 \<Longrightarrow> length (pad6 n) = 6"
  using dec_digits_length [of "unat n" 6] by (simp add: pad6_def Let_def)

end
