(* ===== verification/LruCache.thy ===== *)
theory LruCache
  imports Decimal "HOL-Library.AList"
begin

text \<open>
  The block cache of \<open>src/src/engine/LruCache.cc\<close>: a hash map into a doubly linked list with two
  sentinels.  The nodes live in an explicit heap (address to node), so that every pointer write of
  the source is one update and a dereference of \<open>nullptr\<close> or of a deleted node is \<open>None\<close>.  The
  detailed code is shown to implement a list of entries, most recent first.
\<close>

type_synonym block = "(str \<times> str) list"
type_synonym addr = nat

record lru_node =
  lru_key :: str
  lru_data :: block
  lru_prev :: "addr option"
  lru_next :: "addr option"

type_synonym lru_heap = "addr \<Rightarrow> lru_node option"

text \<open>
  \<open>cache_map_\<close> is an association list without repeated keys (the order of an \<open>unordered_map\<close> is
  never used); \<open>lru_brk\<close> is the allocator's next fresh address.
\<close>

record lru_cache =
  lru_capacity :: nat
  lru_map :: "(str \<times> addr) list"
  lru_heap :: lru_heap
  lru_brk :: addr
  lru_head :: addr
  lru_tail :: addr
  lru_hits :: u64
  lru_misses :: u64

definition set_next :: "addr option \<Rightarrow> addr option \<Rightarrow> lru_heap \<Rightarrow> lru_heap option" where
  "set_next p v h = do { a \<leftarrow> p; n \<leftarrow> h a; Some (h(a \<mapsto> n\<lparr> lru_next := v \<rparr>)) }"

definition set_prev :: "addr option \<Rightarrow> addr option \<Rightarrow> lru_heap \<Rightarrow> lru_heap option" where
  "set_prev p v h = do { a \<leftarrow> p; n \<leftarrow> h a; Some (h(a \<mapsto> n\<lparr> lru_prev := v \<rparr>)) }"

definition new_node :: "str \<Rightarrow> block \<Rightarrow> lru_node" where
  "new_node k d = \<lparr> lru_key = k, lru_data = d, lru_prev = None, lru_next = None \<rparr>"

definition LRU_new :: "nat \<Rightarrow> lru_cache" where
  "LRU_new cap =
     \<lparr> lru_capacity = (if cap = 0 then 1 else cap), lru_map = [],
       lru_heap = [0 \<mapsto> (new_node (lit ''__head__'') [])\<lparr> lru_next := Some 1 \<rparr>,
                   1 \<mapsto> (new_node (lit ''__tail__'') [])\<lparr> lru_prev := Some 0 \<rparr>],
       lru_brk = 2, lru_head = 0, lru_tail = 1, lru_hits = 0, lru_misses = 0 \<rparr>"

subsection \<open>List surgery\<close>

definition InsertToFront :: "addr \<Rightarrow> addr \<Rightarrow> lru_heap \<Rightarrow> lru_heap option" where
  "InsertToFront head node h = do {
     hd0 \<leftarrow> h head;
     h1 \<leftarrow> set_next (Some node) (lru_next hd0) h;
     hd1 \<leftarrow> h1 head;
     h2 \<leftarrow> set_prev (lru_next hd1) (Some node) h1;
     h3 \<leftarrow> set_next (Some head) (Some node) h2;
     set_prev (Some node) (Some head) h3 }"

definition RemoveFromList :: "addr \<Rightarrow> lru_heap \<Rightarrow> lru_heap option" where
  "RemoveFromList node h = do {
     n0 \<leftarrow> h node;
     h1 \<leftarrow> set_next (lru_prev n0) (lru_next n0) h;
     n1 \<leftarrow> h1 node;
     h2 \<leftarrow> set_prev (lru_next n1) (lru_prev n1) h1;
     h3 \<leftarrow> set_next (Some node) None h2;
     set_prev (Some node) None h3 }"

definition MoveToFront :: "addr \<Rightarrow> addr \<Rightarrow> lru_heap \<Rightarrow> lru_heap option" where
  "MoveToFront head node h = RemoveFromList node h \<bind> InsertToFront head node"

subsection \<open>The operations\<close>

definition Exict :: "lru_cache \<Rightarrow> lru_cache option" where
  "Exict c = do {
     t \<leftarrow> lru_heap c (lru_tail c);
     lru \<leftarrow> lru_prev t;
     if lru = lru_head c then Some c
     else do {
       h1 \<leftarrow> RemoveFromList lru (lru_heap c);
       n \<leftarrow> h1 lru;
       Some (c\<lparr> lru_heap := h1(lru := None), lru_map := AList.delete (lru_key n) (lru_map c) \<rparr>) } }"

definition LRU_Get :: "str \<Rightarrow> lru_cache \<Rightarrow> (block option \<times> lru_cache) option" where
  "LRU_Get key c =
     (case map_of (lru_map c) key of
        None \<Rightarrow> Some (None, c\<lparr> lru_misses := lru_misses c + 1 \<rparr>)
      | Some node \<Rightarrow> do {
          h1 \<leftarrow> MoveToFront (lru_head c) node (lru_heap c);
          n \<leftarrow> h1 node;
          Some (Some (lru_data n), c\<lparr> lru_heap := h1, lru_hits := lru_hits c + 1 \<rparr>) })"

definition LRU_Insert :: "str \<Rightarrow> block \<Rightarrow> lru_cache \<Rightarrow> lru_cache option" where
  "LRU_Insert key data c =
     (case map_of (lru_map c) key of
        Some node \<Rightarrow> do {
          n \<leftarrow> lru_heap c node;
          h1 \<leftarrow> MoveToFront (lru_head c) node ((lru_heap c)(node \<mapsto> n\<lparr> lru_data := data \<rparr>));
          Some (c\<lparr> lru_heap := h1 \<rparr>) }
      | None \<Rightarrow> do {
          c1 \<leftarrow> (if lru_capacity c \<le> length (lru_map c) then Exict c else Some c);
          let node = lru_brk c1;
          h1 \<leftarrow> InsertToFront (lru_head c1) node ((lru_heap c1)(node \<mapsto> new_node key data));
          Some (c1\<lparr> lru_heap := h1, lru_brk := node + 1,
                    lru_map := AList.update key node (lru_map c1) \<rparr>) })"

definition LRU_Size :: "lru_cache \<Rightarrow> nat" where
  "LRU_Size c = length (lru_map c)"

text \<open>The walk that frees every node between the sentinels.\<close>

partial_function (option) free_from :: "addr \<Rightarrow> addr option \<Rightarrow> lru_heap \<Rightarrow> lru_heap option" where
  "free_from tail cur h =
     (if cur = Some tail then Some h
      else do { a \<leftarrow> cur; n \<leftarrow> h a; free_from tail (lru_next n) (h(a := None)) })"

definition LRU_Clear :: "lru_cache \<Rightarrow> lru_cache option" where
  "LRU_Clear c = do {
     hd0 \<leftarrow> lru_heap c (lru_head c);
     h1 \<leftarrow> free_from (lru_tail c) (lru_next hd0) (lru_heap c);
     h2 \<leftarrow> set_next (Some (lru_head c)) (Some (lru_tail c)) h1;
     h3 \<leftarrow> set_prev (Some (lru_tail c)) (Some (lru_head c)) h2;
     Some (c\<lparr> lru_heap := h3, lru_map := [], lru_hits := 0, lru_misses := 0 \<rparr>) }"

definition LRU_destroy :: "lru_cache \<Rightarrow> lru_heap option" where
  "LRU_destroy c = do {
     hd0 \<leftarrow> lru_heap c (lru_head c);
     h1 \<leftarrow> free_from (lru_tail c) (lru_next hd0) (lru_heap c);
     Some (h1(lru_head c := None, lru_tail c := None)) }"

definition MakeCacheKey :: "str \<Rightarrow> u64 \<Rightarrow> str" where
  "MakeCacheKey filename offset = filename @ lit '':'' @ dec_digits (unat offset)"

subsection \<open>Linked lists in the heap\<close>

definition nx :: "lru_heap \<Rightarrow> addr \<Rightarrow> addr option" where
  "nx h a = h a \<bind> lru_next"

definition pv :: "lru_heap \<Rightarrow> addr \<Rightarrow> addr option" where
  "pv h a = h a \<bind> lru_prev"

fun links :: "lru_heap \<Rightarrow> addr list \<Rightarrow> bool" where
  "links h (x # y # zs) \<longleftrightarrow> nx h x = Some y \<and> pv h y = Some x \<and> links h (y # zs)"
| "links h _ \<longleftrightarrow> True"

lemma links_append:
  "links h (xs @ y # zs) \<longleftrightarrow> links h (xs @ [y]) \<and> links h (y # zs)"
proof (induction xs)
  case Nil
  then show ?case by simp
next
  case (Cons x xs)
  then show ?case by (cases xs) auto
qed

lemma links_cong:
  assumes "\<And>a. a \<in> set (butlast xs) \<Longrightarrow> nx h' a = nx h a" and "\<And>a. a \<in> set (tl xs) \<Longrightarrow> pv h' a = pv h a"
  shows "links h' xs = links h xs"
  using assms
proof (induction xs rule: induct_list012)
  case (3 x y zs)
  have "links h' (y # zs) = links h (y # zs)"
    by (rule "3.IH"(2)) (use "3.prems" in \<open>auto split: if_splits intro: list.set_sel(2)\<close>)
  with "3.prems" show ?case by auto
qed auto

text \<open>Pointer writes, as updates of the two pointer maps; the payload of a node is untouched.\<close>

definition payload :: "lru_heap \<Rightarrow> addr \<Rightarrow> (str \<times> block) option" where
  "payload h a = map_option (\<lambda>n. (lru_key n, lru_data n)) (h a)"

lemma payload_dom: "payload h a = None \<longleftrightarrow> h a = None"
  by (simp add: payload_def)

lemma set_next_spec:
  "h a \<noteq> None \<Longrightarrow> \<exists>h'. set_next (Some a) v h = Some h' \<and> nx h' = (nx h)(a := v) \<and> pv h' = pv h \<and>
     payload h' = payload h"
proof -
  assume "h a \<noteq> None"
  then obtain n where n: "h a = Some n" by auto
  show ?thesis
    by (rule exI [of _ "h(a \<mapsto> n\<lparr> lru_next := v \<rparr>)"])
      (auto simp: set_next_def nx_def pv_def payload_def fun_eq_iff n)
qed

lemma set_prev_spec:
  "h a \<noteq> None \<Longrightarrow> \<exists>h'. set_prev (Some a) v h = Some h' \<and> pv h' = (pv h)(a := v) \<and> nx h' = nx h \<and>
     payload h' = payload h"
proof -
  assume "h a \<noteq> None"
  then obtain n where n: "h a = Some n" by auto
  show ?thesis
    by (rule exI [of _ "h(a \<mapsto> n\<lparr> lru_prev := v \<rparr>)"])
      (auto simp: set_prev_def nx_def pv_def payload_def fun_eq_iff n)
qed

lemma dom_payload_eq: "payload h' = payload h \<Longrightarrow> h' a = None \<longleftrightarrow> h a = None"
  by (metis payload_dom)

lemma InsertToFront_spec:
  assumes l: "links h (hd0 # y # ys)" and d: "distinct (hd0 # y # ys)" and n: "node \<notin> set (hd0 # y # ys)"
    and live: "h hd0 \<noteq> None" "h y \<noteq> None" "h node \<noteq> None"
  shows "\<exists>h'. InsertToFront hd0 node h = Some h' \<and> links h' (hd0 # node # y # ys) \<and> payload h' = payload h"
proof -
  have y: "nx h hd0 = Some y" using l by simp
  obtain n0 where n0: "h hd0 = Some n0" "lru_next n0 = Some y"
    using live(1) y by (auto simp: nx_def)
  obtain h1 where h1: "set_next (Some node) (Some y) h = Some h1" "nx h1 = (nx h)(node := Some y)"
    "pv h1 = pv h" "payload h1 = payload h"
    using set_next_spec [of h node "Some y"] live(3) by blast
  have ne: "hd0 \<noteq> node" "hd0 \<noteq> y" "node \<noteq> y" using n d by auto
  have nx1: "nx h1 hd0 = Some y" using h1(2) y ne by simp
  obtain n1 where n1: "h1 hd0 = Some n1" "lru_next n1 = Some y"
    using nx1 by (cases "h1 hd0") (auto simp: nx_def)
  obtain h2 where h2: "set_prev (Some y) (Some node) h1 = Some h2" "pv h2 = (pv h1)(y := Some node)"
    "nx h2 = nx h1" "payload h2 = payload h1"
    using set_prev_spec [of h1 y "Some node"] live(2) dom_payload_eq [OF h1(4), of y] by metis
  obtain h3 where h3: "set_next (Some hd0) (Some node) h2 = Some h3" "nx h3 = (nx h2)(hd0 := Some node)"
    "pv h3 = pv h2" "payload h3 = payload h2"
    using set_next_spec [of h2 hd0 "Some node"] live(1) dom_payload_eq [OF h1(4), of hd0] dom_payload_eq [OF h2(4), of hd0] by metis
  obtain h4 where h4: "set_prev (Some node) (Some hd0) h3 = Some h4" "pv h4 = (pv h3)(node := Some hd0)"
    "nx h4 = nx h3" "payload h4 = payload h3"
    using set_prev_spec [of h3 node "Some hd0"] live(3) dom_payload_eq [OF h1(4), of node]
      dom_payload_eq [OF h2(4), of node] dom_payload_eq [OF h3(4), of node] by metis
  have run: "InsertToFront hd0 node h = Some h4"
    unfolding InsertToFront_def using n0 n1 h1(1) h2(1) h3(1) h4(1) by simp
  have nx4: "nx h4 = (nx h)(node := Some y, hd0 := Some node)"
    and pv4: "pv h4 = (pv h)(y := Some node, node := Some hd0)"
    using h1 h2 h3 h4 by auto
  have "links h4 (y # ys) = links h (y # ys)"
  proof (rule links_cong)
    fix a assume "a \<in> set (butlast (y # ys))"
    then have "a \<in> set (y # ys)" by (rule in_set_butlastD)
    with n d show "nx h4 a = nx h a" by (auto simp: nx4)
  next
    fix a assume "a \<in> set (tl (y # ys))"
    with n d show "pv h4 a = pv h a" by (auto simp: pv4)
  qed
  with l ne have "links h4 (hd0 # node # y # ys)" by (simp add: nx4 pv4)
  with run h1 h2 h3 h4 show ?thesis by simp
qed

lemma RemoveFromList_spec:
  assumes l: "links h (ps @ p # node # s # ss)" and d: "distinct (ps @ p # node # s # ss)"
    and live: "h p \<noteq> None" "h node \<noteq> None" "h s \<noteq> None"
  shows "\<exists>h'. RemoveFromList node h = Some h' \<and> links h' (ps @ p # s # ss) \<and> payload h' = payload h"
proof -
  have l1: "links h (ps @ [p])" "links h (p # node # s # ss)"
    using l links_append [of h ps p "node # s # ss"] by blast+
  then have pn: "pv h node = Some p" "nx h node = Some s" "links h (s # ss)" by auto
  obtain n0 where n0: "h node = Some n0" "lru_prev n0 = Some p" "lru_next n0 = Some s"
    using pn live(2) by (auto simp: pv_def nx_def)
  have ne: "p \<noteq> node" "p \<noteq> s" "node \<noteq> s" using d by auto
  obtain h1 where h1: "set_next (Some p) (Some s) h = Some h1" "nx h1 = (nx h)(p := Some s)" "pv h1 = pv h"
    "payload h1 = payload h"
    using set_next_spec [of h p "Some s"] live(1) by blast
  have "nx h1 node = Some s" "pv h1 node = Some p" using h1 pn ne by auto
  then obtain n1 where n1: "h1 node = Some n1" "lru_prev n1 = Some p" "lru_next n1 = Some s"
    by (cases "h1 node") (auto simp: pv_def nx_def)
  obtain h2 where h2: "set_prev (Some s) (Some p) h1 = Some h2" "pv h2 = (pv h1)(s := Some p)" "nx h2 = nx h1"
    "payload h2 = payload h1"
    using set_prev_spec [of h1 s "Some p"] live(3) dom_payload_eq [OF h1(4), of s] by metis
  obtain h3 where h3: "set_next (Some node) None h2 = Some h3" "nx h3 = (nx h2)(node := None)"
    "pv h3 = pv h2" "payload h3 = payload h2"
    using set_next_spec [of h2 node None] live(2) dom_payload_eq [OF h1(4), of node] dom_payload_eq [OF h2(4), of node] by metis
  obtain h4 where h4: "set_prev (Some node) None h3 = Some h4" "pv h4 = (pv h3)(node := None)"
    "nx h4 = nx h3" "payload h4 = payload h3"
    using set_prev_spec [of h3 node None] live(2) dom_payload_eq [OF h1(4), of node]
      dom_payload_eq [OF h2(4), of node] dom_payload_eq [OF h3(4), of node] by metis
  have run: "RemoveFromList node h = Some h4"
    unfolding RemoveFromList_def using n0 n1 h1(1) h2(1) h3(1) h4(1) by simp
  have nx4: "nx h4 = (nx h)(p := Some s, node := None)" and pv4: "pv h4 = (pv h)(s := Some p, node := None)"
    using h1 h2 h3 h4 by auto
  have "links h4 (ps @ [p]) = links h (ps @ [p])"
  proof (rule links_cong)
    fix a assume "a \<in> set (butlast (ps @ [p]))"
    with d show "nx h4 a = nx h a" by (auto simp: nx4)
  next
    fix a assume "a \<in> set (tl (ps @ [p]))"
    then have "a \<in> set (ps @ [p])" by (metis list.set_sel(2) tl_Nil)
    with d show "pv h4 a = pv h a" by (auto simp: pv4)
  qed
  moreover have "links h4 (s # ss) = links h (s # ss)"
  proof (rule links_cong)
    fix a assume "a \<in> set (butlast (s # ss))"
    then have "a \<in> set (s # ss)" by (rule in_set_butlastD)
    with d show "nx h4 a = nx h a" by (auto simp: nx4)
  next
    fix a assume "a \<in> set (tl (s # ss))"
    with d show "pv h4 a = pv h a" by (auto simp: pv4)
  qed
  ultimately have "links h4 (ps @ p # s # ss)"
    using l1 pn ne links_append [of h4 ps p "s # ss"] by (simp add: nx4 pv4)
  with run h1 h2 h3 h4 show ?thesis by simp
qed


subsection \<open>The represented list\<close>

text \<open>
  The nodes \<open>as\<close> are linked between the sentinels in both directions, are the only live nodes, and
  the map sends the key of each to its address.
\<close>

definition chain :: "lru_heap \<Rightarrow> addr \<Rightarrow> addr \<Rightarrow> addr list \<Rightarrow> bool" where
  "chain h hd0 tl0 as \<longleftrightarrow> links h (hd0 # as @ [tl0]) \<and> distinct (hd0 # as @ [tl0]) \<and>
     (\<forall>x. h x \<noteq> None \<longleftrightarrow> x \<in> set (hd0 # as @ [tl0]))"

definition entry :: "lru_heap \<Rightarrow> addr \<Rightarrow> str \<times> block" where
  "entry h a = the (payload h a)"

definition lru_inv :: "lru_cache \<Rightarrow> addr list \<Rightarrow> bool" where
  "lru_inv c as \<longleftrightarrow>
     chain (lru_heap c) (lru_head c) (lru_tail c) as \<and>
     (\<forall>x. lru_heap c x \<noteq> None \<longrightarrow> x < lru_brk c) \<and>
     distinct (map fst (lru_map c)) \<and>
     set (lru_map c) = (\<lambda>a. (fst (entry (lru_heap c) a), a)) ` set as \<and>
     distinct (map (fst \<circ> entry (lru_heap c)) as) \<and>
     0 < lru_capacity c \<and> length as \<le> lru_capacity c"

definition lru_list :: "lru_cache \<Rightarrow> addr list \<Rightarrow> (str \<times> block) list" where
  "lru_list c as = map (entry (lru_heap c)) as"

lemma chain_remove:
  assumes "chain h hd0 tl0 as" and "a \<in> set as"
  shows "\<exists>h'. RemoveFromList a h = Some h' \<and> links h' (hd0 # remove1 a as @ [tl0]) \<and> payload h' = payload h"
proof -
  obtain bs cs where as: "as = bs @ a # cs" "a \<notin> set bs" using split_list_first [OF assms(2)] by blast
  obtain ps p where p: "hd0 # bs = ps @ [p]" by (metis append_butlast_last_id list.distinct(1))
  obtain s ss where s: "cs @ [tl0] = s # ss" by (cases "cs @ [tl0]") auto
  have full: "hd0 # as @ [tl0] = ps @ p # a # s # ss" using as p s by (metis append_Cons append_assoc append_Nil)
  have r: "hd0 # remove1 a as @ [tl0] = ps @ p # s # ss"
    using as p s by (simp add: remove1_append)
  have live: "\<forall>x \<in> set (ps @ p # a # s # ss). h x \<noteq> None"
    using assms(1) unfolding chain_def full by blast
  show ?thesis unfolding r
    by (rule RemoveFromList_spec) (use assms(1) live in \<open>auto simp: chain_def full simp del: distinct.simps\<close>)
qed

lemma chain_insert:
  assumes "links h (hd0 # as @ [tl0])" and "distinct (hd0 # as @ [tl0])" and "a \<notin> set (hd0 # as @ [tl0])"
    and "\<forall>x \<in> set (a # hd0 # as @ [tl0]). h x \<noteq> None"
  shows "\<exists>h'. InsertToFront hd0 a h = Some h' \<and> links h' (hd0 # a # as @ [tl0]) \<and> payload h' = payload h"
proof -
  obtain y ys where y: "as @ [tl0] = y # ys" by (cases "as @ [tl0]") auto
  have "y \<in> set (as @ [tl0])" unfolding y by simp
  then show ?thesis using InsertToFront_spec [of h hd0 y ys a] assms unfolding y by auto
qed

lemma chain_move:
  assumes c: "chain h hd0 tl0 as" and a: "a \<in> set as"
  shows "\<exists>h'. MoveToFront hd0 a h = Some h' \<and> chain h' hd0 tl0 (a # remove1 a as) \<and> payload h' = payload h"
proof -
  obtain h1 where h1: "RemoveFromList a h = Some h1" "links h1 (hd0 # remove1 a as @ [tl0])" "payload h1 = payload h"
    using chain_remove [OF assms] by blast
  have d: "distinct (hd0 # as @ [tl0])" and live: "\<And>x. h x \<noteq> None \<longleftrightarrow> x \<in> set (hd0 # as @ [tl0])"
    using c by (auto simp: chain_def)
  have s: "set (remove1 a as) = set as - {a}" using d by (simp add: set_remove1_eq)
  have "\<exists>h'. InsertToFront hd0 a h1 = Some h' \<and> links h' (hd0 # a # remove1 a as @ [tl0]) \<and> payload h' = payload h1"
  proof (rule chain_insert [OF h1(2)])
    show "distinct (hd0 # remove1 a as @ [tl0])" using d by (auto simp: distinct_remove1 s)
    show "a \<notin> set (hd0 # remove1 a as @ [tl0])" using d a by (auto simp: s)
    show "\<forall>x \<in> set (a # hd0 # remove1 a as @ [tl0]). h1 x \<noteq> None"
      using live a by (auto simp: dom_payload_eq [OF h1(3)] s)
  qed
  then obtain h2 where h2: "InsertToFront hd0 a h1 = Some h2" "links h2 (hd0 # a # remove1 a as @ [tl0])"
    "payload h2 = payload h1" by blast
  have "chain h2 hd0 tl0 (a # remove1 a as)"
    unfolding chain_def
  proof (intro conjI allI)
    show "links h2 (hd0 # (a # remove1 a as) @ [tl0])" using h2(2) by simp
    show "distinct (hd0 # (a # remove1 a as) @ [tl0])" using d a by (auto simp: distinct_remove1 s)
    fix x
    have "h2 x \<noteq> None \<longleftrightarrow> x \<in> set (hd0 # as @ [tl0])"
      using live [of x] dom_payload_eq [OF h1(3), of x] dom_payload_eq [OF h2(3), of x] by simp
    then show "h2 x \<noteq> None \<longleftrightarrow> x \<in> set (hd0 # (a # remove1 a as) @ [tl0])" using a by (auto simp: s)
  qed
  with h1 h2 show ?thesis by (simp add: MoveToFront_def)
qed


subsection \<open>The list the cache implements\<close>

text \<open>Most recently used first; the reference the pointer code is compared with.\<close>

definition spec_get :: "str \<Rightarrow> (str \<times> block) list \<Rightarrow> block option \<times> (str \<times> block) list" where
  "spec_get key l =
     (case map_of l key of None \<Rightarrow> (None, l) | Some d \<Rightarrow> (Some d, (key, d) # AList.delete key l))"

definition spec_insert :: "nat \<Rightarrow> str \<Rightarrow> block \<Rightarrow> (str \<times> block) list \<Rightarrow> (str \<times> block) list" where
  "spec_insert cap key d l =
     (if map_of l key \<noteq> None then (key, d) # AList.delete key l
      else (key, d) # (if cap \<le> length l then butlast l else l))"

lemma entry_cong: "payload h' = payload h \<Longrightarrow> entry h' = entry h"
  by (simp add: entry_def fun_eq_iff)

lemma lru_map_of:
  assumes "lru_inv c as"
  shows "map_of (lru_map c) key = Some a \<longleftrightarrow> a \<in> set as \<and> fst (entry (lru_heap c) a) = key"
  using assms unfolding lru_inv_def by (simp add: map_of_eq_Some_iff) auto

lemma lru_map_of_None:
  assumes "lru_inv c as"
  shows "map_of (lru_map c) key = None \<longleftrightarrow> map_of (lru_list c as) key = None"
proof -
  have "fst ` set (lru_map c) = (fst \<circ> entry (lru_heap c)) ` set as"
    using assms by (auto simp: lru_inv_def image_image)
  then show ?thesis by (simp add: map_of_eq_None_iff lru_list_def image_comp)
qed

lemma lru_list_map_of:
  assumes "lru_inv c as" and "a \<in> set as"
  shows "map_of (lru_list c as) (fst (entry (lru_heap c) a)) = Some (snd (entry (lru_heap c) a))"
proof -
  have "distinct (map fst (lru_list c as))" using assms(1) by (simp add: lru_inv_def lru_list_def)
  moreover have "entry (lru_heap c) a \<in> set (lru_list c as)" using assms(2) by (simp add: lru_list_def)
  ultimately show ?thesis by (simp add: map_of_eq_Some_iff)
qed

lemma delete_filter: "AList.delete k l = filter (\<lambda>x. fst x \<noteq> k) l"
  by (auto simp: AList.delete_eq case_prod_beta intro: filter_cong)

lemma map_remove1_delete:
  assumes "distinct (map (fst \<circ> f) as)" and "a \<in> set as"
  shows "map f (remove1 a as) = AList.delete (fst (f a)) (map f as)"
proof -
  have "distinct as" using assms(1) by (simp add: distinct_map)
  then have "remove1 a as = filter (\<lambda>x. x \<noteq> a) as" by (simp add: distinct_remove1_removeAll removeAll_filter_not_eq) metis
  moreover have "filter (\<lambda>x. x \<noteq> a) as = filter (\<lambda>x. fst (f x) \<noteq> fst (f a)) as"
    using assms by (intro filter_cong) (auto simp: distinct_map inj_on_def)
  ultimately show ?thesis by (simp add: delete_filter filter_map comp_def)
qed

lemma lru_map_length:
  assumes "lru_inv c as"
  shows "length (lru_map c) = length as"
proof -
  have "distinct (lru_map c)" using assms by (auto simp: lru_inv_def distinct_map)
  then have "length (lru_map c) = card (set (lru_map c))" by (simp add: distinct_card)
  also have "\<dots> = card (set as)"
  proof -
    have "set (lru_map c) = (\<lambda>a. (fst (entry (lru_heap c) a), a)) ` set as"
      using assms by (simp add: lru_inv_def)
    then show ?thesis by (simp add: card_image inj_on_def)
  qed
  also have "\<dots> = length as" using assms by (auto simp: lru_inv_def chain_def distinct_card)
  finally show ?thesis .
qed

lemma LRU_Get_refines:
  assumes inv: "lru_inv c as"
  shows "\<exists>c' as'. LRU_Get key c = Some (fst (spec_get key (lru_list c as)), c') \<and> lru_inv c' as' \<and>
           lru_list c' as' = snd (spec_get key (lru_list c as)) \<and> lru_capacity c' = lru_capacity c"
proof (cases "map_of (lru_map c) key")
  case None
  then have "map_of (lru_list c as) key = None" using lru_map_of_None [OF inv] by simp
  then have "LRU_Get key c = Some (fst (spec_get key (lru_list c as)), c\<lparr> lru_misses := lru_misses c + 1 \<rparr>) \<and>
      lru_inv (c\<lparr> lru_misses := lru_misses c + 1 \<rparr>) as \<and>
      lru_list (c\<lparr> lru_misses := lru_misses c + 1 \<rparr>) as = snd (spec_get key (lru_list c as))"
    using inv None by (simp add: LRU_Get_def spec_get_def lru_inv_def lru_list_def)
  then show ?thesis by (intro exI [of _ "c\<lparr> lru_misses := lru_misses c + 1 \<rparr>"] exI [of _ as]) simp
next
  case (Some a)
  then have a: "a \<in> set as" and k: "fst (entry (lru_heap c) a) = key" using lru_map_of [OF inv] by auto
  have ch: "chain (lru_heap c) (lru_head c) (lru_tail c) as" using inv by (simp add: lru_inv_def)
  obtain h' where h': "MoveToFront (lru_head c) a (lru_heap c) = Some h'"
    "chain h' (lru_head c) (lru_tail c) (a # remove1 a as)" "payload h' = payload (lru_heap c)"
    using chain_move [OF ch a] by blast
  note e = entry_cong [OF h'(3)]
  have live: "h' a \<noteq> None" using h'(2) by (auto simp: chain_def)
  then obtain n where n: "h' a = Some n" by auto
  then have d: "lru_data n = snd (entry (lru_heap c) a)"
    unfolding e [symmetric] by (simp add: entry_def payload_def)
  let ?c = "c\<lparr> lru_heap := h', lru_hits := lru_hits c + 1 \<rparr>"
  have spec: "spec_get key (lru_list c as) =
      (Some (lru_data n), (key, lru_data n) # AList.delete key (lru_list c as))"
    using lru_list_map_of [OF inv a] by (simp add: spec_get_def k d)
  have inv': "lru_inv ?c (a # remove1 a as)"
    using inv h'(2) a unfolding lru_inv_def
    by (auto simp: e dom_payload_eq [OF h'(3)] set_remove1_eq distinct_map distinct_remove1 inj_on_def
        length_remove1 chain_def)
  have "map (entry (lru_heap c)) (remove1 a as) = AList.delete key (lru_list c as)"
    using map_remove1_delete [of "entry (lru_heap c)" as a] inv a by (simp add: lru_inv_def lru_list_def k)
  then have "lru_list ?c (a # remove1 a as) = (key, lru_data n) # AList.delete key (lru_list c as)"
    by (simp add: lru_list_def e d k [symmetric])
  moreover have "LRU_Get key c = Some (Some (lru_data n), ?c)"
    by (simp add: LRU_Get_def Some h'(1) n)
  ultimately show ?thesis using inv' spec
    by (intro exI [of _ ?c] exI [of _ "a # remove1 a as"]) simp
qed


text \<open>Storing the data of a node in place.\<close>

lemma store_data:
  assumes "h a = Some n"
  shows "chain (h(a \<mapsto> n\<lparr> lru_data := d \<rparr>)) hd0 tl0 as = chain h hd0 tl0 as"
    and "entry (h(a \<mapsto> n\<lparr> lru_data := d \<rparr>)) x = (if x = a then (fst (entry h a), d) else entry h x)"
proof -
  let ?h = "h(a \<mapsto> n\<lparr> lru_data := d \<rparr>)"
  have "nx ?h = nx h" "pv ?h = pv h" using assms by (auto simp: nx_def pv_def fun_eq_iff)
  then have "links ?h xs = links h xs" for xs by (intro links_cong) auto
  moreover have "?h x \<noteq> None \<longleftrightarrow> h x \<noteq> None" for x using assms by simp
  ultimately show "chain ?h hd0 tl0 as = chain h hd0 tl0 as" unfolding chain_def by presburger
  show "entry ?h x = (if x = a then (fst (entry h a), d) else entry h x)"
    using assms by (simp add: entry_def payload_def)
qed

lemma delete_fst_update:
  "AList.delete (fst (f a)) (map (\<lambda>x. if x = a then (fst (f a), d) else f x) as) =
   AList.delete (fst (f a)) (map f as)"
  by (induction as) (auto simp: delete_filter)

lemma LRU_Insert_present:
  assumes inv: "lru_inv c as" and m: "map_of (lru_map c) key = Some a"
  shows "\<exists>c'. LRU_Insert key data c = Some c' \<and> lru_inv c' (a # remove1 a as) \<and>
           lru_list c' (a # remove1 a as) = spec_insert (lru_capacity c) key data (lru_list c as) \<and>
           lru_capacity c' = lru_capacity c"
proof -
  have a: "a \<in> set as" and k: "fst (entry (lru_heap c) a) = key" using lru_map_of [OF inv] m by auto
  have ch: "chain (lru_heap c) (lru_head c) (lru_tail c) as" using inv by (simp add: lru_inv_def)
  then have "lru_heap c a \<noteq> None" using a by (auto simp: chain_def)
  then obtain n where n: "lru_heap c a = Some n" by auto
  let ?h = "(lru_heap c)(a \<mapsto> n\<lparr> lru_data := data \<rparr>)"
  note sd = store_data [where h = "lru_heap c" and a = a and n = n and d = data, OF n]
  obtain h' where h': "MoveToFront (lru_head c) a ?h = Some h'"
    "chain h' (lru_head c) (lru_tail c) (a # remove1 a as)" "payload h' = payload ?h"
    using chain_move [of ?h "lru_head c" "lru_tail c" as a] ch a sd(1) by blast
  note e = entry_cong [OF h'(3)]
  have e': "entry h' = (\<lambda>x. if x = a then (key, data) else entry (lru_heap c) x)"
    using sd(2) by (simp add: e fun_eq_iff k)
  have fst_e: "fst (entry h' x) = fst (entry (lru_heap c) x)" for x by (simp add: e' k)
  let ?c = "c\<lparr> lru_heap := h' \<rparr>"
  have dm: "h' x = None \<longleftrightarrow> lru_heap c x = None" for x using dom_payload_eq [OF h'(3)] n by simp
  have "lru_inv ?c (a # remove1 a as)"
    using inv h'(2) a unfolding lru_inv_def
    by (auto simp: fst_e dm set_remove1_eq distinct_map distinct_remove1 inj_on_def length_remove1 chain_def)
  moreover have "map (entry h') (remove1 a as) = AList.delete key (lru_list c as)"
  proof -
    have "map (entry h') (remove1 a as) = AList.delete (fst (entry h' a)) (map (entry h') as)"
      using map_remove1_delete [of "entry h'" as a] inv a by (simp add: lru_inv_def comp_def fst_e)
    also have "\<dots> = AList.delete key (lru_list c as)"
      using delete_fst_update [of "entry (lru_heap c)" a data as] unfolding k by (simp add: e' k lru_list_def)
    finally show ?thesis .
  qed
  moreover have "map_of (lru_list c as) key \<noteq> None" using lru_list_map_of [OF inv a] by (simp add: k)
  moreover have "LRU_Insert key data c = Some ?c" by (simp add: LRU_Insert_def m n h'(1))
  ultimately show ?thesis
    by (intro exI [of _ ?c]) (simp add: lru_list_def spec_insert_def e' del: not_None_eq)
qed

lemma Exict_spec:
  assumes inv: "lru_inv c (as @ [z])"
  shows "\<exists>c'. Exict c = Some c' \<and> lru_inv c' as \<and> lru_list c' as = lru_list c as \<and>
           lru_capacity c' = lru_capacity c \<and> lru_brk c' = lru_brk c \<and> lru_head c' = lru_head c \<and>
           lru_map c' = AList.delete (fst (entry (lru_heap c) z)) (lru_map c)"
proof -
  let ?h = "lru_heap c" and ?k = "fst (entry (lru_heap c) z)"
  have ch: "chain ?h (lru_head c) (lru_tail c) (as @ [z])" using inv by (simp add: lru_inv_def)
  have d: "distinct (lru_head c # (as @ [z]) @ [lru_tail c])" using ch by (simp add: chain_def)
  have dk: "distinct (map (fst \<circ> entry ?h) (as @ [z]))" using inv by (simp add: lru_inv_def)
  have live: "?h x \<noteq> None \<longleftrightarrow> x \<in> set (lru_head c # (as @ [z]) @ [lru_tail c])" for x
    using ch by (simp add: chain_def)
  have "links ?h ((lru_head c # as) @ z # [lru_tail c])" using ch by (simp add: chain_def)
  then have "links ?h (z # [lru_tail c])" by (rule links_append [THEN iffD1, THEN conjunct2])
  then have "pv ?h (lru_tail c) = Some z" by simp
  moreover obtain t where t: "?h (lru_tail c) = Some t" using live [of "lru_tail c"] by auto
  ultimately have tz: "lru_prev t = Some z" by (simp add: pv_def)
  obtain h1 where h1: "RemoveFromList z ?h = Some h1" "links h1 (lru_head c # remove1 z (as @ [z]) @ [lru_tail c])"
    "payload h1 = payload ?h"
    using chain_remove [OF ch, of z] by auto
  have r: "remove1 z (as @ [z]) = as" using d by (auto simp: remove1_append)
  have ent: "entry h1 = entry ?h" by (rule entry_cong [OF h1(3)])
  obtain n where n: "h1 z = Some n" using dom_payload_eq [OF h1(3), of z] live [of z] by auto
  have "?k = fst (entry h1 z)" by (simp only: ent)
  then have key: "lru_key n = ?k" by (simp add: entry_def payload_def n)
  let ?h2 = "h1(z := None)" and ?m = "AList.delete ?k (lru_map c)"
  let ?c = "c\<lparr> lru_heap := ?h2, lru_map := ?m \<rparr>"
  have ev: "Exict c = Some ?c" using d by (simp add: Exict_def t tz h1(1) n key)
  have e: "entry ?h2 x = entry ?h x" if "x \<noteq> z" for x
  proof -
    have "entry ?h2 x = entry h1 x" using that by (simp add: entry_def payload_def)
    then show ?thesis by (simp only: ent)
  qed
  have "links ?h2 (lru_head c # as @ [lru_tail c]) = links h1 (lru_head c # as @ [lru_tail c])"
  proof (rule links_cong)
    fix a assume "a \<in> set (butlast (lru_head c # as @ [lru_tail c]))"
    then have "a \<in> set (lru_head c # as @ [lru_tail c])" by (rule in_set_butlastD)
    then have "a \<noteq> z" using d by auto
    then show "nx ?h2 a = nx h1 a" by (simp add: nx_def)
  next
    fix a assume "a \<in> set (tl (lru_head c # as @ [lru_tail c]))"
    then have "a \<noteq> z" using d by auto
    then show "pv ?h2 a = pv h1 a" by (simp add: pv_def)
  qed
  moreover have "?h2 x \<noteq> None \<longleftrightarrow> x \<in> set (lru_head c # as @ [lru_tail c])" for x
  proof -
    have "?h2 x \<noteq> None \<longleftrightarrow> x \<noteq> z \<and> ?h x \<noteq> None" using dom_payload_eq [OF h1(3), of x] by (cases "x = z") (simp_all del: not_None_eq)
    also have "\<dots> \<longleftrightarrow> x \<noteq> z \<and> x \<in> set (lru_head c # (as @ [z]) @ [lru_tail c])" using live by simp
    also have "\<dots> \<longleftrightarrow> x \<in> set (lru_head c # as @ [lru_tail c])" using d by auto
    finally show ?thesis .
  qed
  ultimately have ch2: "chain ?h2 (lru_head c) (lru_tail c) as"
    using h1(2) d unfolding chain_def r by simp
  have zk: "fst (entry ?h x) \<noteq> ?k" if "x \<in> set as" for x 
  proof -
    have "?k \<notin> (fst \<circ> entry ?h) ` set as" using dk by simp
    with that show ?thesis by (metis comp_apply imageI)
  qed
  have nz: "x \<noteq> z" if "x \<in> set as" for x using that d by auto
  have "set ?m = (\<lambda>a. (fst (entry ?h2 a), a)) ` set as"
  proof -
    have "set (lru_map c) = (\<lambda>a. (fst (entry ?h a), a)) ` set (as @ [z])" using inv by (simp add: lru_inv_def)
    moreover have "(\<lambda>a. (fst (entry ?h2 a), a)) ` set as = (\<lambda>a. (fst (entry ?h a), a)) ` set as"
      by (intro image_cong) (simp_all add: e nz)
    ultimately show ?thesis using zk by (auto simp: delete_filter)
  qed
  moreover have "map (entry ?h2) as = map (entry ?h) as" by (simp add: e nz)
  moreover have mf: "map (fst \<circ> entry ?h2) as = map (fst \<circ> entry ?h) as" by (simp add: e nz)
  moreover have "\<forall>x. ?h2 x \<noteq> None \<longrightarrow> x < lru_brk c"
  proof (intro allI impI)
    fix x assume "?h2 x \<noteq> None"
    then have "h1 x \<noteq> None" by (simp split: if_splits)
    then have "?h x \<noteq> None" using dom_payload_eq [OF h1(3), of x] by simp
    then show "x < lru_brk c" using inv by (simp add: lru_inv_def del: not_None_eq)
  qed
  moreover have "distinct (map fst ?m)" using inv by (simp add: lru_inv_def AList.distinct_delete)
  moreover have "distinct (map (fst \<circ> entry ?h2) as)" unfolding mf using dk by simp
  moreover have "0 < lru_capacity c" "length as \<le> lru_capacity c" using inv by (auto simp: lru_inv_def)
  ultimately have "lru_inv ?c as" using ch2 unfolding lru_inv_def by simp
  with ev \<open>map (entry ?h2) as = map (entry ?h) as\<close> show ?thesis
    by (intro exI [of _ ?c]) (simp add: lru_list_def)
qed


lemma update_new: "k \<notin> fst ` set l \<Longrightarrow> AList.update k v l = l @ [(k, v)]"
  by (induction l) auto

lemma insert_fresh:
  assumes inv: "lru_inv c as" and room: "length as < lru_capacity c" and new: "map_of (lru_list c as) key = None"
  shows "\<exists>h1. InsertToFront (lru_head c) (lru_brk c) ((lru_heap c)(lru_brk c \<mapsto> new_node key data)) = Some h1 \<and>
    lru_inv (c\<lparr> lru_heap := h1, lru_brk := lru_brk c + 1, lru_map := AList.update key (lru_brk c) (lru_map c) \<rparr>)
      (lru_brk c # as) \<and>
    map (entry h1) (lru_brk c # as) = (key, data) # lru_list c as"
proof -
  let ?n = "lru_brk c" and ?h = "lru_heap c"
  let ?H = "?h(?n \<mapsto> new_node key data)"
  have ch: "chain ?h (lru_head c) (lru_tail c) as" using inv by (simp add: lru_inv_def)
  then have d: "distinct (lru_head c # as @ [lru_tail c])"
    and live: "\<And>x. ?h x \<noteq> None \<longleftrightarrow> x \<in> set (lru_head c # as @ [lru_tail c])"
    and lk: "links ?h (lru_head c # as @ [lru_tail c])" by (simp_all add: chain_def del: not_None_eq)
  have below: "\<And>x. ?h x \<noteq> None \<Longrightarrow> x < ?n" using inv by (simp add: lru_inv_def del: not_None_eq)
  have fresh: "?n \<notin> set (lru_head c # as @ [lru_tail c])" using below live by blast
  have lk0: "links ?H (lru_head c # as @ [lru_tail c])"
  proof (subst links_cong)
    fix a assume "a \<in> set (butlast (lru_head c # as @ [lru_tail c]))"
    then have "a \<in> set (lru_head c # as @ [lru_tail c])" by (rule in_set_butlastD)
    with fresh have "a \<noteq> ?n" by blast
    then show "nx ?H a = nx ?h a" by (simp add: nx_def)
  next
    fix a assume "a \<in> set (tl (lru_head c # as @ [lru_tail c]))"
    with fresh have "a \<noteq> ?n" by auto
    then show "pv ?H a = pv ?h a" by (simp add: pv_def)
  qed (rule lk)
  have live0: "\<forall>x \<in> set (?n # lru_head c # as @ [lru_tail c]). ?H x \<noteq> None" using live by simp
  obtain h1 where h1: "InsertToFront (lru_head c) ?n ?H = Some h1"
    "links h1 (lru_head c # ?n # as @ [lru_tail c])" "payload h1 = payload ?H"
    using chain_insert [OF lk0 d fresh live0] by blast
  have ent: "entry h1 = (entry ?h)(?n := (key, data))"
    unfolding entry_cong [OF h1(3)] by (auto simp: entry_def payload_def new_node_def)
  have dm: "h1 x \<noteq> None \<longleftrightarrow> x = ?n \<or> ?h x \<noteq> None" for x
    using dom_payload_eq [OF h1(3), of x] by (simp del: not_None_eq)
  let ?c = "c\<lparr> lru_heap := h1, lru_brk := ?n + 1, lru_map := AList.update key ?n (lru_map c) \<rparr>"
  have keys: "key \<notin> (fst \<circ> entry ?h) ` set as" using new by (simp add: map_of_eq_None_iff lru_list_def image_comp)
  have "chain h1 (lru_head c) (lru_tail c) (?n # as)"
    using h1(2) d fresh unfolding chain_def dm live by auto
  moreover have "\<forall>x. h1 x \<noteq> None \<longrightarrow> x < ?n + 1" unfolding dm using below less_SucI [of _ ?n] by (metis Suc_eq_plus1 lessI)
  moreover have ks: "key \<notin> fst ` set (lru_map c)"
    using keys inv by (auto simp: lru_inv_def image_image)
  moreover have "set (AList.update key ?n (lru_map c)) = (\<lambda>a. (fst (entry h1 a), a)) ` set (?n # as)"
  proof -
    have "(\<lambda>a. (fst (entry h1 a), a)) ` set as = (\<lambda>a. (fst (entry ?h a), a)) ` set as"
      using fresh by (intro image_cong) (auto simp: ent)
    then show ?thesis using inv ks by (simp add: update_new lru_inv_def ent)
  qed
  moreover
  have m: "map (entry h1) as = map (entry ?h) as" using fresh by (auto simp: ent)
  have mf: "map (fst \<circ> entry h1) as = map (fst \<circ> entry ?h) as" by (simp only: m map_map [symmetric])
  have "distinct (map (fst \<circ> entry h1) (?n # as))"
  proof -
    have "distinct (map (fst \<circ> entry ?h) as)" using inv by (simp add: lru_inv_def)
    moreover have "(fst \<circ> entry h1) ?n \<notin> set (map (fst \<circ> entry ?h) as)" using keys by (simp add: ent)
    ultimately show ?thesis unfolding list.map distinct.simps mf by blast
  qed
  ultimately have "lru_inv ?c (?n # as)"
    using inv room by (simp add: lru_inv_def AList.distinct_update del: not_None_eq)
  with h1 m show ?thesis by (intro exI [of _ h1]) (simp add: ent lru_list_def)
qed

lemma LRU_Insert_absent:
  assumes inv: "lru_inv c as" and m: "map_of (lru_map c) key = None"
  shows "\<exists>c' as'. LRU_Insert key data c = Some c' \<and> lru_inv c' as' \<and>
           lru_list c' as' = spec_insert (lru_capacity c) key data (lru_list c as) \<and>
           lru_capacity c' = lru_capacity c"
proof -
  have absent: "map_of (lru_list c as) key = None" using lru_map_of_None [OF inv] m by simp
  obtain c1 as1 where c1: "(if lru_capacity c \<le> length (lru_map c) then Exict c else Some c) = Some c1"
    "lru_inv c1 as1" "length as1 < lru_capacity c1" "lru_capacity c1 = lru_capacity c"
    "lru_list c1 as1 = (if lru_capacity c \<le> length as then butlast (lru_list c as) else lru_list c as)"
  proof (cases "lru_capacity c \<le> length as")
    case True
    moreover have "0 < lru_capacity c" "length as \<le> lru_capacity c" using inv by (auto simp: lru_inv_def)
    ultimately have "as \<noteq> []" by auto
    then obtain bs z where z: "as = bs @ [z]" by (cases as rule: rev_cases) auto
    with inv obtain c1 where c1: "Exict c = Some c1" "lru_inv c1 bs" "lru_list c1 bs = lru_list c bs"
      "lru_capacity c1 = lru_capacity c" using Exict_spec [of c bs z] by blast
    have "length bs < lru_capacity c1" using z c1(4) \<open>length as \<le> lru_capacity c\<close> by simp
    moreover have "lru_list c bs = butlast (lru_list c as)" by (simp add: z lru_list_def)
    ultimately show thesis
      using that [of c1 bs] True c1 by (simp add: lru_map_length [OF inv])
  next
    case False
    then show thesis using that [of c as] inv by (simp add: lru_map_length [OF inv])
  qed
  have absent1: "map_of (lru_list c1 as1) key = None"
  proof -
    have "set (lru_list c1 as1) \<subseteq> set (lru_list c as)" unfolding c1(5) by (auto dest: in_set_butlastD)
    with absent show ?thesis unfolding map_of_eq_None_iff by blast
  qed
  then obtain h1 where h1:
    "InsertToFront (lru_head c1) (lru_brk c1) ((lru_heap c1)(lru_brk c1 \<mapsto> new_node key data)) = Some h1"
    "lru_inv (c1\<lparr> lru_heap := h1, lru_brk := lru_brk c1 + 1, lru_map := AList.update key (lru_brk c1) (lru_map c1) \<rparr>)
      (lru_brk c1 # as1)"
    "map (entry h1) (lru_brk c1 # as1) = (key, data) # lru_list c1 as1"
    using insert_fresh [OF c1(2,3) absent1, of data] by (elim exE conjE) (rule that)
  let ?c = "c1\<lparr> lru_heap := h1, lru_brk := lru_brk c1 + 1, lru_map := AList.update key (lru_brk c1) (lru_map c1) \<rparr>"
  have "LRU_Insert key data c = Some ?c" 
    unfolding LRU_Insert_def m option.case c1(1) Let_def bind.bind_lunit h1(1) by (rule refl)
  moreover have "lru_list ?c (lru_brk c1 # as1) = spec_insert (lru_capacity c) key data (lru_list c as)"
  proof -
    have "lru_list ?c (lru_brk c1 # as1) = (key, data) # lru_list c1 as1" using h1(3) by (simp add: lru_list_def)
    also have "\<dots> = spec_insert (lru_capacity c) key data (lru_list c as)"
      unfolding spec_insert_def c1(5) absent by (simp add: lru_list_def)
    finally show ?thesis .
  qed
  ultimately show ?thesis using h1(2) c1(4)
    by (intro exI [of _ ?c] exI [of _ "lru_brk c1 # as1"]) simp
qed

lemma LRU_Insert_refines:
  assumes inv: "lru_inv c as"
  shows "\<exists>c' as'. LRU_Insert key data c = Some c' \<and> lru_inv c' as' \<and>
           lru_list c' as' = spec_insert (lru_capacity c) key data (lru_list c as) \<and>
           lru_capacity c' = lru_capacity c"
  using LRU_Insert_present [OF inv, of key] LRU_Insert_absent [OF inv, of key]
  by (cases "map_of (lru_map c) key") blast+


subsection \<open>Freeing the list\<close>

lemma free_from_chain:
  assumes "links h (xs @ [tl0])" and "distinct (xs @ [tl0])" and "\<forall>x \<in> set xs. h x \<noteq> None"
  shows "free_from tl0 (Some (hd (xs @ [tl0]))) h = Some (\<lambda>a. if a \<in> set xs then None else h a)"
  using assms
proof (induction xs arbitrary: h)
  case Nil
  then show ?case by (subst free_from.simps) simp
next
  case (Cons x xs)
  then obtain n where n: "h x = Some n" by auto
  obtain y ys where y: "xs @ [tl0] = y # ys" by (cases "xs @ [tl0]") auto
  then have lk: "nx h x = Some y" "links h (xs @ [tl0])" using Cons.prems(1) by auto
  then have ny: "lru_next n = Some (hd (xs @ [tl0]))" by (simp add: nx_def n y)
  have x: "x \<noteq> tl0" "x \<notin> set (xs @ [tl0])" using Cons.prems(2) by auto
  have "links (h(x := None)) (xs @ [tl0]) = links h (xs @ [tl0])"
  proof (rule links_cong)
    fix a assume "a \<in> set (butlast (xs @ [tl0]))"
    with x show "nx (h(x := None)) a = nx h a" by (auto simp: nx_def)
  next
    fix a assume "a \<in> set (tl (xs @ [tl0]))"
    then have "a \<in> set (xs @ [tl0])" by (metis list.set_sel(2) tl_Nil)
    with x have "a \<noteq> x" by blast
    then show "pv (h(x := None)) a = pv h a" by (simp add: pv_def)
  qed
  with lk have lk1: "links (h(x := None)) (xs @ [tl0])" by blast
  have "\<forall>y \<in> set xs. (h(x := None)) y \<noteq> None" using Cons.prems x by auto
  with lk1 Cons.prems have "free_from tl0 (Some (hd (xs @ [tl0]))) (h(x := None)) =
               Some (\<lambda>a. if a \<in> set xs then None else (h(x := None)) a)"
    by (intro Cons.IH [OF lk1]) simp_all
  moreover have "free_from tl0 (Some x) h = free_from tl0 (lru_next n) (h(x := None))"
    by (subst free_from.simps) (simp add: x n)
  ultimately show ?case by (auto simp: ny fun_eq_iff)
qed

lemma free_all:
  assumes inv: "lru_inv c as"
  shows "\<exists>hd0 h1. lru_heap c (lru_head c) = Some hd0 \<and> free_from (lru_tail c) (lru_next hd0) (lru_heap c) = Some h1 \<and>
    (\<forall>a. h1 a = (if a \<in> set as then None else lru_heap c a))"
proof -
  have ch: "chain (lru_heap c) (lru_head c) (lru_tail c) as" using inv by (simp add: lru_inv_def)
  then have lk: "links (lru_heap c) (lru_head c # as @ [lru_tail c])" and d: "distinct (as @ [lru_tail c])"
    and live: "\<forall>x \<in> set as. lru_heap c x \<noteq> None" and "lru_heap c (lru_head c) \<noteq> None"
    by (auto simp: chain_def)
  then obtain n where n: "lru_heap c (lru_head c) = Some n" by auto
  obtain y ys where y: "as @ [lru_tail c] = y # ys" by (cases "as @ [lru_tail c]") auto
  then have "nx (lru_heap c) (lru_head c) = Some y" "links (lru_heap c) (as @ [lru_tail c])" using lk by auto
  then have "lru_next n = Some (hd (as @ [lru_tail c]))" by (simp add: nx_def n y)
  with free_from_chain [OF \<open>links (lru_heap c) (as @ [lru_tail c])\<close> d live] n show ?thesis by auto
qed

lemma LRU_Clear_spec:
  assumes inv: "lru_inv c as"
  shows "\<exists>c'. LRU_Clear c = Some c' \<and> lru_inv c' [] \<and> lru_capacity c' = lru_capacity c"
proof -
  let ?a = "lru_head c" and ?z = "lru_tail c"
  obtain hd0 h1 where h1: "lru_heap c ?a = Some hd0" "free_from ?z (lru_next hd0) (lru_heap c) = Some h1"
    "\<forall>a. h1 a = (if a \<in> set as then None else lru_heap c a)"
    using free_all [OF inv] by blast
  have d: "?a \<noteq> ?z" "?a \<notin> set as" "?z \<notin> set as"
    and live: "\<And>x. lru_heap c x \<noteq> None \<longleftrightarrow> x = ?a \<or> x \<in> set as \<or> x = ?z"
    and below: "\<And>x. lru_heap c x \<noteq> None \<Longrightarrow> x < lru_brk c" and cap: "0 < lru_capacity c"
    using inv by (auto simp: lru_inv_def chain_def)
  have dm1: "h1 x \<noteq> None \<longleftrightarrow> x = ?a \<or> x = ?z" for x using h1(3) live [of x] d by auto
  obtain h2 where h2: "set_next (Some ?a) (Some ?z) h1 = Some h2" "nx h2 = (nx h1)(?a := Some ?z)"
    "payload h2 = payload h1" using set_next_spec [of h1 ?a "Some ?z"] dm1 by blast
  have dm2: "h2 x \<noteq> None \<longleftrightarrow> x = ?a \<or> x = ?z" for x
    using dm1 [of x] dom_payload_eq [OF h2(3), of x] by simp
  obtain h3 where h3: "set_prev (Some ?z) (Some ?a) h2 = Some h3" "pv h3 = (pv h2)(?z := Some ?a)"
    "nx h3 = nx h2" "payload h3 = payload h2" using set_prev_spec [of h2 ?z "Some ?a"] dm2 by blast
  have dm3: "h3 x \<noteq> None \<longleftrightarrow> x = ?a \<or> x = ?z" for x
    using dm2 [of x] dom_payload_eq [OF h3(4), of x] by simp
  let ?c = "c\<lparr> lru_heap := h3, lru_map := [], lru_hits := 0, lru_misses := 0 \<rparr>"
  have "LRU_Clear c = Some ?c" by (simp add: LRU_Clear_def h1(1,2) h2(1) h3(1))
  moreover have "chain h3 ?a ?z []" unfolding chain_def dm3 using d by (simp add: h3(2,3) h2(2))
  moreover have "\<forall>x. h3 x \<noteq> None \<longrightarrow> x < lru_brk c" unfolding dm3 using below live by blast
  ultimately show ?thesis using cap by (intro exI [of _ ?c]) (simp add: lru_inv_def del: not_None_eq)
qed

lemma LRU_destroy_spec:
  assumes inv: "lru_inv c as"
  shows "LRU_destroy c = Some (\<lambda>a. None)"
proof -
  obtain hd0 h1 where h1: "lru_heap c (lru_head c) = Some hd0"
    "free_from (lru_tail c) (lru_next hd0) (lru_heap c) = Some h1"
    "\<forall>a. h1 a = (if a \<in> set as then None else lru_heap c a)"
    using free_all [OF inv] by blast
  have "\<And>x. lru_heap c x = None \<longleftrightarrow> x \<noteq> lru_head c \<and> x \<notin> set as \<and> x \<noteq> lru_tail c"
    using inv by (auto simp: lru_inv_def chain_def simp del: not_None_eq)
  with h1(3) have "h1(lru_head c := None, lru_tail c := None) = (\<lambda>a. None)" by (auto simp: fun_eq_iff)
  with h1 show ?thesis by (simp add: LRU_destroy_def)
qed

subsection \<open>The contract a reader of the cache relies on\<close>

text \<open>
  A lookup never fails, answers from the contents and does not change them; after an insertion the
  key is present and nothing else appeared (other entries may have been evicted).
\<close>

locale read_cache =
  fixes get :: "'k \<Rightarrow> 'c \<Rightarrow> ('v option \<times> 'c) option"
    and ins :: "'k \<Rightarrow> 'v \<Rightarrow> 'c \<Rightarrow> 'c option"
    and contents :: "'c \<Rightarrow> 'k \<Rightarrow> 'v option"
    and inv :: "'c \<Rightarrow> bool"
  assumes get_spec: "inv c \<Longrightarrow> \<exists>c'. get k c = Some (contents c k, c') \<and> inv c' \<and> contents c' = contents c"
    and ins_spec: "inv c \<Longrightarrow> \<exists>c'. ins k v c = Some c' \<and> inv c' \<and> contents c' k = Some v \<and>
                     contents c' \<subseteq>\<^sub>m (contents c)(k \<mapsto> v)"
begin

text \<open>The read path every user of the cache has: ask the cache, else load and insert.\<close>

definition read_through :: "('k \<Rightarrow> 'v option) \<Rightarrow> 'k \<Rightarrow> 'c \<Rightarrow> ('v option \<times> 'c) option" where
  "read_through load k c = do {
     (r, c1) \<leftarrow> get k c;
     case r of Some v \<Rightarrow> Some (Some v, c1)
     | None \<Rightarrow> (case load k of None \<Rightarrow> Some (None, c1)
                | Some v \<Rightarrow> do { c2 \<leftarrow> ins k v c1; Some (Some v, c2) }) }"

text \<open>A cache that only holds what the disk holds stays so, and the answer is the disk's.\<close>

lemma read_through_transparent:
  assumes "inv c" and "contents c \<subseteq>\<^sub>m load"
  shows "\<exists>c'. read_through load k c = Some (load k, c') \<and> inv c' \<and> contents c' \<subseteq>\<^sub>m load"
proof -
  obtain c1 where c1: "get k c = Some (contents c k, c1)" "inv c1" "contents c1 = contents c"
    using get_spec [OF assms(1)] by blast
  show ?thesis
  proof (cases "contents c k")
    case (Some v)
    with assms(2) have "load k = Some v" by (auto simp: map_le_def dom_def)
    with Some c1 assms(2) show ?thesis by (simp add: read_through_def)
  next
    case None
    show ?thesis
    proof (cases "load k")
      case (Some v)
      obtain c2 where c2: "ins k v c1 = Some c2" "inv c2" "contents c2 \<subseteq>\<^sub>m (contents c1)(k \<mapsto> v)"
        using ins_spec [OF c1(2)] by blast
      have "(contents c1)(k \<mapsto> v) \<subseteq>\<^sub>m load" using assms(2) Some by (auto simp: c1(3) map_le_def)
      with c2 have "contents c2 \<subseteq>\<^sub>m load" by (blast intro: map_le_trans)
      with None Some c1 c2 show ?thesis by (simp add: read_through_def)
    qed (use None c1 assms in \<open>simp add: read_through_def\<close>)
  qed
qed

end

definition lru_contents :: "lru_cache \<Rightarrow> str \<Rightarrow> block option" where
  "lru_contents c k = map_of (lru_map c) k \<bind> (\<lambda>a. map_option lru_data (lru_heap c a))"

definition lru_wf :: "lru_cache \<Rightarrow> bool" where
  "lru_wf c \<longleftrightarrow> (\<exists>as. lru_inv c as)"

lemma lru_contents_list:
  assumes "lru_inv c as"
  shows "lru_contents c = map_of (lru_list c as)"
proof
  fix k
  show "lru_contents c k = map_of (lru_list c as) k"
  proof (cases "map_of (lru_map c) k")
    case None
    then show ?thesis using lru_map_of_None [OF assms, of k] by (simp add: lru_contents_def)
  next
    case (Some a)
    then have a: "a \<in> set as" "fst (entry (lru_heap c) a) = k" using lru_map_of [OF assms] by auto
    then have "lru_heap c a \<noteq> None" using assms by (auto simp: lru_inv_def chain_def)
    then obtain n where "lru_heap c a = Some n" by auto
    with Some lru_list_map_of [OF assms a(1)] a(2) show ?thesis
      by (simp add: lru_contents_def entry_def payload_def)
  qed
qed

lemma map_of_butlast_le: "distinct (map fst l) \<Longrightarrow> map_of (butlast l) \<subseteq>\<^sub>m map_of l"
proof (cases l rule: rev_cases)
  case (snoc xs x)
  assume "distinct (map fst l)"
  with snoc show ?thesis by (auto simp: map_le_def map_add_def dom_map_of_conv_image_fst split: option.splits)
qed simp

interpretation lru: read_cache LRU_Get LRU_Insert lru_contents lru_wf
proof unfold_locales
  fix c k v
  assume "lru_wf c"
  then obtain as where inv: "lru_inv c as" by (auto simp: lru_wf_def)
  obtain c' as' where c': "LRU_Get k c = Some (fst (spec_get k (lru_list c as)), c')" "lru_inv c' as'"
    "lru_list c' as' = snd (spec_get k (lru_list c as))" using LRU_Get_refines [OF inv] by blast
  have "lru_contents c' = lru_contents c"
    unfolding lru_contents_list [OF c'(2)] lru_contents_list [OF inv] c'(3)
    by (auto simp: spec_get_def fun_eq_iff AList.delete_conv' split: option.splits)
  moreover have "fst (spec_get k (lru_list c as)) = lru_contents c k"
    unfolding lru_contents_list [OF inv] by (simp add: spec_get_def split: option.splits)
  ultimately show "\<exists>c'. LRU_Get k c = Some (lru_contents c k, c') \<and> lru_wf c' \<and> lru_contents c' = lru_contents c"
    using c' by (auto simp: lru_wf_def)
  obtain d as'' where d: "LRU_Insert k v c = Some d" "lru_inv d as''"
    "lru_list d as'' = spec_insert (lru_capacity c) k v (lru_list c as)" using LRU_Insert_refines [OF inv] by blast
  have "map_of (butlast (lru_list c as)) \<subseteq>\<^sub>m map_of (lru_list c as)"
    using inv by (intro map_of_butlast_le) (simp add: lru_inv_def lru_list_def)
  then have "lru_contents d k = Some v \<and> lru_contents d \<subseteq>\<^sub>m (lru_contents c)(k \<mapsto> v)"
    unfolding lru_contents_list [OF d(2)] lru_contents_list [OF inv] d(3)
    by (auto simp: spec_insert_def map_le_def dom_def AList.delete_conv')
  then show "\<exists>c'. LRU_Insert k v c = Some c' \<and> lru_wf c' \<and> lru_contents c' k = Some v \<and>
      lru_contents c' \<subseteq>\<^sub>m (lru_contents c)(k \<mapsto> v)"
    using d by (auto simp: lru_wf_def)
qed


subsection \<open>Sequences of calls\<close>

datatype lru_op = OpGet str | OpInsert str block | OpClear

fun lru_step :: "lru_op \<Rightarrow> lru_cache \<Rightarrow> (block option \<times> lru_cache) option" where
  "lru_step (OpGet k) c = LRU_Get k c"
| "lru_step (OpInsert k d) c = do { c' \<leftarrow> LRU_Insert k d c; Some (None, c') }"
| "lru_step OpClear c = do { c' \<leftarrow> LRU_Clear c; Some (None, c') }"

fun spec_step :: "nat \<Rightarrow> lru_op \<Rightarrow> (str \<times> block) list \<Rightarrow> block option \<times> (str \<times> block) list" where
  "spec_step cap (OpGet k) l = spec_get k l"
| "spec_step cap (OpInsert k d) l = (None, spec_insert cap k d l)"
| "spec_step cap OpClear l = (None, [])"

fun lru_run :: "lru_op list \<Rightarrow> lru_cache \<Rightarrow> (block option list \<times> lru_cache) option" where
  "lru_run [] c = Some ([], c)"
| "lru_run (x # xs) c = do { (r, c1) \<leftarrow> lru_step x c; (rs, c2) \<leftarrow> lru_run xs c1; Some (r # rs, c2) }"

fun spec_run :: "nat \<Rightarrow> lru_op list \<Rightarrow> (str \<times> block) list \<Rightarrow> block option list \<times> (str \<times> block) list" where
  "spec_run cap [] l = ([], l)"
| "spec_run cap (x # xs) l = (let (r, l1) = spec_step cap x l; (rs, l2) = spec_run cap xs l1 in (r # rs, l2))"

lemma lru_step_refines:
  assumes "lru_inv c as"
  shows "\<exists>c' as'. lru_step x c = Some (fst (spec_step (lru_capacity c) x (lru_list c as)), c') \<and> lru_inv c' as' \<and>
           lru_list c' as' = snd (spec_step (lru_capacity c) x (lru_list c as)) \<and> lru_capacity c' = lru_capacity c"
proof (cases x)
  case (OpGet k)
  with LRU_Get_refines [OF assms, of k] show ?thesis by simp
next
  case (OpInsert k d)
  with LRU_Insert_refines [OF assms, of k d] show ?thesis by fastforce
next
  case OpClear
  obtain c' where "LRU_Clear c = Some c'" "lru_inv c' []" "lru_capacity c' = lru_capacity c"
    using LRU_Clear_spec [OF assms] by blast
  with OpClear show ?thesis by (intro exI [of _ c'] exI [of _ "[]"]) (simp add: lru_list_def)
qed

lemma lru_run_refines:
  assumes "lru_inv c as"
  shows "\<exists>c' as'. lru_run xs c = Some (fst (spec_run (lru_capacity c) xs (lru_list c as)), c') \<and> lru_inv c' as' \<and>
           lru_list c' as' = snd (spec_run (lru_capacity c) xs (lru_list c as)) \<and> lru_capacity c' = lru_capacity c"
  using assms
proof (induction xs arbitrary: c as)
  case Nil
  then show ?case by (intro exI [of _ c] exI [of _ as]) simp
next
  case (Cons x xs)
  obtain c1 as1 where c1: "lru_step x c = Some (fst (spec_step (lru_capacity c) x (lru_list c as)), c1)"
    "lru_inv c1 as1" "lru_list c1 as1 = snd (spec_step (lru_capacity c) x (lru_list c as))"
    "lru_capacity c1 = lru_capacity c" using lru_step_refines [OF Cons.prems] by blast
  obtain c2 as2 where c2: "lru_run xs c1 = Some (fst (spec_run (lru_capacity c1) xs (lru_list c1 as1)), c2)"
    "lru_inv c2 as2" "lru_list c2 as2 = snd (spec_run (lru_capacity c1) xs (lru_list c1 as1))"
    "lru_capacity c2 = lru_capacity c1" using Cons.IH [OF c1(2)] by blast
  from c1 c2 show ?case
    by (intro exI [of _ c2] exI [of _ as2]) (simp add: case_prod_beta Let_def)
qed

lemma LRU_new_inv: "lru_inv (LRU_new cap) []"
  by (auto simp: LRU_new_def lru_inv_def chain_def nx_def pv_def new_node_def)

lemma lru_capacity_new: "lru_capacity (LRU_new cap) = max 1 cap"
  by (auto simp: LRU_new_def)

subsection \<open>The cache key\<close>

lemma takeWhile_sep: "c \<notin> set ds \<Longrightarrow> takeWhile (\<lambda>x. x \<noteq> c) (ds @ c # xs) = ds"
  by (induction ds) auto

lemma split_last_sep:
  assumes "xs @ [c] @ ds = ys @ [c] @ es" and "c \<notin> set ds" and "c \<notin> set es"
  shows "xs = ys \<and> ds = es"
proof -
  have rv: "rev ds @ c # rev xs = rev es @ c # rev ys" using arg_cong [OF assms(1), of rev] by simp
  have "rev ds = takeWhile (\<lambda>x. x \<noteq> c) (rev ds @ c # rev xs)" using assms(2) by (simp add: takeWhile_sep)
  also have "\<dots> = rev es" using assms(3) by (simp add: rv takeWhile_sep)
  finally have "ds = es" by simp
  with assms(1) show ?thesis by simp
qed

subsection \<open>Properties\<close>

text \<open>
  C39: the cache implements an LRU list.  Whatever sequence of lookups, insertions and \<open>Clear\<close> is
  applied to a new cache, no pointer operation faults, every lookup answers what a list kept in
  order of use and cut at the capacity answers, and the final contents are that list.
\<close>

theorem lru_implements_list:
  "\<exists>c as. lru_run xs (LRU_new cap) = Some (fst (spec_run (max 1 cap) xs []), c) \<and> lru_inv c as \<and>
     lru_list c as = snd (spec_run (max 1 cap) xs []) \<and> LRU_Size c \<le> max 1 cap"
proof -
  have "lru_list (LRU_new cap) [] = []" by (simp add: lru_list_def)
  with lru_run_refines [OF LRU_new_inv, of xs cap] obtain c as where
    c: "lru_run xs (LRU_new cap) = Some (fst (spec_run (max 1 cap) xs []), c)" "lru_inv c as"
      "lru_list c as = snd (spec_run (max 1 cap) xs [])" "lru_capacity c = max 1 cap"
    by (auto simp: lru_capacity_new)
  then have "LRU_Size c \<le> max 1 cap" using lru_map_length [OF c(2)] by (simp add: LRU_Size_def lru_inv_def)
  with c show ?thesis by blast
qed

text \<open>
  No leak and no double free.  Destroying a cache after any sequence of calls frees every node
  exactly once and leaves the heap empty.
\<close>

theorem lru_destroy_frees_all:
  "\<exists>rs c. lru_run xs (LRU_new cap) = Some (rs, c) \<and> LRU_destroy c = Some (\<lambda>a. None)"
proof -
  obtain c' as' where "lru_run xs (LRU_new cap) =
      Some (fst (spec_run (lru_capacity (LRU_new cap)) xs (lru_list (LRU_new cap) [])), c')" "lru_inv c' as'"
    using lru_run_refines [OF LRU_new_inv] by blast
  with LRU_destroy_spec show ?thesis by blast
qed

text \<open>
  Distinct blocks never share a cache entry: the cache key determines both the file name
  (even one that contains colons and digits) and the offset.
\<close>

theorem cache_key_injective:
  assumes "MakeCacheKey f m = MakeCacheKey g n"
  shows "f = g \<and> m = n"
proof -
  have sep: "lit '':'' = [58]" by (simp add: lit_def)
  have nd: "(58 :: byte) \<notin> set (dec_digits n)" for n using dec_digits_range [of 58 n] by auto
  have "f = g \<and> dec_digits (unat m) = dec_digits (unat n)"
    using assms by (intro split_last_sep [of _ 58]) (auto simp: MakeCacheKey_def sep nd)
  then show ?thesis by (auto dest: dec_digits_inj simp: word_unat_eq_iff)
qed

theorem cache_key_injective_witness:
  "MakeCacheKey [97, 58, 49] 0x20 = MakeCacheKey [97, 58, 49] 32 \<and> (0x20 :: u64) = 32"
  using cache_key_injective [where f = "[97, 58, 49]" and m = "0x20" and g = "[97, 58, 49]" and n = "32"] by simp

end
