(* ===== verification/MemTable.thy ===== *)
theory MemTable
  imports LruCache
begin

text \<open>
  The memtable of \<open>src/src/engine/MemTable.cc\<close>: a skip list of at most 16 levels in an explicit heap.
  Reading through \<open>nullptr\<close>, a freed node or past the end of a node's \<open>next\<close> array is \<open>None\<close>.  The
  coin flips of \<open>RandomLevel\<close> are an argument (an infinite sequence of outcomes of
  \<open>dist(rng_) < 0.25\<close>), so everything proved holds for every generator.  The skip list is shown to
  implement a sorted association list, which is the ordered-map interface the database uses.
\<close>

record sl_node =
  sn_key :: str
  sn_value :: str
  sn_next :: "addr option list"

type_synonym sl_heap = "addr \<Rightarrow> sl_node option"

record memtable =
  mt_heap :: sl_heap
  mt_brk :: addr
  mt_head :: addr
  mt_level :: nat
  mt_count :: u64
  mt_size :: u64

definition MAX_LEVEL :: nat where
  "MAX_LEVEL = 16"

definition MemTable_new :: memtable where
  "MemTable_new =
     \<lparr> mt_heap = [0 \<mapsto> \<lparr> sn_key = [], sn_value = [], sn_next = replicate MAX_LEVEL None \<rparr>],
       mt_brk = 1, mt_head = 0, mt_level = 1, mt_count = 0, mt_size = 0 \<rparr>"

text \<open>\<open>a->next[i]\<close>, read and written.\<close>

definition fwd :: "sl_heap \<Rightarrow> addr \<Rightarrow> nat \<Rightarrow> addr option option" where
  "fwd h a i = do { n \<leftarrow> h a; if i < length (sn_next n) then Some (sn_next n ! i) else None }"

definition set_fwd :: "addr \<Rightarrow> nat \<Rightarrow> addr option \<Rightarrow> sl_heap \<Rightarrow> sl_heap option" where
  "set_fwd a i v h = do {
     n \<leftarrow> h a;
     if i < length (sn_next n) then Some (h(a \<mapsto> n\<lparr> sn_next := (sn_next n)[i := v] \<rparr>)) else None }"

text \<open>\<open>RandomLevel\<close>: the condition of the loop draws before it compares with the maximum.\<close>

function RandomLevel_loop :: "(nat \<Rightarrow> bool) \<Rightarrow> nat \<Rightarrow> nat \<Rightarrow> nat" where
  "RandomLevel_loop draw i level =
     (if draw i \<and> level < MAX_LEVEL then RandomLevel_loop draw (i + 1) (level + 1) else level)"
  by pat_completeness auto
termination by (relation "measure (\<lambda>(_, _, level). MAX_LEVEL - level)") auto

declare RandomLevel_loop.simps [simp del]

definition RandomLevel :: "(nat \<Rightarrow> bool) \<Rightarrow> nat" where
  "RandomLevel draw = RandomLevel_loop draw 0 1"

text \<open>\<open>while (cur->next[i] != nullptr && cur->next[i]->key < key) cur = cur->next[i];\<close>\<close>

partial_function (option) advance :: "sl_heap \<Rightarrow> str \<Rightarrow> nat \<Rightarrow> addr \<Rightarrow> addr option" where
  "advance h key i cur = do {
     nxt \<leftarrow> fwd h cur i;
     case nxt of None \<Rightarrow> Some cur
     | Some b \<Rightarrow> do { n \<leftarrow> h b; if sn_key n < key then advance h key i b else Some cur } }"

text \<open>The descent of \<open>Put\<close>, recording the predecessor on every level, and of \<open>Get\<close>.\<close>

fun descend :: "sl_heap \<Rightarrow> str \<Rightarrow> nat \<Rightarrow> addr \<Rightarrow> addr option list \<Rightarrow> (addr \<times> addr option list) option" where
  "descend h key 0 cur upd = Some (cur, upd)"
| "descend h key (Suc i) cur upd = do {
     c \<leftarrow> advance h key i cur;
     descend h key i c (upd[i := Some c]) }"

fun descend_get :: "sl_heap \<Rightarrow> str \<Rightarrow> nat \<Rightarrow> addr \<Rightarrow> addr option" where
  "descend_get h key 0 cur = Some cur"
| "descend_get h key (Suc i) cur = do { c \<leftarrow> advance h key i cur; descend_get h key i c }"

fun raise_level :: "addr \<Rightarrow> nat \<Rightarrow> nat \<Rightarrow> addr option list \<Rightarrow> addr option list" where
  "raise_level head level 0 upd = upd"
| "raise_level head level (Suc i) upd =
     (if level \<le> i then raise_level head level i (upd[i := Some head]) else upd)"

fun splice_levels :: "addr \<Rightarrow> addr option list \<Rightarrow> nat \<Rightarrow> nat \<Rightarrow> sl_heap \<Rightarrow> sl_heap option" where
  "splice_levels node upd i 0 h = Some h"
| "splice_levels node upd i (Suc k) h = do {
     p \<leftarrow> upd ! i;
     nxt \<leftarrow> fwd h p i;
     h1 \<leftarrow> set_fwd node i nxt h;
     h2 \<leftarrow> set_fwd p i (Some node) h1;
     splice_levels node upd (i + 1) k h2 }"

definition MT_Put :: "(nat \<Rightarrow> bool) \<Rightarrow> str \<Rightarrow> str \<Rightarrow> memtable \<Rightarrow> memtable option" where
  "MT_Put draw key val m = do {
     (cur0, upd) \<leftarrow> descend (mt_heap m) key (mt_level m) (mt_head m) (replicate MAX_LEVEL None);
     nxt \<leftarrow> fwd (mt_heap m) cur0 0;
     found \<leftarrow> (case nxt of None \<Rightarrow> Some None
               | Some b \<Rightarrow> do { n \<leftarrow> mt_heap m b; Some (if sn_key n = key then Some (b, n) else None) });
     case found of
       Some (b, n) \<Rightarrow>
         Some (m\<lparr> mt_heap := (mt_heap m)(b \<mapsto> n\<lparr> sn_value := val \<rparr>),
                  mt_size := mt_size m - word_of_nat (length (sn_value n)) + word_of_nat (length val) \<rparr>)
     | None \<Rightarrow> do {
         let new_level = RandomLevel draw;
         let upd1 = (if mt_level m < new_level then raise_level (mt_head m) (mt_level m) new_level upd else upd);
         let level1 = (if mt_level m < new_level then new_level else mt_level m);
         let node = mt_brk m;
         h1 \<leftarrow> splice_levels node upd1 0 new_level
                ((mt_heap m)(node \<mapsto> \<lparr> sn_key = key, sn_value = val, sn_next = replicate new_level None \<rparr>));
         Some (m\<lparr> mt_heap := h1, mt_brk := node + 1, mt_level := level1, mt_count := mt_count m + 1,
                  mt_size := mt_size m + word_of_nat (length key + length val) \<rparr>) } }"

definition MT_Get :: "str \<Rightarrow> memtable \<Rightarrow> str option option" where
  "MT_Get key m = do {
     cur0 \<leftarrow> descend_get (mt_heap m) key (mt_level m) (mt_head m);
     nxt \<leftarrow> fwd (mt_heap m) cur0 0;
     case nxt of None \<Rightarrow> Some None
     | Some b \<Rightarrow> do { n \<leftarrow> mt_heap m b; Some (if sn_key n = key then Some (sn_value n) else None) } }"

definition MT_Size :: "memtable \<Rightarrow> u64" where
  "MT_Size m = mt_size m"

definition MT_Empty :: "memtable \<Rightarrow> bool" where
  "MT_Empty m \<longleftrightarrow> mt_count m = 0"

text \<open>\<open>Clear\<close>: free the bottom chain, null the head's array, reset the statistics.\<close>

partial_function (option) free_nodes :: "addr option \<Rightarrow> sl_heap \<Rightarrow> sl_heap option" where
  "free_nodes cur h =
     (case cur of None \<Rightarrow> Some h
      | Some a \<Rightarrow> do { nxt \<leftarrow> fwd h a 0; free_nodes nxt (h(a := None)) })"

fun null_next :: "addr \<Rightarrow> nat \<Rightarrow> nat \<Rightarrow> sl_heap \<Rightarrow> sl_heap option" where
  "null_next head i 0 h = Some h"
| "null_next head i (Suc k) h = do { h1 \<leftarrow> set_fwd head i None h; null_next head (i + 1) k h1 }"

definition MT_Clear :: "memtable \<Rightarrow> memtable option" where
  "MT_Clear m = do {
     first \<leftarrow> fwd (mt_heap m) (mt_head m) 0;
     h1 \<leftarrow> free_nodes first (mt_heap m);
     h2 \<leftarrow> null_next (mt_head m) 0 MAX_LEVEL h1;
     Some (m\<lparr> mt_heap := h2, mt_size := 0, mt_count := 0, mt_level := 1 \<rparr>) }"

text \<open>The iterator: the loop \<open>for (; iter->Valid(); iter->Next())\<close> collecting what it visits.\<close>

definition MT_NewIterator :: "memtable \<Rightarrow> addr option option" where
  "MT_NewIterator m = fwd (mt_heap m) (mt_head m) 0"

partial_function (option) iterate_from :: "sl_heap \<Rightarrow> addr option \<Rightarrow> (str \<times> str) list option" where
  "iterate_from h cur =
     (case cur of None \<Rightarrow> Some []
      | Some a \<Rightarrow> do { n \<leftarrow> h a; nxt \<leftarrow> fwd h a 0; rest \<leftarrow> iterate_from h nxt;
                      Some ((sn_key n, sn_value n) # rest) })"

definition MT_entries :: "memtable \<Rightarrow> (str \<times> str) list option" where
  "MT_entries m = do { first \<leftarrow> MT_NewIterator m; iterate_from (mt_heap m) first }"

subsection \<open>Chains\<close>

text \<open>Following the pointer function \<open>f\<close> from \<open>a\<close> visits exactly \<open>ps\<close> and ends in \<open>nullptr\<close>.\<close>

fun lpath :: "(addr \<Rightarrow> addr option option) \<Rightarrow> addr \<Rightarrow> addr list \<Rightarrow> bool" where
  "lpath f a [] \<longleftrightarrow> f a = Some None"
| "lpath f a (b # bs) \<longleftrightarrow> f a = Some (Some b) \<and> lpath f b bs"

lemma lpath_cong: "(\<And>x. x \<in> set (a # ps) \<Longrightarrow> g x = f x) \<Longrightarrow> lpath g a ps = lpath f a ps"
  by (induction ps arbitrary: a) auto

lemma lpath_suffix: "lpath f a (ps @ qs) \<Longrightarrow> lpath f (last (a # ps)) qs"
  by (induction ps arbitrary: a) auto

text \<open>Linking one node behind \<open>last (a # ps)\<close>.\<close>

lemma lpath_splice:
  assumes "lpath f a (ps @ qs)" and "distinct (a # ps @ qs)" and "node \<notin> set (a # ps @ qs)"
  shows "lpath (f(node := f (last (a # ps)), last (a # ps) := Some (Some node))) a (ps @ node # qs)"
  using assms
proof (induction ps arbitrary: a)
  case Nil
  define g where "g = f(node := f a, a := Some (Some node))"
  have e: "f(node := f (last [a]), last [a] := Some (Some node)) = g" by (simp only: last.simps if_True g_def simp_thms)
  have "lpath g a ([] @ node # qs)"
  proof (cases qs)
    case (Cons b bs)
    have "lpath g b bs = lpath f b bs"
      using Nil.prems Cons by (intro lpath_cong) (auto simp: g_def)
    moreover have "g a = Some (Some node)" "g node = Some (Some b)" using Nil Cons by (auto simp: g_def)
    ultimately show ?thesis using Nil Cons by simp
  next
    case Nil
    with \<open>lpath f a ([] @ qs)\<close> \<open>node \<notin> set (a # [] @ qs)\<close> show ?thesis by (simp add: g_def)
  qed
  then show ?case unfolding e .
next
  case (Cons c ps)
  define g where "g = f(node := f (last (c # ps)), last (c # ps) := Some (Some node))"
  have "lpath g c (ps @ node # qs)" unfolding g_def using Cons.prems by (intro Cons.IH) auto
  moreover have "last (c # ps) \<noteq> a" using Cons.prems last_in_set [of "c # ps"] by auto
  then have "g a = f a" using Cons.prems by (auto simp: g_def)
  ultimately have "lpath g a ((c # ps) @ node # qs)" using Cons.prems by simp
  moreover have "last (a # c # ps) = last (c # ps)" by simp
  ultimately show ?case unfolding g_def by (simp only:)
qed


text \<open>
  The pointer-independent part of a node: key, value and height.  Writing a pointer changes neither
  it nor any other pointer.
\<close>

definition shape :: "sl_heap \<Rightarrow> addr \<Rightarrow> (str \<times> str \<times> nat) option" where
  "shape h a = map_option (\<lambda>n. (sn_key n, sn_value n, length (sn_next n))) (h a)"

definition key_at :: "sl_heap \<Rightarrow> addr \<Rightarrow> str" where
  "key_at h a = fst (the (shape h a))"

definition value_at :: "sl_heap \<Rightarrow> addr \<Rightarrow> str" where
  "value_at h a = fst (snd (the (shape h a)))"

definition height :: "sl_heap \<Rightarrow> addr \<Rightarrow> nat" where
  "height h a = snd (snd (the (shape h a)))"

lemma fwd_defined: "fwd h a i \<noteq> None \<longleftrightarrow> h a \<noteq> None \<and> i < height h a"
  by (cases "h a") (auto simp: fwd_def height_def shape_def)

lemma shape_None: "shape h a = None \<longleftrightarrow> h a = None"
  by (simp add: shape_def)

lemma shape_live: "shape h' = shape h \<Longrightarrow> h' a \<noteq> None \<longleftrightarrow> h a \<noteq> None"
  by (metis shape_None)

lemma set_fwd_spec:
  assumes "h a \<noteq> None" and "i < height h a"
  shows "\<exists>h'. set_fwd a i v h = Some h' \<and> shape h' = shape h \<and>
           (\<forall>b j. fwd h' b j = (if b = a \<and> j = i then Some v else fwd h b j))"
proof -
  obtain n where n: "h a = Some n" using assms(1) by auto
  then have l: "i < length (sn_next n)" using assms(2) by (simp add: height_def shape_def)
  show ?thesis
    by (rule exI [of _ "h(a \<mapsto> n\<lparr> sn_next := (sn_next n)[i := v] \<rparr>)"])
      (auto simp: set_fwd_def n l shape_def fwd_def fun_eq_iff nth_list_update)
qed

lemma shape_views:
  assumes "shape h' = shape h"
  shows "key_at h' = key_at h" "value_at h' = value_at h" "height h' = height h"
  using assms by (simp_all add: key_at_def value_at_def height_def fun_eq_iff)

subsection \<open>The invariant\<close>

text \<open>
  \<open>xs\<close> are the nodes of the bottom chain in order: on every level the chain from the head is the
  sublist of the nodes tall enough, and the keys are strictly increasing.
\<close>

definition level_nodes :: "sl_heap \<Rightarrow> nat \<Rightarrow> addr list \<Rightarrow> addr list" where
  "level_nodes h i xs = filter (\<lambda>a. i < height h a) xs"

definition sl_chains :: "sl_heap \<Rightarrow> addr \<Rightarrow> addr list \<Rightarrow> bool" where
  "sl_chains h hd0 xs \<longleftrightarrow> (\<forall>i < MAX_LEVEL. lpath (\<lambda>a. fwd h a i) hd0 (level_nodes h i xs))"

definition sl_inv :: "memtable \<Rightarrow> addr list \<Rightarrow> bool" where
  "sl_inv m xs \<longleftrightarrow>
     sl_chains (mt_heap m) (mt_head m) xs \<and>
     distinct (mt_head m # xs) \<and>
     (\<forall>a. mt_heap m a \<noteq> None \<longleftrightarrow> a \<in> set (mt_head m # xs)) \<and>
     (\<forall>a. mt_heap m a \<noteq> None \<longrightarrow> a < mt_brk m) \<and>
     height (mt_heap m) (mt_head m) = MAX_LEVEL \<and>
     (\<forall>a \<in> set xs. 1 \<le> height (mt_heap m) a \<and> height (mt_heap m) a \<le> mt_level m) \<and>
     1 \<le> mt_level m \<and> mt_level m \<le> MAX_LEVEL \<and>
     sorted_wrt (<) (map (key_at (mt_heap m)) xs) \<and>
     mt_count m = word_of_nat (length xs) \<and>
     mt_size m = word_of_nat (sum_list (map (\<lambda>a. length (key_at (mt_heap m) a) + length (value_at (mt_heap m) a)) xs))"

definition sl_list :: "memtable \<Rightarrow> addr list \<Rightarrow> (str \<times> str) list" where
  "sl_list m xs = map (\<lambda>a. (key_at (mt_heap m) a, value_at (mt_heap m) a)) xs"

text \<open>The predecessor of \<open>key\<close> on level \<open>i\<close>, when the nodes with a smaller key are \<open>lt\<close>.\<close>

definition pred_at :: "sl_heap \<Rightarrow> addr \<Rightarrow> nat \<Rightarrow> addr list \<Rightarrow> addr" where
  "pred_at h hd0 i lt = last (hd0 # level_nodes h i lt)"

lemma pred_at_in: "pred_at h hd0 i lt = hd0 \<or> (pred_at h hd0 i lt \<in> set lt \<and> i < height h (pred_at h hd0 i lt))"
proof (cases "level_nodes h i lt = []")
  case True
  then show ?thesis by (simp add: pred_at_def)
next
  case False
  then have "pred_at h hd0 i lt \<in> set (level_nodes h i lt)" by (simp add: pred_at_def)
  then show ?thesis by (simp add: level_nodes_def)
qed

subsection \<open>The search\<close>

lemma advance_path:
  assumes "lpath (\<lambda>a. fwd h a i) a (ps @ qs)" and "\<forall>b \<in> set (ps @ qs). h b \<noteq> None"
    and "\<forall>b \<in> set ps. key_at h b < key" and "\<forall>b \<in> set qs. \<not> key_at h b < key"
  shows "advance h key i a = Some (last (a # ps))"
  using assms
proof (induction ps arbitrary: a)
  case Nil
  show ?case
  proof (cases qs)
    case Nil
    with Nil.prems show ?thesis by (subst advance.simps) simp
  next
    case (Cons b bs)
    then obtain n where n: "h b = Some n" using Nil.prems(2) by auto
    then have "\<not> sn_key n < key" using Nil.prems(4) Cons by (auto simp: key_at_def shape_def)
    with Nil.prems(1) Cons n show ?thesis by (subst advance.simps) simp
  qed
next
  case (Cons b ps)
  then obtain n where n: "h b = Some n" by auto
  have "sn_key n < key" using Cons.prems(3) n by (auto simp: key_at_def shape_def)
  moreover have "advance h key i b = Some (last (b # ps))" using Cons.prems by (intro Cons.IH) auto
  moreover have "fwd h a i = Some (Some b)" using Cons.prems(1) by simp
  ultimately show ?case using n by (subst advance.simps) simp
qed

text \<open>Advancing from the head, or from any node of the level with a smaller key.\<close>

lemma advance_level:
  assumes path: "lpath (\<lambda>a. fwd h a i) hd0 (level_nodes h i (lt @ ge))"
    and live: "\<forall>b \<in> set (lt @ ge). h b \<noteq> None"
    and lt: "\<forall>b \<in> set lt. key_at h b < key" and ge: "\<forall>b \<in> set ge. \<not> key_at h b < key"
    and cur: "cur = hd0 \<or> (cur \<in> set lt \<and> i < height h cur)"
  shows "advance h key i cur = Some (pred_at h hd0 i lt)"
proof -
  let ?A = "level_nodes h i lt" and ?B = "level_nodes h i ge"
  have path': "lpath (\<lambda>a. fwd h a i) hd0 (?A @ ?B)" using path by (simp add: level_nodes_def)
  have sub: "set ?A \<subseteq> set lt" "set ?B \<subseteq> set ge" by (auto simp: level_nodes_def)
  have go: "advance h key i a = Some (last (a # ps))"
    if "lpath (\<lambda>a. fwd h a i) a (ps @ ?B)" "set ps \<subseteq> set ?A" for a ps
    using that sub live lt ge by (intro advance_path [OF that(1)]) auto
  from cur show ?thesis
  proof
    assume "cur = hd0"
    with go [OF path'] show ?thesis by (simp add: pred_at_def)
  next
    assume "cur \<in> set lt \<and> i < height h cur"
    then have "cur \<in> set ?A" by (simp add: level_nodes_def)
    then obtain A1 A2 where A: "?A = A1 @ cur # A2" by (meson split_list)
    have "lpath (\<lambda>a. fwd h a i) hd0 ((A1 @ [cur]) @ (A2 @ ?B))" using path' A by simp
    from lpath_suffix [OF this] have "lpath (\<lambda>a. fwd h a i) cur (A2 @ ?B)" by simp
    moreover have "set A2 \<subseteq> set ?A" unfolding A by auto
    ultimately have "advance h key i cur = Some (last (cur # A2))" by (rule go)
    then show ?thesis by (simp add: pred_at_def A)
  qed
qed

lemma descend_spec:
  assumes path: "\<forall>i < n. lpath (\<lambda>a. fwd h a i) hd0 (level_nodes h i (lt @ ge))"
    and live: "\<forall>b \<in> set (lt @ ge). h b \<noteq> None"
    and lt: "\<forall>b \<in> set lt. key_at h b < key" and ge: "\<forall>b \<in> set ge. \<not> key_at h b < key"
    and cur: "cur = hd0 \<or> (cur \<in> set lt \<and> n \<le> Suc (height h cur) \<and> (0 < n \<longrightarrow> n - 1 < height h cur))"
    and len: "n \<le> length upd"
  shows "\<exists>upd'. descend h key n cur upd = Some (if n = 0 then cur else pred_at h hd0 0 lt, upd') \<and>
           length upd' = length upd \<and>
           (\<forall>j < length upd. upd' ! j = (if j < n then Some (pred_at h hd0 j lt) else upd ! j))"
    and "descend_get h key n cur = Some (if n = 0 then cur else pred_at h hd0 0 lt)"
proof -
  show "\<exists>upd'. descend h key n cur upd = Some (if n = 0 then cur else pred_at h hd0 0 lt, upd') \<and>
           length upd' = length upd \<and>
           (\<forall>j < length upd. upd' ! j = (if j < n then Some (pred_at h hd0 j lt) else upd ! j))"
    using path cur len
  proof (induction n arbitrary: cur upd)
    case 0
    then show ?case by simp
  next
    case (Suc i)
    let ?c = "pred_at h hd0 i lt"
    have adv: "advance h key i cur = Some ?c"
      using Suc.prems by (intro advance_level [OF _ live lt ge]) auto
    have c: "?c = hd0 \<or> (?c \<in> set lt \<and> i \<le> Suc (height h ?c) \<and> (0 < i \<longrightarrow> i - 1 < height h ?c))"
      using pred_at_in [of h hd0 i lt] by auto
    have "\<forall>i' < i. lpath (\<lambda>a. fwd h a i') hd0 (level_nodes h i' (lt @ ge))" using Suc.prems(1) by simp
    from Suc.IH [OF this c, of "upd[i := Some ?c]"] Suc.prems(3) obtain upd' where u:
      "descend h key i ?c (upd[i := Some ?c]) = Some (if i = 0 then ?c else pred_at h hd0 0 lt, upd')"
      "length upd' = length upd"
      "\<forall>j < length upd. upd' ! j = (if j < i then Some (pred_at h hd0 j lt) else upd[i := Some ?c] ! j)"
      by auto
    have "descend h key (Suc i) cur upd = Some (pred_at h hd0 0 lt, upd')"
      using adv u(1) by (cases "i = 0") auto
    moreover have "\<forall>j < length upd. upd' ! j = (if j < Suc i then Some (pred_at h hd0 j lt) else upd ! j)"
      using u(3) by (auto simp: less_Suc_eq)
    ultimately show ?case using u(2) by simp
  qed
  show "descend_get h key n cur = Some (if n = 0 then cur else pred_at h hd0 0 lt)"
    using path cur
  proof (induction n arbitrary: cur)
    case 0
    then show ?case by simp
  next
    case (Suc i)
    let ?c = "pred_at h hd0 i lt"
    have adv: "advance h key i cur = Some ?c"
      using Suc.prems by (intro advance_level [OF _ live lt ge]) auto
    have c: "?c = hd0 \<or> (?c \<in> set lt \<and> i \<le> Suc (height h ?c) \<and> (0 < i \<longrightarrow> i - 1 < height h ?c))"
      using pred_at_in [of h hd0 i lt] by auto
    have "\<forall>i' < i. lpath (\<lambda>a. fwd h a i') hd0 (level_nodes h i' (lt @ ge))" using Suc.prems(1) by simp
    from Suc.IH [OF this c] show ?case using adv by (cases "i = 0") auto
  qed
qed


subsection \<open>Insertion\<close>

lemma splice_spec:
  assumes "\<And>j. i \<le> j \<Longrightarrow> j < i + k \<Longrightarrow> upd ! j = Some (P j) \<and> h (P j) \<noteq> None \<and> j < height h (P j) \<and> P j \<noteq> node"
    and "h node \<noteq> None" and "i + k \<le> height h node"
  shows "\<exists>h'. splice_levels node upd i k h = Some h' \<and> shape h' = shape h \<and>
           (\<forall>a j. fwd h' a j =
             (if i \<le> j \<and> j < i + k then
                if a = P j then Some (Some node) else if a = node then fwd h (P j) j else fwd h a j
              else fwd h a j))"
  using assms
proof (induction k arbitrary: i h)
  case 0
  then show ?case by auto
next
  case (Suc k)
  let ?p = "P i"
  have p: "upd ! i = Some ?p" "h ?p \<noteq> None" "i < height h ?p" "?p \<noteq> node" using Suc.prems(1) [of i] by auto
  then obtain nxt where nxt: "fwd h ?p i = Some nxt" using fwd_defined [of h ?p i] by auto
  obtain h1 where h1: "set_fwd node i nxt h = Some h1" "shape h1 = shape h"
    "\<forall>b j. fwd h1 b j = (if b = node \<and> j = i then Some nxt else fwd h b j)"
    using set_fwd_spec [of h node i nxt] Suc.prems by auto
  note ht1 = shape_views(3) [OF h1(2)]
  obtain h2 where h2: "set_fwd ?p i (Some node) h1 = Some h2" "shape h2 = shape h1"
    "\<forall>b j. fwd h2 b j = (if b = ?p \<and> j = i then Some (Some node) else fwd h1 b j)"
    using set_fwd_spec [of h1 ?p i "Some node"] p shape_live [OF h1(2), of ?p] ht1 by auto
  have sh: "shape h2 = shape h" using h1 h2 by simp
  note ht = shape_views(3) [OF sh]
  have "\<exists>h'. splice_levels node upd (i + 1) k h2 = Some h' \<and> shape h' = shape h2 \<and>
           (\<forall>a j. fwd h' a j =
             (if i + 1 \<le> j \<and> j < i + 1 + k then
                if a = P j then Some (Some node) else if a = node then fwd h2 (P j) j else fwd h2 a j
              else fwd h2 a j))"
  proof (rule Suc.IH)
    show "upd ! j = Some (P j) \<and> h2 (P j) \<noteq> None \<and> j < height h2 (P j) \<and> P j \<noteq> node"
      if "i + 1 \<le> j" "j < i + 1 + k" for j
      using Suc.prems(1) [of j] that shape_live [OF sh, of "P j"] by (simp add: ht del: not_None_eq)
    show "h2 node \<noteq> None" using shape_live [OF sh, of node] Suc.prems(2) by blast
    show "i + 1 + k \<le> height h2 node" using Suc.prems(3) by (simp add: ht)
  qed
  then obtain h' where h': "splice_levels node upd (i + 1) k h2 = Some h'" "shape h' = shape h2"
    "\<forall>a j. fwd h' a j =
             (if i + 1 \<le> j \<and> j < i + 1 + k then
                if a = P j then Some (Some node) else if a = node then fwd h2 (P j) j else fwd h2 a j
              else fwd h2 a j)" by blast
  have "splice_levels node upd i (Suc k) h = Some h'" using p(1) nxt h1(1) h2(1) h'(1) by simp
  moreover have "fwd h' a j =
             (if i \<le> j \<and> j < i + Suc k then
                if a = P j then Some (Some node) else if a = node then fwd h (P j) j else fwd h a j
              else fwd h a j)" for a j
    using p(4) nxt by (cases "j = i") (auto simp: h'(3) h2(3) h1(3))
  moreover have "shape h' = shape h" using h'(2) sh by simp
  ultimately show ?case by (intro exI [of _ h'] conjI allI)
qed

lemma raise_level_spec:
  assumes "n \<le> length upd"
  shows "length (raise_level hd0 level n upd) = length upd \<and>
    (\<forall>j < length upd. raise_level hd0 level n upd ! j = (if level \<le> j \<and> j < n then Some hd0 else upd ! j))"
  using assms
proof (induction n arbitrary: upd)
  case 0
  then show ?case by simp
next
  case (Suc i)
  then show ?case using Suc.IH [of "upd[i := Some hd0]"] by (auto simp: less_Suc_eq)
qed

lemma RandomLevel_range: "1 \<le> RandomLevel draw \<and> RandomLevel draw \<le> MAX_LEVEL"
proof -
  have "level \<le> MAX_LEVEL \<Longrightarrow> level \<le> RandomLevel_loop draw i level \<and> RandomLevel_loop draw i level \<le> MAX_LEVEL" for i level
  proof (induction draw i level rule: RandomLevel_loop.induct)
    case (1 draw i level)
    then show ?case by (subst (1 2) RandomLevel_loop.simps) auto
  qed
  from this [of 1 0] show ?thesis by (simp add: RandomLevel_def MAX_LEVEL_def)
qed

text \<open>The chains after a node of height \<open>nl\<close> was spliced in between \<open>lt\<close> and \<open>ge\<close>.\<close>

lemma splice_chains:
  fixes h :: sl_heap
  defines "H \<equiv> \<lambda>node nl k v. h(node \<mapsto> \<lparr> sn_key = k, sn_value = v, sn_next = replicate nl None \<rparr>)"
  assumes ch: "sl_chains h hd0 (lt @ ge)" and d: "distinct (hd0 # lt @ ge)" and nl: "nl \<le> MAX_LEVEL"
    and live: "\<forall>a \<in> set (hd0 # lt @ ge). h a \<noteq> None" and hd: "height h hd0 = MAX_LEVEL"
    and new: "node \<notin> set (hd0 # lt @ ge)"
    and upd: "\<forall>j < nl. upd ! j = Some (pred_at h hd0 j lt)"
  shows "\<exists>h'. splice_levels node upd 0 nl (H node nl k v) = Some h' \<and> shape h' = shape (H node nl k v) \<and>
           sl_chains h' hd0 (lt @ node # ge)"
proof -
  let ?h = "H node nl k v" and ?P = "\<lambda>j. pred_at h hd0 j lt"
  have ht: "height ?h a = (if a = node then nl else height h a)" for a
    by (simp add: H_def height_def shape_def)
  have Hl: "?h a \<noteq> None" if "h a \<noteq> None" for a using that by (simp add: H_def)
  have fw: "fwd ?h a j = fwd h a j" if "a \<noteq> node" for a j using that by (simp add: H_def fwd_def)
  have P: "?P j \<noteq> node \<and> h (?P j) \<noteq> None \<and> (j < MAX_LEVEL \<longrightarrow> j < height h (?P j))" for j
    using pred_at_in [of h hd0 j lt] new live hd by auto
  have "\<exists>h'. splice_levels node upd 0 nl ?h = Some h' \<and> shape h' = shape ?h \<and>
           (\<forall>a j. fwd h' a j =
             (if 0 \<le> j \<and> j < 0 + nl then
                if a = ?P j then Some (Some node) else if a = node then fwd ?h (?P j) j else fwd ?h a j
              else fwd ?h a j))"
  proof (rule splice_spec)
    show "upd ! j = Some (?P j) \<and> ?h (?P j) \<noteq> None \<and> j < height ?h (?P j) \<and> ?P j \<noteq> node"
      if "0 \<le> j" "j < 0 + nl" for j
      using that upd P [of j] nl Hl [of "?P j"] by (simp add: ht del: not_None_eq)
    show "?h node \<noteq> None" "0 + nl \<le> height ?h node" by (simp_all add: ht) (simp add: H_def)
  qed
  then obtain h' where h': "splice_levels node upd 0 nl ?h = Some h'" "shape h' = shape ?h"
    and f: "\<And>a j. fwd h' a j = (if j < nl then
                if a = ?P j then Some (Some node) else if a = node then fwd ?h (?P j) j else fwd ?h a j
              else fwd ?h a j)" by auto
  have ht': "height h' a = (if a = node then nl else height h a)" for a
    by (simp add: shape_views(3) [OF h'(2)] ht)
  have "lpath (\<lambda>a. fwd h' a j) hd0 (level_nodes h' j (lt @ node # ge))" if j: "j < MAX_LEVEL" for j
  proof -
    let ?A = "level_nodes h j lt" and ?B = "level_nodes h j ge"
    have sub: "set ?A \<subseteq> set lt" "set ?B \<subseteq> set ge" by (auto simp: level_nodes_def)
    have old: "lpath (\<lambda>a. fwd h a j) hd0 (?A @ ?B)" using ch j by (simp add: sl_chains_def level_nodes_def)
    have "lpath (\<lambda>a. fwd ?h a j) hd0 (?A @ ?B) = lpath (\<lambda>a. fwd h a j) hd0 (?A @ ?B)"
      using sub new by (intro lpath_cong fw) auto
    with old have p: "lpath (\<lambda>a. fwd ?h a j) hd0 (?A @ ?B)" by blast
    have ln: "level_nodes h' j ys = level_nodes h j ys" if "node \<notin> set ys" for ys
      using that by (auto simp: level_nodes_def ht' intro!: filter_cong)
    have "level_nodes h' j (lt @ node # ge) = level_nodes h' j lt @ level_nodes h' j [node] @ level_nodes h' j ge"
      by (simp add: level_nodes_def)
    also have "\<dots> = ?A @ (if j < nl then [node] else []) @ ?B"
      using new ln [of lt] ln [of ge] by (simp add: level_nodes_def [of h' j "[node]"] ht')
    finally have lv: "level_nodes h' j (lt @ node # ge) = ?A @ (if j < nl then [node] else []) @ ?B" .
    show ?thesis
    proof (cases "j < nl")
      case True
      have "distinct (hd0 # ?A @ ?B)" using d sub by (auto simp: level_nodes_def)
      moreover have "node \<notin> set (hd0 # ?A @ ?B)" using new sub by auto
      moreover have "(\<lambda>a. fwd h' a j) =
          (\<lambda>a. fwd ?h a j)(node := fwd ?h (last (hd0 # ?A)) j, last (hd0 # ?A) := Some (Some node))"
        using True P [of j] by (auto simp: f fun_eq_iff pred_at_def)
      ultimately have "lpath (\<lambda>a. fwd h' a j) hd0 (?A @ node # ?B)" using lpath_splice [OF p] by metis
      with True show ?thesis by (simp add: lv)
    next
      case False
      with p show ?thesis by (simp add: lv f)
    qed
  qed
  with h' show ?thesis by (auto simp: sl_chains_def)
qed


subsection \<open>The sorted list the skip list implements\<close>

fun al_put :: "'k::linorder \<Rightarrow> 'v \<Rightarrow> ('k \<times> 'v) list \<Rightarrow> ('k \<times> 'v) list" where
  "al_put k v [] = [(k, v)]"
| "al_put k v ((k', v') # l) =
     (if k < k' then (k, v) # (k', v') # l else if k = k' then (k, v) # l else (k', v') # al_put k v l)"

lemma map_of_al_put: "sorted_wrt (<) (map fst l) \<Longrightarrow> map_of (al_put k v l) = (map_of l)(k \<mapsto> v)"
proof (induction k v l rule: al_put.induct)
  case (2 k v k' v' l)
  then show ?case by (cases "k = k'") (auto simp: fun_upd_twist)
qed simp

lemma set_al_put: "fst ` set (al_put k v l) = insert k (fst ` set l)"
  by (induction k v l rule: al_put.induct) auto

lemma sorted_al_put: "sorted_wrt (<) (map fst l) \<Longrightarrow> sorted_wrt (<) (map fst (al_put k v l))"
proof (induction k v l rule: al_put.induct)
  case (2 k v k' v' l)
  have "\<forall>y \<in> fst ` set (al_put k v l). k' < y" if "k' < k"
    using that "2.prems" by (auto simp: set_al_put)
  with 2 show ?case by (auto simp: not_less order.order_iff_strict)
qed simp

lemma al_put_new:
  "\<forall>x \<in> fst ` set L. x < k \<Longrightarrow> \<forall>x \<in> fst ` set G. k < x \<Longrightarrow> al_put k v (L @ G) = L @ (k, v) # G"
proof (induction L)
  case Nil
  then show ?case by (cases G) auto
next
  case (Cons y L)
  then show ?case by (cases y) auto
qed

lemma al_put_old:
  "\<forall>x \<in> fst ` set L. x < k \<Longrightarrow> al_put k v (L @ (k, w) # G) = L @ (k, v) # G"
proof (induction L)
  case (Cons y L)
  then show ?case by (cases y) auto
qed simp

text \<open>Every state splits at a key into smaller nodes and the rest.\<close>

lemma split_at_key:
  fixes f :: "'a \<Rightarrow> 'k::linorder"
  assumes "sorted_wrt (<) (map f xs)"
  obtains lt ge where "xs = lt @ ge" "\<forall>b \<in> set lt. f b < k" "\<forall>b \<in> set ge. \<not> f b < k"
proof (rule that)
  show "xs = takeWhile (\<lambda>b. f b < k) xs @ dropWhile (\<lambda>b. f b < k) xs" by simp
  show "\<forall>b \<in> set (takeWhile (\<lambda>b. f b < k) xs). f b < k" by (meson set_takeWhileD)
  show "\<forall>b \<in> set (dropWhile (\<lambda>b. f b < k) xs). \<not> f b < k"
    using assms
  proof (induction xs)
    case (Cons x xs)
    show ?case
    proof (cases "f x < k")
      case True
      have "sorted_wrt (<) (map f xs)" using Cons.prems by simp
      from Cons.IH [OF this] True show ?thesis by (simp only: dropWhile.simps if_True)
    next
      case False
      have "\<not> f y < k" if "y \<in> set xs" for y
      proof -
        have "f x < f y" using Cons.prems that by simp
        moreover have "k \<le> f x" using False by simp
        ultimately have "k < f y" by (metis order.strict_trans1)
        then show ?thesis by simp
      qed
      moreover have "dropWhile (\<lambda>b. f b < k) (x # xs) = x # xs" using False by simp
      ultimately show ?thesis using False by (simp only: list.set ball_simps) blast
    qed
  qed simp
qed

lemma chains_0:
  assumes "sl_chains h hd0 xs" and "\<forall>a \<in> set xs. 1 \<le> height h a"
  shows "lpath (\<lambda>a. fwd h a 0) hd0 xs"
proof -
  have "level_nodes h 0 xs = xs" using assms(2) by (auto simp: level_nodes_def filter_id_conv)
  moreover have "lpath (\<lambda>a. fwd h a 0) hd0 (level_nodes h 0 xs)" using assms(1) by (simp add: sl_chains_def MAX_LEVEL_def)
  ultimately show ?thesis by simp
qed

text \<open>The common part of \<open>Put\<close> and \<open>Get\<close>: the descent ends before the first node not below the key.\<close>

lemma search_spec:
  assumes inv: "sl_inv m (lt @ ge)"
    and lt: "\<forall>b \<in> set lt. key_at (mt_heap m) b < key" and ge: "\<forall>b \<in> set ge. \<not> key_at (mt_heap m) b < key"
  defines "P \<equiv> \<lambda>j. pred_at (mt_heap m) (mt_head m) j lt"
  shows "\<exists>upd. descend (mt_heap m) key (mt_level m) (mt_head m) (replicate MAX_LEVEL None) = Some (P 0, upd) \<and>
           length upd = MAX_LEVEL \<and> (\<forall>j < mt_level m. upd ! j = Some (P j))"
    and "descend_get (mt_heap m) key (mt_level m) (mt_head m) = Some (P 0)"
    and "fwd (mt_heap m) (P 0) 0 = Some (case ge of [] \<Rightarrow> None | b # _ \<Rightarrow> Some b)"
proof -
  let ?h = "mt_heap m" and ?n = "mt_level m"
  have path: "\<forall>i < ?n. lpath (\<lambda>a. fwd ?h a i) (mt_head m) (level_nodes ?h i (lt @ ge))"
    using inv by (auto simp: sl_inv_def sl_chains_def)
  have live: "\<forall>b \<in> set (lt @ ge). ?h b \<noteq> None" using inv by (auto simp: sl_inv_def)
  have n: "1 \<le> ?n" "?n \<le> MAX_LEVEL" and ht: "\<forall>a \<in> set (lt @ ge). 1 \<le> height ?h a"
    using inv by (auto simp: sl_inv_def)
  have len: "?n \<le> length (replicate MAX_LEVEL None :: addr option list)" using n by simp
  from descend_spec(1) [OF path live lt ge _ len, of "mt_head m"] n
  obtain upd where "descend ?h key ?n (mt_head m) (replicate MAX_LEVEL None) = Some (P 0, upd)"
    "length upd = MAX_LEVEL"
    "\<forall>j < MAX_LEVEL. upd ! j = (if j < ?n then Some (P j) else replicate MAX_LEVEL None ! j)"
    unfolding P_def by auto
  with n show "\<exists>upd. descend ?h key ?n (mt_head m) (replicate MAX_LEVEL None) = Some (P 0, upd) \<and>
           length upd = MAX_LEVEL \<and> (\<forall>j < ?n. upd ! j = Some (P j))" by auto
  show "descend_get ?h key ?n (mt_head m) = Some (P 0)"
    using descend_spec(2) [OF path live lt ge _ len, of "mt_head m"] n by (simp add: P_def)
  have "lpath (\<lambda>a. fwd ?h a 0) (mt_head m) (lt @ ge)"
    using inv ht by (intro chains_0) (auto simp: sl_inv_def)
  from lpath_suffix [OF this] have "lpath (\<lambda>a. fwd ?h a 0) (P 0) ge"
  proof -
    have "level_nodes ?h 0 lt = lt" using ht by (auto simp: level_nodes_def filter_id_conv Suc_le_eq)
    with \<open>lpath (\<lambda>a. fwd ?h a 0) (last (mt_head m # lt)) ge\<close> show ?thesis by (simp only: P_def pred_at_def)
  qed
  then show "fwd ?h (P 0) 0 = Some (case ge of [] \<Rightarrow> None | b # _ \<Rightarrow> Some b)" by (cases ge) auto
qed

lemma MT_Get_spec:
  assumes inv: "sl_inv m xs"
  shows "MT_Get key m = Some (map_of (sl_list m xs) key)"
proof -
  let ?h = "mt_heap m"
  have srt: "sorted_wrt (<) (map (key_at ?h) xs)" using inv by (simp add: sl_inv_def)
  obtain lt ge where xs: "xs = lt @ ge" and lt: "\<forall>b \<in> set lt. key_at ?h b < key"
    and ge: "\<forall>b \<in> set ge. \<not> key_at ?h b < key" using split_at_key [OF srt] by blast
  note sp = search_spec(2,3) [OF inv [unfolded xs] lt ge]
  have none: "map_of (map (\<lambda>a. (key_at ?h a, value_at ?h a)) ys) key = None"
    if "\<forall>b \<in> set ys. key_at ?h b \<noteq> key" for ys
    using that by (auto simp: map_of_eq_None_iff)
  have ml: "map_of (sl_list m xs) key = map_of (map (\<lambda>a. (key_at ?h a, value_at ?h a)) ge) key"
  proof -
    have "\<forall>b \<in> set lt. key_at ?h b \<noteq> key" using lt by auto
    from none [OF this] show ?thesis by (simp add: sl_list_def xs map_add_def split: option.split)
  qed
  show ?thesis
  proof (cases ge)
    case Nil
    with sp ml show ?thesis by (simp add: MT_Get_def)
  next
    case (Cons b bs)
    then have "?h b \<noteq> None" using inv xs by (auto simp: sl_inv_def)
    then obtain n where n: "?h b = Some n" by auto
    then have kv: "key_at ?h b = sn_key n" "value_at ?h b = sn_value n"
      by (simp_all add: key_at_def value_at_def shape_def)
    have "sn_key n \<noteq> key \<Longrightarrow> \<forall>c \<in> set ge. key_at ?h c \<noteq> key"
      using srt ge xs Cons kv by (auto simp: sorted_wrt_append)
    with none [of ge] sp ml n Cons kv show ?thesis by (auto simp: MT_Get_def)
  qed
qed


lemma sl_list_append: "sl_list m (xs @ ys) = sl_list m xs @ sl_list m ys"
  by (simp add: sl_list_def)

lemma fst_sl_list: "fst ` set (sl_list m xs) = key_at (mt_heap m) ` set xs"
  by (simp add: sl_list_def image_image)

lemma MT_Put_present:
  assumes inv: "sl_inv m (lt @ b # ge)" and lt: "\<forall>x \<in> set lt. key_at (mt_heap m) x < key"
    and b: "key_at (mt_heap m) b = key"
  shows "\<exists>m'. MT_Put draw key val m = Some m' \<and> sl_inv m' (lt @ b # ge) \<and>
           sl_list m' (lt @ b # ge) = al_put key val (sl_list m (lt @ b # ge))"
proof -
  let ?h = "mt_heap m"
  have srt: "sorted_wrt (<) (map (key_at ?h) (lt @ b # ge))" and d: "distinct (mt_head m # lt @ b # ge)"
    and live: "?h b \<noteq> None" using inv by (auto simp: sl_inv_def)
  have ge: "\<forall>x \<in> set (b # ge). \<not> key_at ?h x < key" using srt b by (auto simp: sorted_wrt_append)
  note sp = search_spec [OF inv lt ge]
  obtain n where n: "?h b = Some n" using live by auto
  then have kv: "sn_key n = key" "value_at ?h b = sn_value n"
    using b by (simp_all add: key_at_def value_at_def shape_def)
  let ?h' = "?h(b \<mapsto> n\<lparr> sn_value := val \<rparr>)"
  let ?m = "m\<lparr> mt_heap := ?h', mt_size := mt_size m - word_of_nat (length (sn_value n)) + word_of_nat (length val) \<rparr>"
  have put: "MT_Put draw key val m = Some ?m" using sp n kv by (auto simp: MT_Put_def)
  have views: "key_at ?h' = key_at ?h" "height ?h' = height ?h" "value_at ?h' = (value_at ?h)(b := val)"
    "fwd ?h' = fwd ?h"
    by (auto simp: key_at_def height_def value_at_def shape_def fwd_def fun_eq_iff n)
  have "sl_chains ?h' (mt_head m) (lt @ b # ge)" using inv by (simp add: sl_chains_def sl_inv_def level_nodes_def views)
  moreover have dm: "?h' a \<noteq> None \<longleftrightarrow> ?h a \<noteq> None" for a using n by simp
  moreover
  have nb: "b \<notin> set lt" "b \<notin> set ge" using d by auto
  have vm: "map (\<lambda>a. length (key_at ?h a) + length (((value_at ?h)(b := val)) a)) ys =
      map (\<lambda>a. length (key_at ?h a) + length (value_at ?h a)) ys" if "b \<notin> set ys" for ys
    using that by auto
  moreover have "mt_size ?m = word_of_nat (sum_list (map (\<lambda>a. length (key_at ?h a) + length (((value_at ?h)(b := val)) a)) (lt @ b # ge)))"
  proof -
    let ?f = "\<lambda>a. length (key_at ?h a) + length (value_at ?h a)"
    have new: "sum_list (map (\<lambda>a. length (key_at ?h a) + length (((value_at ?h)(b := val)) a)) (lt @ b # ge)) =
      sum_list (map ?f lt) + ((length key + length val) + sum_list (map ?f ge))"
      by (simp only: map_append list.map vm [OF nb(1)] vm [OF nb(2)] sum_list_append sum_list.Cons fun_upd_same b)
    have "sum_list (map ?f (lt @ b # ge)) =
      sum_list (map ?f lt) + ((length key + length (sn_value n)) + sum_list (map ?f ge))"
      by (simp only: map_append list.map sum_list_append sum_list.Cons b kv)
    then have "mt_size m = word_of_nat (sum_list (map ?f lt) + ((length key + length (sn_value n)) + sum_list (map ?f ge)))"
      using inv unfolding sl_inv_def by simp
    then show ?thesis unfolding new by simp
  qed
  ultimately have "sl_inv ?m (lt @ b # ge)" using inv by (simp add: sl_inv_def views del: not_None_eq map_append)
  moreover have "sl_list ?m (lt @ b # ge) = sl_list m lt @ (key, val) # sl_list m ge"
    using nb b by (simp add: sl_list_def views)
  moreover have "sl_list m (lt @ b # ge) = sl_list m lt @ (key, sn_value n) # sl_list m ge"
    using b kv by (simp add: sl_list_def)
  ultimately show ?thesis
    using put lt fst_sl_list [of m lt] by (intro exI [of _ ?m]) (simp add: al_put_old)
qed

lemma MT_Put_absent:
  assumes inv: "sl_inv m (lt @ ge)" and lt: "\<forall>x \<in> set lt. key_at (mt_heap m) x < key"
    and ge: "\<forall>x \<in> set ge. key < key_at (mt_heap m) x"
  shows "\<exists>m' xs'. MT_Put draw key val m = Some m' \<and> sl_inv m' xs' \<and>
           sl_list m' xs' = al_put key val (sl_list m (lt @ ge))"
proof -
  let ?h = "mt_heap m" and ?nl = "RandomLevel draw" and ?node = "mt_brk m" and ?hd = "mt_head m"
  have ge': "\<forall>x \<in> set ge. \<not> key_at ?h x < key" using ge by auto
  note sp = search_spec [OF inv lt ge']
  obtain upd where upd: "descend ?h key (mt_level m) ?hd (replicate MAX_LEVEL None) = Some (pred_at ?h ?hd 0 lt, upd)"
    "length upd = MAX_LEVEL" "\<forall>j < mt_level m. upd ! j = Some (pred_at ?h ?hd j lt)" using sp(1) by blast
  note nl = RandomLevel_range [of draw]
  let ?upd1 = "if mt_level m < ?nl then raise_level ?hd (mt_level m) ?nl upd else upd"
  have ht: "\<forall>a \<in> set (lt @ ge). 1 \<le> height ?h a \<and> height ?h a \<le> mt_level m"
    and lv: "1 \<le> mt_level m" "mt_level m \<le> MAX_LEVEL" and d: "distinct (?hd # lt @ ge)"
    and dm: "\<And>a. ?h a \<noteq> None \<longleftrightarrow> a \<in> set (?hd # lt @ ge)" and hh: "height ?h ?hd = MAX_LEVEL"
    and below: "\<And>a. ?h a \<noteq> None \<Longrightarrow> a < ?node" and ch: "sl_chains ?h ?hd (lt @ ge)"
    using inv by (auto simp: sl_inv_def)
  have top: "pred_at ?h ?hd j lt = ?hd" if "mt_level m \<le> j" for j
  proof -
    have "level_nodes ?h j lt = []" 
    proof -
      have "\<not> j < height ?h a" if "a \<in> set lt" for a
      proof -
        have "a \<in> set (lt @ ge)" using that by simp
        then have "height ?h a \<le> mt_level m" using ht by blast
        with \<open>mt_level m \<le> j\<close> show ?thesis by simp
      qed
      then show ?thesis by (simp add: level_nodes_def filter_empty_conv)
    qed
    then show ?thesis by (simp add: pred_at_def)
  qed
  have u1: "\<forall>j < ?nl. ?upd1 ! j = Some (pred_at ?h ?hd j lt)"
    using raise_level_spec [of ?nl upd ?hd "mt_level m"] upd nl top by auto
  have new: "?node \<notin> set (?hd # lt @ ge)" using below dm by blast
  have live: "\<forall>a \<in> set (?hd # lt @ ge). ?h a \<noteq> None" using dm by blast
  let ?H = "?h(?node \<mapsto> \<lparr> sn_key = key, sn_value = val, sn_next = replicate ?nl None \<rparr>)"
  obtain h' where h': "splice_levels ?node ?upd1 0 ?nl ?H = Some h'" "shape h' = shape ?H"
    "sl_chains h' ?hd (lt @ ?node # ge)"
    using splice_chains [OF ch d _ live hh new u1] nl by blast
  let ?m = "m\<lparr> mt_heap := h', mt_brk := ?node + 1, mt_level := (if mt_level m < ?nl then ?nl else mt_level m),
             mt_count := mt_count m + 1, mt_size := mt_size m + word_of_nat (length key + length val) \<rparr>"
  have "(case (case ge of [] \<Rightarrow> None | b # _ \<Rightarrow> Some b) of None \<Rightarrow> Some None
         | Some b \<Rightarrow> ?h b \<bind> (\<lambda>n. Some (if sn_key n = key then Some (b, n) else None))) = Some None"
  proof (cases ge)
    case (Cons b bs)
    then obtain n where n: "?h b = Some n" using dm [of b] by auto
    then have "sn_key n \<noteq> key" using ge Cons by (auto simp: key_at_def shape_def)
    with n Cons show ?thesis by simp
  qed simp
  then have put: "MT_Put draw key val m = Some ?m"
    unfolding MT_Put_def upd(1) using sp(3) h'(1) by (simp add: Let_def)
  have views: "key_at h' = (key_at ?h)(?node := key)" "value_at h' = (value_at ?h)(?node := val)"
    "height h' = (height ?h)(?node := ?nl)"
    unfolding shape_views [OF h'(2)]
    by (auto simp: key_at_def value_at_def height_def shape_def fun_eq_iff)
  have dm': "h' a \<noteq> None \<longleftrightarrow> a \<in> set (?hd # lt @ ?node # ge)" for a
    using shape_live [OF h'(2), of a] dm [of a] by auto
  have same: "map (f(?node := c)) ys = map f ys" if "set ys \<subseteq> set (lt @ ge)" for f :: "addr \<Rightarrow> 'c" and c ys
    using that new by auto
  have keys: "map (key_at h') (lt @ ?node # ge) = map (key_at ?h) lt @ key # map (key_at ?h) ge"
    by (simp add: views same)
  have "sorted_wrt (<) (map (key_at ?h) (lt @ ge))" using inv by (simp add: sl_inv_def)
  then have "sorted_wrt (<) (map (key_at h') (lt @ ?node # ge))"
    unfolding keys using lt ge by (auto simp: sorted_wrt_append)
  moreover have "\<forall>a. h' a \<noteq> None \<longrightarrow> a < ?node + 1"
    using below dm unfolding dm' by (auto intro: less_SucI simp del: not_None_eq)
  moreover have "\<forall>a \<in> set (lt @ ?node # ge). 1 \<le> height h' a \<and> height h' a \<le> (if mt_level m < ?nl then ?nl else mt_level m)"
  proof
    fix a assume a: "a \<in> set (lt @ ?node # ge)"
    show "1 \<le> height h' a \<and> height h' a \<le> (if mt_level m < ?nl then ?nl else mt_level m)"
    proof (cases "a = ?node")
      case True
      with nl show ?thesis by (simp add: views)
    next
      case False
      with a have "a \<in> set (lt @ ge)" by simp
      then have "1 \<le> height ?h a \<and> height ?h a \<le> mt_level m" using ht by blast
      with False show ?thesis by (simp add: views)
    qed
  qed
  moreover have "height h' ?hd = MAX_LEVEL" using hh new by (auto simp: views)
  moreover have "distinct (?hd # lt @ ?node # ge)" using d new by auto
  moreover have "mt_size ?m = word_of_nat (sum_list (map (\<lambda>a. length (key_at h' a) + length (value_at h' a)) (lt @ ?node # ge)))"
  proof -
    have s: "map (\<lambda>a. length (key_at h' a) + length (value_at h' a)) ys =
             map (\<lambda>a. length (key_at ?h a) + length (value_at ?h a)) ys" if "set ys \<subseteq> set (lt @ ge)" for ys
      using that new by (auto simp: views)
    let ?f = "\<lambda>a. length (key_at ?h a) + length (value_at ?h a)"
    have S: "sum_list (map (\<lambda>a. length (key_at h' a) + length (value_at h' a)) (lt @ ?node # ge)) =
        sum_list (map ?f lt) + ((length (key_at h' ?node) + length (value_at h' ?node)) + sum_list (map ?f ge))"
    proof -
      have "set lt \<subseteq> set (lt @ ge)" "set ge \<subseteq> set (lt @ ge)" by auto
      then show ?thesis by (simp only: map_append list.map sum_list_append sum_list.Cons s)
    qed
    have kv: "key_at h' ?node = key" "value_at h' ?node = val" by (simp_all add: views)
    have "mt_size m = word_of_nat (sum_list (map ?f (lt @ ge)))" using inv unfolding sl_inv_def by blast
    then show ?thesis unfolding S kv by simp
  qed
  moreover have "mt_count ?m = word_of_nat (length (lt @ ?node # ge))" using inv by (simp add: sl_inv_def)
  ultimately have "sl_inv ?m (lt @ ?node # ge)"
    using h'(3) dm' lv nl unfolding sl_inv_def by (auto simp del: not_None_eq map_append sum_list_append)
  moreover have "sl_list ?m (lt @ ?node # ge) = sl_list m lt @ (key, val) # sl_list m ge"
  proof -
    have s: "map (\<lambda>a. (key_at h' a, value_at h' a)) ys = map (\<lambda>a. (key_at ?h a, value_at ?h a)) ys"
      if "set ys \<subseteq> set (lt @ ge)" for ys using that new by (auto simp: views)
    show ?thesis by (simp add: sl_list_def s) (simp add: views)
  qed
  moreover have "al_put key val (sl_list m lt @ sl_list m ge) = sl_list m lt @ (key, val) # sl_list m ge"
    using lt ge by (intro al_put_new) (auto simp: fst_sl_list)
  ultimately show ?thesis using put
    by (intro exI [of _ ?m] exI [of _ "lt @ ?node # ge"]) (simp add: sl_list_append)
qed


lemma MT_Put_spec:
  assumes inv: "sl_inv m xs"
  shows "\<exists>m' xs'. MT_Put draw key val m = Some m' \<and> sl_inv m' xs' \<and> sl_list m' xs' = al_put key val (sl_list m xs)"
proof -
  have srt: "sorted_wrt (<) (map (key_at (mt_heap m)) xs)" using inv by (simp add: sl_inv_def)
  obtain lt ge where xs: "xs = lt @ ge" and lt: "\<forall>b \<in> set lt. key_at (mt_heap m) b < key"
    and ge: "\<forall>b \<in> set ge. \<not> key_at (mt_heap m) b < key" using split_at_key [OF srt] by blast
  show ?thesis
  proof (cases "\<exists>b bs. ge = b # bs \<and> key_at (mt_heap m) b = key")
    case True
    then obtain b bs where b: "ge = b # bs" "key_at (mt_heap m) b = key" by blast
    from MT_Put_present [OF inv [unfolded xs b(1)] lt b(2)] show ?thesis unfolding xs b(1) by blast
  next
    case False
    have "\<forall>x \<in> set ge. key < key_at (mt_heap m) x"
    proof (cases ge)
      case (Cons b bs)
      then have "key < key_at (mt_heap m) b" using False ge by (auto simp: not_less less_le)
      moreover have "\<forall>x \<in> set bs. key_at (mt_heap m) b < key_at (mt_heap m) x"
        using srt xs Cons by (simp add: sorted_wrt_append)
      ultimately show ?thesis using Cons by (auto intro: order.strict_trans)
    qed simp
    from MT_Put_absent [OF inv [unfolded xs] lt this] show ?thesis unfolding xs .
  qed
qed

subsection \<open>Iteration and \<open>Clear\<close>\<close>

lemma iterate_from_path:
  assumes "lpath (\<lambda>a. fwd h a 0) p xs" and "\<forall>a \<in> set xs. h a \<noteq> None"
  shows "\<exists>first. fwd h p 0 = Some first \<and>
           iterate_from h first = Some (map (\<lambda>a. (key_at h a, value_at h a)) xs)"
  using assms
proof (induction xs arbitrary: p)
  case Nil
  then show ?case by (intro exI [of _ None]) (simp, subst iterate_from.simps, simp)
next
  case (Cons a xs)
  then obtain n where n: "h a = Some n" by auto
  obtain first where f: "fwd h a 0 = Some first"
    "iterate_from h first = Some (map (\<lambda>a. (key_at h a, value_at h a)) xs)"
    using Cons.IH [of a] Cons.prems by auto
  have "iterate_from h (Some a) = Some (map (\<lambda>a. (key_at h a, value_at h a)) (a # xs))"
    by (subst iterate_from.simps) (simp add: n f key_at_def value_at_def shape_def)
  with Cons.prems show ?case by simp
qed

lemma MT_entries_spec:
  assumes "sl_inv m xs"
  shows "MT_entries m = Some (sl_list m xs)"
proof -
  have "lpath (\<lambda>a. fwd (mt_heap m) a 0) (mt_head m) xs"
    by (rule chains_0) (use assms in \<open>auto simp: sl_inv_def\<close>)
  moreover have "\<forall>a \<in> set xs. mt_heap m a \<noteq> None" using assms by (auto simp: sl_inv_def)
  ultimately show ?thesis
    using iterate_from_path [of "mt_heap m" "mt_head m" xs]
    by (auto simp: MT_entries_def MT_NewIterator_def sl_list_def)
qed

text \<open>The same chain seen from the pointer to its first node.\<close>

fun lfrom :: "(addr \<Rightarrow> addr option option) \<Rightarrow> addr option \<Rightarrow> addr list \<Rightarrow> bool" where
  "lfrom f p [] \<longleftrightarrow> p = None"
| "lfrom f p (b # bs) \<longleftrightarrow> p = Some b \<and> (\<exists>q. f b = Some q \<and> lfrom f q bs)"

lemma lpath_lfrom: "lpath f a xs \<Longrightarrow> \<exists>p. f a = Some p \<and> lfrom f p xs"
  by (induction xs arbitrary: a) auto

lemma lfrom_cong: "(\<And>x. x \<in> set xs \<Longrightarrow> g x = f x) \<Longrightarrow> lfrom g p xs = lfrom f p xs"
  by (induction xs arbitrary: p) auto

lemma free_nodes_lfrom:
  assumes "lfrom (\<lambda>a. fwd h a 0) p xs" and "distinct xs"
  shows "free_nodes p h = Some (\<lambda>a. if a \<in> set xs then None else h a)"
  using assms
proof (induction xs arbitrary: p h)
  case Nil
  then show ?case by (subst free_nodes.simps) simp
next
  case (Cons x xs)
  then obtain q where q: "p = Some x" "fwd h x 0 = Some q" "lfrom (\<lambda>a. fwd h a 0) q xs" by auto
  have "lfrom (\<lambda>a. fwd (h(x := None)) a 0) q xs = lfrom (\<lambda>a. fwd h a 0) q xs"
    using Cons.prems(2) by (intro lfrom_cong) (auto simp: fwd_def)
  with q(3) have lf: "lfrom (\<lambda>a. fwd (h(x := None)) a 0) q xs" by blast
  have "free_nodes q (h(x := None)) = Some (\<lambda>a. if a \<in> set xs then None else (h(x := None)) a)"
    using Cons.IH [OF lf] Cons.prems(2) by (simp only: distinct.simps)
  then show ?case by (subst free_nodes.simps) (auto simp: q fun_eq_iff)
qed

lemma null_next_spec:
  assumes "h a = Some n" and "i + k \<le> length (sn_next n)"
  shows "\<exists>h' n'. null_next a i k h = Some h' \<and> h' a = Some n' \<and> (\<forall>b. b \<noteq> a \<longrightarrow> h' b = h b) \<and> sn_key n' = sn_key n \<and> sn_value n' = sn_value n \<and>
           length (sn_next n') = length (sn_next n) \<and>
           (\<forall>j < length (sn_next n). sn_next n' ! j = (if i \<le> j \<and> j < i + k then None else sn_next n ! j))"
  using assms
proof (induction k arbitrary: i h n)
  case 0
  then show ?case by (intro exI [of _ h] exI [of _ n]) auto
next
  case (Suc k)
  let ?n = "n\<lparr> sn_next := (sn_next n)[i := None] \<rparr>"
  have "(h(a \<mapsto> ?n)) a = Some ?n" "i + 1 + k \<le> length (sn_next ?n)" using Suc.prems by simp_all
  from Suc.IH [of "h(a \<mapsto> ?n)" ?n "i + 1", OF this]
  obtain h' n' where h': "null_next a (i + 1) k (h(a \<mapsto> ?n)) = Some h'" "h' a = Some n'"
    "\<forall>b. b \<noteq> a \<longrightarrow> h' b = (h(a \<mapsto> ?n)) b"
    "sn_key n' = sn_key ?n" "sn_value n' = sn_value ?n" "length (sn_next n') = length (sn_next ?n)"
    "\<forall>j < length (sn_next ?n). sn_next n' ! j = (if i + 1 \<le> j \<and> j < i + 1 + k then None else sn_next ?n ! j)"
    by blast
  have "null_next a i (Suc k) h = Some h'" using Suc.prems h'(1) by (simp add: set_fwd_def)
  with h' show ?case
    by (intro exI [of _ h'] exI [of _ n']) (auto simp: nth_list_update le_less Suc_le_eq)
qed

lemma MT_Clear_spec:
  assumes inv: "sl_inv m xs"
  shows "\<exists>m'. MT_Clear m = Some m' \<and> sl_inv m' [] \<and>
           (\<forall>a. mt_heap m' a \<noteq> None \<longleftrightarrow> a = mt_head m)"
proof -
  let ?h = "mt_heap m" and ?hd = "mt_head m"
  have "lpath (\<lambda>a. fwd ?h a 0) ?hd xs" by (rule chains_0) (use inv in \<open>auto simp: sl_inv_def\<close>)
  then obtain p where p: "fwd ?h ?hd 0 = Some p" "lfrom (\<lambda>a. fwd ?h a 0) p xs" using lpath_lfrom by blast
  have d: "distinct xs" "?hd \<notin> set xs" and dm: "\<And>a. ?h a \<noteq> None \<longleftrightarrow> a \<in> set (?hd # xs)"
    and below: "\<And>a. ?h a \<noteq> None \<Longrightarrow> a < mt_brk m" and hh: "height ?h ?hd = MAX_LEVEL"
    using inv by (auto simp: sl_inv_def)
  obtain n where n: "?h ?hd = Some n" using dm [of ?hd] by auto
  then have ln: "length (sn_next n) = MAX_LEVEL" using hh by (simp add: height_def shape_def)
  let ?g = "\<lambda>a. if a \<in> set xs then None else ?h a"
  have free: "free_nodes p ?h = Some ?g" by (rule free_nodes_lfrom [OF p(2) d(1)])
  have gn: "?g ?hd = Some n" using n d by simp
  obtain h' n' where h': "null_next ?hd 0 MAX_LEVEL ?g = Some h'" "h' ?hd = Some n'" "\<forall>b. b \<noteq> ?hd \<longrightarrow> h' b = ?g b"
    "length (sn_next n') = MAX_LEVEL" "\<forall>j < MAX_LEVEL. sn_next n' ! j = None"
    using null_next_spec [of ?g ?hd n 0 MAX_LEVEL] gn ln by auto
  let ?m = "m\<lparr> mt_heap := h', mt_size := 0, mt_count := 0, mt_level := 1 \<rparr>"
  have clear: "MT_Clear m = Some ?m" by (simp add: MT_Clear_def p free h'(1))
  have dm': "h' a \<noteq> None \<longleftrightarrow> a = ?hd" for a using dm [of a] h'(2,3) by auto
  have "sl_chains h' ?hd []" using h'(2,4,5) by (simp add: sl_chains_def level_nodes_def fwd_def)
  moreover have "height h' ?hd = MAX_LEVEL" using h'(2,4) by (simp add: height_def shape_def)
  moreover have "?hd < mt_brk m" using below dm by auto
  ultimately have "sl_inv ?m []" using dm' by (simp add: sl_inv_def MAX_LEVEL_def del: not_None_eq)
  with clear dm' show ?thesis by (intro exI [of _ ?m]) simp
qed

lemma MemTable_new_inv: "sl_inv MemTable_new []"
  by (auto simp: sl_inv_def MemTable_new_def sl_chains_def level_nodes_def fwd_def height_def shape_def MAX_LEVEL_def)


subsection \<open>The ordered map a database needs\<close>

text \<open>
  The interface the database uses: the state is described by what its iterator visits, a sorted
  association list.
\<close>

locale ordered_map =
  fixes put :: "'d \<Rightarrow> 'k::linorder \<Rightarrow> 'v \<Rightarrow> 'm \<Rightarrow> 'm option"
    and get :: "'k \<Rightarrow> 'm \<Rightarrow> 'v option option"
    and entries :: "'m \<Rightarrow> ('k \<times> 'v) list option"
    and clear :: "'m \<Rightarrow> 'm option"
    and inv :: "'m \<Rightarrow> bool"
  assumes entries_sorted: "inv m \<Longrightarrow> \<exists>l. entries m = Some l \<and> sorted_wrt (<) (map fst l)"
    and put_spec: "inv m \<Longrightarrow> entries m = Some l \<Longrightarrow>
          \<exists>m'. put d k v m = Some m' \<and> inv m' \<and> entries m' = Some (al_put k v l)"
    and get_spec: "inv m \<Longrightarrow> entries m = Some l \<Longrightarrow> get k m = Some (map_of l k)"
    and clear_spec: "inv m \<Longrightarrow> \<exists>m'. clear m = Some m' \<and> inv m' \<and> entries m' = Some []"
begin

fun put_all :: "'d list \<Rightarrow> ('k \<times> 'v) list \<Rightarrow> 'm \<Rightarrow> 'm option" where
  "put_all (d # ds) ((k, v) # kvs) m = do { m1 \<leftarrow> put d k v m; put_all ds kvs m1 }"
| "put_all _ _ m = Some m"

text \<open>Replaying a sequence of writes leaves the last value of every key.\<close>

lemma put_all_spec:
  assumes "inv m" and "entries m = Some l" and "length ds = length kvs"
  shows "\<exists>m' l'. put_all ds kvs m = Some m' \<and> inv m' \<and> entries m' = Some l' \<and>
           sorted_wrt (<) (map fst l') \<and> map_of l' = map_of l ++ map_of (rev kvs)"
  using assms
proof (induction ds kvs m arbitrary: l rule: put_all.induct)
  case (1 d ds k v kvs m)
  obtain m1 where m1: "put d k v m = Some m1" "inv m1" "entries m1 = Some (al_put k v l)"
    using put_spec [OF "1.prems"(1,2)] by blast
  have srt: "sorted_wrt (<) (map fst l)" using entries_sorted [OF "1.prems"(1)] "1.prems"(2) by auto
  obtain m' l' where m': "put_all ds kvs m1 = Some m'" "inv m'" "entries m' = Some l'"
    "sorted_wrt (<) (map fst l')" "map_of l' = map_of (al_put k v l) ++ map_of (rev kvs)"
    using "1.IH" [OF m1(1) m1(2,3)] "1.prems"(3) by auto
  have "map_of (al_put k v l) ++ map_of (rev kvs) = map_of l ++ map_of (rev ((k, v) # kvs))"
    by (simp add: map_of_al_put [OF srt] map_add_upd_left fun_eq_iff map_add_def split: option.split)
  with m1 m' show ?case by auto
qed (use entries_sorted in fastforce)+

lemma get_after_put:
  assumes "inv m"
  shows "\<exists>m'. put d k v m = Some m' \<and> inv m' \<and> get k' m' = (if k' = k then Some (Some v) else get k' m)"
proof -
  obtain l where l: "entries m = Some l" "sorted_wrt (<) (map fst l)" using entries_sorted [OF assms] by blast
  obtain m' where m': "put d k v m = Some m'" "inv m'" "entries m' = Some (al_put k v l)"
    using put_spec [OF assms l(1)] by blast
  with get_spec [OF m'(2,3)] get_spec [OF assms l(1)] show ?thesis by (simp add: map_of_al_put [OF l(2)])
qed

end

definition mt_wf :: "memtable \<Rightarrow> bool" where
  "mt_wf m \<longleftrightarrow> (\<exists>xs. sl_inv m xs)"

interpretation mt: ordered_map MT_Put MT_Get MT_entries MT_Clear mt_wf
proof unfold_locales
  fix m :: memtable and l d k v
  assume "mt_wf m"
  then obtain xs where inv: "sl_inv m xs" by (auto simp: mt_wf_def)
  note ent = MT_entries_spec [OF inv]
  show "\<exists>l. MT_entries m = Some l \<and> sorted_wrt (<) (map fst l)"
    using inv ent by (simp add: sl_inv_def sl_list_def comp_def)
  show "\<exists>m'. MT_Clear m = Some m' \<and> mt_wf m' \<and> MT_entries m' = Some []"
    using MT_Clear_spec [OF inv] MT_entries_spec by (fastforce simp: mt_wf_def sl_list_def)
  assume l: "MT_entries m = Some l"
  with ent have "l = sl_list m xs" by simp
  then show "MT_Get k m = Some (map_of l k)" using MT_Get_spec [OF inv] by simp
  obtain m' xs' where "MT_Put d k v m = Some m'" "sl_inv m' xs'" "sl_list m' xs' = al_put k v (sl_list m xs)"
    using MT_Put_spec [OF inv] by blast
  with \<open>l = sl_list m xs\<close> MT_entries_spec [of m' xs']
  show "\<exists>m'. MT_Put d k v m = Some m' \<and> mt_wf m' \<and> MT_entries m' = Some (al_put k v l)"
    by (auto simp: mt_wf_def)
qed

lemma MemTable_new_wf: "mt_wf MemTable_new \<and> MT_entries MemTable_new = Some []"
  using MemTable_new_inv MT_entries_spec [OF MemTable_new_inv] by (auto simp: mt_wf_def sl_list_def)

lemma MT_stats:
  assumes "mt_wf m" and "MT_entries m = Some l"
  shows "mt_count m = word_of_nat (length l)"
    and "MT_Size m = word_of_nat (sum_list (map (\<lambda>(k, v). length k + length v) l))"
proof -
  obtain xs where inv: "sl_inv m xs" using assms(1) by (auto simp: mt_wf_def)
  then have l: "l = sl_list m xs" using MT_entries_spec [OF inv] assms(2) by simp
  show "mt_count m = word_of_nat (length l)" using inv by (simp add: l sl_list_def sl_inv_def)
  have "mt_size m = word_of_nat (sum_list (map (\<lambda>a. length (key_at (mt_heap m) a) + length (value_at (mt_heap m) a)) xs))"
    using inv unfolding sl_inv_def by blast
  then show "MT_Size m = word_of_nat (sum_list (map (\<lambda>(k, v). length k + length v) l))"
    by (simp add: l sl_list_def MT_Size_def comp_def)
qed

text \<open>The replay loop of the database, one \<open>Put\<close> per record.\<close>

fun MT_put_all :: "(nat \<Rightarrow> bool) list \<Rightarrow> (str \<times> str) list \<Rightarrow> memtable \<Rightarrow> memtable option" where
  "MT_put_all (d # ds) ((k, v) # kvs) m = do { m1 \<leftarrow> MT_Put d k v m; MT_put_all ds kvs m1 }"
| "MT_put_all _ _ m = Some m"

lemma MT_put_all_eq: "MT_put_all ds kvs m = mt.put_all ds kvs m"
proof (induction ds kvs m rule: MT_put_all.induct)
  case (1 d ds k v kvs m)
  then show ?case by (cases "MT_Put d k v m") auto
qed auto

subsection \<open>Properties\<close>

text \<open>
  C40: the skip list is a correct ordered map.  After any sequence of \<open>Put\<close> calls on a new memtable,
  whatever heights the generator draws, no pointer operation faults or loops, \<open>Get\<close> answers every
  key with the value last put, and the iterator visits every key once, in increasing byte order.
\<close>

theorem memtable_is_ordered_map:
  assumes "length ds = length kvs"
  shows "\<exists>m l. MT_put_all ds kvs MemTable_new = Some m \<and> MT_entries m = Some l \<and>
           sorted_wrt (<) (map fst l) \<and> map_of l = map_of (rev kvs) \<and>
           (\<forall>k. MT_Get k m = Some (map_of (rev kvs) k))"
proof -
  obtain m l where m: "MT_put_all ds kvs MemTable_new = Some m" "mt_wf m" "MT_entries m = Some l"
    "sorted_wrt (<) (map fst l)" "map_of l = map_of (rev kvs)"
    using mt.put_all_spec [of MemTable_new "[]" ds kvs] MemTable_new_wf assms by (auto simp: MT_put_all_eq)
  with mt.get_spec show ?thesis by metis
qed

theorem memtable_is_ordered_map_witness:
  "\<exists>m l. MT_put_all [\<lambda>_. True, \<lambda>i. i = 0, \<lambda>_. False] [([2], [1]), ([1], [7]), ([2], [])] MemTable_new = Some m \<and>
     MT_entries m = Some l \<and> sorted_wrt (<) (map fst l) \<and> MT_Get [2] m = Some (Some [])"
proof -
  obtain m l where "MT_put_all [\<lambda>_. True, \<lambda>i. i = 0, \<lambda>_. False] [([2], [1]), ([1], [7]), ([2], [])] MemTable_new = Some m"
    "MT_entries m = Some l" "sorted_wrt (<) (map fst l)"
    "\<forall>k. MT_Get k m = Some (map_of (rev [([2], [1]), ([1], [7]), ([2], [])]) k)"
    using memtable_is_ordered_map [of "[\<lambda>_. True, \<lambda>i. i = 0, \<lambda>_. False]" "[([2], [1]), ([1], [7]), ([2], [])]"]
    by auto
  then show ?thesis by auto
qed

text \<open>
  The accounting of the memtable, which decides when it is flushed.  After any calls the entry
  count is the number of distinct keys and \<open>Size\<close> is the total length of the live keys and values,
  also when values were overwritten by shorter ones (modulo \<open>2 ^ 64\<close>, as \<open>size_t\<close> is).
\<close>

theorem memtable_accounting:
  assumes "length ds = length kvs"
  shows "\<exists>m l. MT_put_all ds kvs MemTable_new = Some m \<and> MT_entries m = Some l \<and>
           mt_count m = word_of_nat (length l) \<and> (MT_Empty m \<longleftrightarrow> (word_of_nat (length l) :: u64) = 0) \<and>
           MT_Size m = word_of_nat (sum_list (map (\<lambda>(k, v). length k + length v) l))"
proof -
  obtain m l where m: "MT_put_all ds kvs MemTable_new = Some m" "mt_wf m" "MT_entries m = Some l"
    using mt.put_all_spec [of MemTable_new "[]" ds kvs] MemTable_new_wf assms by (auto simp: MT_put_all_eq)
  with MT_stats [OF m(2,3)] show ?thesis by (auto simp: MT_Empty_def)
qed

theorem memtable_accounting_witness:
  "\<exists>m l. MT_put_all [\<lambda>_. False, \<lambda>_. True] [([1], [1, 2, 3]), ([1], [4])] MemTable_new = Some m \<and>
     MT_entries m = Some l \<and> MT_Size m = word_of_nat (sum_list (map (\<lambda>(k, v). length k + length v) l))"
  using memtable_accounting [of "[\<lambda>_. False, \<lambda>_. True]" "[([1], [1, 2, 3]), ([1], [4])]"] by auto

end
