(* ===== verification/Raft.thy ===== *)
theory Raft
  imports Coding
begin

text \<open>
  One Raft node: the state and the handlers of \<open>src/src/raft/raft_node.cc\<close>.  Terms and indices are
  64-bit words.  The RPC callback is an argument (\<open>rpc\<close>), because sending is synchronous in the
  program and the callback may handle the peer's answer before it returns; the calls of the other
  callbacks and the messages sent are recorded in \<open>rn_events\<close>.  \<open>None\<close> is undefined behaviour
  (\<open>back()\<close> of an empty log) or an exception nobody catches.  The two state files are byte strings;
  \<open>rn_disk\<close> is what the file system does with each write of \<open>raft_state.dat\<close>, in the order of the
  writes, so a write may fail or be cut at any point.
\<close>

record log_entry =
  le_term :: u64
  le_index :: u64
  le_command :: str

datatype raft_state = FOLLOWER | CANDIDATE | LEADER

subsection \<open>Messages (raft.proto)\<close>

record vote_request =
  rv_term :: u64
  rv_candidate_id :: str
  rv_last_log_index :: u64
  rv_last_log_term :: u64

record vote_response =
  vr_term :: u64
  vr_granted :: bool

record append_request =
  ae_term :: u64
  ae_leader_id :: str
  ae_prev_log_index :: u64
  ae_prev_log_term :: u64
  ae_entries :: "log_entry list"
  ae_leader_commit :: u64

record append_response =
  ar_term :: u64
  ar_success :: bool
  ar_match_index :: u64

record snapshot_request =
  is_term :: u64
  is_leader_id :: str
  is_last_index :: u64
  is_last_term :: u64
  is_data :: str

record snapshot_response =
  sr_term :: u64
  sr_success :: bool

record snapshot_meta =
  sm_last_index :: u64
  sm_last_term :: u64
  sm_data :: str

datatype raft_message =
    REQUEST_VOTE vote_request
  | REQUEST_VOTE_RESPONSE vote_response
  | APPEND_ENTRIES append_request
  | APPEND_ENTRIES_RESPONSE append_response
  | INSTALL_SNAPSHOT snapshot_request
  | INSTALL_SNAPSHOT_RESPONSE snapshot_response

text \<open>What the node did to its environment: a message given to the RPC callback, a command given to the
  apply callback, a snapshot given to the restore callback.\<close>

datatype raft_event = Sent str raft_message | Applied u64 str | Restored str

subsection \<open>The node\<close>

text \<open>
  What becomes of one write of the state file, which is opened with \<open>std::ios::trunc\<close>: it is complete,
  the file cannot be opened and keeps what it held, or only a prefix of the bytes reaches the disk.
\<close>

datatype write_result = Written | Open_failed | Cut nat

record raft_node =
  rn_my_id :: str
  rn_peers :: "str list"
  rn_current_term :: u64
  rn_voted_for :: str
  rn_log :: "log_entry list"
  rn_commit_index :: u64
  rn_last_applied :: u64
  rn_next_index :: "str \<Rightarrow> u64 option"
  rn_match_index :: "str \<Rightarrow> u64 option"
  rn_snapshot_last_index :: u64
  rn_snapshot_last_term :: u64
  rn_state :: raft_state
  rn_leader_id :: str
  rn_votes_received :: nat
  rn_vote_resp :: vote_response
  rn_ae_resp :: append_response
  rn_snap_resp :: snapshot_response
  rn_apply_cb :: bool
  rn_restore_cb :: bool
  rn_state_file :: "str option"
  rn_snapshot_file :: "str option"
  rn_disk :: "nat \<Rightarrow> write_result"
  rn_writes :: nat
  rn_events :: "raft_event list"

definition dummy_entry :: log_entry where
  "dummy_entry = \<lparr> le_term = 0, le_index = 0, le_command = [] \<rparr>"

text \<open>The constructor, on a data directory that holds the two given files; \<open>with_disk\<close> puts the node on
  a disk whose writes have the given outcomes.\<close>

definition RaftNode_new :: "str \<Rightarrow> str list \<Rightarrow> str option \<Rightarrow> str option \<Rightarrow> raft_node" where
  "RaftNode_new node_id peers state_file snapshot_file =
     \<lparr> rn_my_id = node_id, rn_peers = peers, rn_current_term = 0, rn_voted_for = [],
       rn_log = [dummy_entry], rn_commit_index = 0, rn_last_applied = 0,
       rn_next_index = (\<lambda>_. None), rn_match_index = (\<lambda>_. None),
       rn_snapshot_last_index = 0, rn_snapshot_last_term = 0, rn_state = FOLLOWER, rn_leader_id = [],
       rn_votes_received = 0,
       rn_vote_resp = \<lparr> vr_term = 0, vr_granted = False \<rparr>,
       rn_ae_resp = \<lparr> ar_term = 0, ar_success = False, ar_match_index = 0 \<rparr>,
       rn_snap_resp = \<lparr> sr_term = 0, sr_success = False \<rparr>,
       rn_apply_cb = True, rn_restore_cb = True,
       rn_state_file = state_file, rn_snapshot_file = snapshot_file,
       rn_disk = (\<lambda>_. Written), rn_writes = 0, rn_events = [] \<rparr>"

definition with_disk :: "(nat \<Rightarrow> write_result) \<Rightarrow> nat \<Rightarrow> raft_node \<Rightarrow> raft_node" where
  "with_disk disk k n = n\<lparr> rn_disk := disk, rn_writes := k \<rparr>"

text \<open>The process ends and is started again in the same directory: only the files are left.\<close>

definition Raft_reboot :: "raft_node \<Rightarrow> raft_node" where
  "Raft_reboot n = with_disk (rn_disk n) (rn_writes n)
     (RaftNode_new (rn_my_id n) (rn_peers n) (rn_state_file n) (rn_snapshot_file n))"

text \<open>\<open>log_.back()\<close>.\<close>

definition log_back :: "raft_node \<Rightarrow> log_entry option" where
  "log_back n = (if rn_log n = [] then None else Some (last (rn_log n)))"

definition GetLogEntry :: "u64 \<Rightarrow> raft_node \<Rightarrow> log_entry option" where
  "GetLogEntry index n = find (\<lambda>e. le_index e = index) (rn_log n)"

definition GetLastLogIndex :: "raft_node \<Rightarrow> u64 option" where
  "GetLastLogIndex n = map_option le_index (log_back n)"

definition GetLastLogTerm :: "raft_node \<Rightarrow> u64 option" where
  "GetLastLogTerm n = map_option le_term (log_back n)"

subsection \<open>The state file\<close>

text \<open>
  Integers are written as they lie in memory (little-endian on the supported platforms), the log
  without its sentinel.
\<close>

definition entry_bytes :: "log_entry \<Rightarrow> str" where
  "entry_bytes e = EncodeFixed64 (le_term e) @ EncodeFixed64 (le_index e) @
     EncodeFixed64 (word_of_nat (length (le_command e))) @ le_command e"

definition state_bytes :: "raft_node \<Rightarrow> str" where
  "state_bytes n =
     EncodeFixed64 (rn_current_term n) @
     EncodeFixed64 (word_of_nat (length (rn_voted_for n))) @ rn_voted_for n @
     EncodeFixed64 (word_of_nat (length (rn_log n)) - 1) @
     concat (map entry_bytes (drop 1 (rn_log n)))"

text \<open>
  The answer of \<open>PersistState\<close> is whether the write was complete.  Every caller in the source drops the
  answer and goes on as if the write had succeeded: that is \<open>PersistState\<close> below.
\<close>

definition PersistState_ok :: "raft_node \<Rightarrow> bool \<times> raft_node" where
  "PersistState_ok n =
     (let n1 = n\<lparr> rn_writes := rn_writes n + 1 \<rparr> in
      case rn_disk n (rn_writes n) of
        Written \<Rightarrow> (True, n1\<lparr> rn_state_file := Some (state_bytes n) \<rparr>)
      | Open_failed \<Rightarrow> (False, n1)
      | Cut k \<Rightarrow> (False, n1\<lparr> rn_state_file := Some (take k (state_bytes n)) \<rparr>))"

definition PersistState :: "raft_node \<Rightarrow> raft_node" where
  "PersistState n = snd (PersistState_ok n)"

text \<open>
  \<open>std::ifstream\<close>: the unread bytes and the fail bit.  \<open>read\<close> fills a buffer from the front; a short
  read leaves the rest of the buffer as it was and fails the stream, and a failed stream reads
  nothing.  The result holds \<open>gcount()\<close>.
\<close>

type_synonym istream = "str \<times> bool"

definition stream_read :: "str \<Rightarrow> istream \<Rightarrow> str \<times> nat \<times> istream" where
  "stream_read buf st =
     (let (rest, failed) = st; n = length buf in
      if failed then (buf, 0, ([], True))
      else if n \<le> length rest then (take n rest, n, (drop n rest, False))
      else (rest @ drop (length rest) buf, length rest, ([], True)))"

definition read_u64 :: "u64 \<Rightarrow> istream \<Rightarrow> u64 \<times> nat \<times> istream" where
  "read_u64 old st =
     (let (b, cnt, st') = stream_read (EncodeFixed64 old) st
      in (case DecodeFixed64 b of Some v \<Rightarrow> v | None \<Rightarrow> old, cnt, st'))"

text \<open>\<open>s.resize(len)\<close> of an empty string, then a read into it; \<open>resize\<close> throws beyond \<open>max_size()\<close>.\<close>

definition read_str :: "u64 \<Rightarrow> istream \<Rightarrow> (str \<times> istream) option" where
  "read_str len st =
     (if 2 ^ 63 - 1 < unat len then None
      else let (b, _, st') = stream_read (replicate (unat len) 0) st in Some (b, st'))"

fun restore_entries :: "nat \<Rightarrow> istream \<Rightarrow> (log_entry list \<times> istream) option" where
  "restore_entries 0 st = Some ([], st)"
| "restore_entries (Suc k) st = do {
     let (trm, _, st1) = read_u64 0 st;
     let (idx, _, st2) = read_u64 0 st1;
     let (cmd_len, _, st3) = read_u64 0 st2;
     (cmd, st4) \<leftarrow> (if 0 < cmd_len then read_str cmd_len st3 else Some ([], st3));
     (rest, st5) \<leftarrow> restore_entries k st4;
     Some (\<lparr> le_term = trm, le_index = idx, le_command = cmd \<rparr> # rest, st5) }"

definition RestoreState :: "raft_node \<Rightarrow> raft_node option" where
  "RestoreState n =
     (case rn_state_file n of None \<Rightarrow> Some n
      | Some f \<Rightarrow>
          let (trm, cnt, st1) = read_u64 (rn_current_term n) (f, False); n1 = n\<lparr> rn_current_term := trm \<rparr> in
          if cnt \<noteq> 8 then Some n1
          else do {
            let (vf_len, cnt2, st2) = read_u64 0 st1;
            (vf, st3) \<leftarrow> (if cnt2 = 8 \<and> 0 < vf_len then read_str vf_len st2 else Some (rn_voted_for n1, st2));
            let n2 = n1\<lparr> rn_voted_for := vf \<rparr>;
            let (log_count, cnt3, st4) = read_u64 0 st3;
            if cnt3 \<noteq> 8 then Some n2
            else do {
              (es, _) \<leftarrow> restore_entries (unat log_count) st4;
              let n3 = n2\<lparr> rn_log := dummy_entry # es \<rparr>;
              Some (n3\<lparr> rn_commit_index := le_index (last (rn_log n3)),
                        rn_last_applied := le_index (last (rn_log n3)) \<rparr>) } })"

subsection \<open>Applying and committing\<close>

definition apply_one :: "raft_node \<Rightarrow> raft_node" where
  "apply_one n =
     (let i = rn_last_applied n + 1; n1 = n\<lparr> rn_last_applied := i \<rparr> in
      case GetLogEntry i n1 of
        None \<Rightarrow> n1
      | Some e \<Rightarrow> if le_command e \<noteq> [] \<and> rn_apply_cb n1
                  then n1\<lparr> rn_events := rn_events n1 @ [Applied i (le_command e)] \<rparr> else n1)"

lemma apply_one_last_applied [simp]: "rn_last_applied (apply_one n) = rn_last_applied n + 1"
  by (simp add: apply_one_def Let_def split: option.split)

function ApplyCommitted :: "u64 \<Rightarrow> raft_node \<Rightarrow> raft_node" where
  "ApplyCommitted up n = (if rn_last_applied n < up then ApplyCommitted up (apply_one n) else n)"
  by pat_completeness auto
termination
proof (relation "measure (\<lambda>(up, n). unat up - unat (rn_last_applied n))", simp, clarsimp)
  fix up :: u64 and n :: raft_node
  assume lt: "rn_last_applied n < up"
  then show "unat up - unat (rn_last_applied n + 1) < unat up - unat (rn_last_applied n)"
    using u64_inc [OF lt] by (simp add: word_less_nat_alt)
qed

declare ApplyCommitted.simps [simp del]


text \<open>\<open>it->second >= n\<close> over the peers, the node itself counted first.\<close>

definition replica_count :: "u64 \<Rightarrow> raft_node \<Rightarrow> nat" where
  "replica_count idx n =
     1 + length (filter (\<lambda>p. p \<noteq> rn_my_id n \<and>
            (case rn_match_index n p of None \<Rightarrow> False | Some m \<Rightarrow> idx \<le> m)) (rn_peers n))"

definition majority :: "raft_node \<Rightarrow> nat" where
  "majority n = length (rn_peers n) div 2 + 1"

function advance_loop :: "u64 \<Rightarrow> raft_node \<Rightarrow> raft_node" where
  "advance_loop idx n =
     (if rn_commit_index n < idx then
        (case GetLogEntry idx n of
           None \<Rightarrow> advance_loop (idx - 1) n
         | Some e \<Rightarrow>
             if le_term e \<noteq> rn_current_term n then advance_loop (idx - 1) n
             else if majority n \<le> replica_count idx n then ApplyCommitted idx (n\<lparr> rn_commit_index := idx \<rparr>)
             else advance_loop (idx - 1) n)
      else n)"
  by pat_completeness auto

termination by (relation "measure (\<lambda>(i, n). unat i)") (auto intro: u64_dec)

declare advance_loop.simps [simp del]

definition AdvanceCommitIndex :: "raft_node \<Rightarrow> raft_node option" where
  "AdvanceCommitIndex n = do { b \<leftarrow> log_back n; Some (advance_loop (le_index b) n) }"

subsection \<open>Sending\<close>

text \<open>\<open>next_index_[peer]\<close> inserts 0 where there is no entry.\<close>

definition next_index_at :: "str \<Rightarrow> raft_node \<Rightarrow> u64 \<times> raft_node" where
  "next_index_at p n =
     (case rn_next_index n p of Some v \<Rightarrow> (v, n) | None \<Rightarrow> (0, n\<lparr> rn_next_index := (rn_next_index n)(p \<mapsto> 0) \<rparr>))"

definition heartbeat_request :: "u64 \<Rightarrow> raft_node \<Rightarrow> append_request" where
  "heartbeat_request next_idx n =
     (let prev_log_index = next_idx - 1;
          prev_log_term =
            (if rn_snapshot_last_index n < prev_log_index then
               (case GetLogEntry prev_log_index n of Some e \<Rightarrow> le_term e | None \<Rightarrow> 0)
             else if prev_log_index = rn_snapshot_last_index n then rn_snapshot_last_term n else 0)
      in \<lparr> ae_term = rn_current_term n, ae_leader_id = rn_my_id n, ae_prev_log_index = prev_log_index,
           ae_prev_log_term = prev_log_term,
           ae_entries = filter (\<lambda>e. \<not> le_index e < next_idx) (rn_log n),
           ae_leader_commit = rn_commit_index n \<rparr>)"

text \<open>The RPC callback: it is given the peer and the message and may change the node.\<close>

type_synonym rpc_cb = "str \<Rightarrow> raft_message \<Rightarrow> raft_node \<Rightarrow> raft_node option"

definition record_rpc :: rpc_cb where
  "record_rpc peer msg n = Some (n\<lparr> rn_events := rn_events n @ [Sent peer msg] \<rparr>)"

fun heartbeat_loop :: "rpc_cb \<Rightarrow> str list \<Rightarrow> raft_node \<Rightarrow> raft_node option" where
  "heartbeat_loop rpc [] n = Some n"
| "heartbeat_loop rpc (peer # ps) n =
     (if peer = rn_my_id n then heartbeat_loop rpc ps n
      else do {
        let (next_idx, n1) = next_index_at peer n;
        n2 \<leftarrow> rpc peer (APPEND_ENTRIES (heartbeat_request next_idx n1)) n1;
        heartbeat_loop rpc ps n2 })"

definition SendHeartbeats :: "rpc_cb \<Rightarrow> raft_node \<Rightarrow> raft_node option" where
  "SendHeartbeats rpc n = (if rn_state n \<noteq> LEADER then Some n else heartbeat_loop rpc (rn_peers n) n)"

subsection \<open>Role changes\<close>

definition BecomeFollower :: "u64 \<Rightarrow> raft_node \<Rightarrow> raft_node" where
  "BecomeFollower term n =
     (let n1 = (if rn_current_term n < term
                then PersistState (n\<lparr> rn_current_term := term, rn_voted_for := [] \<rparr>) else n)
      in n1\<lparr> rn_state := FOLLOWER, rn_leader_id := [] \<rparr>)"

definition BecomeCandidate :: "raft_node \<Rightarrow> raft_node" where
  "BecomeCandidate n =
     PersistState (n\<lparr> rn_state := CANDIDATE, rn_current_term := rn_current_term n + 1,
                      rn_voted_for := rn_my_id n, rn_leader_id := [], rn_votes_received := 1 \<rparr>)"

definition BecomeLeader :: "rpc_cb \<Rightarrow> raft_node \<Rightarrow> raft_node option" where
  "BecomeLeader rpc n = do {
     b \<leftarrow> log_back n;
     let last_log_index = max (le_index b) (rn_snapshot_last_index n);
     let others = filter (\<lambda>p. p \<noteq> rn_my_id n) (rn_peers n);
     SendHeartbeats rpc
       (n\<lparr> rn_state := LEADER, rn_leader_id := rn_my_id n,
           rn_next_index := (\<lambda>p. if p \<in> set others then Some (last_log_index + 1) else None),
           rn_match_index := (\<lambda>p. if p \<in> set others then Some 0 else None) \<rparr>) }"

definition vote_request_of :: "raft_node \<Rightarrow> vote_request option" where
  "vote_request_of n = do {
     b \<leftarrow> log_back n;
     Some \<lparr> rv_term = rn_current_term n, rv_candidate_id = rn_my_id n,
            rv_last_log_index = le_index b, rv_last_log_term = le_term b \<rparr> }"

fun election_loop :: "rpc_cb \<Rightarrow> raft_message \<Rightarrow> str list \<Rightarrow> raft_node \<Rightarrow> raft_node option" where
  "election_loop rpc msg [] n = Some n"
| "election_loop rpc msg (peer # ps) n =
     (if peer = rn_my_id n then election_loop rpc msg ps n
      else do { n1 \<leftarrow> rpc peer msg n; election_loop rpc msg ps n1 })"

definition election_check :: "rpc_cb \<Rightarrow> raft_node \<Rightarrow> raft_node option" where
  "election_check rpc n =
     (if rn_state n = CANDIDATE \<and> majority n \<le> rn_votes_received n then BecomeLeader rpc n else Some n)"

definition StartElection :: "rpc_cb \<Rightarrow> raft_node \<Rightarrow> raft_node option" where
  "StartElection rpc n = do {
     req \<leftarrow> vote_request_of n;
     n1 \<leftarrow> election_loop rpc (REQUEST_VOTE req) (rn_peers n) n;
     election_check rpc n1 }"

definition OnElectionTimeout :: "rpc_cb \<Rightarrow> raft_node \<Rightarrow> raft_node option" where
  "OnElectionTimeout rpc n =
     (if rn_state n = LEADER then SendHeartbeats rpc n else StartElection rpc (BecomeCandidate n))"

subsection \<open>Requests from other nodes\<close>

text \<open>The response objects are members of the node and keep what an earlier call stored in them.\<close>

definition rv_enter :: "vote_request \<Rightarrow> raft_node \<Rightarrow> raft_node" where
  "rv_enter req n =
     (if rn_current_term n < rv_term req then
        let m = PersistState (n\<lparr> rn_current_term := rv_term req, rn_state := FOLLOWER,
                                 rn_voted_for := [], rn_leader_id := [] \<rparr>)
        in m\<lparr> rn_vote_resp := (rn_vote_resp m)\<lparr> vr_term := rn_current_term m \<rparr> \<rparr>
      else n)"

definition can_vote :: "vote_request \<Rightarrow> raft_node \<Rightarrow> bool option" where
  "can_vote req n =
     (if rn_voted_for n = [] \<or> rn_voted_for n = rv_candidate_id req then do {
        b \<leftarrow> log_back n;
        Some (le_term b < rv_last_log_term req \<or>
              (rv_last_log_term req = le_term b \<and> le_index b \<le> rv_last_log_index req)) }
      else Some False)"

definition HandleRequestVote :: "str \<Rightarrow> vote_request \<Rightarrow> raft_node \<Rightarrow> (vote_response \<times> raft_node) option" where
  "HandleRequestVote sender req n0 =
     (let n = n0\<lparr> rn_vote_resp := (rn_vote_resp n0)\<lparr> vr_term := rn_current_term n0 \<rparr> \<rparr> in
      if rv_term req < rn_current_term n then
        let r = (rn_vote_resp n)\<lparr> vr_granted := False \<rparr> in Some (r, n\<lparr> rn_vote_resp := r \<rparr>)
      else
        let n1 = rv_enter req n in do {
          ok \<leftarrow> can_vote req n1;
          let r = (rn_vote_resp n1)\<lparr> vr_granted := ok \<rparr>;
          Some (r, if ok
                   then (PersistState (n1\<lparr> rn_voted_for := rv_candidate_id req \<rparr>))\<lparr> rn_vote_resp := r \<rparr>
                   else n1\<lparr> rn_vote_resp := r \<rparr>) })"

text \<open>\<open>while (log_.back().index >= idx) log_.pop_back();\<close>\<close>

function pop_while :: "u64 \<Rightarrow> log_entry list \<Rightarrow> log_entry list option" where
  "pop_while idx l =
     (if l = [] then None else if idx \<le> le_index (last l) then pop_while idx (butlast l) else Some l)"
  by pat_completeness auto
termination by (relation "measure (\<lambda>(_, l). length l)") auto

declare pop_while.simps [simp del]

text \<open>The loop that looks for the first conflicting index and truncates there.\<close>

partial_function (option) truncate_from :: "u64 \<Rightarrow> u64 \<Rightarrow> log_entry list \<Rightarrow> log_entry list option" where
  "truncate_from idx prev_log_term l =
     (if l = [] then None
      else if idx \<le> le_index (last l) then
        (case find (\<lambda>e. le_index e = idx) l of
           Some e \<Rightarrow> if le_term e \<noteq> prev_log_term then pop_while idx l
                     else truncate_from (idx + 1) prev_log_term l
         | None \<Rightarrow> truncate_from (idx + 1) prev_log_term l)
      else Some l)"

definition append_entry :: "log_entry list \<Rightarrow> log_entry \<Rightarrow> log_entry list" where
  "append_entry l e = (if le_index (last l) < le_index e then l @ [e] else l)"

text \<open>The three ways a request ends: refused with the stale match index of the response object,
  refused with a hint, or accepted.\<close>

definition ae_refuse :: "u64 \<Rightarrow> raft_node \<Rightarrow> append_response \<times> raft_node" where
  "ae_refuse hint n =
     (let r = (rn_ae_resp n)\<lparr> ar_success := False, ar_match_index := hint \<rparr> in (r, n\<lparr> rn_ae_resp := r \<rparr>))"

definition follower_commit :: "u64 \<Rightarrow> u64 \<Rightarrow> raft_node \<Rightarrow> raft_node" where
  "follower_commit leader_commit last_index n =
     (let new_commit = min leader_commit last_index in
      if rn_commit_index n < leader_commit \<and> rn_commit_index n < new_commit
      then ApplyCommitted new_commit (n\<lparr> rn_commit_index := new_commit \<rparr>) else n)"

definition ae_accept :: "append_request \<Rightarrow> raft_node \<Rightarrow> (append_response \<times> raft_node) option" where
  "ae_accept req n = do {
     _ \<leftarrow> log_back n;
     let n1 = PersistState (n\<lparr> rn_log := foldl append_entry (rn_log n) (ae_entries req) \<rparr>);
     b \<leftarrow> log_back n1;
     let n2 = follower_commit (ae_leader_commit req) (le_index b) n1;
     let r = (rn_ae_resp n2)\<lparr> ar_success := True, ar_match_index := le_index b \<rparr>;
     Some (r, n2\<lparr> rn_ae_resp := r \<rparr>) }"

text \<open>The handler in its two halves: taking over the sender's term, and the log part.\<close>

definition ae_enter :: "str \<Rightarrow> append_request \<Rightarrow> raft_node \<Rightarrow> raft_node" where
  "ae_enter sender req n =
     (let n1 = (if rn_current_term n < ae_term req then
                  let m = PersistState (n\<lparr> rn_current_term := ae_term req, rn_state := FOLLOWER, rn_voted_for := [] \<rparr>)
                  in m\<lparr> rn_ae_resp := (rn_ae_resp m)\<lparr> ar_term := rn_current_term m \<rparr> \<rparr>
                else n)
      in n1\<lparr> rn_leader_id := sender, rn_state := FOLLOWER \<rparr>)"

definition ae_truncate :: "append_request \<Rightarrow> raft_node \<Rightarrow> (append_response \<times> raft_node) option" where
  "ae_truncate req n = do {
     l \<leftarrow> truncate_from (ae_prev_log_index req) (ae_prev_log_term req) (rn_log n);
     let n1 = n\<lparr> rn_log := l \<rparr>;
     b \<leftarrow> log_back n1;
     let (r, n2) = ae_refuse (le_index b) n1;
     Some (r, PersistState n2) }"

definition ae_check_log :: "append_request \<Rightarrow> raft_node \<Rightarrow> (append_response \<times> raft_node) option" where
  "ae_check_log req n = do {
     b \<leftarrow> log_back n;
     if le_index b < ae_prev_log_index req then Some (ae_refuse (le_index b) n)
     else if rn_snapshot_last_index n \<le> ae_prev_log_index req then
       (case GetLogEntry (ae_prev_log_index req) n of
          Some prev \<Rightarrow> if le_term prev \<noteq> ae_prev_log_term req then ae_truncate req n else ae_accept req n
        | None \<Rightarrow> ae_accept req n)
     else if ae_prev_log_index req \<noteq> rn_snapshot_last_index n \<or> ae_prev_log_term req \<noteq> rn_snapshot_last_term n
     then Some (ae_refuse (rn_snapshot_last_index n) n)
     else ae_accept req n }"

definition HandleAppendEntries :: "str \<Rightarrow> append_request \<Rightarrow> raft_node \<Rightarrow> (append_response \<times> raft_node) option" where
  "HandleAppendEntries sender req n0 =
     (let n = n0\<lparr> rn_ae_resp := (rn_ae_resp n0)\<lparr> ar_term := rn_current_term n0 \<rparr> \<rparr> in
      if ae_term req < rn_current_term n then
        let r = (rn_ae_resp n)\<lparr> ar_success := False \<rparr> in Some (r, n\<lparr> rn_ae_resp := r \<rparr>)
      else ae_check_log req (ae_enter sender req n))"

text \<open>
  \<open>HandleInstallSnapshot\<close>.  \<open>ser\<close> is the serializer protobuf generates for \<open>SnapshotMetadata\<close>,
  \<open>can_open\<close> whether the temporary file could be opened.  The test for an old snapshot compares the
  index with the snapshot's term, as the source does.
\<close>

definition snapshot_bytes :: "(snapshot_meta \<Rightarrow> str) \<Rightarrow> snapshot_meta \<Rightarrow> str" where
  "snapshot_bytes ser snap = EncodeFixed64 (word_of_nat (length (ser snap))) @ ser snap"

definition trim_log :: "u64 \<Rightarrow> log_entry list \<Rightarrow> log_entry list option" where
  "trim_log last_idx l = (case l of [] \<Rightarrow> None | d # es \<Rightarrow> Some (d # filter (\<lambda>e. last_idx < le_index e) es))"

definition is_enter :: "str \<Rightarrow> snapshot_request \<Rightarrow> raft_node \<Rightarrow> raft_node" where
  "is_enter sender req n =
     (let n1 = (if rn_current_term n < is_term req then
                  let m = PersistState (n\<lparr> rn_current_term := is_term req, rn_voted_for := [],
                                           rn_leader_id := [], rn_state := FOLLOWER \<rparr>)
                  in m\<lparr> rn_snap_resp := (rn_snap_resp m)\<lparr> sr_term := rn_current_term m \<rparr> \<rparr>
                else n)
      in n1\<lparr> rn_leader_id := sender, rn_state := FOLLOWER \<rparr>)"

definition is_install :: "(snapshot_meta \<Rightarrow> str) \<Rightarrow> snapshot_request \<Rightarrow> raft_node \<Rightarrow> (snapshot_response \<times> raft_node) option" where
  "is_install ser req n = do {
     let snap = \<lparr> sm_last_index = is_last_index req, sm_last_term = is_last_term req, sm_data = is_data req \<rparr>;
     let n1 = n\<lparr> rn_snapshot_file := Some (snapshot_bytes ser snap),
                 rn_events := (if rn_restore_cb n \<and> is_data req \<noteq> []
                               then rn_events n @ [Restored (is_data req)] else rn_events n),
                 rn_snapshot_last_index := is_last_index req,
                 rn_snapshot_last_term := is_last_term req \<rparr>;
     l \<leftarrow> trim_log (rn_snapshot_last_index n1) (rn_log n1);
     let n2 = n1\<lparr> rn_log := l \<rparr>;
     let n3 = (if rn_commit_index n2 < rn_snapshot_last_index n2
               then n2\<lparr> rn_commit_index := rn_snapshot_last_index n2,
                        rn_last_applied := rn_snapshot_last_index n2 \<rparr> else n2);
     let n4 = PersistState n3;
     let r = (rn_snap_resp n4)\<lparr> sr_success := True \<rparr>;
     Some (r, n4\<lparr> rn_snap_resp := r \<rparr>) }"

definition HandleInstallSnapshot ::
    "(snapshot_meta \<Rightarrow> str) \<Rightarrow> bool \<Rightarrow> str \<Rightarrow> snapshot_request \<Rightarrow> raft_node \<Rightarrow> (snapshot_response \<times> raft_node) option" where
  "HandleInstallSnapshot ser can_open sender req n0 =
     (let n = n0\<lparr> rn_snap_resp := (rn_snap_resp n0)\<lparr> sr_term := rn_current_term n0 \<rparr> \<rparr> in
      if is_term req < rn_current_term n then
        let r = (rn_snap_resp n)\<lparr> sr_success := False \<rparr> in Some (r, n\<lparr> rn_snap_resp := r \<rparr>)
      else
        let n2 = is_enter sender req n in
        if is_last_index req \<le> rn_snapshot_last_term n2 \<or> is_last_index req \<le> rn_commit_index n2 then
          let r = (rn_snap_resp n2)\<lparr> sr_success := True \<rparr> in Some (r, n2\<lparr> rn_snap_resp := r \<rparr>)
        else if \<not> can_open then
          let r = (rn_snap_resp n2)\<lparr> sr_success := False \<rparr> in Some (r, n2\<lparr> rn_snap_resp := r \<rparr>)
        else is_install ser req n2)"

text \<open>\<open>TakeSnapshot\<close>; \<open>snapshot_cb\<close> is the state machine's export (\<open>None\<close>: no callback set).\<close>

definition TakeSnapshot ::
    "(snapshot_meta \<Rightarrow> str) \<Rightarrow> bool \<Rightarrow> str option \<Rightarrow> raft_node \<Rightarrow> (bool \<times> raft_node) option" where
  "TakeSnapshot ser can_open snapshot_cb n =
     (case snapshot_cb of None \<Rightarrow> Some (False, n)
      | Some data \<Rightarrow>
          if rn_last_applied n \<le> rn_snapshot_last_index n then Some (False, n)
          else
            let last_index = rn_last_applied n;
                last_term = (case GetLogEntry last_index n of Some e \<Rightarrow> le_term e | None \<Rightarrow> rn_current_term n);
                snap = \<lparr> sm_last_index = last_index, sm_last_term = last_term, sm_data = data \<rparr>
            in if \<not> can_open then Some (False, n)
               else do {
                 l \<leftarrow> trim_log last_index (rn_log n);
                 Some (True, PersistState
                   (n\<lparr> rn_snapshot_file := Some (snapshot_bytes ser snap),
                       rn_snapshot_last_index := last_index, rn_snapshot_last_term := last_term,
                       rn_log := l \<rparr>)) })"

text \<open>\<open>RestoreFromSnapshot\<close>; \<open>parse\<close> is protobuf's \<open>ParseFromString\<close>.\<close>

definition RestoreFromSnapshot :: "(str \<Rightarrow> snapshot_meta option) \<Rightarrow> raft_node \<Rightarrow> (bool \<times> raft_node) option" where
  "RestoreFromSnapshot parse n =
     (case rn_snapshot_file n of None \<Rightarrow> Some (True, n)
      | Some f \<Rightarrow>
          let (len, cnt, st1) = read_u64 0 (f, False) in
          if cnt \<noteq> 8 then Some (True, n)
          else if 2 ^ 63 - 1 < unat len then None
          else
            let (s, cnt2, _) = stream_read (replicate (unat len) 0) st1 in
            if cnt2 \<noteq> unat len then Some (True, n)
            else (case parse s of
                    None \<Rightarrow> Some (False, n)
                  | Some snap \<Rightarrow>
                      let n1 = (if rn_restore_cb n \<and> sm_data snap \<noteq> []
                                then n\<lparr> rn_events := rn_events n @ [Restored (sm_data snap)] \<rparr> else n);
                          n2 = n1\<lparr> rn_snapshot_last_term := sm_last_term snap,
                                   rn_snapshot_last_index := sm_last_index snap \<rparr>;
                          n3 = (if rn_commit_index n2 < rn_snapshot_last_index n2
                                then n2\<lparr> rn_commit_index := rn_snapshot_last_index n2,
                                         rn_last_applied := rn_snapshot_last_index n2 \<rparr> else n2)
                      in Some (True, n3)))"

definition Raft_Start :: "(str \<Rightarrow> snapshot_meta option) \<Rightarrow> raft_node \<Rightarrow> raft_node option" where
  "Raft_Start parse n = do {
     n1 \<leftarrow> RestoreState n;
     (_, n2) \<leftarrow> RestoreFromSnapshot parse n1;
     Some (BecomeFollower (rn_current_term n2) n2) }"

subsection \<open>Responses\<close>

definition HandleRequestVoteResponse :: "rpc_cb \<Rightarrow> str \<Rightarrow> vote_response \<Rightarrow> raft_node \<Rightarrow> raft_node option" where
  "HandleRequestVoteResponse rpc sender resp n =
     (if rn_current_term n < vr_term resp then
        Some (PersistState (n\<lparr> rn_current_term := vr_term resp, rn_state := FOLLOWER,
                               rn_voted_for := [], rn_leader_id := [] \<rparr>))
      else if rn_state n \<noteq> CANDIDATE then Some n
      else if vr_term resp < rn_current_term n then Some n
      else if vr_granted resp then
        let n1 = n\<lparr> rn_votes_received := rn_votes_received n + 1 \<rparr> in
        if majority n1 \<le> rn_votes_received n1 then BecomeLeader rpc n1 else Some n1
      else Some n)"

definition HandleAppendEntriesResponse :: "str \<Rightarrow> append_response \<Rightarrow> raft_node \<Rightarrow> raft_node option" where
  "HandleAppendEntriesResponse sender resp n =
     (if rn_current_term n < ar_term resp then
        Some (PersistState (n\<lparr> rn_current_term := ar_term resp, rn_state := FOLLOWER,
                               rn_voted_for := [], rn_leader_id := [] \<rparr>))
      else if rn_state n \<noteq> LEADER then Some n
      else if ar_success resp then
        AdvanceCommitIndex
          (n\<lparr> rn_match_index := (rn_match_index n)(sender \<mapsto> ar_match_index resp),
              rn_next_index := (rn_next_index n)(sender \<mapsto> ar_match_index resp + 1) \<rparr>)
      else
        let (nxt, n1) = next_index_at sender n in
        if ar_match_index resp < nxt then
          let v = max (ar_match_index resp + 1) (rn_snapshot_last_index n1 + 1);
              v' = (if v < 1 then 1 else v)
          in Some (n1\<lparr> rn_next_index := (rn_next_index n1)(sender \<mapsto> v') \<rparr>)
        else Some n1)"

subsection \<open>Proposals\<close>

record propose_result =
  pr_index :: "u64 option"
  pr_committed :: bool
  pr_is_leader :: bool
  pr_leader_id :: str

text \<open>
  The wait: the node as it is at each wake-up; the list ends where the deadline passes.  A proposal is
  committed as soon as the commit index reaches its index.
\<close>

fun Propose_wait :: "u64 \<Rightarrow> raft_node list \<Rightarrow> propose_result" where
  "Propose_wait idx [] = \<lparr> pr_index = Some idx, pr_committed = False, pr_is_leader = True, pr_leader_id = [] \<rparr>"
| "Propose_wait idx (n # ns) =
     (if idx \<le> rn_commit_index n
      then \<lparr> pr_index = Some idx, pr_committed = True, pr_is_leader = True, pr_leader_id = [] \<rparr>
      else if rn_state n \<noteq> LEADER
      then \<lparr> pr_index = Some idx, pr_committed = False, pr_is_leader = False, pr_leader_id = rn_leader_id n \<rparr>
      else Propose_wait idx ns)"

definition Propose_append :: "str \<Rightarrow> raft_node \<Rightarrow> (u64 \<times> raft_node) option" where
  "Propose_append command n = do {
     b \<leftarrow> log_back n;
     let e = \<lparr> le_term = rn_current_term n, le_index = le_index b + 1, le_command = command \<rparr>;
     let n1 = PersistState (n\<lparr> rn_log := rn_log n @ [e] \<rparr>);
     Some (le_index e, n1\<lparr> rn_next_index := (rn_next_index n1)(rn_my_id n1 \<mapsto> le_index e + 1),
                           rn_match_index := (rn_match_index n1)(rn_my_id n1 \<mapsto> le_index e) \<rparr>) }"

definition Propose :: "rpc_cb \<Rightarrow> str \<Rightarrow> raft_node list \<Rightarrow> raft_node \<Rightarrow> (propose_result \<times> raft_node) option" where
  "Propose rpc command wakeups n =
     (if rn_state n \<noteq> LEADER then
        Some (\<lparr> pr_index = None, pr_committed = False, pr_is_leader = False, pr_leader_id = rn_leader_id n \<rparr>, n)
      else do {
        (idx, n1) \<leftarrow> Propose_append command n;
        n2 \<leftarrow> AdvanceCommitIndex n1;
        n3 \<leftarrow> SendHeartbeats rpc n2;
        Some (Propose_wait idx (n3 # wakeups), n3) })"


subsection \<open>The RPC layer (raft_rpc.cc)\<close>

text \<open>
  \<open>RaftRPC::SendMessage\<close>.  \<open>exchange\<close> is the network: what came back on the connection, parsed, or
  \<open>None\<close> when connecting, sending, receiving or parsing failed.  \<open>rpc\<close> is the callback the handlers
  of the answer use for what they send in turn.  The port after the last colon is parsed by
  \<open>std::stoi\<close>; a port text that does not start with a digit is outside the model (\<open>None\<close>), as
  \<open>stoi\<close> throws when it finds no number.
\<close>

definition is_digit :: "byte \<Rightarrow> bool" where
  "is_digit b \<longleftrightarrow> 48 \<le> b \<and> b < 58"

definition port_text :: "str \<Rightarrow> str" where
  "port_text peer = rev (takeWhile (\<lambda>b. b \<noteq> 58) (rev peer))"

definition is_request :: "raft_message \<Rightarrow> bool" where
  "is_request msg = (case msg of REQUEST_VOTE _ \<Rightarrow> True | APPEND_ENTRIES _ \<Rightarrow> True | INSTALL_SNAPSHOT _ \<Rightarrow> True
                     | _ \<Rightarrow> False)"

definition SendMessage :: "(str \<Rightarrow> raft_message \<Rightarrow> raft_message option) \<Rightarrow> rpc_cb \<Rightarrow> rpc_cb" where
  "SendMessage exchange rpc peer msg n =
     (if 58 \<notin> set peer then Some n
      else if port_text peer = [] \<or> \<not> is_digit (hd (port_text peer)) then None
      else if \<not> is_request msg then Some n
      else case exchange peer msg of
             None \<Rightarrow> Some n
           | Some (REQUEST_VOTE_RESPONSE resp) \<Rightarrow> HandleRequestVoteResponse rpc peer resp n
           | Some (APPEND_ENTRIES_RESPONSE resp) \<Rightarrow> HandleAppendEntriesResponse peer resp n
           | Some _ \<Rightarrow> Some n)"

text \<open>\<open>RaftRPC::OnMessage\<close>: the reply, if any, and the node afterwards.\<close>

definition Raft_OnMessage ::
    "(snapshot_meta \<Rightarrow> str) \<Rightarrow> bool \<Rightarrow> rpc_cb \<Rightarrow> raft_message \<Rightarrow> raft_node \<Rightarrow> (raft_message option \<times> raft_node) option" where
  "Raft_OnMessage ser can_open rpc msg n =
     (case msg of
        REQUEST_VOTE req \<Rightarrow> do { (r, n1) \<leftarrow> HandleRequestVote (rv_candidate_id req) req n;
                               Some (Some (REQUEST_VOTE_RESPONSE r), n1) }
      | APPEND_ENTRIES req \<Rightarrow> do { (r, n1) \<leftarrow> HandleAppendEntries (ae_leader_id req) req n;
                                 Some (Some (APPEND_ENTRIES_RESPONSE r), n1) }
      | INSTALL_SNAPSHOT req \<Rightarrow> do { (r, n1) \<leftarrow> HandleInstallSnapshot ser can_open (is_leader_id req) req n;
                                   Some (Some (INSTALL_SNAPSHOT_RESPONSE r), n1) }
      | REQUEST_VOTE_RESPONSE resp \<Rightarrow> do { n1 \<leftarrow> HandleRequestVoteResponse rpc [] resp n; Some (None, n1) }
      | APPEND_ENTRIES_RESPONSE resp \<Rightarrow> do { n1 \<leftarrow> HandleAppendEntriesResponse [] resp n; Some (None, n1) }
      | INSTALL_SNAPSHOT_RESPONSE _ \<Rightarrow> Some (None, n))"

end
