(* ===== verification/RaftNode.thy ===== *)
theory RaftNode
  imports Raft
begin

text \<open>
  What the handlers of one Raft node guarantee: the state file round trip, the discipline of terms
  and votes, in-order application, the commit rule, and how a follower treats its log.
\<close>

subsection \<open>Reading streams\<close>

lemma stream_read_enough:
  "length buf = length b \<Longrightarrow> stream_read buf (b @ r, False) = (b, length b, (r, False))"
  by (simp add: stream_read_def Let_def)

lemma read_u64_enc [codec_simps]: "read_u64 old (EncodeFixed64 v @ r, False) = (v, 8, (r, False))"
  by (simp add: read_u64_def stream_read_enough DecodeFixed64_Encode_only)

lemma read_str_enc:
  assumes "length b < 2 ^ 63"
  shows "read_str (word_of_nat (length b)) (b @ r, False) = Some (b, (r, False))"
proof -
  have u: "unat (word_of_nat (length b) :: u64) = length b" using assms by (intro unat_of_nat_u64) simp
  show ?thesis using assms by (simp add: read_str_def u stream_read_enough)
qed

lemma read_opt_str_enc:
  assumes "length b < 2 ^ 63"
  shows "(if 0 < (word_of_nat (length b) :: u64) then read_str (word_of_nat (length b)) (b @ r, False)
          else Some ([], (b @ r, False))) = Some (b, (r, False))"
proof (cases "b = []")
  case False
  have u: "unat (word_of_nat (length b) :: u64) = length b" using assms by (intro unat_of_nat_u64) simp
  have "0 < (word_of_nat (length b) :: u64)" using False by (simp add: word_less_nat_alt u)
  then show ?thesis using read_str_enc [OF assms] by simp
qed simp

lemma restore_entries_enc:
  "\<forall>e \<in> set es. length (le_command e) < 2 ^ 63 \<Longrightarrow>
   restore_entries (length es) (concat (map entry_bytes es) @ r, False) = Some (es, (r, False))"
proof (induction es)
  case Nil
  then show ?case by simp
next
  case (Cons e es)
  have len: "length (le_command e) < 2 ^ 63" using Cons.prems by simp
  from Cons show ?case
    by (simp add: entry_bytes_def codec_simps read_opt_str_enc [OF len] Let_def)
qed

subsection \<open>The state file round trip\<close>

definition log_wf :: "log_entry list \<Rightarrow> bool" where
  "log_wf l \<longleftrightarrow> l \<noteq> [] \<and> hd l = dummy_entry \<and> sorted_wrt (<) (map le_index l)"

lemma RestoreState_bytes:
  assumes f: "rn_state_file n = Some (state_bytes m)" and v: "length (rn_voted_for m) < 2 ^ 63"
    and l: "rn_log m = dummy_entry # es" "\<forall>e \<in> set es. length (le_command e) < 2 ^ 63" "length es < 2 ^ 64"
    and empty: "rn_voted_for n = []"
  shows "RestoreState n = Some (n\<lparr> rn_current_term := rn_current_term m, rn_voted_for := rn_voted_for m,
           rn_log := rn_log m, rn_commit_index := le_index (last (rn_log m)),
           rn_last_applied := le_index (last (rn_log m)) \<rparr>)"
proof -
  have cnt: "word_of_nat (length (rn_log m)) - 1 = (word_of_nat (length es) :: u64)" by (simp add: l)
  have u: "unat (word_of_nat (length es) :: u64) = length es" using l(3) by (intro unat_of_nat_u64) simp
  have r: "restore_entries (length es) (concat (map entry_bytes es), False) = Some (es, ([], False))"
    using restore_entries_enc [OF l(2), of "[]"] by simp
  have vf: "(if 0 < (word_of_nat (length (rn_voted_for m)) :: u64)
         then read_str (word_of_nat (length (rn_voted_for m))) (rn_voted_for m @ r, False)
         else Some (rn_voted_for (n\<lparr> rn_current_term := rn_current_term m \<rparr>), (rn_voted_for m @ r, False))) =
       Some (rn_voted_for m, (r, False))" for r
  proof -
    have "rn_voted_for (n\<lparr> rn_current_term := rn_current_term m \<rparr>) = []" by (simp add: empty)
    then show ?thesis by (simp only: read_opt_str_enc [OF v])
  qed
  show ?thesis
    unfolding RestoreState_def f option.case state_bytes_def cnt
    by (simp add: codec_simps Let_def empty vf u r l(1) split del: if_split)
qed


subsection \<open>What the internal loops leave alone\<close>

text \<open>
  The node without its progress counters and its record of calls.  Applying, committing and sending
  heartbeats change nothing else.
\<close>

definition core :: "raft_node \<Rightarrow> raft_node" where
  "core n = n\<lparr> rn_commit_index := 0, rn_last_applied := 0, rn_next_index := (\<lambda>_. None),
               rn_match_index := (\<lambda>_. None), rn_events := [] \<rparr>"

lemma core_update [simp]:
  "core (n\<lparr> rn_commit_index := c \<rparr>) = core n" "core (n\<lparr> rn_last_applied := k \<rparr>) = core n"
  "core (n\<lparr> rn_next_index := nx \<rparr>) = core n" "core (n\<lparr> rn_match_index := mt \<rparr>) = core n"
  "core (n\<lparr> rn_events := ev \<rparr>) = core n"
  by (simp_all add: core_def)

lemma core_fields:
  assumes "core n' = core n"
  shows "rn_my_id n' = rn_my_id n" "rn_peers n' = rn_peers n" "rn_current_term n' = rn_current_term n"
    "rn_voted_for n' = rn_voted_for n" "rn_log n' = rn_log n" "rn_state n' = rn_state n"
    "rn_votes_received n' = rn_votes_received n" "rn_state_file n' = rn_state_file n"
    "rn_snapshot_last_index n' = rn_snapshot_last_index n" "rn_snapshot_last_term n' = rn_snapshot_last_term n"
    "rn_leader_id n' = rn_leader_id n" "rn_ae_resp n' = rn_ae_resp n" "rn_apply_cb n' = rn_apply_cb n"
    "rn_disk n' = rn_disk n" "rn_writes n' = rn_writes n"
proof -
  have "f (core n') = f (core n)" for f :: "raft_node \<Rightarrow> 'c" by (simp add: assms)
  note this [of rn_my_id] this [of rn_peers] this [of rn_current_term] this [of rn_voted_for] this [of rn_log]
    this [of rn_state] this [of rn_votes_received] this [of rn_state_file] this [of rn_snapshot_last_index]
    this [of rn_snapshot_last_term] this [of rn_leader_id] this [of rn_ae_resp] this [of rn_apply_cb]
    this [of rn_disk] this [of rn_writes]
  then show "rn_my_id n' = rn_my_id n" "rn_peers n' = rn_peers n" "rn_current_term n' = rn_current_term n"
    "rn_voted_for n' = rn_voted_for n" "rn_log n' = rn_log n" "rn_state n' = rn_state n"
    "rn_votes_received n' = rn_votes_received n" "rn_state_file n' = rn_state_file n"
    "rn_snapshot_last_index n' = rn_snapshot_last_index n" "rn_snapshot_last_term n' = rn_snapshot_last_term n"
    "rn_leader_id n' = rn_leader_id n" "rn_ae_resp n' = rn_ae_resp n" "rn_apply_cb n' = rn_apply_cb n"
    "rn_disk n' = rn_disk n" "rn_writes n' = rn_writes n"
    by (simp_all add: core_def)
qed

lemma core_apply_one [simp]: "core (apply_one n) = core n"
  by (simp add: apply_one_def Let_def split: option.split)

lemma core_ApplyCommitted [simp]: "core (ApplyCommitted up n) = core n"
proof (induction up n rule: ApplyCommitted.induct)
  case (1 up n)
  then show ?case by (subst ApplyCommitted.simps) simp
qed

lemma apply_one_commit [simp]: "rn_commit_index (apply_one n) = rn_commit_index n"
  by (simp add: apply_one_def Let_def split: option.split)

lemma ApplyCommitted_commit [simp]: "rn_commit_index (ApplyCommitted up n) = rn_commit_index n"
proof (induction up n rule: ApplyCommitted.induct)
  case (1 up n)
  then show ?case by (subst ApplyCommitted.simps) simp
qed

lemma core_advance_loop [simp]: "core (advance_loop idx n) = core n"
proof (induction idx n rule: advance_loop.induct)
  case (1 idx n)
  then show ?case by (subst advance_loop.simps) (simp split: option.split)
qed

lemma core_AdvanceCommitIndex: "AdvanceCommitIndex n = Some n' \<Longrightarrow> core n' = core n"
  by (auto simp: AdvanceCommitIndex_def bind_eq_Some_conv)

lemma core_next_index_at: "core (snd (next_index_at p n)) = core n"
  by (simp add: next_index_at_def split: option.split)

lemma heartbeat_loop_core: "\<exists>n'. heartbeat_loop record_rpc ps n = Some n' \<and> core n' = core n"
proof (induction ps arbitrary: n)
  case Nil
  then show ?case by simp
next
  case (Cons p ps)
  obtain v m where vm: "next_index_at p n = (v, m)" by (cases "next_index_at p n")
  with core_next_index_at [of p n] have m: "core m = core n" by simp
  let ?msg = "APPEND_ENTRIES (heartbeat_request v m)"
  obtain m1 where m1: "record_rpc p ?msg m = Some m1" "core m1 = core m" by (simp add: record_rpc_def)
  show ?case
  proof (cases "p = rn_my_id n")
    case True
    then show ?thesis using Cons.IH [of n] by simp
  next
    case False
    then have "heartbeat_loop record_rpc (p # ps) n = heartbeat_loop record_rpc ps m1" by (simp add: vm m1(1))
    with Cons.IH [of m1] m m1(2) show ?thesis by simp
  qed
qed

lemma SendHeartbeats_core: "\<exists>n'. SendHeartbeats record_rpc n = Some n' \<and> core n' = core n"
  using heartbeat_loop_core [of "rn_peers n" n] by (auto simp: SendHeartbeats_def)

lemma BecomeLeader_core:
  assumes "BecomeLeader record_rpc n = Some n'"
  shows "core n' = core (n\<lparr> rn_state := LEADER, rn_leader_id := rn_my_id n \<rparr>)"
proof -
  let ?l = "n\<lparr> rn_state := LEADER, rn_leader_id := rn_my_id n \<rparr>"
  obtain b where b: "log_back n = Some b" using assms by (cases "log_back n") (auto simp: BecomeLeader_def)
  define m where "m = ?l\<lparr>
    rn_next_index := (\<lambda>p. if p \<in> set (filter (\<lambda>p. p \<noteq> rn_my_id n) (rn_peers n))
                          then Some (max (le_index b) (rn_snapshot_last_index n) + 1) else None),
    rn_match_index := (\<lambda>p. if p \<in> set (filter (\<lambda>p. p \<noteq> rn_my_id n) (rn_peers n)) then Some 0 else None) \<rparr>"
  have "SendHeartbeats record_rpc m = Some n'" using assms by (simp add: BecomeLeader_def b Let_def m_def)
  moreover have "core m = core ?l" by (simp add: m_def)
  ultimately show ?thesis using SendHeartbeats_core [of m] by auto
qed


subsection \<open>Terms and votes\<close>

lemma PersistState_simps [simp]:
  "rn_my_id (PersistState n) = rn_my_id n" "rn_peers (PersistState n) = rn_peers n"
  "rn_current_term (PersistState n) = rn_current_term n" "rn_voted_for (PersistState n) = rn_voted_for n"
  "rn_log (PersistState n) = rn_log n" "rn_state (PersistState n) = rn_state n"
  "rn_votes_received (PersistState n) = rn_votes_received n" "rn_commit_index (PersistState n) = rn_commit_index n"
  "rn_last_applied (PersistState n) = rn_last_applied n" "rn_events (PersistState n) = rn_events n"
  "rn_snapshot_last_index (PersistState n) = rn_snapshot_last_index n"
  "rn_snapshot_last_term (PersistState n) = rn_snapshot_last_term n"
  "rn_vote_resp (PersistState n) = rn_vote_resp n" "rn_ae_resp (PersistState n) = rn_ae_resp n"
  "rn_snap_resp (PersistState n) = rn_snap_resp n" "rn_match_index (PersistState n) = rn_match_index n"
  "rn_next_index (PersistState n) = rn_next_index n" "rn_leader_id (PersistState n) = rn_leader_id n"
  "rn_apply_cb (PersistState n) = rn_apply_cb n" "rn_restore_cb (PersistState n) = rn_restore_cb n"
  "rn_snapshot_file (PersistState n) = rn_snapshot_file n"
  "rn_disk (PersistState n) = rn_disk n" "rn_writes (PersistState n) = Suc (rn_writes n)"
  by (simp_all add: PersistState_def PersistState_ok_def Let_def split: write_result.split)

text \<open>The file after a write, by its outcome; the answer of \<open>PersistState\<close> says whether it was complete.\<close>

lemma PersistState_file:
  "rn_disk n (rn_writes n) = Written \<Longrightarrow> rn_state_file (PersistState n) = Some (state_bytes n)"
  "rn_disk n (rn_writes n) = Open_failed \<Longrightarrow> rn_state_file (PersistState n) = rn_state_file n"
  "rn_disk n (rn_writes n) = Cut k \<Longrightarrow> rn_state_file (PersistState n) = Some (take k (state_bytes n))"
  by (simp_all add: PersistState_def PersistState_ok_def Let_def)

lemma PersistState_reports: "fst (PersistState_ok n) \<longleftrightarrow> rn_disk n (rn_writes n) = Written"
  by (simp add: PersistState_ok_def Let_def split: write_result.split)

text \<open>A disk on which every write is complete.\<close>

definition healthy :: "raft_node \<Rightarrow> bool" where
  "healthy n \<longleftrightarrow> (\<forall>k. rn_disk n k = Written)"

lemma healthy_disk: "rn_disk n' = rn_disk n \<Longrightarrow> healthy n' \<longleftrightarrow> healthy n"
  by (simp add: healthy_def)

text \<open>The term and the vote a node would find after a restart are the ones it has in memory.\<close>

definition vote_bytes :: "u64 \<Rightarrow> str \<Rightarrow> str" where
  "vote_bytes t v = EncodeFixed64 t @ EncodeFixed64 (word_of_nat (length v)) @ v"

definition vote_on_file :: "raft_node \<Rightarrow> bool" where
  "vote_on_file n \<longleftrightarrow>
     (\<exists>r. rn_state_file n = Some (vote_bytes (rn_current_term n) (rn_voted_for n) @ r)) \<or>
     (rn_state_file n = None \<and> rn_current_term n = 0 \<and> rn_voted_for n = [])"

text \<open>What holds at every moment: on a disk without failures the file has the term and the vote.\<close>

definition vote_saved :: "raft_node \<Rightarrow> bool" where
  "vote_saved n \<longleftrightarrow> (healthy n \<longrightarrow> vote_on_file n)"

lemma vote_saved_cong:
  assumes "rn_state_file n' = rn_state_file n" "rn_current_term n' = rn_current_term n"
    "rn_voted_for n' = rn_voted_for n" "rn_disk n' = rn_disk n"
  shows "vote_saved n' \<longleftrightarrow> vote_saved n"
  using assms by (simp add: vote_saved_def vote_on_file_def healthy_def)

lemma vote_saved_Persist [simp]: "vote_saved (PersistState n)"
  by (auto simp: vote_saved_def vote_on_file_def healthy_def PersistState_file state_bytes_def vote_bytes_def)

lemma vote_saved_upd [simp]:
  "vote_saved (n\<lparr> rn_state := a \<rparr>) = vote_saved n" "vote_saved (n\<lparr> rn_leader_id := l \<rparr>) = vote_saved n"
  "vote_saved (n\<lparr> rn_vote_resp := v \<rparr>) = vote_saved n" "vote_saved (n\<lparr> rn_ae_resp := r \<rparr>) = vote_saved n"
  "vote_saved (n\<lparr> rn_snap_resp := q \<rparr>) = vote_saved n" "vote_saved (n\<lparr> rn_votes_received := k \<rparr>) = vote_saved n"
  by (rule vote_saved_cong; simp)+

text \<open>\<open>same_vote\<close>: nothing about elections changed.  \<open>quiet\<close>: the node may have moved to a later term
  without a vote in it, and did not become candidate or leader.\<close>

definition same_vote :: "raft_node \<Rightarrow> raft_node \<Rightarrow> bool" where
  "same_vote n n' \<longleftrightarrow> rn_my_id n' = rn_my_id n \<and> rn_peers n' = rn_peers n \<and>
     rn_current_term n' = rn_current_term n \<and> rn_voted_for n' = rn_voted_for n \<and>
     rn_state n' = rn_state n \<and> rn_votes_received n' = rn_votes_received n \<and> rn_disk n' = rn_disk n \<and>
     (vote_saved n \<longrightarrow> vote_saved n')"

definition quiet :: "raft_node \<Rightarrow> raft_node \<Rightarrow> bool" where
  "quiet n n' \<longleftrightarrow> rn_my_id n' = rn_my_id n \<and> rn_peers n' = rn_peers n \<and>
     ((rn_current_term n' = rn_current_term n \<and> rn_voted_for n' = rn_voted_for n) \<or>
      (rn_current_term n < rn_current_term n' \<and> rn_voted_for n' = [])) \<and>
     rn_disk n' = rn_disk n \<and> (vote_saved n \<longrightarrow> vote_saved n') \<and>
     (rn_state n' \<noteq> FOLLOWER \<longrightarrow> rn_state n' = rn_state n \<and> rn_current_term n' = rn_current_term n \<and>
        rn_votes_received n' = rn_votes_received n)"

lemma same_vote_refl [simp]: "same_vote n n"
  by (simp add: same_vote_def)

lemma same_vote_trans: "same_vote n m \<Longrightarrow> same_vote m k \<Longrightarrow> same_vote n k"
  by (simp add: same_vote_def)

lemma quiet_same: "quiet n m \<Longrightarrow> same_vote m k \<Longrightarrow> quiet n k"
  unfolding quiet_def same_vote_def by metis

lemma same_quiet: "same_vote n m \<Longrightarrow> quiet n m"
  by (auto simp: quiet_def same_vote_def)

lemma same_vote_core: "core n' = core n \<Longrightarrow> same_vote n n'"
  using core_fields [of n' n] vote_saved_cong [of n' n] by (simp add: same_vote_def)

lemma same_voteI:
  assumes "rn_my_id n' = rn_my_id n" "rn_peers n' = rn_peers n" "rn_current_term n' = rn_current_term n"
    "rn_voted_for n' = rn_voted_for n" "rn_state n' = rn_state n" "rn_votes_received n' = rn_votes_received n"
    "rn_state_file n' = rn_state_file n" "rn_disk n' = rn_disk n"
  shows "same_vote n n'"
  using assms vote_saved_cong [of n' n] by (simp add: same_vote_def)

lemma same_vote_Persist: "same_vote n (PersistState n)"
  by (simp add: same_vote_def)

lemma core_follower_commit [simp]: "core (follower_commit c l n) = core n"
  by (simp add: follower_commit_def Let_def)

lemma ae_accept_same:
  assumes "ae_accept req n = Some (r, n')"
  shows "same_vote n n'"
proof -
  define m where "m = PersistState (n\<lparr> rn_log := foldl append_entry (rn_log n) (ae_entries req) \<rparr>)"
  obtain b where "n' = (follower_commit (ae_leader_commit req) b m)\<lparr> rn_ae_resp := r \<rparr>"
    using assms unfolding ae_accept_def m_def [symmetric] by (auto simp: Let_def bind_eq_Some_conv)
  then have "same_vote (follower_commit (ae_leader_commit req) b m) n'" by (auto intro: same_voteI)
  moreover have "same_vote m (follower_commit (ae_leader_commit req) b m)" by (rule same_vote_core) simp
  moreover have "same_vote n m"
    unfolding m_def by (rule same_vote_trans [OF same_voteI same_vote_Persist]) simp_all
  ultimately show ?thesis by (blast intro: same_vote_trans)
qed

lemma ae_check_log_same:
  assumes "ae_check_log req n = Some (r, n')"
  shows "same_vote n n'"
proof -
  have refuse: "same_vote n (snd (ae_refuse h n))" for h n
    unfolding ae_refuse_def Let_def by (simp add: same_voteI)
  have trunc: "same_vote n n'" if t: "ae_truncate req n = Some (r, n')"
  proof -
    obtain l h where "n' = PersistState (snd (ae_refuse h (n\<lparr> rn_log := l \<rparr>)))"
      using t by (auto simp: ae_truncate_def Let_def bind_eq_Some_conv case_prod_beta)
    moreover have "same_vote n (n\<lparr> rn_log := l \<rparr>)" by (rule same_voteI) simp_all
    ultimately show ?thesis using refuse same_vote_Persist by (blast intro: same_vote_trans)
  qed
  from assms consider h where "n' = snd (ae_refuse h n)" | "ae_accept req n = Some (r, n')"
    | "ae_truncate req n = Some (r, n')"
    unfolding ae_check_log_def by (auto simp: bind_eq_Some_conv split: if_splits option.splits) (metis snd_conv)+
  then show ?thesis by cases (use refuse ae_accept_same trunc in auto)
qed

text \<open>Every handler begins the same way: a request of a later term resets the vote.\<close>

lemma ae_enter_quiet: "quiet n (ae_enter sender req n)"
  by (auto simp: quiet_def ae_enter_def Let_def)

lemma is_enter_quiet: "quiet n (is_enter sender req n)"
  by (auto simp: quiet_def is_enter_def Let_def)

lemma rv_enter_quiet: "quiet n (rv_enter req n)"
  by (auto simp: quiet_def rv_enter_def Let_def)

lemma quiet_trans_same: "same_vote n m \<Longrightarrow> quiet m k \<Longrightarrow> quiet n k"
  unfolding quiet_def same_vote_def by metis

lemma HandleAppendEntries_quiet:
  assumes "HandleAppendEntries sender req n = Some (r, n')"
  shows "quiet n n'"
proof -
  define m where "m = n\<lparr> rn_ae_resp := (rn_ae_resp n)\<lparr> ar_term := rn_current_term n \<rparr> \<rparr>"
  have nm: "same_vote n m" unfolding m_def by (rule same_voteI) simp_all
  have run: "HandleAppendEntries sender req n =
      (if ae_term req < rn_current_term m then Some ((rn_ae_resp m)\<lparr> ar_success := False \<rparr>,
         m\<lparr> rn_ae_resp := (rn_ae_resp m)\<lparr> ar_success := False \<rparr> \<rparr>)
       else ae_check_log req (ae_enter sender req m))"
    unfolding HandleAppendEntries_def m_def by (simp add: Let_def)
  show ?thesis
  proof (cases "ae_term req < rn_current_term m")
    case True
    with assms run have "same_vote m n'" by (auto intro!: same_voteI)
    with nm show ?thesis by (blast intro: same_vote_trans same_quiet)
  next
    case False
    with assms run have "ae_check_log req (ae_enter sender req m) = Some (r, n')" by simp
    from quiet_trans_same [OF nm quiet_same [OF ae_enter_quiet ae_check_log_same [OF this]]]
    show ?thesis .
  qed
qed

lemma HandleInstallSnapshot_quiet:
  assumes "HandleInstallSnapshot ser can_open sender req n = Some (r, n')"
  shows "quiet n n'"
proof -
  define m where "m = n\<lparr> rn_snap_resp := (rn_snap_resp n)\<lparr> sr_term := rn_current_term n \<rparr> \<rparr>"
  define m2 where "m2 = is_enter sender req m"
  have nm: "same_vote n m" unfolding m_def by (rule same_voteI) simp_all
  have resp: "same_vote k (k\<lparr> rn_snap_resp := x \<rparr>)" for k x by (rule same_voteI) simp_all
  have inst: "same_vote k n'" if t: "is_install ser req k = Some (r, n')" for k
  proof -
    obtain k1 where k1: "n' = (PersistState k1)\<lparr> rn_snap_resp := r \<rparr>"
      "rn_my_id k1 = rn_my_id k" "rn_peers k1 = rn_peers k" "rn_current_term k1 = rn_current_term k"
      "rn_voted_for k1 = rn_voted_for k" "rn_state k1 = rn_state k" "rn_votes_received k1 = rn_votes_received k"
      "rn_state_file k1 = rn_state_file k" "rn_disk k1 = rn_disk k"
      using t by (auto simp: is_install_def Let_def bind_eq_Some_conv)
    then have "same_vote k k1" by (intro same_voteI)
    with k1(1) resp same_vote_Persist show ?thesis by (blast intro: same_vote_trans)
  qed
  show ?thesis
  proof (cases "is_term req < rn_current_term m")
    case True
    with assms have "n' = m\<lparr> rn_snap_resp := r \<rparr>"
      unfolding HandleInstallSnapshot_def m_def [symmetric] by (auto simp: Let_def)
    with nm resp [of m r] show ?thesis by (blast intro: same_vote_trans same_quiet)
  next
    case False
    then have "(\<exists>x. n' = m2\<lparr> rn_snap_resp := x \<rparr>) \<or> is_install ser req m2 = Some (r, n')"
      using assms unfolding HandleInstallSnapshot_def m_def [symmetric] m2_def [symmetric]
      by (auto simp: Let_def m2_def [symmetric] split: if_splits)
    then have "same_vote m2 n'" using resp inst by blast
    from quiet_trans_same [OF nm quiet_same [OF is_enter_quiet [of m sender req] this [unfolded m2_def]]]
    show ?thesis .
  qed
qed


text \<open>The two outcomes of a vote request.\<close>

lemma HandleRequestVote_cases:
  assumes "HandleRequestVote sender req n = Some (r, n')"
  obtains (refused) "quiet n n'" "\<not> vr_granted r" "vr_term r = rn_current_term n'"
  | (granted) e where "quiet n e" "rn_voted_for e = [] \<or> rn_voted_for e = rv_candidate_id req"
      "rn_current_term e = rv_term req" "vr_granted r" "vr_term r = rv_term req"
      "rn_my_id n' = rn_my_id e" "rn_peers n' = rn_peers e" "rn_current_term n' = rv_term req"
      "rn_voted_for n' = rv_candidate_id req" "rn_state n' = rn_state e"
      "rn_votes_received n' = rn_votes_received e" "rn_disk n' = rn_disk e" "vote_saved n'" "\<not> rv_term req < rn_current_term n"
      "\<exists>b. log_back e = Some b \<and> (le_term b < rv_last_log_term req \<or>
           (rv_last_log_term req = le_term b \<and> le_index b \<le> rv_last_log_index req)) \<and> rn_log e = rn_log n"
proof -
  define m where "m = n\<lparr> rn_vote_resp := (rn_vote_resp n)\<lparr> vr_term := rn_current_term n \<rparr> \<rparr>"
  define e where "e = rv_enter req m"
  have run: "HandleRequestVote sender req n =
      (if rv_term req < rn_current_term m then Some ((rn_vote_resp m)\<lparr> vr_granted := False \<rparr>,
         m\<lparr> rn_vote_resp := (rn_vote_resp m)\<lparr> vr_granted := False \<rparr> \<rparr>)
       else do {
         ok \<leftarrow> can_vote req e;
         Some ((rn_vote_resp e)\<lparr> vr_granted := ok \<rparr>,
               if ok then (PersistState (e\<lparr> rn_voted_for := rv_candidate_id req \<rparr>))
                           \<lparr> rn_vote_resp := (rn_vote_resp e)\<lparr> vr_granted := ok \<rparr> \<rparr>
               else e\<lparr> rn_vote_resp := (rn_vote_resp e)\<lparr> vr_granted := ok \<rparr> \<rparr>) })"
    unfolding HandleRequestVote_def e_def m_def by (simp add: Let_def)
  have nm: "same_vote n m" unfolding m_def by (rule same_voteI) simp_all
  have qe: "quiet n e" unfolding e_def by (rule quiet_trans_same [OF nm rv_enter_quiet])
  have resp: "same_vote k (k\<lparr> rn_vote_resp := x \<rparr>)" for k x by (rule same_voteI) simp_all
  have vt: "vr_term (rn_vote_resp m) = rn_current_term m" by (simp add: m_def)
  then have et: "vr_term (rn_vote_resp e) = rn_current_term e" by (simp add: e_def rv_enter_def Let_def)
  have le: "rn_log e = rn_log n" by (simp add: e_def rv_enter_def Let_def m_def)
  show thesis
  proof (cases "rv_term req < rn_current_term m")
    case True
    with assms run have "r = (rn_vote_resp m)\<lparr> vr_granted := False \<rparr>" "n' = m\<lparr> rn_vote_resp := r \<rparr>" by auto
    with vt same_quiet [OF same_vote_trans [OF nm resp]] show thesis by (intro refused) simp_all
  next
    case False
    then have ee: "rn_current_term e = rv_term req" by (auto simp: e_def rv_enter_def Let_def)
    from False assms run obtain ok where ok: "can_vote req e = Some ok" "r = (rn_vote_resp e)\<lparr> vr_granted := ok \<rparr>"
      "n' = (if ok then (PersistState (e\<lparr> rn_voted_for := rv_candidate_id req \<rparr>))\<lparr> rn_vote_resp := r \<rparr>
             else e\<lparr> rn_vote_resp := r \<rparr>)" by (auto simp: bind_eq_Some_conv)
    show thesis
    proof (cases ok)
      case True
      have cv: "rn_voted_for e = [] \<or> rn_voted_for e = rv_candidate_id req"
        "\<exists>b. log_back e = Some b \<and> (le_term b < rv_last_log_term req \<or>
           (rv_last_log_term req = le_term b \<and> le_index b \<le> rv_last_log_index req))"
        using ok(1) True by (auto simp: can_vote_def bind_eq_Some_conv split: if_splits)
      have mt: "rn_current_term m = rn_current_term n" by (simp add: m_def)
      have nd: "n' = (PersistState (e\<lparr> rn_voted_for := rv_candidate_id req \<rparr>))\<lparr> rn_vote_resp := r \<rparr>"
        using ok(3) True by simp
      have sv: "vote_saved n'" unfolding nd by simp
      show thesis
        by (rule granted [OF qe cv(1) ee]) (use ok(2) True et ee nd sv cv(2) le False mt in simp_all)
    next
      case False
      with ok have "n' = e\<lparr> rn_vote_resp := r \<rparr>" by simp
      with ok False et quiet_same [OF qe resp] show thesis by (intro refused) simp_all
    qed
  qed
qed

definition vote_counts :: "vote_response \<Rightarrow> raft_node \<Rightarrow> bool" where
  "vote_counts resp n \<longleftrightarrow> rn_state n = CANDIDATE \<and> vr_term resp = rn_current_term n \<and> vr_granted resp"

lemma PersistState_quiet:
  assumes "rn_current_term n < t"
  shows "quiet n (PersistState (n\<lparr> rn_current_term := t, rn_state := FOLLOWER, rn_voted_for := [], rn_leader_id := [] \<rparr>))"
  using assms by (simp add: quiet_def)

lemma HandleRequestVoteResponse_other:
  assumes "HandleRequestVoteResponse rpc sender resp n = Some n'" and "\<not> vote_counts resp n"
  shows "quiet n n'"
  using assms PersistState_quiet [of n "vr_term resp"]
  by (auto simp: HandleRequestVoteResponse_def vote_counts_def same_quiet split: if_splits)

lemma HandleRequestVoteResponse_counts:
  assumes "HandleRequestVoteResponse record_rpc sender resp n = Some n'" and "vote_counts resp n"
  shows "rn_my_id n' = rn_my_id n" "rn_peers n' = rn_peers n" "rn_current_term n' = rn_current_term n"
    "rn_voted_for n' = rn_voted_for n" "rn_votes_received n' = Suc (rn_votes_received n)"
    "rn_disk n' = rn_disk n" "vote_saved n \<Longrightarrow> vote_saved n'"
    "rn_state n' = (if majority n \<le> Suc (rn_votes_received n) then LEADER else CANDIDATE)"
proof -
  define m where "m = n\<lparr> rn_votes_received := rn_votes_received n + 1 \<rparr>"
  have mj: "majority m = majority n" by (simp add: m_def majority_def)
  have run: "HandleRequestVoteResponse record_rpc sender resp n =
      (if majority m \<le> rn_votes_received m then BecomeLeader record_rpc m else Some m)"
    using assms(2) by (simp add: HandleRequestVoteResponse_def vote_counts_def m_def Let_def)
  define k where "k = (if majority m \<le> rn_votes_received m then m\<lparr> rn_state := LEADER, rn_leader_id := rn_my_id m \<rparr> else m)"
  have "core n' = core k"
    using assms(1) run BecomeLeader_core [of m n'] by (auto simp: k_def split: if_splits)
  note cf = core_fields [OF this]
  have kf: "rn_state_file k = rn_state_file n" "rn_voted_for k = rn_voted_for n" "rn_current_term k = rn_current_term n"
    "rn_disk k = rn_disk n"
    by (simp_all add: k_def m_def)
  show "rn_disk n' = rn_disk n" using cf kf by simp
  show "vote_saved n \<Longrightarrow> vote_saved n'" using cf kf vote_saved_cong [of n' n] by simp
  show "rn_my_id n' = rn_my_id n" "rn_peers n' = rn_peers n" "rn_current_term n' = rn_current_term n"
    "rn_voted_for n' = rn_voted_for n" "rn_votes_received n' = Suc (rn_votes_received n)"
    using cf by (simp_all add: k_def m_def)
  have "rn_state n = CANDIDATE" using assms(2) by (simp add: vote_counts_def)
  then show "rn_state n' = (if majority n \<le> Suc (rn_votes_received n) then LEADER else CANDIDATE)"
    using cf mj by (simp add: k_def m_def)
qed

lemma election_check_spec:
  assumes "election_check record_rpc n = Some n'"
  shows "n' = n \<or> (rn_state n = CANDIDATE \<and> majority n \<le> rn_votes_received n \<and>
           core n' = core (n\<lparr> rn_state := LEADER, rn_leader_id := rn_my_id n \<rparr>))"
  using assms BecomeLeader_core [of n n'] by (auto simp: election_check_def split: if_splits)

lemma HandleAppendEntriesResponse_quiet:
  assumes "HandleAppendEntriesResponse sender resp n = Some n'"
  shows "quiet n n'"
proof (cases "rn_current_term n < ar_term resp")
  case True
  then show ?thesis using assms PersistState_quiet [OF True] by (simp add: HandleAppendEntriesResponse_def)
next
  case False
  obtain nxt m where m: "next_index_at sender n = (nxt, m)" by (cases "next_index_at sender n")
  then have cm: "core m = core n" using core_next_index_at [of sender n] by simp
  have "core n' = core n"
  proof (cases "rn_state n = LEADER")
    case notlead: False
    with assms False show ?thesis by (simp add: HandleAppendEntriesResponse_def)
  next
    case lead: True
    show ?thesis
    proof (cases "ar_success resp")
      case True
      then have "AdvanceCommitIndex (n\<lparr> rn_match_index := (rn_match_index n)(sender \<mapsto> ar_match_index resp),
          rn_next_index := (rn_next_index n)(sender \<mapsto> ar_match_index resp + 1) \<rparr>) = Some n'"
        using assms False lead by (simp add: HandleAppendEntriesResponse_def)
      from core_AdvanceCommitIndex [OF this] show ?thesis by simp
    next
      case fail: False
      show ?thesis
      proof (cases "ar_match_index resp < nxt")
        case True
        then have "Some n' = Some (m\<lparr> rn_next_index := (rn_next_index m)(sender \<mapsto>
            (let v = max (ar_match_index resp + 1) (rn_snapshot_last_index m + 1) in if v < 1 then 1 else v)) \<rparr>)"
          using assms False lead fail by (simp add: HandleAppendEntriesResponse_def m Let_def)
        then show ?thesis using cm by simp
      next
        case noback: False
        then have "n' = m" using assms False lead fail by (simp add: HandleAppendEntriesResponse_def m Let_def)
        then show ?thesis using cm by simp
      qed
    qed
  qed
  then show ?thesis by (intro same_quiet same_vote_core)
qed

lemma SendHeartbeats_same: "SendHeartbeats record_rpc n = Some n' \<Longrightarrow> same_vote n n'"
  using SendHeartbeats_core [of n] same_vote_core by auto

lemma Propose_same:
  assumes "Propose record_rpc cmd ws n = Some (res, n')"
  shows "same_vote n n'"
proof (cases "rn_state n = LEADER")
  case False
  with assms show ?thesis by (simp add: Propose_def)
next
  case True
  with assms obtain idx n1 n2 where s: "Propose_append cmd n = Some (idx, n1)" "AdvanceCommitIndex n1 = Some n2"
    "SendHeartbeats record_rpc n2 = Some n'" by (auto simp: Propose_def bind_eq_Some_conv)
  obtain e where "core n1 = core (PersistState (n\<lparr> rn_log := rn_log n @ [e] \<rparr>))"
    using s(1) by (auto simp: Propose_append_def Let_def bind_eq_Some_conv)
  then have p1: "same_vote (PersistState (n\<lparr> rn_log := rn_log n @ [e] \<rparr>)) n1" by (rule same_vote_core)
  have "same_vote n (n\<lparr> rn_log := rn_log n @ [e] \<rparr>)" by (rule same_voteI) simp_all
  from same_vote_trans [OF same_vote_trans [OF this same_vote_Persist] p1] have "same_vote n n1" .
  moreover have "same_vote n1 n2" using core_AdvanceCommitIndex [OF s(2)] by (rule same_vote_core)
  ultimately show ?thesis using SendHeartbeats_same [OF s(3)] by (blast intro: same_vote_trans)
qed

lemma TakeSnapshot_same:
  assumes "TakeSnapshot ser ok cb n = Some (b, n')"
  shows "same_vote n n'"
proof (cases "cb = None \<or> rn_last_applied n \<le> rn_snapshot_last_index n \<or> \<not> ok")
  case True
  with assms have "n' = n" by (auto simp: TakeSnapshot_def Let_def split: option.splits if_splits)
  then show ?thesis by simp
next
  case False
  then obtain data where d: "cb = Some data" by auto
  define t where "t = (case GetLogEntry (rn_last_applied n) n of Some e \<Rightarrow> le_term e | None \<Rightarrow> rn_current_term n)"
  define f where "f = Some (snapshot_bytes ser \<lparr> sm_last_index = rn_last_applied n, sm_last_term = t, sm_data = data \<rparr>)"
  obtain l where l: "trim_log (rn_last_applied n) (rn_log n) = Some l"
    using assms False d by (cases "trim_log (rn_last_applied n) (rn_log n)") (auto simp: TakeSnapshot_def Let_def)
  define m where "m = n\<lparr> rn_snapshot_file := f, rn_snapshot_last_index := rn_last_applied n,
    rn_snapshot_last_term := t, rn_log := l \<rparr>"
  have "n' = PersistState m"
    using assms False d l unfolding TakeSnapshot_def m_def f_def t_def by (simp add: Let_def)
  moreover have "same_vote n m" unfolding m_def by (rule same_voteI) simp_all
  ultimately show ?thesis using same_vote_trans [OF _ same_vote_Persist] by blast
qed


subsection \<open>Restart\<close>

lemma RestoreState_frame:
  assumes "RestoreState n = Some n'"
  shows "rn_my_id n' = rn_my_id n" "rn_peers n' = rn_peers n" "rn_state_file n' = rn_state_file n"
    "rn_snapshot_file n' = rn_snapshot_file n" "rn_disk n' = rn_disk n"
  using assms
  by (auto simp: RestoreState_def Let_def case_prod_beta bind_eq_Some_conv split: option.splits if_splits)

lemma RestoreState_vote:
  assumes r: "RestoreState n = Some n'" and f: "rn_state_file n = Some (vote_bytes t v @ rest)"
    and v: "length v < 2 ^ 63" and empty: "rn_voted_for n = []"
  shows "rn_current_term n' = t \<and> rn_voted_for n' = v"
proof -
  have vf: "(if 0 < (word_of_nat (length v) :: u64) then read_str (word_of_nat (length v)) (v @ rest, False)
         else Some (rn_voted_for (n\<lparr> rn_current_term := t \<rparr>), (v @ rest, False))) = Some (v, (rest, False))"
  proof -
    have "rn_voted_for (n\<lparr> rn_current_term := t \<rparr>) = []" by (simp add: empty)
    then show ?thesis by (simp only: read_opt_str_enc [OF v])
  qed
  have "RestoreState n = (case read_u64 0 (rest, False) of (log_count, cnt3, st4) \<Rightarrow>
      if cnt3 \<noteq> 8 then Some (n\<lparr> rn_current_term := t, rn_voted_for := v \<rparr>)
      else restore_entries (unat log_count) st4 \<bind> (\<lambda>(es, _).
        let n3 = n\<lparr> rn_current_term := t, rn_voted_for := v, rn_log := dummy_entry # es \<rparr> in
        Some (n3\<lparr> rn_commit_index := le_index (last (rn_log n3)),
                  rn_last_applied := le_index (last (rn_log n3)) \<rparr>)))"
    unfolding RestoreState_def f option.case vote_bytes_def
    by (simp add: codec_simps Let_def vf split del: if_split)
  with r show ?thesis
    by (auto simp: case_prod_beta Let_def bind_eq_Some_conv split: if_splits)
qed

lemma RestoreFromSnapshot_core:
  assumes "RestoreFromSnapshot parse n = Some (b, n')"
  shows "rn_my_id n' = rn_my_id n" "rn_peers n' = rn_peers n" "rn_state_file n' = rn_state_file n"
    "rn_current_term n' = rn_current_term n" "rn_voted_for n' = rn_voted_for n" "rn_disk n' = rn_disk n"
  using assms
  by (auto simp: RestoreFromSnapshot_def Let_def case_prod_beta split: option.splits if_splits)

lemma Raft_reboot_simps [simp]:
  "rn_my_id (Raft_reboot n) = rn_my_id n" "rn_peers (Raft_reboot n) = rn_peers n"
  "rn_state_file (Raft_reboot n) = rn_state_file n" "rn_snapshot_file (Raft_reboot n) = rn_snapshot_file n"
  "rn_disk (Raft_reboot n) = rn_disk n" "rn_voted_for (Raft_reboot n) = []" "rn_current_term (Raft_reboot n) = 0"
  by (simp_all add: Raft_reboot_def with_disk_def RaftNode_new_def)

lemma restart_keeps_vote:
  assumes saved: "vote_on_file n" and v: "length (rn_voted_for n) < 2 ^ 63"
    and start: "Raft_Start parse (Raft_reboot n) = Some n'"
  shows "rn_my_id n' = rn_my_id n" "rn_peers n' = rn_peers n" "rn_current_term n' = rn_current_term n"
    "rn_voted_for n' = rn_voted_for n" "rn_state n' = FOLLOWER" "rn_disk n' = rn_disk n" "vote_on_file n'"
proof -
  let ?n0 = "Raft_reboot n"
  obtain n1 b n2 where s: "RestoreState ?n0 = Some n1" "RestoreFromSnapshot parse n1 = Some (b, n2)"
    "n' = BecomeFollower (rn_current_term n2) n2"
    using start by (auto simp: Raft_Start_def bind_eq_Some_conv)
  note f1 = RestoreState_frame [OF s(1)] and f2 = RestoreFromSnapshot_core [OF s(2)]
  have n': "rn_my_id n' = rn_my_id n2" "rn_peers n' = rn_peers n2" "rn_state_file n' = rn_state_file n2"
    "rn_current_term n' = rn_current_term n2" "rn_voted_for n' = rn_voted_for n2" "rn_state n' = FOLLOWER"
    "rn_disk n' = rn_disk n2"
    by (simp_all add: s(3) BecomeFollower_def)
  have tv: "rn_current_term n1 = rn_current_term n \<and> rn_voted_for n1 = rn_voted_for n"
  proof (cases "rn_state_file n")
    case None
    then have "n1 = ?n0" using s(1) by (simp add: RestoreState_def)
    with None saved show ?thesis by (simp add: vote_on_file_def)
  next
    case (Some f)
    then obtain r where "f = vote_bytes (rn_current_term n) (rn_voted_for n) @ r" using saved by (auto simp: vote_on_file_def)
    with Some RestoreState_vote [OF s(1) _ v, of "rn_current_term n" r] show ?thesis by simp
  qed
  show "rn_my_id n' = rn_my_id n" "rn_peers n' = rn_peers n" "rn_disk n' = rn_disk n" using n' f1 f2 by simp_all
  show "rn_current_term n' = rn_current_term n" "rn_voted_for n' = rn_voted_for n" "rn_state n' = FOLLOWER"
    using n' f2 tv by simp_all
  have "rn_state_file n' = rn_state_file n" using n' f1 f2 by simp
  with saved n' f2 tv show "vote_on_file n'" by (simp add: vote_on_file_def)
qed

end
