(* ===== verification/RaftCluster.thy ===== *)
theory RaftCluster
  imports RaftNode
begin

text \<open>
  The cluster: every node runs the handlers of theory \<open>Raft\<close>; vote requests and their answers are
  messages in flight, delivered in any order, at any time, or never.  Everything else a node may
  receive (append requests, snapshots, append answers) is arbitrary: the environment may send any
  such message with any term, so the result covers every schedule of the synchronous RPCs.  A node
  may crash between any two steps and restart from its state file.  What each write of a state file
  comes to is given by \<open>cl_disk\<close>, which is arbitrary: a write may be complete, fail to open the file, or
  be cut.  A crash in the middle of a handler's write is the run in which that write is cut, the later
  writes of the same handler fail, its answer is dropped and the node restarts.

  Four history variables record who voted for whom, which answers a candidate counted, who became
  leader, and whether some node restarted from a state file that did not hold its term and vote.
\<close>

datatype vote_msg =
    VoteReq str str vote_request
  | VoteResp str str vote_response

record cluster =
  cl_node :: "str \<Rightarrow> raft_node"
  cl_net :: "vote_msg set"
  cl_starting :: "str set"
  cl_votes :: "(str \<times> u64 \<times> str) set"
  cl_counted :: "str \<Rightarrow> str set"
  cl_elected :: "(str \<times> u64) set"
  cl_disk :: "str \<Rightarrow> nat \<Rightarrow> write_result"
  cl_lost :: bool

text \<open>Node \<open>i\<close> takes a step to \<open>n\<close>; the history variables record its vote and its leadership.\<close>

definition observe :: "str \<Rightarrow> raft_node \<Rightarrow> cluster \<Rightarrow> cluster" where
  "observe i n c = c\<lparr> cl_node := (cl_node c)(i := n),
     cl_votes := (if rn_voted_for n \<noteq> [] then insert (i, rn_current_term n, rn_voted_for n) (cl_votes c) else cl_votes c),
     cl_elected := (if rn_state n = LEADER then insert (i, rn_current_term n) (cl_elected c) else cl_elected c) \<rparr>"

definition cl_init :: "(str \<Rightarrow> nat \<Rightarrow> write_result) \<Rightarrow> str list \<Rightarrow> cluster" where
  "cl_init disk ids = \<lparr> cl_node = (\<lambda>i. with_disk (disk i) 0 (RaftNode_new i ids None None)), cl_net = {},
     cl_starting = {}, cl_votes = {}, cl_counted = (\<lambda>_. {}), cl_elected = {}, cl_disk = disk, cl_lost = False \<rparr>"

text \<open>
  One step of the cluster.  \<open>OnElectionTimeout\<close> of a node that is not leader is \<open>timeout\<close> followed by
  \<open>start\<close>: between the two the node holds no lock, so other handlers may run; there is one timer
  thread, hence at most one election is being started per node.  \<open>timeout\<close> excludes the wrap-around
  of the 64-bit term.
\<close>

inductive cstep :: "str list \<Rightarrow> cluster \<Rightarrow> cluster \<Rightarrow> bool" for ids where
  timeout: "i \<in> set ids \<Longrightarrow> i \<notin> cl_starting c \<Longrightarrow> rn_state (cl_node c i) \<noteq> LEADER \<Longrightarrow>
    rn_current_term (cl_node c i) \<noteq> - 1 \<Longrightarrow>
    cstep ids c ((observe i (BecomeCandidate (cl_node c i)) c)
      \<lparr> cl_starting := insert i (cl_starting c), cl_counted := (cl_counted c)(i := {i}) \<rparr>)"
| start: "i \<in> cl_starting c \<Longrightarrow> vote_request_of (cl_node c i) = Some req \<Longrightarrow>
    cstep ids c (c\<lparr> cl_net := cl_net c \<union> (\<lambda>p. VoteReq i p req) ` {p \<in> set (rn_peers (cl_node c i)). p \<noteq> i},
                    cl_starting := cl_starting c - {i} \<rparr>)"
| check: "i \<in> set ids \<Longrightarrow> i \<notin> cl_starting c \<Longrightarrow> election_check record_rpc (cl_node c i) = Some n' \<Longrightarrow>
    cstep ids c (observe i n' c)"
| vote_request: "VoteReq i v req \<in> cl_net c \<Longrightarrow> HandleRequestVote (rv_candidate_id req) req (cl_node c v) = Some (r, n') \<Longrightarrow>
    cstep ids c ((observe v n' c)\<lparr> cl_net := insert (VoteResp v i r) (cl_net c - {VoteReq i v req}) \<rparr>)"
| vote_response: "VoteResp v i r \<in> cl_net c \<Longrightarrow> HandleRequestVoteResponse record_rpc v r (cl_node c i) = Some n' \<Longrightarrow>
    cstep ids c ((observe i n' c)\<lparr> cl_net := cl_net c - {VoteResp v i r},
      cl_counted := (if vote_counts r (cl_node c i) then (cl_counted c)(i := insert v (cl_counted c i)) else cl_counted c) \<rparr>)"
| append: "i \<in> set ids \<Longrightarrow> HandleAppendEntries sender areq (cl_node c i) = Some (ar, n') \<Longrightarrow> cstep ids c (observe i n' c)"
| append_response: "i \<in> set ids \<Longrightarrow> HandleAppendEntriesResponse sender aresp (cl_node c i) = Some n' \<Longrightarrow>
    cstep ids c (observe i n' c)"
| install: "i \<in> set ids \<Longrightarrow> HandleInstallSnapshot ser ok sender sreq (cl_node c i) = Some (sr, n') \<Longrightarrow>
    cstep ids c (observe i n' c)"
| propose: "i \<in> set ids \<Longrightarrow> Propose record_rpc cmd ws (cl_node c i) = Some (res, n') \<Longrightarrow> cstep ids c (observe i n' c)"
| heartbeat: "i \<in> set ids \<Longrightarrow> SendHeartbeats record_rpc (cl_node c i) = Some n' \<Longrightarrow> cstep ids c (observe i n' c)"
| snapshot: "i \<in> set ids \<Longrightarrow> TakeSnapshot ser ok cb (cl_node c i) = Some (b, n') \<Longrightarrow> cstep ids c (observe i n' c)"
| drop: "cstep ids c (c\<lparr> cl_net := cl_net c - {msg} \<rparr>)"
| restart: "i \<in> set ids \<Longrightarrow> Raft_Start parse (Raft_reboot ((cl_node c i)\<lparr> rn_snapshot_file := sf \<rparr>)) = Some n' \<Longrightarrow>
    cstep ids c ((observe i n' c)\<lparr> cl_starting := cl_starting c - {i},
                                    cl_lost := (cl_lost c \<or> \<not> vote_on_file (cl_node c i)) \<rparr>)"

inductive creach :: "(str \<Rightarrow> nat \<Rightarrow> write_result) \<Rightarrow> str list \<Rightarrow> cluster \<Rightarrow> bool" for disk ids where
  init: "creach disk ids (cl_init disk ids)"
| step: "creach disk ids c \<Longrightarrow> cstep ids c c' \<Longrightarrow> creach disk ids c'"

subsection \<open>Invariants\<close>

text \<open>Identities, and the votes: at most one per voter and term, and the node still knows its last one.\<close>

definition inv_ids :: "str list \<Rightarrow> cluster \<Rightarrow> bool" where
  "inv_ids ids c \<longleftrightarrow> cl_starting c \<subseteq> set ids \<and>
     (\<forall>i \<in> set ids. rn_my_id (cl_node c i) = i \<and> rn_peers (cl_node c i) = ids \<and> vote_saved (cl_node c i) \<and>
        rn_disk (cl_node c i) = cl_disk c i \<and>
        (rn_voted_for (cl_node c i) \<noteq> [] \<longrightarrow> rn_voted_for (cl_node c i) \<in> set ids))"

definition inv_votes :: "str list \<Rightarrow> cluster \<Rightarrow> bool" where
  "inv_votes ids c \<longleftrightarrow>
     (\<forall>v t x. (v, t, x) \<in> cl_votes c \<longrightarrow> v \<in> set ids \<and> x \<noteq> [] \<and> t \<le> rn_current_term (cl_node c v) \<and>
        (t = rn_current_term (cl_node c v) \<longrightarrow> rn_voted_for (cl_node c v) = x)) \<and>
     (\<forall>v t x y. (v, t, x) \<in> cl_votes c \<longrightarrow> (v, t, y) \<in> cl_votes c \<longrightarrow> x = y) \<and>
     (\<forall>v \<in> set ids. rn_voted_for (cl_node c v) \<noteq> [] \<longrightarrow>
        (v, rn_current_term (cl_node c v), rn_voted_for (cl_node c v)) \<in> cl_votes c)"

text \<open>Messages: whose they are, and no voter can be asked or counted twice in one term.\<close>

definition req_ok :: "str list \<Rightarrow> cluster \<Rightarrow> str \<Rightarrow> str \<Rightarrow> vote_request \<Rightarrow> bool" where
  "req_ok ids c i v req \<longleftrightarrow> i \<in> set ids \<and> v \<in> set ids \<and> v \<noteq> i \<and> rv_candidate_id req = i \<and>
     rv_term req \<le> rn_current_term (cl_node c i) \<and>
     (i \<in> cl_starting c \<longrightarrow> rv_term req < rn_current_term (cl_node c i))"

definition resp_ok :: "str list \<Rightarrow> cluster \<Rightarrow> str \<Rightarrow> str \<Rightarrow> vote_response \<Rightarrow> bool" where
  "resp_ok ids c v i r \<longleftrightarrow> i \<in> set ids \<and> v \<in> set ids \<and> v \<noteq> i \<and>
     (vr_granted r \<longrightarrow> (v, vr_term r, i) \<in> cl_votes c \<and> vr_term r \<le> rn_current_term (cl_node c i) \<and>
        (i \<in> cl_starting c \<longrightarrow> vr_term r < rn_current_term (cl_node c i)))"

definition single_use :: "vote_msg set \<Rightarrow> bool" where
  "single_use net \<longleftrightarrow>
     (\<forall>i v req req'. VoteReq i v req \<in> net \<longrightarrow> VoteReq i v req' \<in> net \<longrightarrow> rv_term req = rv_term req' \<longrightarrow> req = req') \<and>
     (\<forall>i v req r. VoteReq i v req \<in> net \<longrightarrow> VoteResp v i r \<in> net \<longrightarrow> vr_granted r \<longrightarrow> rv_term req \<noteq> vr_term r)"

definition inv_net :: "str list \<Rightarrow> cluster \<Rightarrow> bool" where
  "inv_net ids c \<longleftrightarrow> (\<forall>i v req. VoteReq i v req \<in> cl_net c \<longrightarrow> req_ok ids c i v req) \<and>
     (\<forall>v i r. VoteResp v i r \<in> cl_net c \<longrightarrow> resp_ok ids c v i r) \<and> single_use (cl_net c)"

text \<open>No message still in flight can make \<open>i\<close> count \<open>v\<close> again in term \<open>t\<close>.\<close>

definition spent :: "vote_msg set \<Rightarrow> str \<Rightarrow> str \<Rightarrow> u64 \<Rightarrow> bool" where
  "spent net i v t \<longleftrightarrow> (\<forall>req. VoteReq i v req \<in> net \<longrightarrow> rv_term req \<noteq> t) \<and>
     (\<forall>r. VoteResp v i r \<in> net \<longrightarrow> vr_granted r \<longrightarrow> vr_term r \<noteq> t)"

definition count_ok :: "str list \<Rightarrow> cluster \<Rightarrow> str \<Rightarrow> bool" where
  "count_ok ids c i \<longleftrightarrow> (rn_state (cl_node c i) = CANDIDATE \<longrightarrow>
     rn_votes_received (cl_node c i) = card (cl_counted c i) \<and> cl_counted c i \<subseteq> set ids \<and>
     (i \<in> cl_starting c \<longrightarrow> cl_counted c i = {i}) \<and>
     (\<forall>v \<in> cl_counted c i. (v, rn_current_term (cl_node c i), i) \<in> cl_votes c \<and>
        spent (cl_net c) i v (rn_current_term (cl_node c i))))"

definition inv_count :: "str list \<Rightarrow> cluster \<Rightarrow> bool" where
  "inv_count ids c \<longleftrightarrow> (\<forall>i \<in> set ids. count_ok ids c i)"

definition has_majority :: "str list \<Rightarrow> cluster \<Rightarrow> str \<Rightarrow> u64 \<Rightarrow> bool" where
  "has_majority ids c i t \<longleftrightarrow>
     (\<exists>V. V \<subseteq> set ids \<and> length ids div 2 + 1 \<le> card V \<and> (\<forall>v \<in> V. (v, t, i) \<in> cl_votes c))"

definition inv_elected :: "str list \<Rightarrow> cluster \<Rightarrow> bool" where
  "inv_elected ids c \<longleftrightarrow>
     (\<forall>i t. (i, t) \<in> cl_elected c \<longrightarrow> has_majority ids c i t) \<and>
     (\<forall>i \<in> set ids. rn_state (cl_node c i) = LEADER \<longrightarrow> (i, rn_current_term (cl_node c i)) \<in> cl_elected c)"

definition cl_inv :: "str list \<Rightarrow> cluster \<Rightarrow> bool" where
  "cl_inv ids c \<longleftrightarrow> inv_ids ids c \<and> inv_votes ids c \<and> inv_net ids c \<and> inv_count ids c \<and> inv_elected ids c"

lemma observe_simps [simp]:
  "cl_node (observe i n c) j = (if j = i then n else cl_node c j)" "cl_net (observe i n c) = cl_net c"
  "cl_starting (observe i n c) = cl_starting c" "cl_counted (observe i n c) = cl_counted c"
  "cl_disk (observe i n c) = cl_disk c" "cl_lost (observe i n c) = cl_lost c"
  by (simp_all add: observe_def)

lemma cl_votes_observe: "x \<in> cl_votes (observe i n c) \<longleftrightarrow>
    x \<in> cl_votes c \<or> (rn_voted_for n \<noteq> [] \<and> x = (i, rn_current_term n, rn_voted_for n))"
  by (auto simp: observe_def)

lemma cl_elected_observe: "x \<in> cl_elected (observe i n c) \<longleftrightarrow>
    x \<in> cl_elected c \<or> (rn_state n = LEADER \<and> x = (i, rn_current_term n))"
  by (auto simp: observe_def)

lemma has_majority_mono: "has_majority ids c i t \<Longrightarrow> cl_votes c \<subseteq> cl_votes c' \<Longrightarrow> has_majority ids c' i t"
  unfolding has_majority_def by blast

text \<open>Two majorities of the same nodes share a voter.\<close>

lemma majorities_meet:
  assumes "V \<subseteq> set ids" "W \<subseteq> set ids" "length ids div 2 + 1 \<le> card V" "length ids div 2 + 1 \<le> card W"
  shows "V \<inter> W \<noteq> {}"
proof
  assume "V \<inter> W = {}"
  moreover have "finite V" "finite W" using assms by (auto intro: finite_subset)
  ultimately have "card V + card W = card (V \<union> W)" by (simp add: card_Un_disjoint)
  also have "\<dots> \<le> card (set ids)" using assms by (intro card_mono) auto
  also have "\<dots> \<le> length ids" by (rule card_length)
  finally show False using assms by linarith
qed

lemma cl_inv_init: "distinct ids \<Longrightarrow> cl_inv ids (cl_init disk ids)"
  by (auto simp: cl_inv_def inv_ids_def inv_votes_def inv_net_def inv_count_def count_ok_def inv_elected_def cl_init_def single_use_def
      with_disk_def RaftNode_new_def vote_saved_def vote_on_file_def)

lemma one_leader_per_term:
  assumes "cl_inv ids c" and "(i, t) \<in> cl_elected c" and "(j, t) \<in> cl_elected c"
  shows "i = j"
proof -
  have "has_majority ids c i t" "has_majority ids c j t"
    using assms unfolding cl_inv_def inv_elected_def by blast+
  then obtain V W where V: "V \<subseteq> set ids" "length ids div 2 + 1 \<le> card V" "\<forall>v \<in> V. (v, t, i) \<in> cl_votes c"
    and W: "W \<subseteq> set ids" "length ids div 2 + 1 \<le> card W" "\<forall>v \<in> W. (v, t, j) \<in> cl_votes c"
    unfolding has_majority_def by blast
  obtain v where "v \<in> V" "v \<in> W" using majorities_meet [OF V(1) W(1) V(2) W(2)] by blast
  with V(3) W(3) have "(v, t, i) \<in> cl_votes c" "(v, t, j) \<in> cl_votes c" by auto
  with assms(1) show ?thesis unfolding cl_inv_def inv_votes_def by blast
qed


subsection \<open>Steps that cast no vote\<close>

lemma single_use_mono: "single_use net \<Longrightarrow> net' \<subseteq> net \<Longrightarrow> single_use net'"
  unfolding single_use_def by blast

lemma spent_mono: "spent net i v t \<Longrightarrow> net' \<subseteq> net \<Longrightarrow> spent net' i v t"
  unfolding spent_def by blast

lemma shrink_inv:
  assumes inv: "cl_inv ids c" and net: "net \<subseteq> cl_net c" and S: "S \<subseteq> cl_starting c"
  shows "cl_inv ids (c\<lparr> cl_net := net, cl_starting := S \<rparr>)"
proof -
  let ?c = "c\<lparr> cl_net := net, cl_starting := S \<rparr>"
  have "inv_ids ids ?c" using inv S by (auto simp: cl_inv_def inv_ids_def)
  moreover have "inv_votes ids ?c" using inv by (simp add: cl_inv_def inv_votes_def)
  moreover have "inv_net ids ?c"
  proof -
    have "req_ok ids ?c i v req" if "req_ok ids c i v req" for i v req using that S by (auto simp: req_ok_def)
    moreover have "resp_ok ids ?c v i r" if "resp_ok ids c v i r" for i v r using that S by (auto simp: resp_ok_def)
    moreover have "single_use net" using inv net by (auto simp: cl_inv_def inv_net_def intro: single_use_mono)
    ultimately show ?thesis using inv net unfolding cl_inv_def inv_net_def by (simp add: subset_iff)
  qed
  moreover have "inv_count ids ?c"
  proof -
    have "count_ok ids ?c i" if "count_ok ids c i" for i
      using that S by (auto simp: count_ok_def intro: spent_mono [OF _ net])
    with inv show ?thesis by (simp add: cl_inv_def inv_count_def)
  qed
  moreover have "inv_elected ids ?c" using inv by (simp add: cl_inv_def inv_elected_def has_majority_def)
  ultimately show ?thesis by (simp add: cl_inv_def)
qed

lemma quiet_observe:
  assumes inv: "cl_inv ids c" and i: "i \<in> set ids" and q: "quiet (cl_node c i) n'"
  shows "observe i n' c = c\<lparr> cl_node := (cl_node c)(i := n') \<rparr>"
proof -
  have "rn_voted_for n' \<noteq> [] \<Longrightarrow> (i, rn_current_term n', rn_voted_for n') \<in> cl_votes c"
  proof -
    assume "rn_voted_for n' \<noteq> []"
    with q have "rn_current_term n' = rn_current_term (cl_node c i)" "rn_voted_for n' = rn_voted_for (cl_node c i)"
      by (auto simp: quiet_def)
    with \<open>rn_voted_for n' \<noteq> []\<close> inv i show ?thesis by (simp add: cl_inv_def inv_votes_def)
  qed
  moreover have "rn_state n' = LEADER \<Longrightarrow> (i, rn_current_term n') \<in> cl_elected c"
  proof -
    assume "rn_state n' = LEADER"
    with q have "rn_state (cl_node c i) = LEADER" "rn_current_term n' = rn_current_term (cl_node c i)"
      by (auto simp: quiet_def)
    with inv i show ?thesis by (simp add: cl_inv_def inv_elected_def)
  qed
  ultimately show ?thesis by (simp add: observe_def insert_absorb)
qed

lemma quiet_step_inv:
  assumes inv: "cl_inv ids c" and i: "i \<in> set ids" and q: "quiet (cl_node c i) n'"
  shows "cl_inv ids (observe i n' c)"
proof -
  let ?n = "cl_node c i" and ?c = "c\<lparr> cl_node := (cl_node c)(i := n') \<rparr>"
  have up: "rn_current_term ?n \<le> rn_current_term n'" using q by (auto simp: quiet_def)
  have "inv_ids ids ?c" using inv i q by (auto simp: cl_inv_def inv_ids_def quiet_def)
  moreover have "inv_votes ids ?c"
  proof -
    have "t \<le> rn_current_term n' \<and> (t = rn_current_term n' \<longrightarrow> rn_voted_for n' = x)" if "(i, t, x) \<in> cl_votes c" for t x
    proof -
      from inv that have tx: "t \<le> rn_current_term ?n" "t = rn_current_term ?n \<Longrightarrow> rn_voted_for ?n = x"
        by (auto simp: cl_inv_def inv_votes_def)
      show ?thesis
      proof (cases "rn_current_term n' = rn_current_term ?n")
        case True
        with q have "rn_voted_for n' = rn_voted_for ?n" by (auto simp: quiet_def)
        with True tx show ?thesis by simp
      next
        case False
        with up have "rn_current_term ?n < rn_current_term n'" by simp
        with tx show ?thesis by auto
      qed
    qed
    moreover have "rn_voted_for n' \<noteq> [] \<Longrightarrow> (i, rn_current_term n', rn_voted_for n') \<in> cl_votes c"
      using quiet_observe [OF inv i q] cl_votes_observe [of "(i, rn_current_term n', rn_voted_for n')" i n' c] by simp
    ultimately show ?thesis using inv by (auto simp: cl_inv_def inv_votes_def)
  qed
  moreover have "inv_net ids ?c"
  proof -
    have "req_ok ids ?c j v req" if "req_ok ids c j v req" for j v req
      using that up by (auto simp: req_ok_def)
    moreover have "resp_ok ids ?c v j r" if "resp_ok ids c v j r" for j v r
      using that up by (auto simp: resp_ok_def)
    ultimately show ?thesis using inv by (simp add: cl_inv_def inv_net_def)
  qed
  moreover have "inv_count ids ?c"
  proof -
    have "count_ok ids ?c j" if "count_ok ids c j" for j
    proof (cases "j = i \<and> rn_state n' = CANDIDATE")
      case True
      with q have "rn_state ?n = CANDIDATE" "rn_current_term n' = rn_current_term ?n"
        "rn_votes_received n' = rn_votes_received ?n" by (auto simp: quiet_def)
      with that True show ?thesis by (simp add: count_ok_def)
    qed (use that in \<open>auto simp: count_ok_def\<close>)
    with inv show ?thesis by (simp add: cl_inv_def inv_count_def)
  qed
  moreover have "inv_elected ids ?c"
  proof -
    have "rn_state n' = LEADER \<Longrightarrow> (i, rn_current_term n') \<in> cl_elected c"
      using quiet_observe [OF inv i q] cl_elected_observe [of "(i, rn_current_term n')" i n' c] by simp
    with inv show ?thesis by (auto simp: cl_inv_def inv_elected_def has_majority_def)
  qed
  ultimately show ?thesis by (simp add: cl_inv_def quiet_observe [OF inv i q])
qed

subsection \<open>Using and establishing the invariants\<close>


lemma u64_lt_inc: "(t :: u64) \<noteq> - 1 \<Longrightarrow> t < t + 1"
proof -
  assume "t \<noteq> - 1"
  then have "t < - 1" by (simp add: word_order.not_eq_extremum)
  from u64_inc [OF this] show ?thesis by (simp add: word_less_nat_alt)
qed

lemma inv_D:
  assumes "cl_inv ids c" and "i \<in> set ids"
  shows "rn_my_id (cl_node c i) = i" "rn_peers (cl_node c i) = ids" "vote_saved (cl_node c i)" "count_ok ids c i"
    "rn_voted_for (cl_node c i) \<noteq> [] \<Longrightarrow> (i, rn_current_term (cl_node c i), rn_voted_for (cl_node c i)) \<in> cl_votes c"
    "rn_voted_for (cl_node c i) \<noteq> [] \<Longrightarrow> rn_voted_for (cl_node c i) \<in> set ids"
    "rn_disk (cl_node c i) = cl_disk c i"
  using assms by (auto simp: cl_inv_def inv_ids_def inv_votes_def inv_count_def)

lemma inv_votesD:
  assumes "cl_inv ids c" and "(v, t, x) \<in> cl_votes c"
  shows "v \<in> set ids" "x \<noteq> []" "t \<le> rn_current_term (cl_node c v)"
    "t = rn_current_term (cl_node c v) \<Longrightarrow> rn_voted_for (cl_node c v) = x"
    "(v, t, y) \<in> cl_votes c \<Longrightarrow> x = y"
  using assms unfolding cl_inv_def inv_votes_def by blast+

lemma inv_netD:
  assumes "cl_inv ids c"
  shows "VoteReq i v req \<in> cl_net c \<Longrightarrow> req_ok ids c i v req" "VoteResp v i r \<in> cl_net c \<Longrightarrow> resp_ok ids c v i r"
    "single_use (cl_net c)"
  using assms by (auto simp: cl_inv_def inv_net_def)

lemma inv_votesI:
  assumes "\<And>v t x. (v, t, x) \<in> cl_votes c \<Longrightarrow> v \<in> set ids \<and> x \<noteq> [] \<and> t \<le> rn_current_term (cl_node c v) \<and>
      (t = rn_current_term (cl_node c v) \<longrightarrow> rn_voted_for (cl_node c v) = x)"
    and "\<And>v t x y. (v, t, x) \<in> cl_votes c \<Longrightarrow> (v, t, y) \<in> cl_votes c \<Longrightarrow> x = y"
    and "\<And>v. v \<in> set ids \<Longrightarrow> rn_voted_for (cl_node c v) \<noteq> [] \<Longrightarrow>
      (v, rn_current_term (cl_node c v), rn_voted_for (cl_node c v)) \<in> cl_votes c"
  shows "inv_votes ids c"
  unfolding inv_votes_def using assms by blast

lemma inv_netI:
  assumes "\<And>i v q. VoteReq i v q \<in> cl_net c \<Longrightarrow> req_ok ids c i v q"
    and "\<And>v i r. VoteResp v i r \<in> cl_net c \<Longrightarrow> resp_ok ids c v i r" and "single_use (cl_net c)"
  shows "inv_net ids c"
  unfolding inv_net_def using assms by blast

lemma inv_electedI:
  assumes "\<And>i t. (i, t) \<in> cl_elected c \<Longrightarrow> has_majority ids c i t"
    and "\<And>i. i \<in> set ids \<Longrightarrow> rn_state (cl_node c i) = LEADER \<Longrightarrow> (i, rn_current_term (cl_node c i)) \<in> cl_elected c"
  shows "inv_elected ids c"
  unfolding inv_elected_def using assms by blast

lemma inv_electedD:
  assumes "cl_inv ids c"
  shows "(i, t) \<in> cl_elected c \<Longrightarrow> has_majority ids c i t"
    "i \<in> set ids \<Longrightarrow> rn_state (cl_node c i) = LEADER \<Longrightarrow> (i, rn_current_term (cl_node c i)) \<in> cl_elected c"
  using assms unfolding cl_inv_def inv_elected_def by blast+

lemma single_useI:
  assumes "\<And>i v q q'. VoteReq i v q \<in> net \<Longrightarrow> VoteReq i v q' \<in> net \<Longrightarrow> rv_term q = rv_term q' \<Longrightarrow> q = q'"
    and "\<And>i v q r. VoteReq i v q \<in> net \<Longrightarrow> VoteResp v i r \<in> net \<Longrightarrow> vr_granted r \<Longrightarrow> rv_term q \<noteq> vr_term r"
  shows "single_use net"
  unfolding single_use_def using assms by blast

lemma single_useD:
  assumes "single_use net"
  shows "VoteReq i v q \<in> net \<Longrightarrow> VoteReq i v q' \<in> net \<Longrightarrow> rv_term q = rv_term q' \<Longrightarrow> q = q'"
    "VoteReq i v q \<in> net \<Longrightarrow> VoteResp v i r \<in> net \<Longrightarrow> vr_granted r \<Longrightarrow> rv_term q \<noteq> vr_term r"
  using assms unfolding single_use_def by blast+

lemma count_ok_transfer:
  assumes ok: "count_ok ids c j"
    and node: "rn_state (cl_node k j) = CANDIDATE \<Longrightarrow> rn_state (cl_node c j) = CANDIDATE \<and>
        rn_current_term (cl_node k j) = rn_current_term (cl_node c j) \<and>
        rn_votes_received (cl_node k j) = rn_votes_received (cl_node c j)"
    and cnt: "cl_counted k j = cl_counted c j" and votes: "cl_votes c \<subseteq> cl_votes k"
    and st: "j \<in> cl_starting k \<Longrightarrow> j \<in> cl_starting c"
    and sp: "\<And>v u. spent (cl_net c) j v u \<Longrightarrow> spent (cl_net k) j v u"
  shows "count_ok ids k j"
proof (cases "rn_state (cl_node k j) = CANDIDATE")
  case True
  from node [OF True] have n: "rn_state (cl_node c j) = CANDIDATE"
    "rn_current_term (cl_node k j) = rn_current_term (cl_node c j)"
    "rn_votes_received (cl_node k j) = rn_votes_received (cl_node c j)" by simp_all
  show ?thesis
    using ok sp votes st unfolding count_ok_def n cnt by (simp add: n(1) subset_iff)
qed (simp add: count_ok_def)

end
