(* ===== verification/RaftElection.thy ===== *)
theory RaftElection
  imports RaftCluster
begin

text \<open>
  Every step of the cluster of theory \<open>RaftCluster\<close> keeps its invariants, unless a node restarts from a
  state file without its term and vote; so only such a restart lets two nodes lead in the same term,
  and one write that failed is enough for it (\<open>one_lost_write_elects_two_leaders\<close>).
\<close>

lemma timeout_inv:
  assumes inv: "cl_inv ids c" and i: "i \<in> set ids" "i \<noteq> []" and t: "rn_current_term (cl_node c i) \<noteq> - 1"
  shows "cl_inv ids ((observe i (BecomeCandidate (cl_node c i)) c)
      \<lparr> cl_starting := insert i (cl_starting c), cl_counted := (cl_counted c)(i := {i}) \<rparr>)"
proof -
  define k where "k = (observe i (BecomeCandidate (cl_node c i)) c)
      \<lparr> cl_starting := insert i (cl_starting c), cl_counted := (cl_counted c)(i := {i}) \<rparr>"
  let ?n = "cl_node c i"
  define n' where "n' = BecomeCandidate ?n"
  define t' where "t' = rn_current_term ?n + 1"
  have lt: "rn_current_term ?n < t'" unfolding t'_def by (rule u64_lt_inc [OF t])
  have f: "rn_my_id n' = i" "rn_peers n' = ids" "rn_current_term n' = t'" "rn_voted_for n' = i" "rn_state n' = CANDIDATE"
    "rn_votes_received n' = 1" "vote_saved n'" "rn_disk n' = cl_disk c i"
    using inv_D [OF inv i(1)] by (simp_all add: n'_def BecomeCandidate_def t'_def)
  have node: "cl_node k = (cl_node c)(i := n')" and net: "cl_net k = cl_net c"
    and dk: "cl_disk k = cl_disk c" and st: "cl_starting k = insert i (cl_starting c)" and cnt: "cl_counted k = (cl_counted c)(i := {i})"
    and votes: "cl_votes k = insert (i, t', i) (cl_votes c)" and el: "cl_elected k = cl_elected c"
    using f i(2) by (simp_all add: k_def observe_def n'_def)
  have "inv_ids ids k" using inv i f by (auto simp: cl_inv_def inv_ids_def node st dk)
  moreover have "inv_votes ids k"
  proof (rule inv_votesI)
    have old: "u < t'" if "(i, u, x) \<in> cl_votes c" for u x
      using inv_votesD(3) [OF inv that] lt by simp
    then have new: "(i, t', x) \<notin> cl_votes c" for x by blast
    show "v \<in> set ids \<and> x \<noteq> [] \<and> u \<le> rn_current_term (cl_node k v) \<and>
        (u = rn_current_term (cl_node k v) \<longrightarrow> rn_voted_for (cl_node k v) = x)"
      if "(v, u, x) \<in> cl_votes k" for v u x
    proof (cases "(v, u, x) \<in> cl_votes c")
      case True
      note vd = inv_votesD [OF inv True]
      show ?thesis
      proof (cases "v = i")
        case True
        with old \<open>(v, u, x) \<in> cl_votes c\<close> have "u < t'" by simp
        then have "u \<le> t'" "u \<noteq> t'" by (auto intro: less_imp_le)
        then show ?thesis using True vd(1,2) f by (simp add: node)
      qed (use vd(1-4) in \<open>simp add: node\<close>)
    next
      case False
      with that have "v = i" "u = t'" "x = i" by (simp_all add: votes)
      with i f show ?thesis by (simp add: node)
    qed
    show "x = y" if "(v, u, x) \<in> cl_votes k" "(v, u, y) \<in> cl_votes k" for v u x y
      using that inv_votesD(5) [OF inv, of v u x y] new unfolding votes by auto
    show "(v, rn_current_term (cl_node k v), rn_voted_for (cl_node k v)) \<in> cl_votes k"
      if "v \<in> set ids" "rn_voted_for (cl_node k v) \<noteq> []" for v
    proof (cases "v = i")
      case True
      with f show ?thesis by (simp add: votes node)
    next
      case False
      with that inv_D(5) [OF inv that(1)] show ?thesis by (simp add: votes node)
    qed
  qed
  moreover have "inv_net ids k"
  proof -
    have "req_ok ids k j v req" if "req_ok ids c j v req" for j v req
      using that lt f(3) unfolding req_ok_def node st by auto
    moreover have "resp_ok ids k v j r" if "resp_ok ids c v j r" for j v r
      using that lt f(3) unfolding resp_ok_def node st votes by auto
    ultimately show ?thesis using inv by (simp add: cl_inv_def inv_net_def net)
  qed
  moreover have "inv_count ids k"
  proof -
    have "spent (cl_net c) i i t'"
      using inv_netD(1) [OF inv, of i i] inv_netD(2) [OF inv, of i i] by (auto simp: spent_def req_ok_def resp_ok_def)
    then have "count_ok ids k i" unfolding count_ok_def node net st cnt votes using f i by simp
    moreover have "count_ok ids k j" if "j \<in> set ids" "j \<noteq> i" for j
      using inv_D(4) [OF inv that(1)] that(2) unfolding count_ok_def node net st cnt votes by auto
    ultimately show ?thesis unfolding inv_count_def by blast
  qed
  moreover have "inv_elected ids k"
  proof (rule inv_electedI)
    have "has_majority ids k j u" if "has_majority ids c j u" for j u
      using that by (rule has_majority_mono) (auto simp: votes)
    then show "has_majority ids k j u" if "(j, u) \<in> cl_elected k" for j u
      using that inv_electedD(1) [OF inv] unfolding el by blast
    show "(j, rn_current_term (cl_node k j)) \<in> cl_elected k" if "j \<in> set ids" "rn_state (cl_node k j) = LEADER" for j
      using that inv_electedD(2) [OF inv, of j] f(5) unfolding node el by (auto split: if_splits)
  qed
  ultimately have "cl_inv ids k" by (simp add: cl_inv_def)
  then show ?thesis by (simp only: k_def)
qed

lemma start_inv:
  assumes inv: "cl_inv ids c" and i: "i \<in> cl_starting c" and req: "vote_request_of (cl_node c i) = Some req"
  shows "cl_inv ids (c\<lparr> cl_net := cl_net c \<union> (\<lambda>p. VoteReq i p req) ` {p \<in> set (rn_peers (cl_node c i)). p \<noteq> i},
                    cl_starting := cl_starting c - {i} \<rparr>)"
proof -
  define k where "k = c\<lparr> cl_net := cl_net c \<union> (\<lambda>p. VoteReq i p req) ` {p \<in> set (rn_peers (cl_node c i)). p \<noteq> i},
                    cl_starting := cl_starting c - {i} \<rparr>"
  let ?t = "rn_current_term (cl_node c i)"
  have ii: "i \<in> set ids" using inv i by (auto simp: cl_inv_def inv_ids_def)
  note D = inv_D [OF inv ii]
  have r: "rv_term req = ?t" "rv_candidate_id req = i"
    using req D(1) by (auto simp: vote_request_of_def bind_eq_Some_conv)
  have net: "VoteReq j p q \<in> cl_net k \<longleftrightarrow> VoteReq j p q \<in> cl_net c \<or> (j = i \<and> q = req \<and> p \<in> set ids \<and> p \<noteq> i)"
    "VoteResp p j w \<in> cl_net k \<longleftrightarrow> VoteResp p j w \<in> cl_net c" for j p q w
    using D(2) by (auto simp: k_def)
  have rest: "cl_node k = cl_node c" "cl_starting k = cl_starting c - {i}" "cl_votes k = cl_votes c"
    "cl_counted k = cl_counted c" "cl_elected k = cl_elected c" "cl_disk k = cl_disk c" by (simp_all add: k_def)
  have old_req: "rv_term q < ?t" if "VoteReq i p q \<in> cl_net c" for p q
    using inv_netD(1) [OF inv that] i by (simp add: req_ok_def)
  have old_resp: "vr_term w < ?t" if "VoteResp p i w \<in> cl_net c" "vr_granted w" for p w
    using inv_netD(2) [OF inv that(1)] that(2) i by (simp add: resp_ok_def)
  have "inv_ids ids k" using inv unfolding cl_inv_def inv_ids_def rest by blast
  moreover have "inv_votes ids k" using inv unfolding cl_inv_def inv_votes_def rest by simp
  moreover have "inv_elected ids k" using inv unfolding cl_inv_def inv_elected_def has_majority_def rest by simp
  moreover have "inv_net ids k"
  proof (rule inv_netI)
    show "req_ok ids k j p q" if "VoteReq j p q \<in> cl_net k" for j p q
      using that inv_netD(1) [OF inv, of j p q] r ii unfolding net req_ok_def rest by auto
    show "resp_ok ids k p j w" if "VoteResp p j w \<in> cl_net k" for p j w
      using that inv_netD(2) [OF inv, of p j w] unfolding net resp_ok_def rest by auto
    show "single_use (cl_net k)"
    proof (rule single_useI)
    show "q = q'" if a: "VoteReq j p q \<in> cl_net k" "VoteReq j p q' \<in> cl_net k" "rv_term q = rv_term q'" for j p q q'
    proof (cases "VoteReq j p q \<in> cl_net c \<and> VoteReq j p q' \<in> cl_net c")
      case True
      with a(3) single_useD(1) [OF inv_netD(3) [OF inv]] show ?thesis by blast
    next
      case False
      with a(1,2) have "j = i" "q = req \<or> q' = req" unfolding net by blast+
      with a old_req [of p q] old_req [of p q'] r(1) show ?thesis unfolding net by auto
    qed
    show "rv_term q \<noteq> vr_term w" if "VoteReq j p q \<in> cl_net k" "VoteResp p j w \<in> cl_net k" "vr_granted w" for j p q w
      using that single_useD(2) [OF inv_netD(3) [OF inv], of j p q w] old_resp [of p w] r(1)
      unfolding net by auto
    qed
  qed
  moreover have "inv_count ids k"
  proof -
    have "count_ok ids k j" if "j \<in> set ids" for j
    proof (cases "j = i")
      case True
      have "spent (cl_net k) i i ?t" if "spent (cl_net c) i i ?t"
        using that unfolding spent_def net by blast
      with D(4) i show ?thesis unfolding True count_ok_def rest by (auto simp del: Diff_iff)
    next
      case False
      have sp: "spent (cl_net k) j v u" if "spent (cl_net c) j v u" for v u
        using that False unfolding spent_def net by blast
      show ?thesis by (rule count_ok_transfer [OF inv_D(4) [OF inv that]]) (simp_all add: rest sp)
    qed
    then show ?thesis unfolding inv_count_def by blast
  qed
  ultimately have "cl_inv ids k" by (simp add: cl_inv_def)
  then show ?thesis by (simp only: k_def)
qed


text \<open>Counting a vote, and becoming leader once the votes suffice.\<close>

lemma counting_inv:
  assumes inv: "cl_inv ids c" and i: "i \<in> set ids" "i \<notin> cl_starting c" and net: "net \<subseteq> cl_net c"
    and cand: "rn_state (cl_node c i) = CANDIDATE"
    and f: "rn_my_id n' = i" "rn_peers n' = ids" "rn_current_term n' = rn_current_term (cl_node c i)"
      "rn_voted_for n' = rn_voted_for (cl_node c i)" "vote_saved n'" "rn_votes_received n' = card C"
      "rn_disk n' = rn_disk (cl_node c i)"
    and C: "C \<subseteq> set ids" "\<And>v. v \<in> C \<Longrightarrow> (v, rn_current_term (cl_node c i), i) \<in> cl_votes c"
      "\<And>v. v \<in> C \<Longrightarrow> spent net i v (rn_current_term (cl_node c i))"
    and lead: "rn_state n' = LEADER \<Longrightarrow> length ids div 2 + 1 \<le> card C"
  shows "cl_inv ids ((observe i n' c)\<lparr> cl_net := net, cl_counted := (cl_counted c)(i := C) \<rparr>)"
proof -
  let ?t = "rn_current_term (cl_node c i)"
  define k where "k = (observe i n' c)\<lparr> cl_net := net, cl_counted := (cl_counted c)(i := C) \<rparr>"
  have votes: "cl_votes k = cl_votes c"
    using inv_D(5) [OF inv i(1)] f(3,4) by (auto simp: k_def observe_def insert_absorb)
  have rest: "cl_node k = (cl_node c)(i := n')" "cl_net k = net" "cl_starting k = cl_starting c"
    "cl_counted k = (cl_counted c)(i := C)" "cl_disk k = cl_disk c"
    by (simp_all add: k_def observe_def)
  have el: "(j, u) \<in> cl_elected k \<longleftrightarrow> (j, u) \<in> cl_elected c \<or> (rn_state n' = LEADER \<and> j = i \<and> u = ?t)" for j u
    using f(3) by (simp add: k_def cl_elected_observe)
  have tm: "rn_current_term (cl_node k j) = rn_current_term (cl_node c j)"
    "rn_voted_for (cl_node k j) = rn_voted_for (cl_node c j)" for j
    using f by (simp_all add: rest)
  have "inv_ids ids k"
    using inv f inv_D(6,7) [OF inv i(1)] unfolding cl_inv_def inv_ids_def rest(3) tm by (simp add: rest)
  moreover have "inv_votes ids k"
    using inv unfolding cl_inv_def inv_votes_def votes tm by simp
  moreover have "inv_net ids k"
  proof (rule inv_netI)
    show "req_ok ids k j v q" if "VoteReq j v q \<in> cl_net k" for j v q
      using inv_netD(1) [OF inv, of j v q] that net unfolding req_ok_def rest(2,3) tm by blast
    show "resp_ok ids k v j r" if "VoteResp v j r \<in> cl_net k" for v j r
      using inv_netD(2) [OF inv, of v j r] that net unfolding resp_ok_def rest(2,3) tm votes by blast
    show "single_use (cl_net k)" unfolding rest(2) using inv_netD(3) [OF inv] net by (rule single_use_mono)
  qed
  moreover have "inv_count ids k"
  proof -
    have "count_ok ids k i" unfolding count_ok_def tm votes using i f C by (simp add: rest)
    moreover have "count_ok ids k j" if "j \<in> set ids" "j \<noteq> i" for j
      by (rule count_ok_transfer [OF inv_D(4) [OF inv that(1)]])
        (use that(2) votes in \<open>auto simp: rest intro: spent_mono [OF _ net]\<close>)
    ultimately show ?thesis unfolding inv_count_def by blast
  qed
  moreover have "inv_elected ids k"
  proof (rule inv_electedI)
    fix j u assume "(j, u) \<in> cl_elected k"
    then consider "(j, u) \<in> cl_elected c" | "rn_state n' = LEADER" "j = i" "u = ?t" unfolding el by blast
    then show "has_majority ids k j u"
    proof cases
      case 1
      from inv_electedD(1) [OF inv 1] show ?thesis by (rule has_majority_mono) (simp add: votes)
    next
      case 2
      with lead C(1,2) show ?thesis unfolding has_majority_def votes by blast
    qed
  next
    show "(j, rn_current_term (cl_node k j)) \<in> cl_elected k" if "j \<in> set ids" "rn_state (cl_node k j) = LEADER" for j
      using that inv_electedD(2) [OF inv that(1)] cand unfolding tm el by (auto simp: rest split: if_splits)
  qed
  ultimately have "cl_inv ids k" by (simp add: cl_inv_def)
  then show ?thesis by (simp only: k_def)
qed

text \<open>Granting a vote: the request leaves the network, the answer enters it.\<close>

lemma grant_inv:
  assumes inv: "cl_inv ids c" and empty: "[] \<notin> set ids" and req: "VoteReq i v req \<in> cl_net c"
    and e: "rn_voted_for (cl_node c v) = [] \<or> rn_voted_for (cl_node c v) = i"
      "rn_current_term (cl_node c v) = rv_term req" "vr_term r = rv_term req"
    and f: "rn_my_id n' = rn_my_id (cl_node c v)" "rn_peers n' = rn_peers (cl_node c v)"
      "rn_current_term n' = rv_term req" "rn_voted_for n' = i" "rn_state n' = rn_state (cl_node c v)"
      "rn_votes_received n' = rn_votes_received (cl_node c v)" "rn_disk n' = rn_disk (cl_node c v)" "vote_saved n'"
  shows "cl_inv ids ((observe v n' c)\<lparr> cl_net := insert (VoteResp v i r) (cl_net c - {VoteReq i v req}) \<rparr>)"
proof -
  let ?t = "rv_term req" and ?net = "insert (VoteResp v i r) (cl_net c - {VoteReq i v req})"
  define k where "k = (observe v n' c)\<lparr> cl_net := ?net \<rparr>"
  from inv_netD(1) [OF inv req] have iv: "i \<in> set ids" "v \<in> set ids" "v \<noteq> i"
    and ti: "?t \<le> rn_current_term (cl_node c i)" "i \<in> cl_starting c \<Longrightarrow> ?t < rn_current_term (cl_node c i)"
    by (auto simp: req_ok_def)
  have ne: "i \<noteq> []" using iv empty by auto
  have votes: "cl_votes k = insert (v, ?t, i) (cl_votes c)" using f ne by (simp add: k_def observe_def)
  have rest: "cl_node k = (cl_node c)(v := n')" "cl_net k = ?net" "cl_starting k = cl_starting c"
    "cl_counted k = cl_counted c" "cl_disk k = cl_disk c"
    by (simp_all add: k_def observe_def)
  have el: "cl_elected k = cl_elected c"
    using inv_electedD(2) [OF inv iv(2)] f(3,5) e(2) by (auto simp: k_def observe_def)
  have tm: "rn_current_term (cl_node k j) = rn_current_term (cl_node c j)"
    "rn_state (cl_node k j) = rn_state (cl_node c j)"
    "rn_votes_received (cl_node k j) = rn_votes_received (cl_node c j)" for j
    using f e by (simp_all add: rest)
  have old: "x = i" if "(v, ?t, x) \<in> cl_votes c" for x
    using inv_votesD(2,4) [OF inv that] e by auto
  have "inv_ids ids k"
    using inv f iv inv_D(1,2,7) [OF inv iv(2)] unfolding cl_inv_def inv_ids_def rest(3) by (simp add: rest)
  moreover have "inv_votes ids k"
  proof (rule inv_votesI)
    fix w u x assume a: "(w, u, x) \<in> cl_votes k"
    then consider "w = v" "u = ?t" "x = i" | "(w, u, x) \<in> cl_votes c" unfolding votes by blast
    then show "w \<in> set ids \<and> x \<noteq> [] \<and> u \<le> rn_current_term (cl_node k w) \<and>
      (u = rn_current_term (cl_node k w) \<longrightarrow> rn_voted_for (cl_node k w) = x)"
    proof cases
      case 1
      with iv ne e f show ?thesis by (simp add: rest)
    next
      case 2
      have "rn_voted_for (cl_node k w) = x" if "u = rn_current_term (cl_node c w)"
        using that inv_votesD(4) [OF inv 2] old [of x] 2 f(4) e(2) by (cases "w = v") (simp_all add: rest)
      with inv_votesD(1-3) [OF inv 2] show ?thesis by (simp add: tm)
    qed
  next
    show "x = y" if "(w, u, x) \<in> cl_votes k" "(w, u, y) \<in> cl_votes k" for w u x y
      using that inv_votesD(5) [OF inv, of w u x y] old unfolding votes by blast
    show "(w, rn_current_term (cl_node k w), rn_voted_for (cl_node k w)) \<in> cl_votes k"
      if "w \<in> set ids" "rn_voted_for (cl_node k w) \<noteq> []" for w
      using that inv_D(5) [OF inv that(1)] f(3,4) by (cases "w = v") (simp_all add: votes rest)
  qed
  moreover have "inv_net ids k"
  proof (rule inv_netI)
    show "req_ok ids k j w q" if "VoteReq j w q \<in> cl_net k" for j w q
      using inv_netD(1) [OF inv, of j w q] that unfolding req_ok_def rest(2,3) tm by blast
    show "resp_ok ids k w j s" if "VoteResp w j s \<in> cl_net k" for w j s
    proof (cases "VoteResp w j s \<in> cl_net c")
      case True
      from inv_netD(2) [OF inv True] show ?thesis unfolding resp_ok_def rest(3) tm votes by blast
    next
      case False
      with that have "w = v" "j = i" "s = r" unfolding rest(2) by blast+
      with iv ti e(3) show ?thesis unfolding resp_ok_def rest(3) tm votes by simp
    qed
    show "single_use (cl_net k)"
    proof (rule single_useI)
      show "q = q'" if "VoteReq j w q \<in> cl_net k" "VoteReq j w q' \<in> cl_net k" "rv_term q = rv_term q'" for j w q q'
        using that single_useD(1) [OF inv_netD(3) [OF inv], of j w q q'] unfolding rest(2) by blast
      show "rv_term q \<noteq> vr_term s" if a: "VoteReq j w q \<in> cl_net k" "VoteResp w j s \<in> cl_net k" "vr_granted s" for j w q s
      proof (cases "VoteResp w j s \<in> cl_net c")
        case True
        with a single_useD(2) [OF inv_netD(3) [OF inv], of j w q s] show ?thesis unfolding rest(2) by blast
      next
        case False
        with a(2) have "w = v" "j = i" "s = r" unfolding rest(2) by blast+
        with a(1) have "VoteReq i v q \<in> cl_net c" "q \<noteq> req" unfolding rest(2) by blast+
        with req single_useD(1) [OF inv_netD(3) [OF inv]] have "rv_term q \<noteq> rv_term req" by blast
        with \<open>s = r\<close> e(3) show ?thesis by simp
      qed
    qed
  qed
  moreover have "inv_count ids k"
  proof -
    have "spent ?net j w u" if "spent (cl_net c) j w u" for j w u
      using that req e(3) unfolding spent_def by (cases "j = i \<and> w = v") auto
    then have "count_ok ids k j" if "j \<in> set ids" for j
      by (intro count_ok_transfer [OF inv_D(4) [OF inv that]]) (auto simp: tm votes rest(2-4))
    then show ?thesis unfolding inv_count_def by blast
  qed
  moreover have "inv_elected ids k"
  proof (rule inv_electedI)
    show "has_majority ids k j u" if "(j, u) \<in> cl_elected k" for j u
      using inv_electedD(1) [OF inv that [unfolded el]] by (rule has_majority_mono) (auto simp: votes)
    show "(j, rn_current_term (cl_node k j)) \<in> cl_elected k" if "j \<in> set ids" "rn_state (cl_node k j) = LEADER" for j
      using that inv_electedD(2) [OF inv that(1)] unfolding tm el by blast
  qed
  ultimately have "cl_inv ids k" by (simp add: cl_inv_def)
  then show ?thesis by (simp only: k_def)
qed


lemma refused_inv:
  assumes inv: "cl_inv ids c" and r: "resp_ok ids c v i r" "\<not> vr_granted r"
  shows "cl_inv ids (c\<lparr> cl_net := insert (VoteResp v i r) (cl_net c - R) \<rparr>)"
proof -
  define k where "k = c\<lparr> cl_net := insert (VoteResp v i r) (cl_net c - R) \<rparr>"
  have rest: "cl_node k = cl_node c" "cl_starting k = cl_starting c" "cl_votes k = cl_votes c" "cl_elected k = cl_elected c"
    "cl_counted k = cl_counted c" "cl_net k = insert (VoteResp v i r) (cl_net c - R)" "cl_disk k = cl_disk c" by (simp_all add: k_def)
  have "inv_ids ids k" "inv_votes ids k" "inv_elected ids k"
    using inv by (simp_all add: cl_inv_def inv_ids_def inv_votes_def inv_elected_def has_majority_def rest)
  moreover have "inv_net ids k"
  proof (rule inv_netI)
    show "req_ok ids k j w q" if "VoteReq j w q \<in> cl_net k" for j w q
      using inv_netD(1) [OF inv, of j w q] that unfolding req_ok_def rest by blast
    show "resp_ok ids k w j s" if "VoteResp w j s \<in> cl_net k" for w j s
      using inv_netD(2) [OF inv, of w j s] that r(1) unfolding resp_ok_def rest by blast
    show "single_use (cl_net k)"
      using inv_netD(3) [OF inv] r(2) unfolding single_use_def rest by blast
  qed
  moreover have "inv_count ids k"
  proof -
    have "spent (cl_net k) j w u" if "spent (cl_net c) j w u" for j w u
      using that r(2) unfolding spent_def rest by blast
    then have "count_ok ids k j" if "j \<in> set ids" for j
      by (intro count_ok_transfer [OF inv_D(4) [OF inv that]]) (simp_all add: rest(1-5))
    then show ?thesis unfolding inv_count_def by blast
  qed
  ultimately have "cl_inv ids k" by (simp add: cl_inv_def)
  then show ?thesis by (simp only: k_def)
qed

subsection \<open>Every step keeps the invariants\<close>

lemma vote_request_inv:
  assumes inv: "cl_inv ids c" and empty: "[] \<notin> set ids" and req: "VoteReq i v req \<in> cl_net c"
    and run: "HandleRequestVote (rv_candidate_id req) req (cl_node c v) = Some (r, n')"
  shows "cl_inv ids ((observe v n' c)\<lparr> cl_net := insert (VoteResp v i r) (cl_net c - {VoteReq i v req}) \<rparr>)"
proof -
  from inv_netD(1) [OF inv req] have iv: "i \<in> set ids" "v \<in> set ids" "v \<noteq> i" "rv_candidate_id req = i"
    by (auto simp: req_ok_def)
  from run show ?thesis
  proof (cases rule: HandleRequestVote_cases)
    case refused
    define k where "k = observe v n' c"
    have k: "cl_inv ids k" unfolding k_def by (rule quiet_step_inv [OF inv iv(2) refused(1)])
    have "resp_ok ids k v i r" using iv refused(2) by (simp add: resp_ok_def)
    from refused_inv [OF k this refused(2), of "{VoteReq i v req}"] show ?thesis by (simp add: k_def)
  next
    case (granted e)
    define k where "k = observe v e c"
    have k: "cl_inv ids k" unfolding k_def by (rule quiet_step_inv [OF inv iv(2) granted(1)])
    have "observe v n' k = observe v n' c"
      unfolding k_def quiet_observe [OF inv iv(2) granted(1)] by (simp add: observe_def)
    with grant_inv [OF k empty, of i v req r n'] req granted iv(4) show ?thesis by (simp add: k_def)
  qed
qed

lemma vote_response_inv:
  assumes inv: "cl_inv ids c" and resp: "VoteResp v i r \<in> cl_net c"
    and run: "HandleRequestVoteResponse record_rpc v r (cl_node c i) = Some n'"
  shows "cl_inv ids ((observe i n' c)\<lparr> cl_net := cl_net c - {VoteResp v i r},
      cl_counted := (if vote_counts r (cl_node c i) then (cl_counted c)(i := insert v (cl_counted c i)) else cl_counted c) \<rparr>)"
proof (cases "vote_counts r (cl_node c i)")
  case False
  from inv_netD(2) [OF inv resp] have i: "i \<in> set ids" by (simp add: resp_ok_def)
  define k where "k = observe i n' c"
  have "cl_inv ids k"
    unfolding k_def by (rule quiet_step_inv [OF inv i HandleRequestVoteResponse_other [OF run False]])
  from shrink_inv [OF this, of "cl_net c - {VoteResp v i r}" "cl_starting c"]
  have "cl_inv ids (k\<lparr> cl_net := cl_net c - {VoteResp v i r}, cl_starting := cl_starting c \<rparr>)" by (simp add: k_def)
  moreover have "k\<lparr> cl_net := cl_net c - {VoteResp v i r}, cl_starting := cl_starting c \<rparr> =
      (observe i n' c)\<lparr> cl_net := cl_net c - {VoteResp v i r}, cl_counted := cl_counted c \<rparr>"
    by (simp add: k_def observe_def)
  ultimately show ?thesis using False by simp
next
  case True
  let ?n = "cl_node c i" and ?net = "cl_net c - {VoteResp v i r}"
  let ?t = "rn_current_term ?n"
  have vc: "rn_state ?n = CANDIDATE" "vr_term r = ?t" "vr_granted r" using True by (simp_all add: vote_counts_def)
  from inv_netD(2) [OF inv resp] vc have iv: "i \<in> set ids" "v \<in> set ids" "(v, ?t, i) \<in> cl_votes c" "i \<notin> cl_starting c"
    by (auto simp: resp_ok_def)
  have ok: "rn_votes_received ?n = card (cl_counted c i)" "cl_counted c i \<subseteq> set ids"
    "\<And>w. w \<in> cl_counted c i \<Longrightarrow> (w, ?t, i) \<in> cl_votes c" "\<And>w. w \<in> cl_counted c i \<Longrightarrow> spent (cl_net c) i w ?t"
    using inv_D(4) [OF inv iv(1)] vc(1) by (simp_all add: count_ok_def)
  have new: "v \<notin> cl_counted c i"
  proof
    assume "v \<in> cl_counted c i"
    from ok(4) [OF this] resp vc show False by (auto simp: spent_def)
  qed
  have sp: "spent ?net i v ?t"
  proof -
    have "r' = r" if "vr_granted r'" "vr_term r' = ?t" for r' using that vc by (cases r, cases r') simp
    moreover have "rv_term q \<noteq> ?t" if "VoteReq i v q \<in> cl_net c" for q
      using single_useD(2) [OF inv_netD(3) [OF inv] that resp vc(3)] vc(2) by simp
    ultimately show ?thesis unfolding spent_def by blast
  qed
  note h = HandleRequestVoteResponse_counts [OF run True]
  have fin: "finite (cl_counted c i)" using ok(2) by (rule finite_subset) simp
  have "cl_inv ids ((observe i n' c)\<lparr> cl_net := ?net, cl_counted := (cl_counted c)(i := insert v (cl_counted c i)) \<rparr>)"
  proof (rule counting_inv [OF inv iv(1,4) _ vc(1)])
    show "rn_my_id n' = i" "rn_peers n' = ids" "rn_current_term n' = ?t" "rn_voted_for n' = rn_voted_for ?n" "vote_saved n'"
      "rn_disk n' = rn_disk ?n"
      using h inv_D(1-3) [OF inv iv(1)] by simp_all
    show "rn_votes_received n' = card (insert v (cl_counted c i))" using h(5) ok(1) new fin by simp
    show "insert v (cl_counted c i) \<subseteq> set ids" using iv(2) ok(2) by simp
    show "(w, ?t, i) \<in> cl_votes c" if "w \<in> insert v (cl_counted c i)" for w using that iv(3) ok(3) by auto
    show "spent ?net i w ?t" if "w \<in> insert v (cl_counted c i)" for w
      using that sp ok(4) spent_mono [of "cl_net c" i w ?t ?net] by auto
    show "length ids div 2 + 1 \<le> card (insert v (cl_counted c i))" if "rn_state n' = LEADER"
      using that h(8) ok(1) new fin inv_D(2) [OF inv iv(1)] by (simp add: majority_def split: if_splits)
  qed auto
  with True show ?thesis by simp
qed

lemma check_inv:
  assumes inv: "cl_inv ids c" and i: "i \<in> set ids" "i \<notin> cl_starting c"
    and run: "election_check record_rpc (cl_node c i) = Some n'"
  shows "cl_inv ids (observe i n' c)"
proof -
  let ?n = "cl_node c i"
  consider "n' = ?n" | "rn_state ?n = CANDIDATE" "majority ?n \<le> rn_votes_received ?n"
      "core n' = core (?n\<lparr> rn_state := LEADER, rn_leader_id := rn_my_id ?n \<rparr>)"
    using election_check_spec [OF run] by blast
  then show ?thesis
  proof cases
    case 1
    show ?thesis by (rule quiet_step_inv [OF inv i(1)]) (simp add: 1 same_quiet)
  next
    case 2
    note cf = core_fields [OF 2(3)]
    have ok: "rn_votes_received ?n = card (cl_counted c i)" "cl_counted c i \<subseteq> set ids"
      "\<And>w. w \<in> cl_counted c i \<Longrightarrow> (w, rn_current_term ?n, i) \<in> cl_votes c"
      "\<And>w. w \<in> cl_counted c i \<Longrightarrow> spent (cl_net c) i w (rn_current_term ?n)"
      using inv_D(4) [OF inv i(1)] 2(1) by (simp_all add: count_ok_def)
    have "vote_saved n'" using inv_D(3) [OF inv i(1)] cf vote_saved_cong [of n' ?n] by simp
    then have "cl_inv ids ((observe i n' c)\<lparr> cl_net := cl_net c, cl_counted := (cl_counted c)(i := cl_counted c i) \<rparr>)"
      using ok cf 2(2) inv_D(1,2) [OF inv i(1)] by (intro counting_inv [OF inv i _ 2(1)]) (auto simp: majority_def)
    moreover have "(observe i n' c)\<lparr> cl_net := cl_net c, cl_counted := (cl_counted c)(i := cl_counted c i) \<rparr> = observe i n' c"
      by (simp add: observe_def)
    ultimately show ?thesis by (simp only:)
  qed
qed


text \<open>A restart from a file that holds the term and the vote changes nothing about elections.\<close>

lemma restart_quiet:
  assumes "vote_on_file n" and "length (rn_voted_for n) < 2 ^ 63" and "Raft_Start parse (Raft_reboot (n\<lparr> rn_snapshot_file := sf \<rparr>)) = Some n'"
  shows "quiet n n'"
proof -
  have "vote_on_file (n\<lparr> rn_snapshot_file := sf \<rparr>)" using assms(1) by (simp add: vote_on_file_def)
  from restart_keeps_vote [OF this _ assms(3)] assms(2) show ?thesis by (simp add: quiet_def vote_saved_def)
qed

lemma restart_inv:
  assumes inv: "cl_inv ids c" and i: "i \<in> set ids" and len: "\<forall>i \<in> set ids. length i < 2 ^ 63"
    and saved: "vote_on_file (cl_node c i)"
    and start: "Raft_Start parse (Raft_reboot ((cl_node c i)\<lparr> rn_snapshot_file := sf \<rparr>)) = Some n'"
  shows "cl_inv ids ((observe i n' c)\<lparr> cl_starting := cl_starting c - {i}, cl_lost := b \<rparr>)"
proof -
  have "rn_voted_for (cl_node c i) = [] \<or> rn_voted_for (cl_node c i) \<in> set ids" using inv_D(6) [OF inv i] by blast
  with len have "length (rn_voted_for (cl_node c i)) < 2 ^ 63" by auto
  from quiet_step_inv [OF inv i restart_quiet [OF saved this start]]
  have "cl_inv ids ((observe i n' c)\<lparr> cl_net := cl_net c, cl_starting := cl_starting c - {i} \<rparr>)"
    using shrink_inv [of ids "observe i n' c" "cl_net c" "cl_starting c - {i}"] by auto
  then show ?thesis
    by (simp add: cl_inv_def inv_ids_def inv_votes_def inv_net_def req_ok_def resp_ok_def inv_count_def count_ok_def
        inv_elected_def has_majority_def)
qed

lemma cstep_inv:
  assumes "cstep ids c c'" and inv: "cl_inv ids c" and empty: "[] \<notin> set ids" and len: "\<forall>i \<in> set ids. length i < 2 ^ 63"
    and kept: "\<not> cl_lost c'"
  shows "cl_inv ids c'"
  using assms(1)
proof (cases rule: cstep.cases)
  case (timeout i)
  with timeout_inv [OF inv] empty show ?thesis by auto
next
  case (start i req)
  with start_inv [OF inv] show ?thesis by simp
next
  case (check i n')
  with check_inv [OF inv] show ?thesis by simp
next
  case (vote_request i v req r n')
  with vote_request_inv [OF inv empty] show ?thesis by simp
next
  case (vote_response v i r n')
  with vote_response_inv [OF inv] show ?thesis by simp
next
  case (append i sender areq ar n')
  with quiet_step_inv [OF inv] HandleAppendEntries_quiet show ?thesis by blast
next
  case (append_response i sender aresp n')
  with quiet_step_inv [OF inv] HandleAppendEntriesResponse_quiet show ?thesis by blast
next
  case (install i ser ok sender sreq sr n')
  with quiet_step_inv [OF inv] HandleInstallSnapshot_quiet show ?thesis by blast
next
  case (propose i cmd ws res n')
  with quiet_step_inv [OF inv] same_quiet [OF Propose_same] show ?thesis by blast
next
  case (heartbeat i n')
  with quiet_step_inv [OF inv] same_quiet [OF SendHeartbeats_same] show ?thesis by blast
next
  case (snapshot i ser ok cb b n')
  with quiet_step_inv [OF inv] same_quiet [OF TakeSnapshot_same] show ?thesis by blast
next
  case (drop msg)
  with shrink_inv [OF inv, of "cl_net c - {msg}" "cl_starting c"] show ?thesis by simp
next
  case (restart i parse sf n')
  with kept have "vote_on_file (cl_node c i)" by simp
  from restart_inv [OF inv restart(2) len this restart(3)] show ?thesis by (simp only: restart(1))
qed

lemma cstep_lost: "cstep ids c c' \<Longrightarrow> cl_disk c' = cl_disk c \<and> (cl_lost c \<longrightarrow> cl_lost c')"
  by (auto elim!: cstep.cases)

lemma creach_disk: "creach disk ids c \<Longrightarrow> cl_disk c = disk"
  by (induction rule: creach.induct) (simp_all add: cl_init_def cstep_lost)

lemma creach_inv:
  assumes "creach disk ids c" and "distinct ids" and "[] \<notin> set ids" and "\<forall>i \<in> set ids. length i < 2 ^ 63" and "\<not> cl_lost c"
  shows "cl_inv ids c"
  using assms(1,5)
proof induction
  case init
  from assms(2) show ?case by (rule cl_inv_init)
next
  case (step c c')
  with cstep_lost have "cl_inv ids c" by blast
  from cstep_inv [OF step(2) this assms(3,4) step.prems] show ?case .
qed

text \<open>Complete writes lose nothing: on disks without failures every restart finds the term and the vote.\<close>

lemma healthy_never_lost:
  assumes "creach disk ids c" and ids: "distinct ids" "[] \<notin> set ids" "\<forall>i \<in> set ids. length i < 2 ^ 63"
    and ok: "\<forall>i \<in> set ids. \<forall>k. disk i k = Written"
  shows "\<not> cl_lost c"
  using assms(1)
proof induction
  case init
  show ?case by (simp add: cl_init_def)
next
  case (step c c')
  note inv = creach_inv [OF step(1) ids step.IH]
  have "vote_on_file (cl_node c i)" if "i \<in> set ids" for i
    using inv_D(3,7) [OF inv that] creach_disk [OF step(1)] ok that by (simp add: vote_saved_def healthy_def)
  with step(2) step.IH show ?case by (auto elim!: cstep.cases)
qed

text \<open>
  C1: election safety.  In every reachable state of the cluster, under any schedule of election
  timeouts, vote requests and answers (reordered, lost, delayed), arbitrary append and snapshot
  traffic, failing or cut writes of the state files, crashes and restarts, while no 64-bit term wraps
  around, two nodes that are leader in the same term are the same node, unless some node has restarted from a state file that did not
  hold its term and its vote (\<open>cl_lost\<close>).  When every write of a state file is complete this never
  happens, and there is at most one leader per term without further condition.
\<close>

theorem election_safety:
  assumes "distinct ids" and "[] \<notin> set ids" and "\<forall>i \<in> set ids. length i < 2 ^ 63" and "creach disk ids c"
    and "i \<in> set ids" and "j \<in> set ids" and "rn_state (cl_node c i) = LEADER" and "rn_state (cl_node c j) = LEADER"
    and "rn_current_term (cl_node c i) = rn_current_term (cl_node c j)"
  shows "(\<not> cl_lost c \<longrightarrow> i = j) \<and> ((\<forall>m \<in> set ids. \<forall>k. disk m k = Written) \<longrightarrow> \<not> cl_lost c \<and> i = j)"
proof -
  have one: "i = j" if "\<not> cl_lost c"
  proof -
    have inv: "cl_inv ids c" by (rule creach_inv [OF assms(4,1-3) that])
    from inv_electedD(2) [OF inv assms(5,7)] inv_electedD(2) [OF inv assms(6,8)] assms(9)
    show ?thesis by (auto intro: one_leader_per_term [OF inv])
  qed
  with healthy_never_lost [OF assms(4,1-3)] show ?thesis by blast
qed

text \<open>A whole election won with one vote besides the candidate's own.\<close>

lemma election_run:
  assumes reach: "creach disk ids c" and i: "i \<in> set ids" "i \<notin> cl_starting c" and v: "v \<in> set ids" "v \<noteq> i"
    and small: "length ids = 3" and n: "rn_my_id (cl_node c i) = i" "rn_peers (cl_node c i) = ids"
      "rn_state (cl_node c i) = FOLLOWER" "rn_current_term (cl_node c i) = t" "t \<noteq> - 1"
    and q: "vote_request_of (BecomeCandidate (cl_node c i)) = Some q" "HandleRequestVote i q (cl_node c v) = Some (w, n3)"
      "vr_granted w" "vr_term w = t + 1"
  obtains c' where "creach disk ids c'" "rn_state (cl_node c' i) = LEADER" "rn_current_term (cl_node c' i) = t + 1"
    "cl_node c' v = n3" "cl_starting c' = cl_starting c" "\<And>j. j \<noteq> i \<Longrightarrow> j \<noteq> v \<Longrightarrow> cl_node c' j = cl_node c j"
proof -
  define n1 where "n1 = BecomeCandidate (cl_node c i)"
  have n1: "rn_current_term n1 = t + 1" "rn_state n1 = CANDIDATE" "rn_votes_received n1 = 1" "rn_peers n1 = ids" "rn_my_id n1 = i"
    using n by (simp_all add: n1_def BecomeCandidate_def)
  have qi: "rv_candidate_id q = i" using q(1) n1(5) by (auto simp: n1_def vote_request_of_def bind_eq_Some_conv)
  define c1 where "c1 = (observe i n1 c)\<lparr> cl_starting := insert i (cl_starting c), cl_counted := (cl_counted c)(i := {i}) \<rparr>"
  have "cstep ids c c1" unfolding c1_def n1_def by (rule cstep.timeout) (use i n in auto)
  with reach have r1: "creach disk ids c1" by (rule creach.step)
  have c1n: "cl_node c1 i = n1" by (simp add: c1_def)
  define c2 where "c2 = c1\<lparr> cl_net := cl_net c1 \<union> (\<lambda>p. VoteReq i p q) ` {p \<in> set (rn_peers (cl_node c1 i)). p \<noteq> i},
      cl_starting := cl_starting c1 - {i} \<rparr>"
  have "cstep ids c1 c2" unfolding c2_def by (rule cstep.start) (use q(1) in \<open>simp_all add: c1_def n1_def\<close>)
  with r1 have r2: "creach disk ids c2" by (rule creach.step)
  have c2n: "cl_node c2 i = n1" "\<And>j. j \<noteq> i \<Longrightarrow> cl_node c2 j = cl_node c j" "VoteReq i v q \<in> cl_net c2"
    "cl_starting c2 = cl_starting c"
    using v n1(4) i(2) by (auto simp: c2_def c1_def)
  define c3 where "c3 = (observe v n3 c2)\<lparr> cl_net := insert (VoteResp v i w) (cl_net c2 - {VoteReq i v q}) \<rparr>"
  have "cstep ids c2 c3" unfolding c3_def by (rule cstep.vote_request) (use q(2) v(2) in \<open>simp_all add: c2n qi\<close>)
  with r2 have r3: "creach disk ids c3" by (rule creach.step)
  have c3n: "cl_node c3 i = n1" "cl_node c3 v = n3" "\<And>j. j \<noteq> i \<Longrightarrow> j \<noteq> v \<Longrightarrow> cl_node c3 j = cl_node c j"
    "VoteResp v i w \<in> cl_net c3" "cl_starting c3 = cl_starting c"
    using v(2) by (simp_all add: c3_def c2n)
  have vc: "vote_counts w n1" using q n1 by (simp add: vote_counts_def)
  have "log_back n1 \<noteq> None" using q(1) by (auto simp: n1_def vote_request_of_def bind_eq_Some_conv)
  then obtain n4 where n4: "HandleRequestVoteResponse record_rpc v w n1 = Some n4"
    using SendHeartbeats_core n1 q(3,4) small
    by (auto simp: HandleRequestVoteResponse_def majority_def BecomeLeader_def log_back_def Let_def split: if_splits)
  note h = HandleRequestVoteResponse_counts [OF n4 vc]
  define c4 where "c4 = (observe i n4 c3)\<lparr> cl_net := cl_net c3 - {VoteResp v i w},
      cl_counted := (if vote_counts w (cl_node c3 i) then (cl_counted c3)(i := insert v (cl_counted c3 i)) else cl_counted c3) \<rparr>"
  have "cstep ids c3 c4" unfolding c4_def by (rule cstep.vote_response) (use n4 in \<open>simp_all add: c3n\<close>)
  with r3 have "creach disk ids c4" by (rule creach.step)
  moreover have "rn_state (cl_node c4 i) = LEADER" "rn_current_term (cl_node c4 i) = t + 1"
    using h n1 small by (simp_all add: c4_def majority_def)
  ultimately show thesis using v(2) by (intro that [of c4]) (simp_all add: c4_def c3n)
qed

text \<open>A fresh node of a three-node cluster, and its vote for another one in term 1.\<close>

abbreviation abc :: "str list" where
  "abc \<equiv> [[97], [98], [99]]"

lemma fresh_candidate:
  assumes "n = with_disk d 0 (RaftNode_new i abc None None)"
  shows "rn_my_id n = i" "rn_peers n = abc" "rn_state n = FOLLOWER" "rn_current_term n = 0"
    "vote_request_of (BecomeCandidate n) = Some \<lparr> rv_term = 1, rv_candidate_id = i, rv_last_log_index = 0, rv_last_log_term = 0 \<rparr>"
  by (simp_all add: assms with_disk_def RaftNode_new_def BecomeCandidate_def vote_request_of_def log_back_def dummy_entry_def)

text \<open>A node that does not remember a vote in term 1 votes for whoever asks.\<close>

lemma forgetful_vote:
  assumes "rn_current_term n = 0 \<or> rn_current_term n = 1 \<and> rn_voted_for n = []" and "rn_log n = [dummy_entry]"
  shows "\<exists>w n3. HandleRequestVote i \<lparr> rv_term = 1, rv_candidate_id = i, rv_last_log_index = 0, rv_last_log_term = 0 \<rparr> n
      = Some (w, n3) \<and> vr_granted w \<and> vr_term w = 1"
  using assms
  by (auto simp: HandleRequestVote_def rv_enter_def can_vote_def log_back_def dummy_entry_def Let_def not_less)

theorem election_safety_witness:
  "\<exists>c. creach (\<lambda>_ _. Written) abc c \<and> rn_state (cl_node c [97]) = LEADER \<and> rn_current_term (cl_node c [97]) = 1 \<and>
     (\<forall>j \<in> set abc. rn_state (cl_node c j) = LEADER \<and> rn_current_term (cl_node c j) = 1 \<longrightarrow> [97] = j)"
proof -
  define c where "c = cl_init (\<lambda>_ _. Written) abc"
  have node: "cl_node c j = with_disk (\<lambda>_. Written) 0 (RaftNode_new j abc None None)" for j by (simp add: c_def cl_init_def)
  note f = fresh_candidate [OF node [of "[97]"]]
  obtain w n3 where h: "HandleRequestVote [97] \<lparr> rv_term = 1, rv_candidate_id = [97], rv_last_log_index = 0, rv_last_log_term = 0 \<rparr>
      (cl_node c [98]) = Some (w, n3)" "vr_granted w" "vr_term w = 1"
    using forgetful_vote [of "cl_node c [98]" "[97]"] by (auto simp: node with_disk_def RaftNode_new_def)
  have "creach (\<lambda>_ _. Written) abc c" unfolding c_def by (rule creach.init)
  then obtain c' where c': "creach (\<lambda>_ _. Written) abc c'" "rn_state (cl_node c' [97]) = LEADER" "rn_current_term (cl_node c' [97]) = 1"
    by (rule election_run [OF _ _ _ _ _ _ f(1-4) _ f(5) h(1,2)]) (use h(3) in \<open>simp_all add: c_def cl_init_def\<close>)
  have "\<forall>j \<in> set abc. rn_state (cl_node c' j) = LEADER \<and> rn_current_term (cl_node c' j) = 1 \<longrightarrow> [97] = j"
    using election_safety [OF _ _ _ c'(1), of "[97]"] c'(2,3) by simp
  with c' show ?thesis by blast
qed

text \<open>
  One write that fails to open the file is enough for two leaders: the vote of \<open>b\<close> for \<open>a\<close> in term 1 is
  granted although it could not be saved, \<open>b\<close> restarts with the file of its first write, which holds
  term 1 without a vote, and then votes for \<open>c\<close> in the same term.
\<close>

theorem one_lost_write_elects_two_leaders:
  "\<exists>c. creach (\<lambda>i k. if i = [98] \<and> k = 1 then Open_failed else Written) abc c \<and>
     rn_state (cl_node c [97]) = LEADER \<and> rn_state (cl_node c [99]) = LEADER \<and>
     rn_current_term (cl_node c [97]) = rn_current_term (cl_node c [99])"
proof -
  define disk :: "str \<Rightarrow> nat \<Rightarrow> write_result" where "disk = (\<lambda>i k. if i = [98] \<and> k = 1 then Open_failed else Written)"
  define c where "c = cl_init disk abc"
  have node: "cl_node c j = with_disk (disk j) 0 (RaftNode_new j abc None None)" for j by (simp add: c_def cl_init_def)
  have r0: "creach disk abc c" and s0: "cl_starting c = {}" by (simp_all add: c_def creach.init, simp add: cl_init_def)
  note f = fresh_candidate [OF node [of "[97]"]]
  define w where "w = \<lparr> vr_term = 1, vr_granted = True \<rparr>"
  obtain n3 where h: "HandleRequestVote [97] \<lparr> rv_term = 1, rv_candidate_id = [97], rv_last_log_index = 0, rv_last_log_term = 0 \<rparr>
      (cl_node c [98]) = Some (w, n3)" "vr_granted w" "vr_term w = 1" "rn_state_file n3 = Some (vote_bytes 1 [] @ EncodeFixed64 0)"
      "rn_my_id n3 = [98]" "rn_peers n3 = abc"
    by (simp add: node with_disk_def RaftNode_new_def HandleRequestVote_def rv_enter_def can_vote_def log_back_def
        dummy_entry_def Let_def PersistState_file state_bytes_def vote_bytes_def disk_def w_def)
  obtain c1 where c1: "creach disk abc c1" "rn_state (cl_node c1 [97]) = LEADER" "rn_current_term (cl_node c1 [97]) = 1"
      "cl_node c1 [98] = n3" "cl_starting c1 = {}" "cl_node c1 [99] = cl_node c [99]"
    by (rule election_run [OF r0 _ _ _ _ _ f(1-4) _ f(5) h(1,2)]) (use h(3) s0 in simp_all)
  define b0 where "b0 = Raft_reboot (n3\<lparr> rn_snapshot_file := None \<rparr>)"
  define b where "b = BecomeFollower 1 (b0\<lparr> rn_current_term := 1, rn_voted_for := [], rn_log := [dummy_entry],
      rn_commit_index := 0, rn_last_applied := 0 \<rparr>)"
  have "RestoreState b0 = Some (b0\<lparr> rn_current_term := 1, rn_voted_for := [], rn_log := [dummy_entry],
      rn_commit_index := 0, rn_last_applied := 0 \<rparr>)"
    by (simp add: b0_def RestoreState_def h(4) vote_bytes_def codec_simps read_u64_enc [where r = "[]", simplified]
        dummy_entry_def Let_def)
  then have start: "Raft_Start (\<lambda>_. None) b0 = Some b"
    by (simp add: Raft_Start_def RestoreFromSnapshot_def b_def b0_def)
  have b: "rn_current_term b = 1" "rn_voted_for b = []" "rn_log b = [dummy_entry]"
    by (simp_all add: b_def BecomeFollower_def)
  define c2 where "c2 = (observe [98] b c1)\<lparr> cl_starting := cl_starting c1 - {[98]},
      cl_lost := (cl_lost c1 \<or> \<not> vote_on_file (cl_node c1 [98])) \<rparr>"
  have "cstep abc c1 c2" unfolding c2_def by (rule cstep.restart) (use start in \<open>simp_all add: c1(4) b0_def\<close>)
  with c1(1) have r2: "creach disk abc c2" by (rule creach.step)
  have c2: "cl_node c2 [99] = with_disk (disk [99]) 0 (RaftNode_new [99] abc None None)" "cl_node c2 [98] = b"
    "cl_node c2 [97] = cl_node c1 [97]" "cl_starting c2 = {}"
    using c1 node by (simp_all add: c2_def)
  note g = fresh_candidate [OF c2(1)]
  obtain u n5 where v: "HandleRequestVote [99] \<lparr> rv_term = 1, rv_candidate_id = [99], rv_last_log_index = 0, rv_last_log_term = 0 \<rparr>
      (cl_node c2 [98]) = Some (u, n5)" "vr_granted u" "vr_term u = 1"
    using forgetful_vote [of b "[99]"] b c2(2) by auto
  obtain c3 where "creach disk abc c3" "rn_state (cl_node c3 [99]) = LEADER" "rn_current_term (cl_node c3 [99]) = 1"
      "cl_node c3 [97] = cl_node c2 [97]"
    by (rule election_run [OF r2 _ _ _ _ _ g(1-4) _ g(5) v(1,2)]) (use v(3) c2(4) in simp_all)
  with c1(2,3) c2(3) show ?thesis by (auto simp: disk_def)
qed

end
