(* ===== verification/RaftProps.thy ===== *)
theory RaftProps
  imports RaftNode
begin

text \<open>
  What one Raft node guarantees: which votes it grants, how the commit index and the applied commands
  advance, the order of the log, what survives a restart; and two cases in which the code acknowledges
  or reports as committed something it has not stored or replicated.
\<close>

subsection \<open>Terms and votes\<close>

lemma PersistState_file_outcome:
  "rn_state_file (PersistState n) = (case rn_disk n (rn_writes n) of Written \<Rightarrow> Some (state_bytes n)
     | Open_failed \<Rightarrow> rn_state_file n | Cut k \<Rightarrow> Some (take k (state_bytes n)))"
  by (simp add: PersistState_file split: write_result.split)

definition up_to_date :: "vote_request \<Rightarrow> log_entry \<Rightarrow> bool" where
  "up_to_date req b \<longleftrightarrow> le_term b < rv_last_log_term req \<or>
     (rv_last_log_term req = le_term b \<and> le_index b \<le> rv_last_log_index req)"

text \<open>
  C4: the vote handler answers every request; it grants the vote exactly when the request's term is not
  old, the candidate's log is at least as up to date, and the node has not voted for somebody else in
  that term.  The answer carries the later of the two terms, which is then the node's term.  Whether
  the vote can be saved plays no part in it: a complete write leaves exactly the node's term, vote and
  log in the state file before the answer is sent, but the vote is granted all the same when the file
  could not be opened (and still holds what it held when the term was taken over) and when the write
  was cut.
\<close>

theorem vote_granted_iff:
  assumes "log_back n = Some b"
  shows "\<exists>r n'. HandleRequestVote sender req n = Some (r, n') \<and>
     (vr_granted r \<longleftrightarrow> rn_current_term n \<le> rv_term req \<and> up_to_date req b \<and>
        (rn_current_term n < rv_term req \<or> rn_voted_for n = [] \<or> rn_voted_for n = rv_candidate_id req)) \<and>
     vr_term r = max (rn_current_term n) (rv_term req) \<and> rn_current_term n' = vr_term r \<and>
     (vr_granted r \<longrightarrow> rn_voted_for n' = rv_candidate_id req \<and>
        rn_state_file n' = (case rn_disk n (rn_writes (rv_enter req n)) of
            Written \<Rightarrow> Some (state_bytes n')
          | Open_failed \<Rightarrow> rn_state_file (rv_enter req n)
          | Cut k \<Rightarrow> Some (take k (state_bytes n'))))"
proof -
  consider "rv_term req < rn_current_term n" | "rn_current_term n = rv_term req" | "rn_current_term n < rv_term req"
    by (meson linorder_neqE)
  then show ?thesis
  proof cases
    case 1
    then show ?thesis by (auto simp: HandleRequestVote_def Let_def max_def)
  next
    case 2
    then show ?thesis using assms
      by (auto simp: HandleRequestVote_def Let_def max_def rv_enter_def can_vote_def up_to_date_def log_back_def
          PersistState_file_outcome state_bytes_def split: if_splits write_result.split)
  next
    case 3
    then show ?thesis using assms
      by (auto simp: HandleRequestVote_def Let_def max_def rv_enter_def can_vote_def up_to_date_def log_back_def
          PersistState_file_outcome state_bytes_def split: if_splits write_result.split)
  qed
qed

theorem vote_granted_iff_witness:
  "\<exists>r n'. HandleRequestVote [98] \<lparr> rv_term = 3, rv_candidate_id = [98], rv_last_log_index = 0, rv_last_log_term = 0 \<rparr>
      (RaftNode_new [97] [[97], [98]] None None) = Some (r, n') \<and> vr_granted r \<and> vr_term r = 3 \<and>
     rn_voted_for n' = [98] \<and> rn_state_file n' = Some (state_bytes n')"
proof -
  have "log_back (RaftNode_new [97] [[97], [98]] None None) = Some dummy_entry"
    by (simp add: log_back_def RaftNode_new_def)
  from vote_granted_iff [OF this, of "[98]" "\<lparr> rv_term = 3, rv_candidate_id = [98], rv_last_log_index = 0, rv_last_log_term = 0 \<rparr>"]
  show ?thesis by (simp add: RaftNode_new_def up_to_date_def dummy_entry_def) blast
qed

lemma quiet_term: "quiet n n' \<Longrightarrow> rn_current_term n \<le> rn_current_term n'"
  by (auto simp: quiet_def)

lemma HandleRequestVote_term:
  assumes "HandleRequestVote sender req n = Some (r, n')"
  shows "rn_current_term n \<le> rn_current_term n'"
  using assms
proof (cases rule: HandleRequestVote_cases)
  case (granted e)
  then show ?thesis by simp
qed (rule quiet_term)

lemma HandleRequestVoteResponse_term:
  assumes "HandleRequestVoteResponse record_rpc sender resp n = Some n'"
  shows "rn_current_term n \<le> rn_current_term n'"
  using HandleRequestVoteResponse_counts(3) [OF assms] quiet_term [OF HandleRequestVoteResponse_other [OF assms]]
  by (cases "vote_counts resp n") simp_all

text \<open>
  No message makes a node go back to an earlier term.
\<close>

theorem terms_never_decrease:
  assumes "Raft_OnMessage ser can_open record_rpc msg n = Some (reply, n')"
  shows "rn_current_term n \<le> rn_current_term n'"
  using assms unfolding Raft_OnMessage_def
  by (cases msg)
    (auto simp: bind_eq_Some_conv dest: HandleRequestVote_term HandleRequestVoteResponse_term
      quiet_term [OF HandleAppendEntries_quiet] quiet_term [OF HandleInstallSnapshot_quiet]
      quiet_term [OF HandleAppendEntriesResponse_quiet])

theorem terms_never_decrease_witness:
  "\<exists>n'. Raft_OnMessage (\<lambda>_. []) True record_rpc (REQUEST_VOTE_RESPONSE \<lparr> vr_term = 7, vr_granted = False \<rparr>)
      (RaftNode_new [97] [[97]] None None) = Some (None, n') \<and> rn_current_term n' = 7 \<and> (0 :: u64) \<le> 7"
proof -
  obtain n' where n': "Raft_OnMessage (\<lambda>_. []) True record_rpc (REQUEST_VOTE_RESPONSE \<lparr> vr_term = 7, vr_granted = False \<rparr>)
      (RaftNode_new [97] [[97]] None None) = Some (None, n')" "rn_current_term n' = 7"
    by (simp add: Raft_OnMessage_def HandleRequestVoteResponse_def RaftNode_new_def)
  with terms_never_decrease [OF n'(1)] show ?thesis by (simp add: RaftNode_new_def)
qed

subsection \<open>Applying committed commands\<close>

definition applied_events :: "raft_node \<Rightarrow> u64 \<Rightarrow> raft_event list" where
  "applied_events n i =
     (case GetLogEntry i n of None \<Rightarrow> []
      | Some e \<Rightarrow> if le_command e \<noteq> [] \<and> rn_apply_cb n then [Applied i (le_command e)] else [])"

lemma apply_one_events: "rn_events (apply_one n) = rn_events n @ applied_events n (rn_last_applied n + 1)"
  by (simp add: apply_one_def applied_events_def Let_def GetLogEntry_def split: option.split)

lemma applied_events_apply_one [simp]: "applied_events (apply_one n) i = applied_events n i"
  unfolding applied_events_def GetLogEntry_def core_fields(5,13) [OF core_apply_one [of n]] by (rule refl)

text \<open>
  C3: applying up to an index gives the state machine the commands of the log between the last applied
  index and that index, each exactly once and in index order (empty commands and missing entries are
  skipped), and leaves that index as the last applied one.
\<close>

theorem apply_committed_in_order:
  assumes "rn_last_applied n \<le> up"
  shows "rn_last_applied (ApplyCommitted up n) = up \<and>
     rn_events (ApplyCommitted up n) = rn_events n @
       concat (map (\<lambda>k. applied_events n (word_of_nat k)) [Suc (unat (rn_last_applied n)) ..< Suc (unat up)])"
  using assms
proof (induction up n rule: ApplyCommitted.induct)
  case (1 up n)
  show ?case
  proof (cases "rn_last_applied n < up")
    case True
    have u: "unat (rn_last_applied n + 1) = Suc (unat (rn_last_applied n))" using True by (rule u64_inc)
    have lt: "unat (rn_last_applied n) < unat up" using True by (simp add: word_less_nat_alt)
    with u have le: "rn_last_applied (apply_one n) \<le> up" by (simp add: word_le_nat_alt)
    have run: "ApplyCommitted up n = ApplyCommitted up (apply_one n)"
      using True by (subst ApplyCommitted.simps) simp
    have split: "[Suc (unat (rn_last_applied n)) ..< Suc (unat up)] =
        Suc (unat (rn_last_applied n)) # [Suc (unat (rn_last_applied n + 1)) ..< Suc (unat up)]"
      unfolding u by (rule upt_conv_Cons) (use lt in simp)
    have w: "word_of_nat (Suc (unat (rn_last_applied n))) = rn_last_applied n + 1" by (simp add: add.commute)
    show ?thesis unfolding run split using "1.IH" [OF True le] by (simp add: apply_one_events w add.commute)
  next
    case False
    with "1.prems" have "rn_last_applied n = up" by simp
    then show ?thesis by (simp add: ApplyCommitted.simps)
  qed
qed

theorem apply_committed_in_order_witness:
  "rn_events (ApplyCommitted 2 ((RaftNode_new [97] [[97]] None None)\<lparr> rn_log :=
      [dummy_entry, \<lparr> le_term = 1, le_index = 1, le_command = [65] \<rparr>, \<lparr> le_term = 1, le_index = 2, le_command = [66] \<rparr>] \<rparr>)) =
    [Applied 1 [65], Applied 2 [66]]"
proof -
  let ?n = "(RaftNode_new [97] [[97]] None None)\<lparr> rn_log :=
      [dummy_entry, \<lparr> le_term = 1, le_index = 1, le_command = [65] \<rparr>, \<lparr> le_term = 1, le_index = 2, le_command = [66] \<rparr>] \<rparr>"
  have "rn_last_applied ?n \<le> 2" by (simp add: RaftNode_new_def)
  from apply_committed_in_order [OF this] show ?thesis
    by (simp add: RaftNode_new_def applied_events_def GetLogEntry_def dummy_entry_def upt_conv_Cons)
qed

subsection \<open>The commit rule\<close>

definition committable :: "raft_node \<Rightarrow> u64 \<Rightarrow> bool" where
  "committable n i \<longleftrightarrow> (\<exists>e. GetLogEntry i n = Some e \<and> le_term e = rn_current_term n) \<and> majority n \<le> replica_count i n"

lemma u64_le_dec: "(c :: u64) < i \<Longrightarrow> j \<le> i \<Longrightarrow> j \<noteq> i \<Longrightarrow> j \<le> i - 1"
proof -
  assume a: "c < i" "j \<le> i" "j \<noteq> i"
  then have "i \<noteq> 0" by auto
  then have "unat (i - 1) = unat i - 1" by (simp add: unat_minus_one)
  moreover have "unat j < unat i" using a by (auto simp: word_less_nat_alt [symmetric])
  ultimately show ?thesis by (simp add: word_le_nat_alt)
qed

lemma advance_loop_spec:
  "(rn_commit_index (advance_loop idx n) = rn_commit_index n \<and> advance_loop idx n = n \<and>
      (\<forall>i. rn_commit_index n < i \<and> i \<le> idx \<longrightarrow> \<not> committable n i)) \<or>
   (\<exists>c. rn_commit_index n < c \<and> c \<le> idx \<and> committable n c \<and>
      (\<forall>i. c < i \<and> i \<le> idx \<longrightarrow> \<not> committable n i) \<and>
      advance_loop idx n = ApplyCommitted c (n\<lparr> rn_commit_index := c \<rparr>))"
proof (induction idx n rule: advance_loop.induct)
  case (1 idx n)
  show ?case
  proof (cases "rn_commit_index n < idx")
    case False
    then have "\<not> (rn_commit_index n < i \<and> i \<le> idx)" for i by (meson order.strict_trans2)
    moreover have "advance_loop idx n = n" using False by (subst advance_loop.simps) simp
    ultimately show ?thesis by (intro disjI1) auto
  next
    case lt: True
    show ?thesis
    proof (cases "committable n idx")
      case True
      then have "advance_loop idx n = ApplyCommitted idx (n\<lparr> rn_commit_index := idx \<rparr>)"
        using lt by (subst advance_loop.simps) (auto simp: committable_def)
      with lt True show ?thesis by (intro disjI2 exI [of _ idx]) auto
    next
      case False
      have run: "advance_loop idx n = advance_loop (idx - 1) n"
        using lt False by (subst advance_loop.simps) (auto simp: committable_def split: option.split)
      have ih: "(rn_commit_index (advance_loop (idx - 1) n) = rn_commit_index n \<and> advance_loop (idx - 1) n = n \<and>
          (\<forall>i. rn_commit_index n < i \<and> i \<le> idx - 1 \<longrightarrow> \<not> committable n i)) \<or>
         (\<exists>c. rn_commit_index n < c \<and> c \<le> idx - 1 \<and> committable n c \<and>
          (\<forall>i. c < i \<and> i \<le> idx - 1 \<longrightarrow> \<not> committable n i) \<and>
          advance_loop (idx - 1) n = ApplyCommitted c (n\<lparr> rn_commit_index := c \<rparr>))"
        using lt False "1.IH" by (cases "GetLogEntry idx n") (auto simp: committable_def)
      have down: "i \<le> idx - 1" if "i \<le> idx" "committable n i" for i
        using u64_le_dec [OF lt that(1)] that(2) False by blast
      have up: "i \<le> idx" if "i \<le> idx - 1" for i
        using that u64_dec [OF lt] by (simp add: word_le_nat_alt)
      from ih show ?thesis unfolding run using down up by blast
    qed
  qed
qed

text \<open>
  C2: the leader's commit rule.  The commit index either stays (and nothing else changes), because no
  later entry of the current term is on a majority, or moves to the greatest index whose entry is of
  the current term and stored on a majority; the commands up to it are then applied.
\<close>

theorem commit_rule:
  assumes "AdvanceCommitIndex n = Some n'" and "log_back n = Some b"
  shows "(n' = n \<and> (\<forall>i. rn_commit_index n < i \<and> i \<le> le_index b \<longrightarrow> \<not> committable n i)) \<or>
     (rn_commit_index n < rn_commit_index n' \<and> rn_commit_index n' \<le> le_index b \<and>
      committable n (rn_commit_index n') \<and>
      (\<forall>i. rn_commit_index n' < i \<and> i \<le> le_index b \<longrightarrow> \<not> committable n i) \<and>
      n' = ApplyCommitted (rn_commit_index n') (n\<lparr> rn_commit_index := rn_commit_index n' \<rparr>))"
proof -
  have "n' = advance_loop (le_index b) n" using assms by (simp add: AdvanceCommitIndex_def)
  with advance_loop_spec [of "le_index b" n] show ?thesis by auto
qed

theorem commit_rule_witness:
  "\<exists>n n'. AdvanceCommitIndex n = Some n' \<and> rn_commit_index n = 0 \<and> rn_commit_index n' = 1"
proof -
  let ?n = "(RaftNode_new [97] [[97]] None None)\<lparr> rn_current_term := 1, rn_log :=
      [dummy_entry, \<lparr> le_term = 1, le_index = 1, le_command = [65] \<rparr>] \<rparr>"
  have b: "log_back ?n = Some \<lparr> le_term = 1, le_index = 1, le_command = [65] \<rparr>" by (simp add: log_back_def)
  then obtain n' where n': "AdvanceCommitIndex ?n = Some n'" by (simp add: AdvanceCommitIndex_def)
  have c: "committable ?n 1"
    by (simp add: committable_def GetLogEntry_def RaftNode_new_def dummy_entry_def majority_def replica_count_def)
  have "rn_commit_index n' = 1"
    using commit_rule [OF n' b] c by (auto simp: RaftNode_new_def word_le_less_eq dest: spec [of _ 1])
  with n' show ?thesis by (intro exI [of _ ?n] exI [of _ n']) (simp add: RaftNode_new_def)
qed

subsection \<open>The log stays ordered\<close>

lemma log_wf_prefix: "log_wf l \<Longrightarrow> l = l' @ r \<Longrightarrow> l' \<noteq> [] \<Longrightarrow> log_wf l'"
  by (auto simp: log_wf_def sorted_wrt_append)

lemma pop_while_prefix: "pop_while idx l = Some l' \<Longrightarrow> l' \<noteq> [] \<and> (\<exists>r. l = l' @ r)"
proof (induction idx l rule: pop_while.induct)
  case (1 idx l)
  show ?case
  proof (cases "l \<noteq> [] \<and> idx \<le> le_index (last l)")
    case True
    then have "pop_while idx (butlast l) = Some l'" using "1.prems" by (simp add: pop_while.simps [of idx l])
    with "1.IH" True obtain r where "l' \<noteq> []" "butlast l = l' @ r" by blast
    moreover from this True have "l = l' @ (r @ [last l])" by (metis append.assoc append_butlast_last_id)
    ultimately show ?thesis by blast
  next
    case False
    with "1.prems" show ?thesis by (auto simp: pop_while.simps [of idx l] split: if_splits)
  qed
qed

lemma truncate_from_prefix:
  assumes "truncate_from idx t l = Some l'"
  shows "l' \<noteq> [] \<and> (\<exists>r. l = l' @ r)"
proof (rule truncate_from.raw_induct [where P = "\<lambda>idx t l l'. l' \<noteq> [] \<and> (\<exists>r. l = l' @ r)", OF _ assms])
  fix f :: "u64 \<Rightarrow> u64 \<Rightarrow> log_entry list \<Rightarrow> log_entry list option" and i trm k k'
  assume IH: "\<And>i trm k k'. f i trm k = Some k' \<Longrightarrow> k' \<noteq> [] \<and> (\<exists>r. k = k' @ r)"
    and eq: "(if k = [] then None
      else if i \<le> le_index (last k) then
        (case find (\<lambda>e. le_index e = i) k of
           None \<Rightarrow> f (i + 1) trm k
         | Some e \<Rightarrow> if le_term e \<noteq> trm then pop_while i k else f (i + 1) trm k)
      else Some k) = Some k'"
  consider "f (i + 1) trm k = Some k'" | "pop_while i k = Some k'" | "k \<noteq> []" "k' = k"
  proof (cases "k = [] \<or> \<not> i \<le> le_index (last k)")
    case True
    with eq that(3) show thesis by (cases "k = []") simp_all
  next
    case False
    then have eq': "(case find (\<lambda>e. le_index e = i) k of None \<Rightarrow> f (i + 1) trm k
        | Some e \<Rightarrow> if le_term e \<noteq> trm then pop_while i k else f (i + 1) trm k) = Some k'"
      using eq by simp
    show thesis
    proof (cases "find (\<lambda>e. le_index e = i) k")
      case None
      with eq' that(1) show thesis by simp
    next
      case (Some e)
      with eq' that(1,2) show thesis by (cases "le_term e = trm") simp_all
    qed
  qed
  then show "k' \<noteq> [] \<and> (\<exists>r. k = k' @ r)"
  proof cases
    case 1
    then show ?thesis by (rule IH)
  next
    case 2
    then show ?thesis by (rule pop_while_prefix)
  next
    case 3
    then show ?thesis by simp
  qed
qed

lemma log_wf_append: "log_wf l \<Longrightarrow> log_wf (append_entry l e)"
proof -
  assume l: "log_wf l"
  then obtain xs x where xs: "l = xs @ [x]" by (cases l rule: rev_cases) (simp_all add: log_wf_def)
  with l have "sorted_wrt (<) (map le_index xs @ [le_index x])" "hd (xs @ [x]) = dummy_entry" by (simp_all add: log_wf_def)
  then have "sorted_wrt (<) ((map le_index xs @ [le_index x]) @ [le_index e])" if "le_index x < le_index e"
    using that by (simp only: sorted_wrt_append) (auto intro: less_trans)
  with l xs show ?thesis by (auto simp: append_entry_def log_wf_def hd_append)
qed

lemma log_wf_fold: "log_wf l \<Longrightarrow> log_wf (foldl append_entry l es)"
  by (induction es arbitrary: l) (simp_all add: log_wf_append)

lemma log_wf_trim: "log_wf l \<Longrightarrow> trim_log i l = Some l' \<Longrightarrow> log_wf l'"
proof -
  assume "log_wf l" "trim_log i l = Some l'"
  then obtain es where "l = dummy_entry # es" "l' = dummy_entry # filter (\<lambda>e. i < le_index e) es"
    by (cases l) (auto simp: trim_log_def log_wf_def)
  with \<open>log_wf l\<close> show ?thesis by (auto simp: log_wf_def sorted_wrt_map sorted_wrt_filter)
qed

lemma core_log: "core n' = core n \<Longrightarrow> rn_log n' = rn_log n"
  by (rule core_fields(5))

lemma ApplyCommitted_log [simp]: "rn_log (ApplyCommitted up n) = rn_log n"
  by (rule core_log) simp

lemma ae_accept_log:
  assumes "ae_accept req n = Some (r, n')"
  shows "rn_log n' = foldl append_entry (rn_log n) (ae_entries req)"
  using assms by (auto simp: ae_accept_def follower_commit_def Let_def bind_eq_Some_conv)

lemma ae_truncate_log:
  assumes "ae_truncate req n = Some (r, n')"
  shows "\<exists>k. rn_log n = rn_log n' @ k \<and> rn_log n' \<noteq> []"
  using assms truncate_from_prefix
  by (auto simp: ae_truncate_def ae_refuse_def Let_def bind_eq_Some_conv)

lemma ae_enter_log [simp]: "rn_log (ae_enter sender req n) = rn_log n"
  by (simp add: ae_enter_def Let_def)

lemma ae_check_log_wf:
  assumes "ae_check_log req n = Some (r, n')" and "log_wf (rn_log n)"
  shows "log_wf (rn_log n')"
proof -
  have "rn_log n' = rn_log n \<or> ae_truncate req n = Some (r, n') \<or> ae_accept req n = Some (r, n')"
    using assms(1) by (auto simp: ae_check_log_def ae_refuse_def Let_def bind_eq_Some_conv split: if_splits option.splits)
  then show ?thesis
    using assms(2) ae_accept_log log_wf_fold ae_truncate_log log_wf_prefix by metis
qed

lemma HandleAppendEntries_log_wf:
  assumes "HandleAppendEntries sender req n = Some (r, n')" and "log_wf (rn_log n)"
  shows "log_wf (rn_log n')"
proof (cases "ae_term req < rn_current_term n")
  case True
  with assms show ?thesis by (auto simp: HandleAppendEntries_def Let_def)
next
  case False
  let ?m = "n\<lparr> rn_ae_resp := (rn_ae_resp n)\<lparr> ar_term := rn_current_term n \<rparr> \<rparr>"
  have "ae_check_log req (ae_enter sender req ?m) = Some (r, n')"
    using assms(1) False by (simp add: HandleAppendEntries_def Let_def)
  then show ?thesis by (rule ae_check_log_wf) (simp add: assms(2))
qed

lemma is_install_log_wf:
  assumes "is_install ser req n = Some (r, n')" and "log_wf (rn_log n)"
  shows "log_wf (rn_log n')"
  using assms log_wf_trim by (auto simp: is_install_def Let_def bind_eq_Some_conv)

lemma is_enter_log [simp]: "rn_log (is_enter sender req n) = rn_log n"
  by (simp add: is_enter_def Let_def)

lemma HandleInstallSnapshot_log_wf:
  assumes "HandleInstallSnapshot ser ok sender req n = Some (r, n')" and "log_wf (rn_log n)"
  shows "log_wf (rn_log n')"
proof -
  let ?m = "is_enter sender req (n\<lparr> rn_snap_resp := (rn_snap_resp n)\<lparr> sr_term := rn_current_term n \<rparr> \<rparr>)"
  have m: "log_wf (rn_log ?m)" using assms(2) by simp
  have "rn_log n' = rn_log n \<or> is_install ser req ?m = Some (r, n')"
    using assms(1) by (auto simp: HandleInstallSnapshot_def Let_def split: if_splits)
  with assms(2) is_install_log_wf [OF _ m] show ?thesis by metis
qed

lemma AdvanceCommitIndex_log: "AdvanceCommitIndex n = Some n' \<Longrightarrow> rn_log n' = rn_log n"
  by (rule core_log) (rule core_AdvanceCommitIndex)

lemma HandleAppendEntriesResponse_log:
  "HandleAppendEntriesResponse sender resp n = Some n' \<Longrightarrow> rn_log n' = rn_log n"
  using AdvanceCommitIndex_log core_log [OF core_next_index_at]
  by (auto simp: HandleAppendEntriesResponse_def Let_def case_prod_beta split: if_splits)

lemma rv_enter_log [simp]: "rn_log (rv_enter req n) = rn_log n"
  by (simp add: rv_enter_def Let_def)

lemma HandleRequestVote_log:
  assumes "HandleRequestVote sender req n = Some (r, n')"
  shows "rn_log n' = rn_log n"
proof (cases "rv_term req < rn_current_term n")
  case True
  with assms show ?thesis by (auto simp: HandleRequestVote_def Let_def)
next
  case False
  let ?m = "rv_enter req (n\<lparr> rn_vote_resp := (rn_vote_resp n)\<lparr> vr_term := rn_current_term n \<rparr> \<rparr>)"
  obtain ok where "n' = (if ok then (PersistState (?m\<lparr> rn_voted_for := rv_candidate_id req \<rparr>))\<lparr> rn_vote_resp := r \<rparr>
      else ?m\<lparr> rn_vote_resp := r \<rparr>)"
    using assms False by (auto simp: HandleRequestVote_def Let_def bind_eq_Some_conv)
  then show ?thesis by simp
qed

lemma HandleRequestVoteResponse_log:
  assumes "HandleRequestVoteResponse record_rpc sender resp n = Some n'"
  shows "rn_log n' = rn_log n"
  using assms core_log [OF BecomeLeader_core]
  by (auto simp: HandleRequestVoteResponse_def Let_def split: if_splits)

lemma Raft_OnMessage_log_wf:
  assumes "Raft_OnMessage ser can_open record_rpc msg n = Some (reply, n')" and "log_wf (rn_log n)"
  shows "log_wf (rn_log n')"
  using assms unfolding Raft_OnMessage_def
  by (cases msg)
    (auto simp: bind_eq_Some_conv HandleAppendEntriesResponse_log HandleRequestVote_log HandleRequestVoteResponse_log
      intro: HandleAppendEntries_log_wf HandleInstallSnapshot_log_wf)

text \<open>
  The one message that destroys the log: an append request of a current term whose previous index is
  the sentinel's, 0, with a previous term that is not the sentinel's.  The loop that cuts the log off
  at the conflict pops the sentinel itself and then asks for \<open>back()\<close> of an empty vector.
\<close>

definition pops_sentinel :: "raft_message \<Rightarrow> raft_node \<Rightarrow> bool" where
  "pops_sentinel msg n \<longleftrightarrow> (case msg of
     APPEND_ENTRIES req \<Rightarrow> rn_current_term n \<le> ae_term req \<and> rn_snapshot_last_index n = 0 \<and>
       ae_prev_log_index req = 0 \<and> ae_prev_log_term req \<noteq> 0
   | _ \<Rightarrow> False)"

lemma pop_while_None: "pop_while idx l = None \<longleftrightarrow> (\<forall>e \<in> set l. idx \<le> le_index e)"
proof (induction idx l rule: pop_while.induct)
  case (1 idx l)
  show ?case
  proof (cases "l = []")
    case False
    then obtain ys y where "l = ys @ [y]" by (cases l rule: rev_cases) auto
    with 1 show ?thesis by (subst pop_while.simps) auto
  qed (simp add: pop_while.simps)
qed

lemma log_wf_sentinel: "log_wf l \<Longrightarrow> \<exists>es. l = dummy_entry # es"
  by (cases l) (auto simp: log_wf_def)

lemma ae_accept_total: "log_wf (rn_log n) \<Longrightarrow> ae_accept req n \<noteq> None"
  using log_wf_fold [of "rn_log n" "ae_entries req"] by (auto simp: ae_accept_def log_back_def Let_def log_wf_def)

lemma ae_check_log_None:
  assumes wf: "log_wf (rn_log n)"
  shows "ae_check_log req n = None \<longleftrightarrow> rn_snapshot_last_index n = 0 \<and> ae_prev_log_index req = 0 \<and> ae_prev_log_term req \<noteq> 0"
proof -
  obtain es where l: "rn_log n = dummy_entry # es" using log_wf_sentinel [OF wf] by blast
  have b: "log_back n = Some (last (rn_log n))" by (simp add: log_back_def l)
  have trunc: "ae_truncate req n = None \<longleftrightarrow> ae_prev_log_index req = 0"
    if p: "GetLogEntry (ae_prev_log_index req) n = Some p" "le_term p \<noteq> ae_prev_log_term req"
      "\<not> le_index (last (rn_log n)) < ae_prev_log_index req" for p
  proof -
    have "truncate_from (ae_prev_log_index req) (ae_prev_log_term req) (rn_log n) = pop_while (ae_prev_log_index req) (rn_log n)"
      using p l by (subst truncate_from.simps) (auto simp: GetLogEntry_def not_less)
    moreover have "pop_while (ae_prev_log_index req) (rn_log n) = None \<longleftrightarrow> ae_prev_log_index req = 0"
      unfolding pop_while_None l by (auto simp: dummy_entry_def)
    moreover have "k \<noteq> []" if "pop_while (ae_prev_log_index req) (rn_log n) = Some k" for k
      using pop_while_prefix [OF that] by simp
    ultimately show ?thesis by (auto simp: ae_truncate_def log_back_def Let_def case_prod_beta bind_eq_None_conv)
  qed
  show ?thesis
    using trunc ae_accept_total [OF wf, of req]
    by (auto simp: ae_check_log_def b GetLogEntry_def l dummy_entry_def not_less split: option.split)
qed

lemma Raft_OnMessage_None:
  assumes wf: "log_wf (rn_log n)"
  shows "Raft_OnMessage ser can_open record_rpc msg n = None \<longleftrightarrow> pops_sentinel msg n"
proof -
  have l: "rn_log n \<noteq> []" using wf by (simp add: log_wf_def)
  have vote: "HandleRequestVote sender req n \<noteq> None" for sender req
    using l by (auto simp: HandleRequestVote_def can_vote_def log_back_def Let_def)
  have vote_resp: "HandleRequestVoteResponse record_rpc sender resp n \<noteq> None" for sender resp
    using l SendHeartbeats_core by (fastforce simp: HandleRequestVoteResponse_def BecomeLeader_def log_back_def Let_def)
  have app_resp: "HandleAppendEntriesResponse sender resp n \<noteq> None" for sender resp
    using l by (auto simp: HandleAppendEntriesResponse_def AdvanceCommitIndex_def log_back_def Let_def case_prod_beta)
  have inst: "HandleInstallSnapshot ser can_open sender req n \<noteq> None" for sender req
    using log_wf_sentinel [OF wf] by (auto simp: HandleInstallSnapshot_def is_install_def trim_log_def Let_def)
  have app: "HandleAppendEntries sender req n = None \<longleftrightarrow> pops_sentinel (APPEND_ENTRIES req) n" for sender req
    using ae_check_log_None [of "ae_enter sender req (n\<lparr> rn_ae_resp := (rn_ae_resp n)\<lparr> ar_term := rn_current_term n \<rparr> \<rparr>)" req] wf
    by (auto simp: HandleAppendEntries_def pops_sentinel_def ae_enter_def Let_def not_less)
  show ?thesis
  proof (cases msg)
    case (APPEND_ENTRIES req)
    with app [of "ae_leader_id req" req] show ?thesis
      by (cases "HandleAppendEntries (ae_leader_id req) req n") (auto simp: Raft_OnMessage_def)
  next
    case (REQUEST_VOTE req)
    with vote [of "rv_candidate_id req" req] show ?thesis by (auto simp: Raft_OnMessage_def pops_sentinel_def)
  next
    case (INSTALL_SNAPSHOT req)
    with inst [of "is_leader_id req" req] show ?thesis by (auto simp: Raft_OnMessage_def pops_sentinel_def)
  next
    case (REQUEST_VOTE_RESPONSE resp)
    with vote_resp [of "[]" resp] show ?thesis by (auto simp: Raft_OnMessage_def pops_sentinel_def)
  next
    case (APPEND_ENTRIES_RESPONSE resp)
    with app_resp [of "[]" resp] show ?thesis by (auto simp: Raft_OnMessage_def pops_sentinel_def)
  qed (simp add: Raft_OnMessage_def pops_sentinel_def)
qed

text \<open>
  C18: the log stays in order.  A well-formed log (the sentinel first, indices strictly increasing)
  stays well-formed under every message a node can receive, however malformed its entries, with one
  exception, which is exactly the case in which the handler has no defined result: an append request
  of a current term with previous index 0 and a previous term other than 0, at a node without a
  snapshot, makes the handler pop the sentinel and read the back of an empty log.
\<close>

theorem log_stays_ordered:
  assumes "log_wf (rn_log n)"
  shows "case Raft_OnMessage ser can_open record_rpc msg n of
      None \<Rightarrow> pops_sentinel msg n
    | Some (reply, n') \<Rightarrow> \<not> pops_sentinel msg n \<and> log_wf (rn_log n')"
proof (cases "Raft_OnMessage ser can_open record_rpc msg n")
  case None
  then have "pops_sentinel msg n" by (simp only: Raft_OnMessage_None [OF assms])
  with None show ?thesis by simp
next
  case (Some out)
  then obtain reply n' where out: "Raft_OnMessage ser can_open record_rpc msg n = Some (reply, n')" by (cases out) auto
  then have "\<not> pops_sentinel msg n" by (simp flip: Raft_OnMessage_None [OF assms, of ser can_open])
  with out Raft_OnMessage_log_wf [OF out assms] show ?thesis by simp
qed

theorem log_stays_ordered_witness:
  "\<exists>r n'. Raft_OnMessage (\<lambda>_. []) True record_rpc (APPEND_ENTRIES \<lparr> ae_term = 1, ae_leader_id = [98], ae_prev_log_index = 0,
      ae_prev_log_term = 0, ae_entries = [\<lparr> le_term = 1, le_index = 2, le_command = [] \<rparr>, \<lparr> le_term = 1, le_index = 1, le_command = [] \<rparr>],
      ae_leader_commit = 0 \<rparr>) (RaftNode_new [97] [[97], [98]] None None) = Some (r, n') \<and>
     log_wf (rn_log n') \<and> length (rn_log n') = 2"
proof -
  let ?msg = "APPEND_ENTRIES \<lparr> ae_term = 1, ae_leader_id = [98], ae_prev_log_index = 0,
      ae_prev_log_term = 0, ae_entries = [\<lparr> le_term = 1, le_index = 2, le_command = [] \<rparr>, \<lparr> le_term = 1, le_index = 1, le_command = [] \<rparr>],
      ae_leader_commit = 0 \<rparr>"
  obtain r n' where n': "Raft_OnMessage (\<lambda>_. []) True record_rpc ?msg (RaftNode_new [97] [[97], [98]] None None) = Some (r, n')"
    "length (rn_log n') = 2"
    by (simp add: Raft_OnMessage_def HandleAppendEntries_def ae_enter_def ae_check_log_def ae_accept_def RaftNode_new_def
        log_back_def dummy_entry_def append_entry_def follower_commit_def GetLogEntry_def Let_def)
  have "log_wf (rn_log (RaftNode_new [97] [[97], [98]] None None))" by (simp add: RaftNode_new_def log_wf_def)
  from log_stays_ordered [OF this, of ?msg "\<lambda>_. []" True] n' show ?thesis by auto
qed

subsection \<open>Restart\<close>

text \<open>
  A node restarted from a completely written state file (without a snapshot) has the term, the vote and the log of
  the node that wrote it; and it takes its whole log for committed and applied, entries included that
  no majority had stored.
\<close>

theorem restart_restores_state:
  assumes "log_wf (rn_log m)" and "length (rn_voted_for m) < 2 ^ 63" and "length (rn_log m) \<le> 2 ^ 64"
    and "\<forall>e \<in> set (rn_log m). length (le_command e) < 2 ^ 63" and "rn_disk m (rn_writes m) = Written"
  shows "\<exists>n'. Raft_Start parse (RaftNode_new i ps (rn_state_file (PersistState m)) None) = Some n' \<and>
     rn_current_term n' = rn_current_term m \<and> rn_voted_for n' = rn_voted_for m \<and> rn_log n' = rn_log m \<and>
     rn_state n' = FOLLOWER \<and>
     rn_commit_index n' = le_index (last (rn_log m)) \<and> rn_last_applied n' = le_index (last (rn_log m))"
proof -
  obtain es where es: "rn_log m = dummy_entry # es" using assms(1) by (cases "rn_log m") (auto simp: log_wf_def)
  have f: "rn_state_file (RaftNode_new i ps (rn_state_file (PersistState m)) None) = Some (state_bytes m)"
    using assms(5) by (simp add: RaftNode_new_def PersistState_file)
  have r: "RestoreState (RaftNode_new i ps (rn_state_file (PersistState m)) None) =
      Some ((RaftNode_new i ps (rn_state_file (PersistState m)) None)\<lparr> rn_current_term := rn_current_term m,
        rn_voted_for := rn_voted_for m, rn_log := rn_log m, rn_commit_index := le_index (last (rn_log m)),
        rn_last_applied := le_index (last (rn_log m)) \<rparr>)"
    by (rule RestoreState_bytes [OF f assms(2) es]) (use assms(3,4) es in \<open>simp_all add: RaftNode_new_def\<close>)
  show ?thesis
    unfolding Raft_Start_def r by (simp add: RestoreFromSnapshot_def RaftNode_new_def BecomeFollower_def)
qed

theorem restart_restores_state_witness:
  "\<exists>n'. Raft_Start (\<lambda>_. None) (RaftNode_new [97] [] (rn_state_file (PersistState ((RaftNode_new [97] [] None None)
      \<lparr> rn_current_term := 4, rn_voted_for := [98], rn_log := [dummy_entry, \<lparr> le_term = 3, le_index = 1, le_command = [7] \<rparr>] \<rparr>))) None)
     = Some n' \<and> rn_current_term n' = 4 \<and> rn_voted_for n' = [98] \<and> length (rn_log n') = 2 \<and> rn_commit_index n' = 1"
proof -
  let ?m = "(RaftNode_new [97] [] None None)\<lparr> rn_current_term := 4, rn_voted_for := [98],
      rn_log := [dummy_entry, \<lparr> le_term = 3, le_index = 1, le_command = [7] \<rparr>] \<rparr>"
  have "log_wf (rn_log ?m)" "length (rn_voted_for ?m) < 2 ^ 63" "length (rn_log ?m) \<le> 2 ^ 64"
    "\<forall>e \<in> set (rn_log ?m). length (le_command e) < 2 ^ 63" "rn_disk ?m (rn_writes ?m) = Written"
    by (simp_all add: log_wf_def dummy_entry_def RaftNode_new_def)
  from restart_restores_state [OF this, of "\<lambda>_. None" "[97]" "[]"] show ?thesis by auto
qed

text \<open>
  A snapshot file written by \<open>TakeSnapshot\<close> is read back by \<open>RestoreFromSnapshot\<close> after a restart:
  the state machine is given the exported data, and the snapshot position is the one the node had
  applied.  The hypothesis on \<open>ser\<close> and \<open>parse\<close> is protobuf's documented round trip for messages
  below its size limit of 2 GiB.
\<close>

theorem snapshot_file_roundtrip:
  assumes "\<forall>s. length (sm_data s) < 2 ^ 30 \<longrightarrow> parse (ser s) = Some s \<and> length (ser s) < 2 ^ 31"
    and "length data < 2 ^ 30"
    and "TakeSnapshot ser True (Some data) n = Some (True, n1)"
    and "rn_snapshot_file k = rn_snapshot_file n1"
  shows "\<exists>k'. RestoreFromSnapshot parse k = Some (True, k') \<and>
     rn_snapshot_last_index k' = rn_last_applied n \<and> rn_snapshot_last_term k' = rn_snapshot_last_term n1 \<and>
     rn_events k' = (if rn_restore_cb k \<and> data \<noteq> [] then rn_events k @ [Restored data] else rn_events k) \<and>
     rn_commit_index k' = max (rn_commit_index k) (rn_last_applied n)"
proof -
  define t where "t = (case GetLogEntry (rn_last_applied n) n of Some e \<Rightarrow> le_term e | None \<Rightarrow> rn_current_term n)"
  define snap where "snap = \<lparr> sm_last_index = rn_last_applied n, sm_last_term = t, sm_data = data \<rparr>"
  have n1: "rn_snapshot_file n1 = Some (snapshot_bytes ser snap)" "rn_snapshot_last_term n1 = t"
    using assms(3) by (auto simp: TakeSnapshot_def Let_def t_def snap_def bind_eq_Some_conv split: if_splits)
  have s: "parse (ser snap) = Some snap" "length (ser snap) < 2 ^ 31"
    using assms(1,2) by (simp_all add: snap_def)
  have u: "unat (word_of_nat (length (ser snap)) :: u64) = length (ser snap)"
    using s(2) by (intro unat_of_nat_u64) simp
  have rd: "stream_read (replicate (length (ser snap)) 0) (ser snap, False) = (ser snap, length (ser snap), ([], False))"
    by (simp add: stream_read_def)
  have hd: "read_u64 0 (snapshot_bytes ser snap, False) =
      (word_of_nat (length (ser snap)), 8, (ser snap, False))"
    unfolding snapshot_bytes_def by (rule read_u64_enc)
  have "\<not> 9223372036854775807 < length (ser snap)" using s(2) by simp
  then show ?thesis
    unfolding RestoreFromSnapshot_def assms(4) n1 option.case hd
    by (simp add: u rd s(1)) (auto simp: snap_def Let_def max_def not_le)
qed

theorem snapshot_file_roundtrip_witness:
  "\<exists>(ser :: snapshot_meta \<Rightarrow> str) parse n1 k'.
     TakeSnapshot ser True (Some [1, 2]) ((RaftNode_new [97] [] None None)\<lparr> rn_last_applied := 5 \<rparr>) = Some (True, n1) \<and>
     RestoreFromSnapshot parse (RaftNode_new [97] [] None (rn_snapshot_file n1)) = Some (True, k') \<and>
     rn_events k' = [Restored [1, 2]] \<and> rn_snapshot_last_index k' = 5"
proof -
  define ser :: "snapshot_meta \<Rightarrow> str" where
    "ser s = EncodeFixed64 (sm_last_index s) @ EncodeFixed64 (sm_last_term s) @ take (2 ^ 30) (sm_data s)" for s
  define parse :: "str \<Rightarrow> snapshot_meta option" where
    "parse b = (case (DecodeFixed64 (take 8 b), DecodeFixed64 (take 8 (drop 8 b))) of
        (Some i, Some t) \<Rightarrow> Some \<lparr> sm_last_index = i, sm_last_term = t, sm_data = drop 16 b \<rparr> | _ \<Rightarrow> None)" for b
  have codec: "\<forall>s. length (sm_data s) < 2 ^ 30 \<longrightarrow> parse (ser s) = Some s \<and> length (ser s) < 2 ^ 31"
    by (auto simp: parse_def ser_def le_bytes)
  let ?n = "(RaftNode_new [97] [] None None)\<lparr> rn_last_applied := 5 \<rparr>"
  obtain n1 where n1: "TakeSnapshot ser True (Some [1, 2]) ?n = Some (True, n1)"
    by (simp add: TakeSnapshot_def RaftNode_new_def trim_log_def Let_def)
  have "rn_snapshot_file (RaftNode_new [97] [] None (rn_snapshot_file n1)) = rn_snapshot_file n1"
    by (simp add: RaftNode_new_def)
  from snapshot_file_roundtrip [OF codec _ n1 this] n1 show ?thesis
    by (fastforce simp: RaftNode_new_def)
qed

subsection \<open>Acknowledged but not stored, committed but not replicated\<close>

lemma fold_append_old:
  assumes "\<forall>e \<in> set es. le_index e \<le> le_index (last l)"
  shows "foldl append_entry l es = l"
  using assms by (induction es) (auto simp: append_entry_def leD)

text \<open>
  A follower whose log already reaches past the entries of an append request acknowledges the
  request up to its own last index and keeps its log as it is, whatever the terms of its entries at
  those indices are: conflicting entries are neither detected nor replaced.
\<close>

theorem conflicting_entries_acknowledged:
  assumes "ae_term req = rn_current_term n" and "log_back n = Some b"
    and "GetLogEntry (ae_prev_log_index req) n = Some p" and "le_term p = ae_prev_log_term req"
    and "rn_snapshot_last_index n \<le> ae_prev_log_index req" and "ae_prev_log_index req \<le> le_index b"
    and "\<forall>e \<in> set (ae_entries req). le_index e \<le> le_index b"
  shows "\<exists>r n'. HandleAppendEntries sender req n = Some (r, n') \<and> ar_success r \<and> ar_match_index r = le_index b \<and>
     rn_log n' = rn_log n"
proof -
  define m where "m = ae_enter sender req (n\<lparr> rn_ae_resp := (rn_ae_resp n)\<lparr> ar_term := rn_current_term n \<rparr> \<rparr>)"
  have m: "rn_log m = rn_log n" "rn_snapshot_last_index m = rn_snapshot_last_index n"
    by (simp_all add: m_def ae_enter_def Let_def)
  then have mb: "log_back m = Some b" "GetLogEntry (ae_prev_log_index req) m = Some p"
    using assms(2,3) by (auto simp: log_back_def GetLogEntry_def split: if_splits)
  have run: "HandleAppendEntries sender req n = ae_accept req m"
    using assms(1,4,5) leD [OF assms(6)] m mb unfolding HandleAppendEntries_def m_def [symmetric]
    by (auto simp: ae_check_log_def Let_def m_def [symmetric] dest: leD)
  have l: "foldl append_entry (rn_log m) (ae_entries req) = rn_log m"
    using assms(2,7) m by (intro fold_append_old) (auto simp: log_back_def split: if_splits)
  have "\<exists>r n'. ae_accept req m = Some (r, n') \<and> ar_success r \<and> ar_match_index r = le_index b \<and> rn_log n' = rn_log m"
    using mb(1) unfolding ae_accept_def l
    by (auto simp: Let_def follower_commit_def log_back_def split: if_splits)
  then show ?thesis unfolding run m .
qed

text \<open>Here the follower acknowledges and applies command 66 at index 2, where the leader sent 67.\<close>

theorem conflicting_entries_acknowledged_witness:
  "\<exists>r n'. HandleAppendEntries [97] \<lparr> ae_term = 2, ae_leader_id = [97], ae_prev_log_index = 1, ae_prev_log_term = 1,
       ae_entries = [\<lparr> le_term = 2, le_index = 2, le_command = [67] \<rparr>], ae_leader_commit = 2 \<rparr>
     ((RaftNode_new [98] [[97], [98]] None None)\<lparr> rn_current_term := 2, rn_log := [dummy_entry,
       \<lparr> le_term = 1, le_index = 1, le_command = [65] \<rparr>, \<lparr> le_term = 1, le_index = 2, le_command = [66] \<rparr>] \<rparr>) = Some (r, n') \<and>
     ar_success r \<and> ar_match_index r = 2 \<and> le_command (last (rn_log n')) = [66]"
  using conflicting_entries_acknowledged [of "\<lparr> ae_term = 2, ae_leader_id = [97], ae_prev_log_index = 1, ae_prev_log_term = 1,
       ae_entries = [\<lparr> le_term = 2, le_index = 2, le_command = [67] \<rparr>], ae_leader_commit = 2 \<rparr>"
     "(RaftNode_new [98] [[97], [98]] None None)\<lparr> rn_current_term := 2, rn_log := [dummy_entry,
       \<lparr> le_term = 1, le_index = 1, le_command = [65] \<rparr>, \<lparr> le_term = 1, le_index = 2, le_command = [66] \<rparr>] \<rparr>"
     "\<lparr> le_term = 1, le_index = 2, le_command = [66] \<rparr>" "\<lparr> le_term = 1, le_index = 1, le_command = [65] \<rparr>" "[97]"]
  by (simp add: log_back_def GetLogEntry_def dummy_entry_def RaftNode_new_def) auto

lemma heartbeat_loop_commit:
  "heartbeat_loop record_rpc ps n = Some n' \<Longrightarrow> rn_commit_index n' = rn_commit_index n"
proof (induction ps arbitrary: n)
  case (Cons p ps)
  have nx: "rn_commit_index (snd (next_index_at p n)) = rn_commit_index n"
    by (simp add: next_index_at_def split: option.split)
  show ?case
  proof (cases "p = rn_my_id n")
    case True
    with Cons show ?thesis by simp
  next
    case False
    obtain k m where k: "next_index_at p n = (k, m)" by (cases "next_index_at p n")
    have "record_rpc p (APPEND_ENTRIES (heartbeat_request k m)) m =
        Some (m\<lparr> rn_events := rn_events m @ [Sent p (APPEND_ENTRIES (heartbeat_request k m))] \<rparr>)"
      by (simp add: record_rpc_def)
    with k False Cons.prems have "heartbeat_loop record_rpc ps (m\<lparr> rn_events := rn_events m @
        [Sent p (APPEND_ENTRIES (heartbeat_request k m))] \<rparr>) = Some n'" by simp
    from Cons.IH [OF this] k nx show ?thesis by simp
  qed
qed simp

text \<open>
  Once a snapshot has compacted the whole log of a leader that had committed something, its next
  proposal is given index 1 again and is reported as committed at once, although nothing has been
  replicated (\<open>raft_node.h\<close> describes the wrong index; the false commit is its consequence).
\<close>

theorem proposal_after_compaction_reported_committed:
  assumes "rn_state n = LEADER" and "rn_log n = [dummy_entry]" and "1 \<le> rn_commit_index n"
  shows "\<exists>n'. Propose record_rpc command wakeups n =
      Some (\<lparr> pr_index = Some 1, pr_committed = True, pr_is_leader = True, pr_leader_id = [] \<rparr>, n')"
proof -
  obtain n1 where n1: "Propose_append command n = Some (1, n1)" "rn_commit_index n1 = rn_commit_index n"
    "rn_log n1 = [dummy_entry, \<lparr> le_term = rn_current_term n, le_index = 1, le_command = command \<rparr>]"
    using assms(2) by (simp add: Propose_append_def log_back_def Let_def dummy_entry_def)
  have "\<not> rn_commit_index n1 < 1" using assms(3) n1(2) by (simp only: not_less)
  then have "advance_loop 1 n1 = n1" by (subst advance_loop.simps) (simp del: word_less_1)
  then have adv: "AdvanceCommitIndex n1 = Some n1" using n1(3) by (simp add: AdvanceCommitIndex_def log_back_def)
  obtain n2 where n2: "SendHeartbeats record_rpc n1 = Some n2" using SendHeartbeats_core [of n1] by blast
  then have "rn_commit_index n2 = rn_commit_index n"
    using heartbeat_loop_commit n1(2) by (auto simp: SendHeartbeats_def split: if_splits)
  with assms(1,3) n1(1) adv n2 show ?thesis by (simp add: Propose_def)
qed

theorem proposal_after_compaction_reported_committed_witness:
  "\<exists>n1 n'. TakeSnapshot (\<lambda>_. []) True (Some [1]) ((RaftNode_new [97] [[97], [98], [99]] None None)\<lparr> rn_state := LEADER,
       rn_log := [dummy_entry, \<lparr> le_term = 1, le_index = 1, le_command = [65] \<rparr>], rn_commit_index := 1, rn_last_applied := 1 \<rparr>)
     = Some (True, n1) \<and>
     Propose record_rpc [66] [] n1 =
       Some (\<lparr> pr_index = Some 1, pr_committed = True, pr_is_leader = True, pr_leader_id = [] \<rparr>, n')"
proof -
  obtain n1 where n1: "TakeSnapshot (\<lambda>_. []) True (Some [1]) ((RaftNode_new [97] [[97], [98], [99]] None None)\<lparr> rn_state := LEADER,
       rn_log := [dummy_entry, \<lparr> le_term = 1, le_index = 1, le_command = [65] \<rparr>], rn_commit_index := 1, rn_last_applied := 1 \<rparr>)
     = Some (True, n1)" "rn_state n1 = LEADER" "rn_log n1 = [dummy_entry]" "1 \<le> rn_commit_index n1"
    by (simp add: TakeSnapshot_def RaftNode_new_def trim_log_def Let_def)
  from n1(1) proposal_after_compaction_reported_committed [OF n1(2-4)] show ?thesis by blast
qed

end
