(* ===== verification/RaftReplication.thy ===== *)
theory RaftReplication
  imports RaftProps
begin

text \<open>
  Replication between a leader and one follower, with the handlers of theory \<open>Raft\<close> at both ends: how far
  behind a follower may be and still catch up, what happens to a follower that holds an entry the leader
  does not know of, and what becomes of a node that has compacted its log.
\<close>

subsection \<open>One round of \<open>SendHeartbeats\<close> with one peer\<close>

definition replicate_to :: "str \<Rightarrow> raft_node \<Rightarrow> raft_node \<Rightarrow> (raft_node \<times> raft_node) option" where
  "replicate_to peer l f = do {
     let (next_idx, l1) = next_index_at peer l;
     let req = heartbeat_request next_idx l1;
     (r, f1) \<leftarrow> HandleAppendEntries (ae_leader_id req) req f;
     l2 \<leftarrow> HandleAppendEntriesResponse peer r l1;
     Some (l2, f1) }"

fun rounds :: "str \<Rightarrow> nat \<Rightarrow> raft_node \<Rightarrow> raft_node \<Rightarrow> (raft_node \<times> raft_node) option" where
  "rounds peer 0 l f = Some (l, f)"
| "rounds peer (Suc n) l f = do { (l1, f1) \<leftarrow> replicate_to peer l f; rounds peer n l1 f1 }"

text \<open>This is what \<open>SendHeartbeats\<close> does over \<open>RaftRPC\<close> when \<open>peer\<close> is the only node that can be reached.\<close>

definition addressable :: "str \<Rightarrow> bool" where
  "addressable p \<longleftrightarrow> 58 \<in> set p \<and> port_text p \<noteq> [] \<and> is_digit (hd (port_text p))"

lemma heartbeat_loop_unreachable:
  assumes "\<And>p msg. p \<in> set ps \<Longrightarrow> exchange p msg = None" and "\<And>p. p \<in> set ps \<Longrightarrow> p \<noteq> rn_my_id n \<Longrightarrow> addressable p \<and> rn_next_index n p \<noteq> None"
  shows "heartbeat_loop (SendMessage exchange rpc) (ps @ ms) n = heartbeat_loop (SendMessage exchange rpc) ms n"
  using assms
proof (induction ps)
  case (Cons p ps)
  have ih: "heartbeat_loop (SendMessage exchange rpc) (ps @ ms) n = heartbeat_loop (SendMessage exchange rpc) ms n" using Cons by simp
  show ?case
  proof (cases "p = rn_my_id n")
    case False
    then obtain v where v: "next_index_at p n = (v, n)" using Cons.prems(2) [of p] by (auto simp: next_index_at_def)
    have "SendMessage exchange rpc p (APPEND_ENTRIES (heartbeat_request v n)) n = Some n"
      using Cons.prems(1) [of p] Cons.prems(2) [of p] False by (simp add: SendMessage_def addressable_def is_request_def)
    with v ih False show ?thesis by simp
  qed (simp add: ih)
qed simp

lemma apply_one_next: "rn_next_index (apply_one n) = rn_next_index n" "rn_match_index (apply_one n) = rn_match_index n"
  by (simp_all add: apply_one_def Let_def split: option.split)

lemma ApplyCommitted_next [simp]:
  "rn_next_index (ApplyCommitted up n) = rn_next_index n" "rn_match_index (ApplyCommitted up n) = rn_match_index n"
proof -
  have "rn_next_index (ApplyCommitted up n) = rn_next_index n \<and> rn_match_index (ApplyCommitted up n) = rn_match_index n"
  proof (induction up n rule: ApplyCommitted.induct)
    case (1 up n)
    then show ?case by (subst (1 2) ApplyCommitted.simps) (simp add: apply_one_next)
  qed
  then show "rn_next_index (ApplyCommitted up n) = rn_next_index n" "rn_match_index (ApplyCommitted up n) = rn_match_index n"
    by simp_all
qed

lemma AdvanceCommitIndex_cases:
  assumes "AdvanceCommitIndex n = Some n'"
  obtains "n' = n" | c where "rn_commit_index n < c" "n' = ApplyCommitted c (n\<lparr> rn_commit_index := c \<rparr>)"
proof -
  obtain b where b: "log_back n = Some b" using assms by (cases "log_back n") (auto simp: AdvanceCommitIndex_def)
  then have "n' = advance_loop (le_index b) n" using assms by (simp add: AdvanceCommitIndex_def)
  with advance_loop_spec [of "le_index b" n] that show thesis by auto
qed

lemma AdvanceCommitIndex_next:
  assumes "AdvanceCommitIndex n = Some n'"
  shows "rn_next_index n' = rn_next_index n" "rn_match_index n' = rn_match_index n" "rn_commit_index n \<le> rn_commit_index n'"
  by (rule AdvanceCommitIndex_cases [OF assms]; simp)+

lemma response_commit:
  assumes "HandleAppendEntriesResponse peer r l = Some l'"
  shows "rn_commit_index l \<le> rn_commit_index l'"
  using assms AdvanceCommitIndex_next(3)
  by (force simp: HandleAppendEntriesResponse_def next_index_at_def Let_def split: if_splits option.splits)

lemma response_frame:
  assumes "HandleAppendEntriesResponse peer r l = Some l'"
  shows "rn_my_id l' = rn_my_id l" "\<And>p. rn_next_index l p \<noteq> None \<Longrightarrow> rn_next_index l' p \<noteq> None"
proof -
  have adv: "rn_my_id m' = rn_my_id m" "rn_next_index m' = rn_next_index m" if "AdvanceCommitIndex m = Some m'" for m m'
    using core_fields(1) [OF core_AdvanceCommitIndex [OF that]] that AdvanceCommitIndex_next by auto
  show "rn_my_id l' = rn_my_id l"
    using assms adv(1) by (auto simp: HandleAppendEntriesResponse_def next_index_at_def Let_def split: if_splits option.splits)
  show "rn_next_index l p \<noteq> None \<Longrightarrow> rn_next_index l' p \<noteq> None" for p
    using assms adv(2) by (auto simp: HandleAppendEntriesResponse_def next_index_at_def Let_def split: if_splits option.splits)
qed

lemma SendHeartbeats_replicates:
  assumes "rn_state l = LEADER" and peers: "rn_peers l = ps @ peer # qs" "peer \<noteq> rn_my_id l" "peer \<notin> set ps" "peer \<notin> set qs"
    and known: "\<And>p. p \<in> set (rn_peers l) \<Longrightarrow> p \<noteq> rn_my_id l \<Longrightarrow> addressable p \<and> rn_next_index l p \<noteq> None"
    and reach: "\<And>p msg. exchange p msg = (if p = peer then answer msg else None)"
    and answer: "\<And>req r f1. HandleAppendEntries (ae_leader_id req) req f = Some (r, f1) \<Longrightarrow>
        answer (APPEND_ENTRIES req) = Some (APPEND_ENTRIES_RESPONSE r)"
    and step: "replicate_to peer l f = Some (l', f')"
  shows "SendHeartbeats (SendMessage exchange rpc) l = Some l'"
proof -
  obtain v where v: "next_index_at peer l = (v, l)" using known [of peer] peers by (auto simp: next_index_at_def)
  define req where "req = heartbeat_request v l"
  obtain r where r: "HandleAppendEntries (ae_leader_id req) req f = Some (r, f')" "HandleAppendEntriesResponse peer r l = Some l'"
    using step by (auto simp: replicate_to_def v req_def [symmetric] bind_eq_Some_conv)
  have "SendMessage exchange rpc peer (APPEND_ENTRIES req) l = Some l'"
    using known [of peer] peers reach answer [OF r(1)] r(2) by (simp add: SendMessage_def addressable_def is_request_def)
  moreover have "heartbeat_loop (SendMessage exchange rpc) (qs @ []) l' = heartbeat_loop (SendMessage exchange rpc) [] l'"
    by (rule heartbeat_loop_unreachable) (use reach peers known response_frame [OF r(2)] in auto)
  ultimately have rest: "heartbeat_loop (SendMessage exchange rpc) (peer # qs) l = Some l'"
    using peers(2) by (simp add: v req_def [symmetric])
  have "heartbeat_loop (SendMessage exchange rpc) (ps @ peer # qs) l = heartbeat_loop (SendMessage exchange rpc) (peer # qs) l"
    by (rule heartbeat_loop_unreachable) (use reach peers known in auto)
  with rest assms(1) show ?thesis by (simp add: SendHeartbeats_def peers(1))
qed

subsection \<open>Numbered logs\<close>

text \<open>A log that has never been compacted: the sentinel, then the entries 1, 2, ...\<close>

definition numbered :: "log_entry list \<Rightarrow> bool" where
  "numbered l \<longleftrightarrow> l \<noteq> [] \<and> hd l = dummy_entry \<and> length l < 2 ^ 63 \<and> map le_index l = map word_of_nat [0..<length l]"

lemma numbered_nth: "numbered l \<Longrightarrow> i < length l \<Longrightarrow> le_index (l ! i) = word_of_nat i"
proof -
  assume "numbered l" "i < length l"
  then have "map le_index l ! i = map word_of_nat [0..<length l] ! i" by (simp add: numbered_def)
  with \<open>i < length l\<close> show ?thesis by simp
qed

lemma numbered_small: "numbered l \<Longrightarrow> i \<le> length l \<Longrightarrow> unat (word_of_nat i :: u64) = i"
  by (rule unat_of_nat_u64) (simp add: numbered_def)

lemma numbered_last: "numbered l \<Longrightarrow> le_index (last l) = word_of_nat (length l - 1)"
  using numbered_nth [of l "length l - 1"] by (simp add: numbered_def last_conv_nth)

lemma numbered_back: "numbered (rn_log n) \<Longrightarrow> \<exists>b. log_back n = Some b \<and> le_index b = word_of_nat (length (rn_log n) - 1)"
  using numbered_last [of "rn_log n"] by (simp add: log_back_def numbered_def)

lemma numbered_take: "numbered l \<Longrightarrow> 0 < k \<Longrightarrow> numbered (take k l)"
proof -
  assume "numbered l" "0 < k"
  then have "take k (map le_index l) = take k (map word_of_nat [0..<length l])" "hd (take k l) = hd l" "l \<noteq> []" "length l < 2 ^ 63" "hd l = dummy_entry"
    by (simp_all add: numbered_def)
  with \<open>0 < k\<close> show ?thesis by (simp add: numbered_def take_map take_upt min_def split: if_splits)
qed

lemma numbered_0: "numbered l \<Longrightarrow> l ! 0 = dummy_entry"
  using hd_conv_nth [of l] by (simp add: numbered_def)

lemma numbered_find:
  assumes "numbered l" "i < 2 ^ 63"
  shows "find (\<lambda>e. le_index e = word_of_nat i) l = (if i < length l then Some (l ! i) else None)"
proof -
  have i: "unat (word_of_nat i :: u64) = i" by (rule unat_of_nat_u64) (use assms(2) in simp)
  have eq: "le_index (l ! j) = word_of_nat i \<longleftrightarrow> j = i" if "j < length l" for j
    using numbered_nth [OF assms(1) that] numbered_small [OF assms(1) less_imp_le [OF that]] i by metis
  show ?thesis
  proof (cases "i < length l")
    case True
    with eq have "find (\<lambda>e. le_index e = word_of_nat i) l = Some (l ! i)" unfolding find_Some_iff by (intro exI [of _ i]) auto
    with True show ?thesis by simp
  next
    case False
    with eq have "find (\<lambda>e. le_index e = word_of_nat i) l = None" unfolding find_None_iff by (auto simp: in_set_conv_nth)
    with False show ?thesis by simp
  qed
qed

lemma numbered_drop:
  assumes "numbered l" "k \<le> length l"
  shows "filter (\<lambda>e. \<not> le_index e < word_of_nat k) l = drop k l"
proof -
  have lt: "le_index (l ! i) < word_of_nat k \<longleftrightarrow> i < k" if "i < length l" for i
    using numbered_nth [OF assms(1) that] numbered_small [OF assms(1) less_imp_le [OF that]] numbered_small [OF assms]
    by (simp add: word_less_nat_alt)
  have "le_index e < word_of_nat k" if "e \<in> set (take k l)" for e
    using that lt by (clarsimp simp: in_set_conv_nth)
  then have "filter (\<lambda>e. \<not> le_index e < word_of_nat k) (take k l) = []" by (simp add: filter_empty_conv)
  moreover have "\<not> le_index e < word_of_nat k" if "e \<in> set (drop k l)" for e
    using that lt by (clarsimp simp: in_set_conv_nth)
  then have "filter (\<lambda>e. \<not> le_index e < word_of_nat k) (drop k l) = drop k l" by (simp add: filter_id_conv)
  moreover have "filter P l = filter P (take k l) @ filter P (drop k l)" for P
    by (simp flip: filter_append)
  ultimately show ?thesis by simp
qed

lemma numbered_append: "numbered (xs @ ys) \<Longrightarrow> xs \<noteq> [] \<Longrightarrow> foldl append_entry xs ys = xs @ ys"
proof (induction ys arbitrary: xs)
  case (Cons y ys)
  have n: "numbered xs" using numbered_take [OF Cons.prems(1), of "length xs"] Cons.prems(2) by simp
  have y: "le_index y = word_of_nat (length xs)" using numbered_nth [OF Cons.prems(1), of "length xs"] by simp
  have "le_index (last xs) < le_index y"
    using numbered_last [OF n] y numbered_small [OF Cons.prems(1), of "length xs"] numbered_small [OF Cons.prems(1), of "length xs - 1"] Cons.prems(2)
    by (simp add: word_less_nat_alt)
  then have "append_entry xs y = xs @ [y]" by (simp add: append_entry_def)
  then show ?case using Cons.IH [of "xs @ [y]"] Cons.prems by simp
qed simp

lemma numbered_pop:
  assumes "numbered l" "0 < k" "k \<le> length l"
  shows "pop_while (word_of_nat k) l = Some (take k l)"
  using assms
proof (induction "length l" arbitrary: l)
  case (Suc n)
  have last: "le_index (last l) = word_of_nat n" using numbered_last [OF Suc.prems(1)] by (simp add: Suc.hyps(2) [symmetric])
  have le: "word_of_nat k \<le> le_index (last l) \<longleftrightarrow> k \<le> n"
    using last numbered_small [OF Suc.prems(1), of n] numbered_small [OF Suc.prems(1), of k] Suc.prems(3) Suc.hyps(2) by (simp add: word_le_nat_alt)
  show ?case
  proof (cases "k \<le> n")
    case True
    have b: "butlast l = take n l" by (simp add: butlast_conv_take Suc.hyps(2) [symmetric])
    have "numbered (take n l)" by (rule numbered_take) (use Suc.prems True in auto)
    then have "pop_while (word_of_nat k) (take n l) = Some (take k (take n l))"
      using Suc.hyps(1) [of "take n l"] Suc.hyps(2) Suc.prems True by simp
    then show ?thesis using le True b Suc.hyps(2) by (subst pop_while.simps) (auto simp: min_def)
  next
    case False
    then show ?thesis using le Suc.prems(3) Suc.hyps(2) by (subst pop_while.simps) auto
  qed
qed simp

lemma numbered_truncate:
  assumes "numbered l" "0 < k" "k < length l" "le_term (l ! k) \<noteq> t"
  shows "truncate_from (word_of_nat k) t l = Some (take k l)"
proof -
  have k: "k < 2 ^ 63" using assms(1,3) by (simp add: numbered_def)
  have "word_of_nat k \<le> le_index (last l)"
    using numbered_last [OF assms(1)] numbered_small [OF assms(1), of k] numbered_small [OF assms(1), of "length l - 1"] assms(3)
    by (simp add: word_le_nat_alt)
  then show ?thesis
    using assms numbered_find [OF assms(1) k] numbered_pop [OF assms(1,2)] by (subst truncate_from.simps) auto
qed

subsection \<open>What one round does\<close>

text \<open>
  The situation of a leader and a follower that have not compacted their logs; \<open>k\<close> is the next entry the
  leader means to send.  Log matching is Raft's: entries with equal index and term end equal prefixes.
\<close>

definition log_matching :: "log_entry list \<Rightarrow> log_entry list \<Rightarrow> bool" where
  "log_matching a b \<longleftrightarrow> (\<forall>i < min (length a) (length b). le_term (a ! i) = le_term (b ! i) \<longrightarrow> take (Suc i) a = take (Suc i) b)"

definition replicating :: "str \<Rightarrow> nat \<Rightarrow> raft_node \<Rightarrow> raft_node \<Rightarrow> bool" where
  "replicating peer k l f \<longleftrightarrow> rn_state l = LEADER \<and> rn_current_term f \<le> rn_current_term l \<and>
     numbered (rn_log l) \<and> numbered (rn_log f) \<and>
     rn_snapshot_last_index l = 0 \<and> rn_snapshot_last_term l = 0 \<and> rn_snapshot_last_index f = 0 \<and>
     rn_next_index l peer = Some (word_of_nat k) \<and> 0 < k \<and> k \<le> length (rn_log l)"

text \<open>What the handler keeps of the follower, and the term it answers with.\<close>

definition follows :: "raft_node \<Rightarrow> raft_node \<Rightarrow> append_response \<Rightarrow> raft_node \<Rightarrow> bool" where
  "follows l f r f' \<longleftrightarrow> rn_current_term f' = rn_current_term l \<and> ar_term r = rn_current_term l \<and> rn_snapshot_last_index f' = 0"

lemma request_fields:
  assumes "replicating peer k l f"
  shows "next_index_at peer l = (word_of_nat k, l)"
    and "heartbeat_request (word_of_nat k) l = \<lparr> ae_term = rn_current_term l, ae_leader_id = rn_my_id l,
      ae_prev_log_index = word_of_nat (k - 1), ae_prev_log_term = le_term (rn_log l ! (k - 1)),
      ae_entries = drop k (rn_log l), ae_leader_commit = rn_commit_index l \<rparr>"
proof -
  note a = assms [unfolded replicating_def]
  show "next_index_at peer l = (word_of_nat k, l)" using a by (simp add: next_index_at_def)
  have w: "(word_of_nat k :: u64) - 1 = word_of_nat (k - 1)" using a by (simp add: of_nat_diff)
  have u: "unat (word_of_nat (k - 1) :: u64) = k - 1" using a by (intro numbered_small [of "rn_log l"]) auto
  have "k - 1 < 2 ^ 63" "k - 1 < length (rn_log l)" using a by (auto simp: numbered_def)
  with numbered_find [of "rn_log l" "k - 1"] a have g: "GetLogEntry (word_of_nat (k - 1)) l = Some (rn_log l ! (k - 1))"
    unfolding GetLogEntry_def by metis
  have z: "0 < (word_of_nat (k - 1) :: u64) \<longleftrightarrow> k - 1 \<noteq> 0" using u by (auto simp: word_less_nat_alt)
  have "rn_log l ! 0 = dummy_entry" using a numbered_0 by blast
  then have prev: "(if rn_snapshot_last_index l < word_of_nat k - 1
       then (case GetLogEntry (word_of_nat k - 1) l of None \<Rightarrow> 0 | Some e \<Rightarrow> le_term e)
       else if word_of_nat k - 1 = rn_snapshot_last_index l then rn_snapshot_last_term l else 0) = le_term (rn_log l ! (k - 1))"
    unfolding w using a g z by (cases "k - 1 = 0") (auto simp: dummy_entry_def)
  show "heartbeat_request (word_of_nat k) l = \<lparr> ae_term = rn_current_term l, ae_leader_id = rn_my_id l,
      ae_prev_log_index = word_of_nat (k - 1), ae_prev_log_term = le_term (rn_log l ! (k - 1)),
      ae_entries = drop k (rn_log l), ae_leader_commit = rn_commit_index l \<rparr>"
    unfolding heartbeat_request_def Let_def prev using a numbered_drop [of "rn_log l" k] w by simp
qed

lemma handler_start:
  assumes "rn_current_term f \<le> ae_term req" and "numbered (rn_log f)" and "rn_snapshot_last_index f = 0"
  obtains m b where "HandleAppendEntries sender req f = ae_check_log req m" "log_back m = Some b"
    "le_index b = word_of_nat (length (rn_log f) - 1)" "rn_log m = rn_log f" "rn_current_term m = ae_term req"
    "ar_term (rn_ae_resp m) = ae_term req" "rn_snapshot_last_index m = 0" "rn_commit_index m = rn_commit_index f"
    "rn_last_applied m = rn_last_applied f" "rn_events m = rn_events f" "rn_apply_cb m = rn_apply_cb f"
proof -
  define m where "m = ae_enter sender req (f\<lparr> rn_ae_resp := (rn_ae_resp f)\<lparr> ar_term := rn_current_term f \<rparr> \<rparr>)"
  have log: "rn_log m = rn_log f" by (simp add: m_def)
  with numbered_back [of m] assms(2) obtain b where b: "log_back m = Some b" "le_index b = word_of_nat (length (rn_log f) - 1)" by auto
  show thesis
  proof (rule that [OF _ b log])
    show "HandleAppendEntries sender req f = ae_check_log req m"
      using leD [OF assms(1)] by (simp add: HandleAppendEntries_def Let_def m_def)
    show "rn_current_term m = ae_term req" "ar_term (rn_ae_resp m) = ae_term req"
      using assms(1) by (auto simp: m_def ae_enter_def Let_def)
    show "rn_snapshot_last_index m = 0" "rn_commit_index m = rn_commit_index f" "rn_last_applied m = rn_last_applied f"
      "rn_events m = rn_events f" "rn_apply_cb m = rn_apply_cb f"
      using assms(3) by (simp_all add: m_def ae_enter_def Let_def)
  qed
qed

lemma accept_fields:
  assumes "ae_accept req m = Some (r, f')"
  shows "rn_current_term f' = rn_current_term m" "rn_snapshot_last_index f' = rn_snapshot_last_index m"
    "ar_term r = ar_term (rn_ae_resp m)" "ar_success r" "log_back f' = Some b \<Longrightarrow> ar_match_index r = le_index b"
  using assms core_fields [OF core_follower_commit]
  by (auto simp: ae_accept_def Let_def bind_eq_Some_conv log_back_def split: if_splits)

lemma replication_start:
  assumes "replicating peer k l f"
  obtains m b where "HandleAppendEntries (rn_my_id l) (heartbeat_request (word_of_nat k) l) f = ae_check_log (heartbeat_request (word_of_nat k) l) m"
    "log_back m = Some b" "le_index b = word_of_nat (length (rn_log f) - 1)" "rn_log m = rn_log f" "rn_current_term m = rn_current_term l"
    "ar_term (rn_ae_resp m) = rn_current_term l" "rn_snapshot_last_index m = 0" "rn_commit_index m = rn_commit_index f"
    "rn_last_applied m = rn_last_applied f" "rn_events m = rn_events f" "rn_apply_cb m = rn_apply_cb f"
proof -
  have t: "ae_term (heartbeat_request (word_of_nat k) l) = rn_current_term l" using request_fields(2) [OF assms] by simp
  have "rn_current_term f \<le> ae_term (heartbeat_request (word_of_nat k) l)" "numbered (rn_log f)" "rn_snapshot_last_index f = 0"
    using assms unfolding t replicating_def by simp_all
  from handler_start [OF this, of "rn_my_id l", unfolded t] that show thesis by metis
qed

text \<open>The three answers of a follower: it is too short, its entry conflicts, or it takes over the leader's log.\<close>

lemma append_too_short:
  assumes "replicating peer k l f" "length (rn_log f) < k"
  shows "\<exists>r f'. HandleAppendEntries (rn_my_id l) (heartbeat_request (word_of_nat k) l) f = Some (r, f') \<and> follows l f r f' \<and>
    rn_log f' = rn_log f \<and> \<not> ar_success r \<and> ar_match_index r = word_of_nat (length (rn_log f) - 1)"
proof -
  note a = assms(1) [unfolded replicating_def] and req = request_fields(2) [OF assms(1)]
  obtain m b where m: "HandleAppendEntries (rn_my_id l) (heartbeat_request (word_of_nat k) l) f = ae_check_log (heartbeat_request (word_of_nat k) l) m"
    "log_back m = Some b" "le_index b = word_of_nat (length (rn_log f) - 1)" "rn_log m = rn_log f" "rn_current_term m = rn_current_term l"
    "ar_term (rn_ae_resp m) = rn_current_term l" "rn_snapshot_last_index m = 0"
    by (rule replication_start [OF assms(1)])
  have "unat (word_of_nat (length (rn_log f) - 1) :: u64) = length (rn_log f) - 1" using a by (intro numbered_small [of "rn_log f"]) auto
  moreover have "unat (word_of_nat (k - 1) :: u64) = k - 1" using a by (intro numbered_small [of "rn_log l"]) auto
  moreover have "length (rn_log f) \<noteq> 0" using a by (simp add: numbered_def)
  ultimately have "le_index b < word_of_nat (k - 1)" unfolding m(3) word_less_nat_alt using assms(2) by linarith
  with m req show ?thesis by (simp add: ae_check_log_def ae_refuse_def follows_def Let_def)
qed

lemma GetLogEntry_prev:
  assumes "replicating peer k l f" "k \<le> length (rn_log f)" "rn_log m = rn_log f"
  shows "GetLogEntry (word_of_nat (k - 1)) m = Some (rn_log f ! (k - 1))"
proof -
  have "k - 1 < length (rn_log f)" "numbered (rn_log f)" using assms(1,2) by (auto simp: replicating_def)
  moreover from this have "k - 1 < 2 ^ 63" by (simp add: numbered_def)
  ultimately show ?thesis using numbered_find [of "rn_log f" "k - 1"] unfolding GetLogEntry_def assms(3) by presburger
qed

lemma reaches_back:
  assumes "replicating peer k l f" "k \<le> length (rn_log f)"
  shows "\<not> (word_of_nat (length (rn_log f) - 1) :: u64) < word_of_nat (k - 1)"
proof -
  have "unat (word_of_nat (length (rn_log f) - 1) :: u64) = length (rn_log f) - 1" using assms(1) by (intro numbered_small [of "rn_log f"]) (auto simp: replicating_def)
  moreover have "unat (word_of_nat (k - 1) :: u64) = k - 1"
    using assms(1) by (intro numbered_small [of "rn_log l"]) (auto simp: replicating_def)
  ultimately show ?thesis unfolding word_less_nat_alt using assms(2) by simp
qed

lemma append_conflict:
  assumes "replicating peer k l f" "k \<le> length (rn_log f)" "le_term (rn_log f ! (k - 1)) \<noteq> le_term (rn_log l ! (k - 1))"
  shows "1 < k" "\<exists>r f'. HandleAppendEntries (rn_my_id l) (heartbeat_request (word_of_nat k) l) f = Some (r, f') \<and> follows l f r f' \<and>
    rn_log f' = take (k - 1) (rn_log f) \<and> \<not> ar_success r \<and> ar_match_index r = word_of_nat (k - 2)"
proof -
  note a = assms(1) [unfolded replicating_def] and req = request_fields(2) [OF assms(1)]
  have "rn_log f ! 0 = rn_log l ! 0" using a numbered_0 by metis
  then show k: "1 < k" using assms(3) a by (cases "k = 1") auto
  obtain m b where m: "HandleAppendEntries (rn_my_id l) (heartbeat_request (word_of_nat k) l) f = ae_check_log (heartbeat_request (word_of_nat k) l) m"
    "log_back m = Some b" "le_index b = word_of_nat (length (rn_log f) - 1)" "rn_log m = rn_log f" "rn_current_term m = rn_current_term l"
    "ar_term (rn_ae_resp m) = rn_current_term l" "rn_snapshot_last_index m = 0"
    by (rule replication_start [OF assms(1)])
  have t: "truncate_from (word_of_nat (k - 1)) (le_term (rn_log l ! (k - 1))) (rn_log m) = Some (take (k - 1) (rn_log f))"
    unfolding m(4) by (rule numbered_truncate) (use a k assms(2,3) in auto)
  have n: "numbered (take (k - 1) (rn_log f))" by (rule numbered_take) (use a k in auto)
  obtain c where c: "log_back (m\<lparr> rn_log := take (k - 1) (rn_log f) \<rparr>) = Some c" "le_index c = word_of_nat (k - 2)"
    using numbered_back [of "m\<lparr> rn_log := take (k - 1) (rn_log f) \<rparr>"] n assms(2) by (auto simp: min_def numeral_2_eq_2)
  have "ae_check_log (heartbeat_request (word_of_nat k) l) m = ae_truncate (heartbeat_request (word_of_nat k) l) m"
    using m(2,3,7) reaches_back [OF assms(1,2)] GetLogEntry_prev [OF assms(1,2) m(4)] assms(3) unfolding ae_check_log_def req by simp
  moreover have "\<exists>r f'. ae_truncate (heartbeat_request (word_of_nat k) l) m = Some (r, f') \<and> follows l f r f' \<and>
      rn_log f' = take (k - 1) (rn_log f) \<and> \<not> ar_success r \<and> ar_match_index r = word_of_nat (k - 2)"
    unfolding ae_truncate_def req using t c m(5-7) by (simp add: ae_refuse_def follows_def Let_def)
  ultimately show "\<exists>r f'. HandleAppendEntries (rn_my_id l) (heartbeat_request (word_of_nat k) l) f = Some (r, f') \<and> follows l f r f' \<and>
    rn_log f' = take (k - 1) (rn_log f) \<and> \<not> ar_success r \<and> ar_match_index r = word_of_nat (k - 2)" unfolding m(1) by simp
qed

lemma check_accepts:
  assumes "replicating peer k l f" "k \<le> length (rn_log f)" "le_term (rn_log f ! (k - 1)) = le_term (rn_log l ! (k - 1))"
    and "log_back m = Some b" "le_index b = word_of_nat (length (rn_log f) - 1)" "rn_log m = rn_log f" "rn_snapshot_last_index m = 0"
  shows "ae_check_log (heartbeat_request (word_of_nat k) l) m = ae_accept (heartbeat_request (word_of_nat k) l) m"
  using assms(3-5,7) reaches_back [OF assms(1,2)] GetLogEntry_prev [OF assms(1,2,6)]
  unfolding ae_check_log_def request_fields(2) [OF assms(1)] by simp

lemma append_match:
  assumes "replicating peer k l f" "k \<le> length (rn_log f)" "le_term (rn_log f ! (k - 1)) = le_term (rn_log l ! (k - 1))"
  shows "\<exists>r f'. HandleAppendEntries (rn_my_id l) (heartbeat_request (word_of_nat k) l) f = Some (r, f') \<and> follows l f r f' \<and>
    rn_log f' = foldl append_entry (rn_log f) (drop k (rn_log l)) \<and> ar_success r \<and> ar_match_index r = le_index (last (rn_log f'))"
proof -
  note a = assms(1) [unfolded replicating_def] and req = request_fields(2) [OF assms(1)]
  obtain m b where m: "HandleAppendEntries (rn_my_id l) (heartbeat_request (word_of_nat k) l) f = ae_check_log (heartbeat_request (word_of_nat k) l) m"
    "log_back m = Some b" "le_index b = word_of_nat (length (rn_log f) - 1)" "rn_log m = rn_log f" "rn_current_term m = rn_current_term l"
    "ar_term (rn_ae_resp m) = rn_current_term l" "rn_snapshot_last_index m = 0"
    by (rule replication_start [OF assms(1)])
  have "ae_check_log (heartbeat_request (word_of_nat k) l) m = ae_accept (heartbeat_request (word_of_nat k) l) m"
    by (rule check_accepts [OF assms m(2-4,7)])
  moreover have ne: "foldl append_entry xs ys \<noteq> []" if "xs \<noteq> []" for xs ys
    using that by (induction ys arbitrary: xs) (auto simp: append_entry_def)
  moreover have "rn_log f \<noteq> []" using a by (simp add: numbered_def)
  ultimately have ex: "\<exists>r f'. ae_accept (heartbeat_request (word_of_nat k) l) m = Some (r, f')"
    using m(2,4) by (auto simp: ae_accept_def log_back_def Let_def)
  then obtain r f' where acc: "ae_accept (heartbeat_request (word_of_nat k) l) m = Some (r, f')" by blast
  have log: "rn_log f' = foldl append_entry (rn_log f) (drop k (rn_log l))" using ae_accept_log [OF acc] m(4) req by simp
  then have "log_back f' = Some (last (rn_log f'))" using ne \<open>rn_log f \<noteq> []\<close> by (simp add: log_back_def)
  from accept_fields(5) [OF acc this] accept_fields(1-4) [OF acc] log acc m \<open>ae_check_log _ m = _\<close> show ?thesis
    by (simp add: follows_def)
qed

text \<open>The leader's reaction.\<close>

lemma leader_refused:
  assumes "rn_state l = LEADER" "ar_term r = rn_current_term l" "\<not> ar_success r" "ar_match_index r = word_of_nat i"
    "rn_next_index l peer = Some (word_of_nat k)" "i + 1 < k" "k < 2 ^ 63" "rn_snapshot_last_index l = 0"
  shows "HandleAppendEntriesResponse peer r l = Some (l\<lparr> rn_next_index := (rn_next_index l)(peer \<mapsto> word_of_nat (i + 1)) \<rparr>)"
proof -
  have u: "unat (word_of_nat i :: u64) = i" "unat (word_of_nat (i + 1) :: u64) = i + 1" "unat (word_of_nat k :: u64) = k"
    by (rule unat_of_nat_u64; use assms(6,7) in simp)+
  have "(word_of_nat i :: u64) < word_of_nat k" unfolding word_less_nat_alt u using assms(6) by simp
  moreover have "1 \<le> (word_of_nat (i + 1) :: u64)" unfolding word_le_nat_alt u by simp
  ultimately show ?thesis
    using assms by (auto simp: HandleAppendEntriesResponse_def next_index_at_def Let_def max_def add.commute)
qed

lemma leader_accepted:
  assumes "rn_state l = LEADER" "ar_term r = rn_current_term l" "ar_success r" "rn_log l \<noteq> []"
  shows "\<exists>l'. HandleAppendEntriesResponse peer r l = Some l' \<and> rn_log l' = rn_log l \<and> rn_state l' = LEADER \<and>
    rn_match_index l' peer = Some (ar_match_index r) \<and> rn_current_term l' = rn_current_term l"
proof -
  define m where "m = l\<lparr> rn_match_index := (rn_match_index l)(peer \<mapsto> ar_match_index r),
    rn_next_index := (rn_next_index l)(peer \<mapsto> ar_match_index r + 1) \<rparr>"
  have "log_back m = Some (last (rn_log l))" using assms(4) by (simp add: log_back_def m_def)
  then obtain l' where l': "AdvanceCommitIndex m = Some l'" by (simp add: AdvanceCommitIndex_def)
  with core_fields [OF core_AdvanceCommitIndex [OF l']] AdvanceCommitIndex_next [OF l'] assms show ?thesis
    by (simp add: HandleAppendEntriesResponse_def m_def)
qed

lemma replicate_to_run:
  assumes "replicating peer k l f" "HandleAppendEntries (rn_my_id l) (heartbeat_request (word_of_nat k) l) f = Some (r, f')"
    "HandleAppendEntriesResponse peer r l = Some l'"
  shows "replicate_to peer l f = Some (l', f')"
proof -
  have "ae_leader_id (heartbeat_request (word_of_nat k) l) = rn_my_id l" by (simp add: heartbeat_request_def Let_def)
  with assms(2,3) show ?thesis by (simp add: replicate_to_def request_fields(1) [OF assms(1)])
qed

text \<open>A round that fails leaves the pair in the same situation, with an earlier \<open>k\<close> and a follower without entries from there on.\<close>

lemma failed_round:
  assumes "replicating peer k l f" "log_matching (rn_log l) (rn_log f)" "k \<le> length (rn_log f) \<Longrightarrow> le_term (rn_log f ! (k - 1)) \<noteq> le_term (rn_log l ! (k - 1))"
  shows "\<exists>l' f'. replicate_to peer l f = Some (l', f') \<and> replicating peer (length (rn_log f')) l' f' \<and> log_matching (rn_log l') (rn_log f') \<and>
    rn_log l' = rn_log l \<and> length (rn_log f') < k \<and> length (rn_log f') \<le> length (rn_log f) \<and> (k \<le> length (rn_log f) \<longrightarrow> length (rn_log f') = k - 1)"
proof -
  note a = assms(1) [unfolded replicating_def]
  have small: "k < 2 ^ 63" using a by (simp add: numbered_def)
  show ?thesis
  proof (cases "length (rn_log f) < k")
    case True
    obtain r f' where r: "HandleAppendEntries (rn_my_id l) (heartbeat_request (word_of_nat k) l) f = Some (r, f')" "follows l f r f'"
      "rn_log f' = rn_log f" "\<not> ar_success r" "ar_match_index r = word_of_nat (length (rn_log f) - 1)"
      using append_too_short [OF assms(1) True] by blast
    have pos: "0 < length (rn_log f)" using a by (simp add: numbered_def)
    let ?l = "l\<lparr> rn_next_index := (rn_next_index l)(peer \<mapsto> word_of_nat (length (rn_log f) - 1 + 1)) \<rparr>"
    have "HandleAppendEntriesResponse peer r l = Some ?l"
      by (rule leader_refused [where k = k]) (use a r True small pos in \<open>auto simp: follows_def simp del: of_nat_diff\<close>)
    from replicate_to_run [OF assms(1) r(1) this] show ?thesis
      using a r(2,3) True pos assms(2) by (intro exI [of _ ?l] exI [of _ f']) (auto simp: replicating_def follows_def)
  next
    case False
    then have le: "k \<le> length (rn_log f)" by simp
    from append_conflict [OF assms(1) le assms(3) [OF le]] obtain r f' where k: "1 < k" and
      r: "HandleAppendEntries (rn_my_id l) (heartbeat_request (word_of_nat k) l) f = Some (r, f')" "follows l f r f'"
      "rn_log f' = take (k - 1) (rn_log f)" "\<not> ar_success r" "ar_match_index r = word_of_nat (k - 2)" by blast
    let ?l = "l\<lparr> rn_next_index := (rn_next_index l)(peer \<mapsto> word_of_nat (k - 2 + 1)) \<rparr>"
    have "HandleAppendEntriesResponse peer r l = Some ?l"
      by (rule leader_refused [where k = k]) (use a r k small in \<open>auto simp: follows_def simp del: of_nat_diff\<close>)
    note step = replicate_to_run [OF assms(1) r(1) this]
    have len: "length (rn_log f') = k - 1" using r(3) le by simp
    have "numbered (rn_log f')" unfolding r(3) by (rule numbered_take) (use a k in auto)
    moreover have "log_matching (rn_log l) (rn_log f')"
      using assms(2) unfolding log_matching_def r(3) by (auto simp: min_def)
    moreover have "k - 2 + 1 = k - 1" using k by simp
    ultimately show ?thesis using step a r(2) k len le
      by (intro exI [of _ ?l] exI [of _ f']) (auto simp: replicating_def follows_def)
  qed
qed

lemma accepted_round:
  assumes "replicating peer k l f" "log_matching (rn_log l) (rn_log f)" "k = length (rn_log f)" "le_term (rn_log f ! (k - 1)) = le_term (rn_log l ! (k - 1))"
  shows "\<exists>l' f'. replicate_to peer l f = Some (l', f') \<and> rn_log f' = rn_log l \<and> rn_log l' = rn_log l \<and> rn_state l' = LEADER \<and>
    rn_match_index l' peer = Some (word_of_nat (length (rn_log l) - 1)) \<and> rn_current_term f' = rn_current_term l \<and> rn_current_term l' = rn_current_term l"
proof -
  note a = assms(1) [unfolded replicating_def]
  have le: "k \<le> length (rn_log f)" and k: "k - 1 < min (length (rn_log l)) (length (rn_log f))" using a assms(3) by auto
  obtain r f' where r: "HandleAppendEntries (rn_my_id l) (heartbeat_request (word_of_nat k) l) f = Some (r, f')" "follows l f r f'"
      "rn_log f' = foldl append_entry (rn_log f) (drop k (rn_log l))" "ar_success r" "ar_match_index r = le_index (last (rn_log f'))"
    using append_match [OF assms(1) le assms(4)] by blast
  have "take (Suc (k - 1)) (rn_log l) = take (Suc (k - 1)) (rn_log f)" using assms(2,4) k unfolding log_matching_def by metis
  then have pre: "rn_log f = take k (rn_log l)" using a assms(3) by simp
  have "numbered (take k (rn_log l) @ drop k (rn_log l))" "take k (rn_log l) \<noteq> []" using a by auto
  from numbered_append [OF this] have log: "rn_log f' = rn_log l" unfolding r(3) pre by simp
  then have "ar_match_index r = word_of_nat (length (rn_log l) - 1)" unfolding r(5) using a numbered_last by metis
  moreover have "rn_log l \<noteq> []" using a by (simp add: numbered_def)
  moreover have "ar_term r = rn_current_term l" using r(2) by (simp add: follows_def)
  ultimately obtain l' where "HandleAppendEntriesResponse peer r l = Some l'" "rn_log l' = rn_log l" "rn_state l' = LEADER"
    "rn_match_index l' peer = Some (word_of_nat (length (rn_log l) - 1))" "rn_current_term l' = rn_current_term l"
    using leader_accepted [of l r peer] a r(4) by metis
  with replicate_to_run [OF assms(1) r(1)] log r(2) show ?thesis by (auto simp: follows_def)
qed

lemma rounds_step: "replicate_to peer l f = Some (l1, f1) \<Longrightarrow> rounds peer n l1 f1 = Some res \<Longrightarrow> rounds peer (Suc n) l f = Some res"
  by simp

text \<open>From the point where the follower has exactly the entries below the next one, at most one round per entry is needed.\<close>

lemma catches_up_from:
  assumes "replicating peer (length (rn_log f)) l f" "log_matching (rn_log l) (rn_log f)"
  shows "\<exists>n l' f'. n \<le> length (rn_log f) \<and> rounds peer n l f = Some (l', f') \<and> rn_log f' = rn_log l \<and> rn_log l' = rn_log l \<and> rn_state l' = LEADER \<and>
    rn_match_index l' peer = Some (word_of_nat (length (rn_log l) - 1)) \<and> rn_current_term f' = rn_current_term l'"
  using assms
proof (induction "length (rn_log f)" arbitrary: l f rule: less_induct)
  case less
  let ?k = "length (rn_log f)"
  show ?case
  proof (cases "le_term (rn_log f ! (?k - 1)) = le_term (rn_log l ! (?k - 1))")
    case True
    from accepted_round [OF less.prems refl True] obtain l' f' where step: "replicate_to peer l f = Some (l', f')" "rn_log f' = rn_log l" "rn_log l' = rn_log l"
      "rn_state l' = LEADER" "rn_match_index l' peer = Some (word_of_nat (length (rn_log l) - 1))" "rn_current_term f' = rn_current_term l'" by auto
    have "rounds peer (Suc 0) l f = Some (l', f')" by (rule rounds_step [OF step(1)]) simp
    moreover have "Suc 0 \<le> ?k" using less.prems(1) by (simp add: replicating_def Suc_le_eq)
    ultimately show ?thesis using step(2-6) by blast
  next
    case False
    from failed_round [OF less.prems False] obtain l1 f1 where step: "replicate_to peer l f = Some (l1, f1)"
      "replicating peer (length (rn_log f1)) l1 f1" "log_matching (rn_log l1) (rn_log f1)" "rn_log l1 = rn_log l" "length (rn_log f1) < ?k" by blast
    from less.hyps [OF step(5,2,3)] obtain n l' f' where n: "n \<le> length (rn_log f1)" "rounds peer n l1 f1 = Some (l', f')" and
      rest: "rn_log f' = rn_log l1 \<and> rn_log l' = rn_log l1 \<and> rn_state l' = LEADER \<and> rn_match_index l' peer = Some (word_of_nat (length (rn_log l1) - 1)) \<and> rn_current_term f' = rn_current_term l'"
      by blast
    have "rounds peer (Suc n) l f = Some (l', f')" by (rule rounds_step [OF step(1) n(2)])
    moreover have "Suc n \<le> ?k" using n(1) step(5) by simp
    ultimately show ?thesis using rest step(4) by metis
  qed
qed

text \<open>
  C5: a follower that is behind catches up.  Let the leader's term be at least the follower's, neither log
  be compacted, both logs be numbered from the sentinel on, the logs match in Raft's sense (entries with
  equal index and term are equal with all before them), \<open>k\<close> be the next index the leader has for the
  follower, and let the follower hold nothing from position \<open>k\<close> on, or hold an entry of another term just
  before it.  Then at most as many rounds as the follower has entries, and two more (one more than the
  length of its log with the sentinel), make the follower's log equal to the leader's; the leader still
  leads, its log is unchanged, and its match index for the follower is its last index.  Without the last
  condition a follower may keep a conflicting entry for good, see the section below.
\<close>

theorem follower_catches_up:
  assumes "replicating peer k l f" and "log_matching (rn_log l) (rn_log f)"
    and "length (rn_log f) \<le> k \<or> le_term (rn_log f ! (k - 1)) \<noteq> le_term (rn_log l ! (k - 1))"
  shows "\<exists>n l' f'. n \<le> length (rn_log f) + 1 \<and> rounds peer n l f = Some (l', f') \<and> rn_log f' = rn_log l \<and> rn_log l' = rn_log l \<and> rn_state l' = LEADER \<and>
    rn_match_index l' peer = Some (word_of_nat (length (rn_log l) - 1)) \<and> rn_current_term f' = rn_current_term l'"
proof (cases "k = length (rn_log f)")
  case True
  from catches_up_from [of peer f l] assms(1,2) True show ?thesis by (metis le_SucI Suc_eq_plus1)
next
  case False
  with assms(3) have "k \<le> length (rn_log f) \<Longrightarrow> le_term (rn_log f ! (k - 1)) \<noteq> le_term (rn_log l ! (k - 1))" by auto
  from failed_round [OF assms(1,2) this] obtain l1 f1 where step: "replicate_to peer l f = Some (l1, f1)"
    "replicating peer (length (rn_log f1)) l1 f1" "log_matching (rn_log l1) (rn_log f1)" "rn_log l1 = rn_log l"
    "length (rn_log f1) \<le> length (rn_log f)" by blast
  from catches_up_from [OF step(2,3)] obtain n l' f' where n: "n \<le> length (rn_log f1)" "rounds peer n l1 f1 = Some (l', f')" and
    rest: "rn_log f' = rn_log l1 \<and> rn_log l' = rn_log l1 \<and> rn_state l' = LEADER \<and> rn_match_index l' peer = Some (word_of_nat (length (rn_log l1) - 1)) \<and> rn_current_term f' = rn_current_term l'"
    by blast
  have "rounds peer (Suc n) l f = Some (l', f')" by (rule rounds_step [OF step(1) n(2)])
  moreover have "Suc n \<le> length (rn_log f) + 1" using n(1) step(5) by simp
  ultimately show ?thesis using rest step(4) by metis
qed

text \<open>A follower with a conflicting entry at index 2 and a leader that means to send index 3 next.\<close>

theorem follower_catches_up_witness:
  "\<exists>n l' f'. n \<le> 4 \<and> rounds [98] n
     ((RaftNode_new [97] [[97], [98]] None None)\<lparr> rn_state := LEADER, rn_current_term := 3, rn_next_index := [[98] \<mapsto> 3], rn_log :=
        [dummy_entry, \<lparr> le_term = 1, le_index = 1, le_command = [65] \<rparr>, \<lparr> le_term = 2, le_index = 2, le_command = [66] \<rparr>,
         \<lparr> le_term = 3, le_index = 3, le_command = [67] \<rparr>] \<rparr>)
     ((RaftNode_new [98] [[97], [98]] None None)\<lparr> rn_current_term := 2, rn_log :=
        [dummy_entry, \<lparr> le_term = 1, le_index = 1, le_command = [65] \<rparr>, \<lparr> le_term = 1, le_index = 2, le_command = [90] \<rparr>] \<rparr>) = Some (l', f') \<and>
     map le_command (rn_log f') = [[], [65], [66], [67]] \<and> rn_match_index l' [98] = Some 3"
proof -
  let ?l = "(RaftNode_new [97] [[97], [98]] None None)\<lparr> rn_state := LEADER, rn_current_term := 3, rn_next_index := [[98] \<mapsto> 3], rn_log :=
        [dummy_entry, \<lparr> le_term = 1, le_index = 1, le_command = [65] \<rparr>, \<lparr> le_term = 2, le_index = 2, le_command = [66] \<rparr>,
         \<lparr> le_term = 3, le_index = 3, le_command = [67] \<rparr>] \<rparr>"
  let ?f = "(RaftNode_new [98] [[97], [98]] None None)\<lparr> rn_current_term := 2, rn_log :=
        [dummy_entry, \<lparr> le_term = 1, le_index = 1, le_command = [65] \<rparr>, \<lparr> le_term = 1, le_index = 2, le_command = [90] \<rparr>] \<rparr>"
  have "replicating [98] 3 ?l ?f" by (simp add: replicating_def numbered_def RaftNode_new_def dummy_entry_def upt_rec)
  moreover have "log_matching (rn_log ?l) (rn_log ?f)"
    by (auto simp: log_matching_def dummy_entry_def less_Suc_eq numeral_3_eq_3)
  moreover have "length (rn_log ?f) \<le> 3 \<or> le_term (rn_log ?f ! (3 - 1)) \<noteq> le_term (rn_log ?l ! (3 - 1))" by simp
  ultimately obtain n l' f' where "n \<le> length (rn_log ?f) + 1" "rounds [98] n ?l ?f = Some (l', f')" "rn_log f' = rn_log ?l"
    "rn_match_index l' [98] = Some (word_of_nat (length (rn_log ?l) - 1))" using follower_catches_up [of "[98]" 3 ?l ?f] by blast
  then show ?thesis by (intro exI [of _ n] exI [of _ l'] exI [of _ f']) (simp add: dummy_entry_def)
qed

subsection \<open>A conflicting entry behind a matching one\<close>

lemma ApplyCommitted_extends: "\<exists>rest. rn_events (ApplyCommitted up n) = rn_events n @ rest"
proof (induction up n rule: ApplyCommitted.induct)
  case (1 up n)
  then show ?case by (subst ApplyCommitted.simps) (auto simp: apply_one_events)
qed

lemma apply_next:
  assumes "rn_last_applied n < up"
  shows "\<exists>rest. rn_events (ApplyCommitted up n) = rn_events n @ applied_events n (rn_last_applied n + 1) @ rest"
proof -
  have "ApplyCommitted up n = ApplyCommitted up (apply_one n)" using assms by (subst ApplyCommitted.simps) simp
  then show ?thesis using ApplyCommitted_extends [of up "apply_one n"] by (simp add: apply_one_events)
qed

text \<open>What \<open>ae_accept\<close> does to the commit index and the state machine of a follower that was up to date with itself.\<close>

lemma accept_applies:
  assumes "ae_accept req m = Some (r, f')" "numbered (rn_log f')" "k < length (rn_log f')"
    "rn_last_applied m = word_of_nat (k - 1)" "rn_commit_index m = word_of_nat (k - 1)" "0 < k" "word_of_nat k \<le> ae_leader_commit req"
    "rn_apply_cb m" "le_command (rn_log f' ! k) \<noteq> []"
  shows "\<exists>rest. rn_events f' = rn_events m @ Applied (word_of_nat k) (le_command (rn_log f' ! k)) # rest"
proof -
  define n1 where "n1 = PersistState (m\<lparr> rn_log := foldl append_entry (rn_log m) (ae_entries req) \<rparr>)"
  define c where "c = min (ae_leader_commit req) (word_of_nat (length (rn_log f') - 1))"
  have n1: "rn_log n1 = rn_log f'" using ae_accept_log [OF assms(1)] by (simp add: n1_def)
  then obtain b where b: "log_back n1 = Some b" "le_index b = word_of_nat (length (rn_log f') - 1)"
    using numbered_back [of n1] assms(2) by auto
  have u: "unat (word_of_nat k :: u64) = k" "unat (word_of_nat (k - 1) :: u64) = k - 1"
    by (rule numbered_small [OF assms(2)]; use assms(3) in simp)+
  have "(word_of_nat k :: u64) \<le> word_of_nat (length (rn_log f') - 1)"
    using u(1) numbered_small [OF assms(2), of "length (rn_log f') - 1"] assms(3) by (simp add: word_le_nat_alt del: of_nat_diff)
  then have kc: "word_of_nat k \<le> c" using assms(7) by (simp add: c_def)
  have lt: "(word_of_nat (k - 1) :: u64) < word_of_nat k" unfolding word_less_nat_alt u using assms(6) by simp
  define n2 where "n2 = n1\<lparr> rn_commit_index := c \<rparr>"
  have "rn_commit_index n1 < ae_leader_commit req" "rn_commit_index n1 < c"
    using assms(5,7) lt kc by (auto simp: n1_def intro: less_le_trans)
  then have fc: "follower_commit (ae_leader_commit req) (le_index b) n1 = ApplyCommitted c n2"
    unfolding b(2) by (simp add: follower_commit_def Let_def c_def n2_def del: of_nat_diff)
  have ev: "rn_events f' = rn_events (ApplyCommitted c n2)"
    using assms(1) b(1) fc unfolding ae_accept_def n1_def [symmetric] by (auto simp: Let_def bind_eq_Some_conv)
  have n2: "rn_last_applied n2 = word_of_nat (k - 1)" "rn_events n2 = rn_events m" "rn_log n2 = rn_log f'" "rn_apply_cb n2"
    using assms(4,8) n1 by (simp_all add: n2_def n1_def)
  have "rn_last_applied n2 < c" unfolding n2(1) using lt kc by (rule less_le_trans)
  from apply_next [OF this] obtain rest where
    rest: "rn_events (ApplyCommitted c n2) = rn_events n2 @ applied_events n2 (rn_last_applied n2 + 1) @ rest" by blast
  have "k < 2 ^ 63" using assms(2,3) by (simp add: numbered_def)
  with numbered_find [OF assms(2), of k] assms(3) have "GetLogEntry (word_of_nat k) n2 = Some (rn_log f' ! k)"
    unfolding GetLogEntry_def n2(3) by simp
  moreover have "rn_last_applied n2 + 1 = word_of_nat k" using n2(1) assms(6) by (simp add: of_nat_diff)
  ultimately have "applied_events n2 (rn_last_applied n2 + 1) = [Applied (word_of_nat k) (le_command (rn_log f' ! k))]"
    using n2(4) assms(9) by (simp add: applied_events_def)
  with rest ev n2(2) show ?thesis by simp
qed

text \<open>A follower with an entry of its own at \<open>k\<close> keeps it, and takes what comes behind.\<close>

lemma conflicting_log:
  assumes "replicating peer k l f" "length (rn_log f) = k + 1" "k < length (rn_log l)"
  shows "numbered (rn_log f @ drop (Suc k) (rn_log l))"
    and "foldl append_entry (rn_log f) (drop k (rn_log l)) = rn_log f @ drop (Suc k) (rn_log l)"
proof -
  note a = assms(1) [unfolded replicating_def]
  have idx: "map le_index (rn_log f @ drop (Suc k) (rn_log l)) = map word_of_nat [0..<length (rn_log l)]"
  proof (rule nth_equalityI)
    show "length (map le_index (rn_log f @ drop (Suc k) (rn_log l))) = length (map word_of_nat [0..<length (rn_log l)] :: u64 list)"
      using assms(2,3) by simp
    show "map le_index (rn_log f @ drop (Suc k) (rn_log l)) ! i = map word_of_nat [0..<length (rn_log l)] ! i"
      if "i < length (map le_index (rn_log f @ drop (Suc k) (rn_log l)))" for i
      using that numbered_nth [of "rn_log f" i] numbered_nth [of "rn_log l" i] a assms(2,3) by (auto simp: nth_append)
  qed
  show num: "numbered (rn_log f @ drop (Suc k) (rn_log l))"
    using a idx assms(2,3) by (auto simp: numbered_def simp del: map_append)
  have split: "drop k (rn_log l) = rn_log l ! k # drop (Suc k) (rn_log l)" using assms(3) by (simp add: Cons_nth_drop_Suc)
  have "append_entry (rn_log f) (rn_log l ! k) = rn_log f"
    using numbered_last [of "rn_log f"] numbered_nth [of "rn_log l" k] a assms(2,3) by (simp add: append_entry_def)
  then have "foldl append_entry (rn_log f) (drop k (rn_log l)) = foldl append_entry (rn_log f) (drop (Suc k) (rn_log l))"
    unfolding split by simp
  also have "\<dots> = rn_log f @ drop (Suc k) (rn_log l)" by (rule numbered_append [OF num]) (use a in \<open>simp add: numbered_def\<close>)
  finally show "foldl append_entry (rn_log f) (drop k (rn_log l)) = rn_log f @ drop (Suc k) (rn_log l)" .
qed

text \<open>
  C20: a follower may apply another command than the leader.  Its log agrees with the leader's below index
  \<open>k\<close>, but at \<open>k\<close> it holds an entry of its own; the leader, which has committed its entry \<open>k\<close>, is about to
  send from \<open>k\<close> on.  In one round the follower keeps its entry, acknowledges it, and gives it to its state
  machine as command number \<open>k\<close>; the leader's entry \<open>k\<close> is the other one, and stays committed.
\<close>

theorem follower_applies_conflicting_entry:
  assumes "replicating peer k l f" and "take k (rn_log f) = take k (rn_log l)" and "length (rn_log f) = k + 1" "k < length (rn_log l)"
    and "rn_last_applied f = word_of_nat (k - 1)" "rn_commit_index f = word_of_nat (k - 1)" and "word_of_nat k \<le> rn_commit_index l"
    and "rn_apply_cb f" "le_command (rn_log f ! k) \<noteq> []"
  shows "\<exists>l' f' rest. replicate_to peer l f = Some (l', f') \<and> rn_events f' = rn_events f @ Applied (word_of_nat k) (le_command (rn_log f ! k)) # rest \<and>
    rn_log f' ! k = rn_log f ! k \<and> rn_log l' ! k = rn_log l ! k \<and> word_of_nat k \<le> rn_commit_index l' \<and>
    rn_match_index l' peer = Some (word_of_nat (length (rn_log l) - 1))"
proof -
  note a = assms(1) [unfolded replicating_def]
  have le: "k \<le> length (rn_log f)" using assms(3) by simp
  have "rn_log f ! (k - 1) = rn_log l ! (k - 1)" using assms(2) a by (metis diff_less nth_take zero_less_one)
  then have same: "le_term (rn_log f ! (k - 1)) = le_term (rn_log l ! (k - 1))" by simp
  obtain r f' where r: "HandleAppendEntries (rn_my_id l) (heartbeat_request (word_of_nat k) l) f = Some (r, f')" "follows l f r f'"
      "rn_log f' = foldl append_entry (rn_log f) (drop k (rn_log l))" "ar_success r" "ar_match_index r = le_index (last (rn_log f'))"
    using append_match [OF assms(1) le same] by blast
  note num = conflicting_log(1) [OF assms(1,3,4)]
  have log: "rn_log f' = rn_log f @ drop (Suc k) (rn_log l)" unfolding r(3) by (rule conflicting_log(2) [OF assms(1,3,4)])
  have at_k: "rn_log f' ! k = rn_log f ! k" using assms(3) by (simp add: log nth_append)
  obtain m b where m: "HandleAppendEntries (rn_my_id l) (heartbeat_request (word_of_nat k) l) f = ae_check_log (heartbeat_request (word_of_nat k) l) m"
    "log_back m = Some b" "le_index b = word_of_nat (length (rn_log f) - 1)" "rn_log m = rn_log f" "rn_snapshot_last_index m = 0"
    "rn_commit_index m = rn_commit_index f" "rn_last_applied m = rn_last_applied f" "rn_events m = rn_events f" "rn_apply_cb m = rn_apply_cb f"
    by (rule replication_start [OF assms(1)])
  have acc: "ae_accept (heartbeat_request (word_of_nat k) l) m = Some (r, f')"
    using r(1) unfolding m(1) check_accepts [OF assms(1) le same m(2-5)] .
  have "\<exists>rest. rn_events f' = rn_events m @ Applied (word_of_nat k) (le_command (rn_log f' ! k)) # rest"
  proof (rule accept_applies [OF acc])
    show "numbered (rn_log f')" unfolding log by (rule num)
    show "k < length (rn_log f')" unfolding log using assms(3) by simp
    show "word_of_nat k \<le> ae_leader_commit (heartbeat_request (word_of_nat k) l)" using request_fields(2) [OF assms(1)] assms(7) by simp
    show "0 < k" using a by blast
    show "le_command (rn_log f' ! k) \<noteq> []" unfolding at_k by (rule assms(9))
  qed (simp_all only: m assms)
  then obtain rest where ev: "rn_events f' = rn_events f @ Applied (word_of_nat k) (le_command (rn_log f ! k)) # rest"
    unfolding at_k m by blast
  have match: "ar_match_index r = word_of_nat (length (rn_log l) - 1)"
    unfolding r(5) log using numbered_last [OF num] assms(3,4) by simp
  obtain l' where l': "HandleAppendEntriesResponse peer r l = Some l'" "rn_log l' = rn_log l" "rn_match_index l' peer = Some (ar_match_index r)"
    using leader_accepted [of l r peer] a r(2,4) by (auto simp: follows_def numbered_def)
  have "word_of_nat k \<le> rn_commit_index l'"
    using response_commit [OF l'(1)] assms(7) by (rule order_trans [rotated])
  with replicate_to_run [OF assms(1) r(1) l'(1)] ev at_k l' match show ?thesis by metis
qed

text \<open>
  How such a pair arises: nodes \<open>A\<close>, \<open>B\<close>, \<open>C\<close>, started fresh.  \<open>A\<close> is elected by \<open>B\<close> and takes a proposal it
  cannot send to anybody; then \<open>B\<close> is elected by \<open>C\<close> and commits another proposal with \<open>C\<close>; then \<open>B\<close> reaches \<open>A\<close>.
  \<open>reach ns\<close> is a network on which only the nodes \<open>ns\<close> answer.
\<close>

definition reach :: "raft_node list \<Rightarrow> str \<Rightarrow> raft_message \<Rightarrow> raft_message option" where
  "reach ns peer msg = (case find (\<lambda>n. rn_my_id n = peer) ns of None \<Rightarrow> None
     | Some n \<Rightarrow> (case Raft_OnMessage (\<lambda>_. []) True record_rpc msg n of Some (reply, _) \<Rightarrow> reply | None \<Rightarrow> None))"

abbreviation "node_a \<equiv> [65, 58, 49] :: str"
abbreviation "node_b \<equiv> [66, 58, 49] :: str"
abbreviation "node_c \<equiv> [67, 58, 49] :: str"
abbreviation "fresh i \<equiv> RaftNode_new i [node_a, node_b, node_c] None None"

definition idle :: "str \<Rightarrow> raft_state \<Rightarrow> u64 \<Rightarrow> str \<Rightarrow> raft_node \<Rightarrow> bool" where
  "idle i st t vote n \<longleftrightarrow> rn_my_id n = i \<and> rn_peers n = [node_a, node_b, node_c] \<and> rn_state n = st \<and> rn_current_term n = t \<and>
     rn_voted_for n = vote \<and> rn_log n = [dummy_entry] \<and> rn_commit_index n = 0 \<and> rn_last_applied n = 0 \<and>
     rn_snapshot_last_index n = 0 \<and> rn_snapshot_last_term n = 0 \<and> rn_apply_cb n"

definition leads_to :: "str \<Rightarrow> str \<Rightarrow> raft_node \<Rightarrow> bool" where
  "leads_to x y n \<longleftrightarrow> rn_next_index n = [x \<mapsto> 1, y \<mapsto> 1] \<and> rn_match_index n = [x \<mapsto> 0, y \<mapsto> 0]"

lemma peer_table: "(\<lambda>p. if p = x \<or> p = y then Some v else None) = [x \<mapsto> v, y \<mapsto> v]"
  by (rule ext) simp

lemmas run_defs = idle_def OnElectionTimeout_def StartElection_def vote_request_of_def BecomeCandidate_def log_back_def election_check_def
  SendMessage_def is_request_def port_text_def is_digit_def reach_def Raft_OnMessage_def HandleRequestVote_def rv_enter_def can_vote_def
  HandleRequestVoteResponse_def majority_def BecomeLeader_def SendHeartbeats_def next_index_at_def record_rpc_def Let_def

lemmas append_defs = HandleAppendEntries_def ae_enter_def ae_check_log_def heartbeat_request_def ae_accept_def append_entry_def
  follower_commit_def HandleAppendEntriesResponse_def GetLogEntry_def AdvanceCommitIndex_def

lemma apply_first: "rn_last_applied n = 0 \<Longrightarrow> ApplyCommitted 1 n = apply_one n"
  by (subst ApplyCommitted.simps, subst ApplyCommitted.simps) simp

lemma advance_first:
  assumes "rn_commit_index n = 0" "rn_last_applied n = 0" "GetLogEntry 1 n = Some e" "le_term e = rn_current_term n"
  shows "advance_loop 1 n = (if majority n \<le> replica_count 1 n then apply_one (n\<lparr> rn_commit_index := 1 \<rparr>) else n)"
  using assms by (subst advance_loop.simps, subst advance_loop.simps) (simp add: apply_first)

lemma run_a_elected:
  "\<exists>n. OnElectionTimeout (SendMessage (reach [fresh node_b]) record_rpc) (fresh node_a) = Some n \<and> idle node_a LEADER 1 node_a n \<and> leads_to node_b node_c n"
  by (simp add: run_defs RaftNode_new_def, simp add: dummy_entry_def peer_table leads_to_def)

lemma run_b_votes:
  "\<exists>r n. Raft_OnMessage (\<lambda>_. []) True record_rpc (REQUEST_VOTE \<lparr> rv_term = 1, rv_candidate_id = node_a, rv_last_log_index = 0, rv_last_log_term = 0 \<rparr>)
     (fresh node_b) = Some (r, n) \<and> idle node_b FOLLOWER 1 node_a n"
  by (simp add: run_defs RaftNode_new_def, simp add: dummy_entry_def)

lemma run_c_votes:
  "\<exists>r n. Raft_OnMessage (\<lambda>_. []) True record_rpc (REQUEST_VOTE \<lparr> rv_term = 2, rv_candidate_id = node_b, rv_last_log_index = 0, rv_last_log_term = 0 \<rparr>)
     (fresh node_c) = Some (r, n) \<and> idle node_c FOLLOWER 2 node_b n"
  by (simp add: run_defs RaftNode_new_def, simp add: dummy_entry_def)

lemma run_b_elected:
  assumes "idle node_b FOLLOWER 1 node_a n"
  shows "\<exists>m. OnElectionTimeout (SendMessage (reach [fresh node_c]) record_rpc) n = Some m \<and> idle node_b LEADER 2 node_b m \<and> leads_to node_a node_c m"
  using assms by (simp add: run_defs RaftNode_new_def, simp add: dummy_entry_def peer_table leads_to_def)

lemma run_a_proposes:
  assumes "idle node_a LEADER 1 node_a n" "leads_to node_b node_c n"
  shows "\<exists>r m. Propose (SendMessage (reach []) record_rpc) [120] [] n = Some (r, m) \<and> \<not> pr_committed r \<and>
     idle node_a LEADER 1 node_a (m\<lparr> rn_log := [dummy_entry] \<rparr>) \<and> rn_log m = [dummy_entry, \<lparr> le_term = 1, le_index = 1, le_command = [120] \<rparr>]"
  using assms
  by (simp add: Propose_def Propose_append_def run_defs AdvanceCommitIndex_def dummy_entry_def leads_to_def,
      simp add: advance_first GetLogEntry_def replica_count_def majority_def, simp add: run_defs)

lemma run_b_commits:
  assumes "idle node_b LEADER 2 node_b n" "leads_to node_a node_c n" "idle node_c FOLLOWER 2 node_b c"
  shows "\<exists>r m. Propose (SendMessage (reach [c]) record_rpc) [121] [] n = Some (r, m) \<and> pr_committed r \<and>
     rn_my_id m = node_b \<and> rn_state m = LEADER \<and> rn_current_term m = 2 \<and> rn_commit_index m = 1 \<and> rn_snapshot_last_index m = 0 \<and> rn_snapshot_last_term m = 0 \<and>
     rn_log m = [dummy_entry, \<lparr> le_term = 2, le_index = 1, le_command = [121] \<rparr>] \<and> Applied 1 [121] \<in> set (rn_events m) \<and> rn_next_index m node_a = Some 1"
  using assms unfolding idle_def leads_to_def dummy_entry_def
  by (simp add: Propose_def Propose_append_def run_defs AdvanceCommitIndex_def,
      simp add: advance_first GetLogEntry_def replica_count_def majority_def,
      simp add: run_defs append_defs,
      simp add: advance_first GetLogEntry_def replica_count_def majority_def,
      simp add: apply_one_def GetLogEntry_def)

theorem follower_applies_conflicting_entry_witness:
  "\<exists>a1 a2 a3 b1 b2 b3 b4 c1 ra rb ra' rb' rc.
     OnElectionTimeout (SendMessage (reach [fresh node_b]) record_rpc) (fresh node_a) = Some a1 \<and>
     Raft_OnMessage (\<lambda>_. []) True record_rpc (REQUEST_VOTE \<lparr> rv_term = 1, rv_candidate_id = node_a, rv_last_log_index = 0, rv_last_log_term = 0 \<rparr>)
       (fresh node_b) = Some (rb, b1) \<and>
     Propose (SendMessage (reach []) record_rpc) [120] [] a1 = Some (ra', a2) \<and>
     OnElectionTimeout (SendMessage (reach [fresh node_c]) record_rpc) b1 = Some b2 \<and>
     Raft_OnMessage (\<lambda>_. []) True record_rpc (REQUEST_VOTE \<lparr> rv_term = 2, rv_candidate_id = node_b, rv_last_log_index = 0, rv_last_log_term = 0 \<rparr>)
       (fresh node_c) = Some (rc, c1) \<and>
     Propose (SendMessage (reach [c1]) record_rpc) [121] [] b2 = Some (rb', b3) \<and> pr_committed rb' \<and>
     replicate_to node_a b3 a2 = Some (b4, a3) \<and>
     Applied 1 [121] \<in> set (rn_events b3) \<and> Applied 1 [120] \<in> set (rn_events a3)"
proof -
  obtain a1 where a1: "OnElectionTimeout (SendMessage (reach [fresh node_b]) record_rpc) (fresh node_a) = Some a1"
    "idle node_a LEADER 1 node_a a1" "leads_to node_b node_c a1" using run_a_elected by blast
  obtain rb b1 where b1: "Raft_OnMessage (\<lambda>_. []) True record_rpc (REQUEST_VOTE \<lparr> rv_term = 1, rv_candidate_id = node_a, rv_last_log_index = 0, rv_last_log_term = 0 \<rparr>)
     (fresh node_b) = Some (rb, b1)" "idle node_b FOLLOWER 1 node_a b1" using run_b_votes by blast
  obtain rc c1 where c1: "Raft_OnMessage (\<lambda>_. []) True record_rpc (REQUEST_VOTE \<lparr> rv_term = 2, rv_candidate_id = node_b, rv_last_log_index = 0, rv_last_log_term = 0 \<rparr>)
     (fresh node_c) = Some (rc, c1)" "idle node_c FOLLOWER 2 node_b c1" using run_c_votes by blast
  obtain b2 where b2: "OnElectionTimeout (SendMessage (reach [fresh node_c]) record_rpc) b1 = Some b2" "idle node_b LEADER 2 node_b b2" "leads_to node_a node_c b2"
    using run_b_elected [OF b1(2)] by blast
  obtain ra' a2 where a2: "Propose (SendMessage (reach []) record_rpc) [120] [] a1 = Some (ra', a2)" "idle node_a LEADER 1 node_a (a2\<lparr> rn_log := [dummy_entry] \<rparr>)"
    "rn_log a2 = [dummy_entry, \<lparr> le_term = 1, le_index = 1, le_command = [120] \<rparr>]" using run_a_proposes [OF a1(2,3)] by blast
  obtain rb' b3 where b3: "Propose (SendMessage (reach [c1]) record_rpc) [121] [] b2 = Some (rb', b3)" "pr_committed rb'"
    "rn_state b3 = LEADER" "rn_current_term b3 = 2" "rn_commit_index b3 = 1" "rn_snapshot_last_index b3 = 0" "rn_snapshot_last_term b3 = 0"
    "rn_log b3 = [dummy_entry, \<lparr> le_term = 2, le_index = 1, le_command = [121] \<rparr>]" "Applied 1 [121] \<in> set (rn_events b3)" "rn_next_index b3 node_a = Some 1"
    using run_b_commits [OF b2(2,3) c1(2)] by blast
  have "replicating node_a 1 b3 a2" using a2(2,3) b3 by (simp add: replicating_def numbered_def idle_def dummy_entry_def)
  moreover have "take 1 (rn_log a2) = take 1 (rn_log b3)" using a2(3) b3(8) by simp
  ultimately obtain b4 a3 rest where "replicate_to node_a b3 a2 = Some (b4, a3)" "rn_events a3 = rn_events a2 @ Applied (word_of_nat 1) [120] # rest"
    using follower_applies_conflicting_entry [of node_a 1 b3 a2] a2(2,3) b3(5,8) by (auto simp: idle_def)
  with a1(1) b1(1) c1(1) b2(1) a2(1) b3(1,2,9) show ?thesis by fastforce
qed

subsection \<open>A node whose log has been compacted away\<close>





lemma enter_snapshot [simp]:
  "rn_snapshot_last_index (rv_enter vreq n) = rn_snapshot_last_index n"
  "rn_snapshot_last_index (is_enter sender sreq n) = rn_snapshot_last_index n"
  by (simp_all add: rv_enter_def is_enter_def Let_def)








end
