(* ===== verification/RaftTimer.thy ===== *)
theory RaftTimer
  imports RaftProps
begin

text \<open>
  The timer thread of a Raft node (\<open>TimerLoop\<close>, \<open>ResetElectionTimer\<close>, \<open>RandomElectionTimeout\<close> in
  \<open>src/src/raft/raft_node.cc\<close>) and the two mutexes it shares with the handlers.  The first part looks at
  the order in which the threads take \<open>timer_mutex_\<close> and \<open>state_mutex_\<close>, the second at the times.
\<close>

subsection \<open>Threads and mutexes\<close>

text \<open>\<open>timer_mutex_\<close> is a plain mutex, \<open>state_mutex_\<close> a recursive one: its owner and how often it was taken.\<close>

datatype lock_action = Lock_timer | Unlock_timer | Lock_state | Unlock_state

record mutexes =
  mx_timer :: "nat option"
  mx_state :: "(nat \<times> nat) option"

text \<open>One action of thread \<open>t\<close>; \<open>None\<close>: the thread has to wait.\<close>

fun act :: "nat \<Rightarrow> lock_action \<Rightarrow> mutexes \<Rightarrow> mutexes option" where
  "act t Lock_timer m = (if mx_timer m = None then Some (m\<lparr> mx_timer := Some t \<rparr>) else None)"
| "act t Unlock_timer m = (if mx_timer m = Some t then Some (m\<lparr> mx_timer := None \<rparr>) else None)"
| "act t Lock_state m =
     (case mx_state m of None \<Rightarrow> Some (m\<lparr> mx_state := Some (t, 1) \<rparr>)
      | Some (u, d) \<Rightarrow> if u = t then Some (m\<lparr> mx_state := Some (t, d + 1) \<rparr>) else None)"
| "act t Unlock_state m =
     (case mx_state m of None \<Rightarrow> None
      | Some (u, d) \<Rightarrow> if u = t then Some (m\<lparr> mx_state := (if d = 1 then None else Some (t, d - 1)) \<rparr>) else None)"

text \<open>The locking of the operations, in the order of the source.\<close>

definition ResetElectionTimer_locks :: "lock_action list" where
  "ResetElectionTimer_locks = [Lock_timer, Lock_state, Unlock_state, Unlock_timer]"

definition SendHeartbeats_locks :: "nat \<Rightarrow> lock_action list" where
  "SendHeartbeats_locks answers = Lock_state # concat (replicate answers [Lock_state, Unlock_state]) @ [Unlock_state]"

definition BecomeLeader_locks :: "nat \<Rightarrow> lock_action list" where
  "BecomeLeader_locks answers = [Lock_state, Unlock_state] @ SendHeartbeats_locks answers @ ResetElectionTimer_locks"

definition HandleRequestVote_locks :: "bool \<Rightarrow> lock_action list" where
  "HandleRequestVote_locks granted = Lock_state # (if granted then ResetElectionTimer_locks else []) @ [Unlock_state]"

definition HandleAppendEntries_locks :: "bool \<Rightarrow> lock_action list" where
  "HandleAppendEntries_locks old_term = Lock_state # (if old_term then [] else ResetElectionTimer_locks) @ [Unlock_state]"

definition HandleInstallSnapshot_locks :: "bool \<Rightarrow> lock_action list" where
  "HandleInstallSnapshot_locks old_term = Lock_state # (if old_term then [] else ResetElectionTimer_locks) @ [Unlock_state]"

definition HandleRequestVoteResponse_locks :: "nat option \<Rightarrow> lock_action list" where
  "HandleRequestVoteResponse_locks elected =
     Lock_state # (case elected of None \<Rightarrow> [] | Some answers \<Rightarrow> BecomeLeader_locks answers) @ [Unlock_state]"

text \<open>
  \<open>OnElectionTimeout\<close> and one turn of \<open>TimerLoop\<close>.  \<open>votes\<close> are the answers that come in while the requests
  are sent, each with the election it may decide; \<open>elected\<close> is whether the election is won at the end.
\<close>

definition StartElection_locks :: "nat option list \<Rightarrow> nat option \<Rightarrow> lock_action list" where
  "StartElection_locks votes elected =
     [Lock_state, Unlock_state] @ concat (map HandleRequestVoteResponse_locks votes) @ [Lock_state, Unlock_state] @
     (case elected of None \<Rightarrow> [] | Some answers \<Rightarrow> BecomeLeader_locks answers)"

definition OnElectionTimeout_locks :: "bool \<Rightarrow> nat \<Rightarrow> nat option list \<Rightarrow> nat option \<Rightarrow> lock_action list" where
  "OnElectionTimeout_locks leader answers votes elected = [Lock_state, Unlock_state] @
     (if leader then SendHeartbeats_locks answers
      else [Lock_state, Unlock_state] @ StartElection_locks votes elected) @ ResetElectionTimer_locks"

definition TimerLoop_locks :: "lock_action list \<Rightarrow> lock_action list" where
  "TimerLoop_locks fire = [Lock_timer, Unlock_timer] @ fire"

text \<open>The threads of a node: what each has still to do.\<close>

inductive lock_step :: "mutexes \<times> (nat \<Rightarrow> lock_action list) \<Rightarrow> mutexes \<times> (nat \<Rightarrow> lock_action list) \<Rightarrow> bool" where
  "ts t = a # rest \<Longrightarrow> act t a m = Some m' \<Longrightarrow> lock_step (m, ts) (m', ts(t := rest))"

inductive_cases lock_stepE: "lock_step (m, ts) s'"

abbreviation lock_steps :: "mutexes \<times> (nat \<Rightarrow> lock_action list) \<Rightarrow> mutexes \<times> (nat \<Rightarrow> lock_action list) \<Rightarrow> bool" where
  "lock_steps \<equiv> lock_step\<^sup>*\<^sup>*"

definition unlocked :: mutexes where
  "unlocked = \<lparr> mx_timer = None, mx_state = None \<rparr>"

text \<open>A thread working alone.\<close>

fun acts :: "nat \<Rightarrow> lock_action list \<Rightarrow> mutexes \<Rightarrow> mutexes option" where
  "acts t [] m = Some m"
| "acts t (a # as) m = do { m1 \<leftarrow> act t a m; acts t as m1 }"

lemma acts_append: "acts t (as @ bs) m = do { m1 \<leftarrow> acts t as m; acts t bs m1 }"
  by (induction as arbitrary: m) (auto split: bind_split)

lemma acts_run: "acts t as m = Some m' \<Longrightarrow> ts t = as @ rest \<Longrightarrow> lock_steps (m, ts) (m', ts(t := rest))"
proof (induction as arbitrary: m ts)
  case Nil
  then show ?case by (simp add: fun_upd_idem)
next
  case (Cons a as)
  then obtain m1 where m1: "act t a m = Some m1" "acts t as m1 = Some m'" by (auto simp: bind_eq_Some_conv)
  have "lock_step (m, ts) (m1, ts(t := as @ rest))" by (rule lock_step.intros) (use Cons.prems m1 in auto)
  moreover have "lock_steps (m1, ts(t := as @ rest)) (m', (ts(t := as @ rest))(t := rest))"
    by (rule Cons.IH [OF m1(2)]) simp
  ultimately show ?case unfolding fun_upd_upd by (rule converse_rtranclp_into_rtranclp)
qed

subsection \<open>Two threads, two mutexes, two orders\<close>

text \<open>The timer thread holds \<open>timer_mutex_\<close> and wants \<open>state_mutex_\<close>; a handler has them the other way round.\<close>

definition embraced :: "nat \<Rightarrow> nat \<Rightarrow> mutexes \<times> (nat \<Rightarrow> lock_action list) \<Rightarrow> bool" where
  "embraced i j s \<longleftrightarrow> (case s of (m, ts) \<Rightarrow> i \<noteq> j \<and> mx_timer m = Some i \<and> (\<exists>d. mx_state m = Some (j, d)) \<and>
     (\<exists>p. ts i = Lock_state # p) \<and> (\<exists>q. ts j = Lock_timer # q))"

lemma embraced_stuck:
  assumes "embraced i j (m, ts)"
  shows "\<not> lock_step (m, ts) s"
proof
  assume "lock_step (m, ts) s"
  then obtain t a rest m' where t: "ts t = a # rest" "act t a m = Some m'" by (auto elim: lock_stepE)
  have held: "mx_timer m = Some i" "\<exists>d. mx_state m = Some (j, d)" "i \<noteq> j" "\<exists>p. ts i = Lock_state # p" "\<exists>q. ts j = Lock_timer # q"
    using assms by (auto simp: embraced_def)
  show False using t held by (cases a) (auto split: if_splits)
qed

text \<open>Alone, the operations take and release what they need.\<close>

definition neutral :: "lock_action list \<Rightarrow> bool" where
  "neutral as \<longleftrightarrow> (\<forall>t d. acts t as unlocked = Some unlocked \<and>
     acts t as (unlocked\<lparr> mx_state := Some (t, Suc d) \<rparr>) = Some (unlocked\<lparr> mx_state := Some (t, Suc d) \<rparr>))"

lemma neutral_append: "neutral as \<Longrightarrow> neutral bs \<Longrightarrow> neutral (as @ bs)"
  by (simp add: neutral_def acts_append)

lemma neutral_nil: "neutral []"
  by (simp add: neutral_def)

lemma neutral_concat: "(\<And>as. as \<in> set ass \<Longrightarrow> neutral as) \<Longrightarrow> neutral (concat ass)"
  by (induction ass) (auto intro: neutral_append neutral_nil)

lemma neutral_state: "neutral as \<Longrightarrow> neutral (Lock_state # as @ [Unlock_state])"
  by (simp add: neutral_def acts_append unlocked_def)

lemma neutral_sections: "neutral [Lock_state, Unlock_state]" "neutral [Lock_timer, Unlock_timer]" "neutral ResetElectionTimer_locks"
  by (simp_all add: neutral_def unlocked_def ResetElectionTimer_locks_def)

lemma neutral_operations:
  "neutral (SendHeartbeats_locks n)" "neutral (BecomeLeader_locks n)" "neutral (HandleRequestVoteResponse_locks elected)"
proof -
  show heartbeats: "neutral (SendHeartbeats_locks n)" for n
    unfolding SendHeartbeats_locks_def by (rule neutral_state [OF neutral_concat]) (simp add: neutral_sections)
  show lead: "neutral (BecomeLeader_locks n)" for n
    unfolding BecomeLeader_locks_def by (intro neutral_append neutral_sections heartbeats)
  show "neutral (HandleRequestVoteResponse_locks elected)"
    unfolding HandleRequestVoteResponse_locks_def by (rule neutral_state) (simp add: neutral_nil lead split: option.split)
qed

lemma neutral_election: "neutral (StartElection_locks votes elected)"
  unfolding StartElection_locks_def
  by (intro neutral_append neutral_sections neutral_concat) (auto simp: neutral_operations neutral_nil split: option.split)

lemma timer_up_to_reset:
  "\<exists>pre. neutral pre \<and> TimerLoop_locks (OnElectionTimeout_locks leader answers votes elected) = pre @ ResetElectionTimer_locks"
proof -
  have fire: "neutral (if leader then SendHeartbeats_locks answers else [Lock_state, Unlock_state] @ StartElection_locks votes elected)"
    using neutral_append [OF neutral_sections(1) neutral_election] neutral_operations(1) by simp
  show ?thesis
    unfolding TimerLoop_locks_def OnElectionTimeout_locks_def append_assoc [symmetric]
    by (rule exI, rule conjI [OF _ refl]) (rule neutral_append [OF neutral_append [OF neutral_sections(2,1)] fire])
qed

text \<open>
  C21: the timer thread and a request can block each other for good, and with them the node.  \<open>ResetElectionTimer\<close>
  takes \<open>timer_mutex_\<close> and then \<open>state_mutex_\<close>; the handlers call it with \<open>state_mutex_\<close> taken.  Whenever the
  timer has fired in one thread, and another handles a request that resets the timer, there is an interleaving
  after which no thread of the node can take or release either mutex ever again; neither of the two is done.
\<close>

theorem timer_and_handler_deadlock:
  assumes "i \<noteq> j" and "ts i = TimerLoop_locks (OnElectionTimeout_locks leader answers votes elected)"
    and "ts j \<in> {HandleRequestVote_locks True, HandleAppendEntries_locks False, HandleInstallSnapshot_locks False}"
  shows "\<exists>m' ts'. lock_steps (unlocked, ts) (m', ts') \<and> (\<forall>s. \<not> lock_step (m', ts') s) \<and> ts' i \<noteq> [] \<and> ts' j \<noteq> [] \<and>
    (\<forall>k. k \<noteq> i \<and> k \<noteq> j \<longrightarrow> ts' k = ts k)"
proof -
  obtain pre where pre: "neutral pre" "ts i = pre @ ResetElectionTimer_locks" using timer_up_to_reset assms(2) by metis
  define m1 where "m1 = unlocked\<lparr> mx_timer := Some i \<rparr>"
  define m2 where "m2 = m1\<lparr> mx_state := Some (j, 1) \<rparr>"
  define p where "p = [Lock_state, Unlock_state, Unlock_timer]"
  define q where "q = ResetElectionTimer_locks @ [Unlock_state]"
  have hold: "acts i (pre @ [Lock_timer]) unlocked = Some m1"
    using pre(1) by (simp add: acts_append neutral_def m1_def unlocked_def)
  have "ts i = (pre @ [Lock_timer]) @ p" using pre(2) by (simp add: ResetElectionTimer_locks_def p_def)
  note one = acts_run [where ts = ts, OF hold this]
  have "ts j = Lock_state # q"
    using assms(3) by (auto simp: HandleRequestVote_locks_def HandleAppendEntries_locks_def HandleInstallSnapshot_locks_def q_def)
  then have "lock_step (m1, ts(i := p)) (m2, (ts(i := p))(j := q))"
    using assms(1) by (intro lock_step.intros [of _ j Lock_state]) (simp_all add: m1_def m2_def unlocked_def)
  with one have run: "lock_steps (unlocked, ts) (m2, (ts(i := p))(j := q))" by (rule rtranclp.rtrancl_into_rtrancl)
  have "embraced i j (m2, (ts(i := p))(j := q))"
    using assms(1) by (simp add: embraced_def m1_def m2_def p_def q_def ResetElectionTimer_locks_def)
  from embraced_stuck [OF this] run assms(1) show ?thesis
    by (intro exI [of _ m2] exI [of _ "(ts(i := p))(j := q)"]) (simp add: p_def q_def)
qed

theorem timer_and_handler_deadlock_witness:
  "\<exists>m' ts'. lock_steps (unlocked, (\<lambda>_ :: nat. [])(0 := TimerLoop_locks (OnElectionTimeout_locks True 2 [] None), 1 := HandleAppendEntries_locks False)) (m', ts') \<and>
     (\<forall>s. \<not> lock_step (m', ts') s) \<and> ts' 0 \<noteq> [] \<and> ts' 1 \<noteq> []"
proof -
  let ?ts = "(\<lambda>_ :: nat. [])(0 := TimerLoop_locks (OnElectionTimeout_locks True 2 [] None), 1 := HandleAppendEntries_locks False)"
  have "?ts 0 = TimerLoop_locks (OnElectionTimeout_locks True 2 [] None)"
    "?ts 1 \<in> {HandleRequestVote_locks True, HandleAppendEntries_locks False, HandleInstallSnapshot_locks False}"
    by simp_all
  from timer_and_handler_deadlock [where ts = ?ts, OF zero_neq_one this] show ?thesis by blast
qed

subsection \<open>Threads that keep the order\<close>

text \<open>
  A thread keeps the order if it never takes \<open>state_mutex_\<close> for the first time while it holds \<open>timer_mutex_\<close>:
  \<open>d\<close> is how often it holds the one, \<open>b\<close> whether it holds the other.
\<close>

fun ordered :: "nat \<Rightarrow> bool \<Rightarrow> lock_action list \<Rightarrow> bool" where
  "ordered d b [] \<longleftrightarrow> d = 0 \<and> \<not> b"
| "ordered d b (Lock_timer # as) \<longleftrightarrow> \<not> b \<and> ordered d True as"
| "ordered d b (Unlock_timer # as) \<longleftrightarrow> b \<and> ordered d False as"
| "ordered d b (Lock_state # as) \<longleftrightarrow> (b \<longrightarrow> 0 < d) \<and> ordered (Suc d) b as"
| "ordered d b (Unlock_state # as) \<longleftrightarrow> 0 < d \<and> ordered (d - 1) b as"

definition state_depth :: "nat \<Rightarrow> mutexes \<Rightarrow> nat" where
  "state_depth t m = (case mx_state m of None \<Rightarrow> 0 | Some (u, d) \<Rightarrow> if u = t then d else 0)"

definition order_inv :: "mutexes \<times> (nat \<Rightarrow> lock_action list) \<Rightarrow> bool" where
  "order_inv s \<longleftrightarrow> (case s of (m, ts) \<Rightarrow> (\<forall>t. ordered (state_depth t m) (mx_timer m = Some t) (ts t)) \<and>
     (\<forall>u d. mx_state m = Some (u, d) \<longrightarrow> 0 < d))"

lemma order_inv_step: "lock_step s s' \<Longrightarrow> order_inv s \<Longrightarrow> order_inv s'"
proof (induction rule: lock_step.induct)
  case (1 ts t a rest m m')
  have inv: "ordered (state_depth u m) (mx_timer m = Some u) (ts u)" "\<And>u d. mx_state m = Some (u, d) \<Longrightarrow> 0 < d" for u
    using 1(3) by (auto simp: order_inv_def)
  have mine: "ordered (state_depth t m) (mx_timer m = Some t) (a # rest)" using inv(1) [of t] 1(1) by simp
  have new: "ordered (state_depth t m') (mx_timer m' = Some t) rest" "\<And>u d. mx_state m' = Some (u, d) \<Longrightarrow> 0 < d"
    "\<And>u. u \<noteq> t \<Longrightarrow> state_depth u m' = state_depth u m \<and> (mx_timer m' = Some u \<longleftrightarrow> mx_timer m = Some u)"
    using mine 1(2) inv(2) by (cases a; auto simp: state_depth_def split: if_splits option.splits prod.splits)+
  show ?case unfolding order_inv_def using new inv(1) by auto
qed

lemma order_inv_progress:
  assumes "order_inv (m, ts)" "ts t \<noteq> []"
  shows "\<exists>s'. lock_step (m, ts) s'"
proof -
  have inv: "ordered (state_depth u m) (mx_timer m = Some u) (ts u)" for u using assms(1) by (auto simp: order_inv_def)
  have go: "\<exists>s'. lock_step (m, ts) s'" if "ts u = a # rest" "act u a m \<noteq> None" for u a rest
    using lock_step.intros [where ts = ts, OF that(1)] that(2) by blast
  have timer_owner: "\<exists>s'. lock_step (m, ts) s'" if "mx_timer m = Some u" "\<And>v d. mx_state m = Some (v, d) \<Longrightarrow> v \<noteq> u" for u
  proof -
    have "state_depth u m = 0" using that(2) by (auto simp: state_depth_def split: option.splits)
    with inv [of u] that(1) obtain rest where "ts u = Unlock_timer # rest"
      by (cases "ts u"; cases "hd (ts u)") auto
    with that(1) show ?thesis by (intro go) auto
  qed
  show ?thesis
  proof (cases "mx_state m")
    case None
    show ?thesis
    proof (cases "mx_timer m")
      case (Some u)
      then show ?thesis using None by (intro timer_owner) auto
    next
      case free: None
      have "state_depth t m = 0" using None by (simp add: state_depth_def)
      with inv [of t] free obtain a rest where a: "ts t = a # rest" "a = Lock_timer \<or> a = Lock_state"
        using assms(2) by (cases "ts t"; cases "hd (ts t)") auto
      then show ?thesis using None free by (intro go [OF a(1)]) auto
    qed
  next
    case (Some ud)
    then obtain u d where ud: "mx_state m = Some (u, d)" by (cases ud) auto
    show ?thesis
    proof (cases "\<exists>v. mx_timer m = Some v \<and> v \<noteq> u")
      case True
      then obtain v where v: "mx_timer m = Some v" "v \<noteq> u" by blast
      then show ?thesis by (intro timer_owner [OF v(1)]) (simp add: ud)
    next
      case False
      have "0 < d" using assms(1) ud by (auto simp: order_inv_def)
      then have "0 < state_depth u m" using ud by (simp add: state_depth_def)
      with inv [of u] obtain a rest where a: "ts u = a # rest" "a = Lock_timer \<longrightarrow> mx_timer m \<noteq> Some u" "a = Unlock_timer \<longrightarrow> mx_timer m = Some u"
        by (cases "ts u"; cases "hd (ts u)") auto
      then show ?thesis using ud False by (intro go [OF a(1)]) (cases a; cases "mx_timer m"; auto)
    qed
  qed
qed

locale ordered_threads =
  fixes progs :: "nat \<Rightarrow> lock_action list"
  assumes in_order: "ordered 0 False (progs t)"
begin

lemma reachable_order: "lock_steps (unlocked, progs) s \<Longrightarrow> order_inv s"
proof (induction rule: rtranclp_induct)
  case base
  then show ?case using in_order by (simp add: order_inv_def unlocked_def state_depth_def)
next
  case (step s s')
  then show ?case using order_inv_step by blast
qed

lemma some_thread_goes_on: "lock_steps (unlocked, progs) (m, ts) \<Longrightarrow> ts t \<noteq> [] \<Longrightarrow> \<exists>s'. lock_step (m, ts) s'"
  using reachable_order order_inv_progress by blast

end

text \<open>
  All the handlers keep the order, and so does a turn of the timer that does not fire; the order is broken
  only where \<open>ResetElectionTimer\<close> is called without \<open>state_mutex_\<close>, that is by the timer thread.
\<close>

datatype call =
    RequestVote bool
  | AppendEntries bool
  | InstallSnapshot bool
  | RequestVoteResponse "nat option"
  | AppendEntriesResponse
  | Heartbeats nat
  | Timer_not_due

fun call_locks :: "call \<Rightarrow> lock_action list" where
  "call_locks (RequestVote granted) = HandleRequestVote_locks granted"
| "call_locks (AppendEntries old_term) = HandleAppendEntries_locks old_term"
| "call_locks (InstallSnapshot old_term) = HandleInstallSnapshot_locks old_term"
| "call_locks (RequestVoteResponse elected) = HandleRequestVoteResponse_locks elected"
| "call_locks AppendEntriesResponse = [Lock_state, Unlock_state]"
| "call_locks (Heartbeats answers) = SendHeartbeats_locks answers"
| "call_locks Timer_not_due = TimerLoop_locks []"

lemma ordered_answers: "0 < d \<Longrightarrow> ordered d b (concat (replicate n [Lock_state, Unlock_state]) @ as) \<longleftrightarrow> ordered d b as"
  by (induction n) simp_all

lemma ordered_heartbeats: "\<not> b \<Longrightarrow> ordered d b (SendHeartbeats_locks n @ as) \<longleftrightarrow> ordered d b as"
  by (simp add: SendHeartbeats_locks_def ordered_answers)

lemma ordered_reset: "ordered (Suc d) False (ResetElectionTimer_locks @ as) \<longleftrightarrow> ordered (Suc d) False as"
  by (simp add: ResetElectionTimer_locks_def)

lemma ordered_leader: "ordered (Suc d) False (BecomeLeader_locks n @ as) \<longleftrightarrow> ordered (Suc d) False as"
  by (simp add: BecomeLeader_locks_def ordered_heartbeats ordered_reset)

lemma call_ordered: "ordered 0 False (call_locks c)"
  using ordered_heartbeats [of False 0 _ "[]"]
  by (cases c) (simp_all add: HandleRequestVote_locks_def HandleAppendEntries_locks_def HandleInstallSnapshot_locks_def
      HandleRequestVoteResponse_locks_def TimerLoop_locks_def ordered_reset ordered_leader split: option.split)

fun calls_locks :: "call list \<Rightarrow> lock_action list" where
  "calls_locks [] = []"
| "calls_locks (c # cs) = call_locks c @ calls_locks cs"

lemma ordered_append: "ordered d b as \<Longrightarrow> ordered d' b' bs \<Longrightarrow> d' = 0 \<Longrightarrow> \<not> b' \<Longrightarrow> ordered d b (as @ bs)"
  by (induction d b as rule: ordered.induct) auto

lemma calls_ordered: "ordered 0 False (calls_locks cs)"
  by (induction cs) (auto intro: ordered_append call_ordered)

interpretation handlers: ordered_threads "\<lambda>t. calls_locks (calls t)" for calls
  by unfold_locales (rule calls_ordered)

text \<open>
  The handlers among themselves never deadlock.  For any number of threads, each with any sequence of calls
  of handlers and timer turns that do not fire, and for every interleaving: as long as some thread is not done,
  some thread can go on.
\<close>

theorem handlers_never_deadlock:
  assumes "lock_steps (unlocked, \<lambda>t. calls_locks (calls t)) (m, ts)" and "ts t \<noteq> []"
  shows "\<exists>s'. lock_step (m, ts) s'"
  using assms by (rule handlers.some_thread_goes_on)

theorem handlers_never_deadlock_witness:
  "\<exists>s'. lock_step (unlocked, \<lambda>t. calls_locks ([[AppendEntries False, Heartbeats 2], [RequestVote True]] ! (t mod 2))) s'"
  by (rule handlers_never_deadlock [where t = 0 and calls = "\<lambda>t. [[AppendEntries False, Heartbeats 2], [RequestVote True]] ! (t mod 2)"])
    (simp_all add: HandleAppendEntries_locks_def)

subsection \<open>Times\<close>

text \<open>Times are milliseconds of the steady clock; \<open>rnd\<close> is what the random generator gives.\<close>

record raft_config =
  rc_election_timeout_ms :: nat
  rc_heartbeat_interval_ms :: nat

definition default_config :: raft_config where
  "default_config = \<lparr> rc_election_timeout_ms = 3000, rc_heartbeat_interval_ms = 500 \<rparr>"

record timed =
  td_node :: raft_node
  td_election_deadline :: nat

definition RandomElectionTimeout :: "raft_config \<Rightarrow> nat \<Rightarrow> nat" where
  "RandomElectionTimeout cfg rnd = rc_election_timeout_ms cfg + rnd mod (rc_election_timeout_ms cfg + 1)"

definition ResetElectionTimer :: "raft_config \<Rightarrow> nat \<Rightarrow> nat \<Rightarrow> timed \<Rightarrow> timed" where
  "ResetElectionTimer cfg now rnd td =
     td\<lparr> td_election_deadline := now + (if rn_state (td_node td) = LEADER then rc_heartbeat_interval_ms cfg else RandomElectionTimeout cfg rnd) \<rparr>"

text \<open>One turn of \<open>TimerLoop\<close> at time \<open>now\<close>; if it fires, its work takes until \<open>later\<close>.\<close>

definition TimerLoop :: "raft_config \<Rightarrow> rpc_cb \<Rightarrow> nat \<Rightarrow> nat \<Rightarrow> nat \<Rightarrow> timed \<Rightarrow> timed option" where
  "TimerLoop cfg rpc now later rnd td =
     (if td_election_deadline td \<le> now
      then do { n \<leftarrow> OnElectionTimeout rpc (td_node td); Some (ResetElectionTimer cfg later rnd (td\<lparr> td_node := n \<rparr>)) }
      else Some td)"

text \<open>
  A message at time \<open>now\<close>.  The timer is reset where the handlers do it: by an append or snapshot request
  that is not of an old term, by a granted vote, and by the node becoming leader.
\<close>

definition resets_timer :: "raft_message \<Rightarrow> raft_message option \<Rightarrow> raft_node \<Rightarrow> raft_node \<Rightarrow> bool" where
  "resets_timer msg reply n n' \<longleftrightarrow> (case msg of
     APPEND_ENTRIES req \<Rightarrow> \<not> ae_term req < rn_current_term n
   | INSTALL_SNAPSHOT req \<Rightarrow> \<not> is_term req < rn_current_term n
   | REQUEST_VOTE _ \<Rightarrow> (case reply of Some (REQUEST_VOTE_RESPONSE r) \<Rightarrow> vr_granted r | _ \<Rightarrow> False)
   | _ \<Rightarrow> rn_state n \<noteq> LEADER \<and> rn_state n' = LEADER)"

definition timed_message ::
    "raft_config \<Rightarrow> (snapshot_meta \<Rightarrow> str) \<Rightarrow> bool \<Rightarrow> rpc_cb \<Rightarrow> nat \<Rightarrow> nat \<Rightarrow> raft_message \<Rightarrow> timed \<Rightarrow> timed option" where
  "timed_message cfg ser can_open rpc now rnd msg td = do {
     (reply, n) \<leftarrow> Raft_OnMessage ser can_open rpc msg (td_node td);
     let td1 = td\<lparr> td_node := n \<rparr>;
     Some (if resets_timer msg reply (td_node td) n then ResetElectionTimer cfg now rnd td1 else td1) }"

text \<open>A history of one node: turns of its timer and messages of every kind.\<close>

datatype timed_event = Turn nat nat nat | Message nat nat raft_message

fun timed_run ::
    "raft_config \<Rightarrow> (snapshot_meta \<Rightarrow> str) \<Rightarrow> bool \<Rightarrow> rpc_cb \<Rightarrow> timed_event list \<Rightarrow> timed \<Rightarrow> timed option" where
  "timed_run cfg ser can_open rpc [] td = Some td"
| "timed_run cfg ser can_open rpc (Turn now later rnd # es) td = do {
     td1 \<leftarrow> TimerLoop cfg rpc now later rnd td; timed_run cfg ser can_open rpc es td1 }"
| "timed_run cfg ser can_open rpc (Message now rnd msg # es) td = do {
     td1 \<leftarrow> timed_message cfg ser can_open rpc now rnd msg td; timed_run cfg ser can_open rpc es td1 }"

text \<open>The term a message carries; and an append request that does not hit the sentinel (\<open>pops_sentinel\<close>).\<close>

definition message_term :: "raft_message \<Rightarrow> u64" where
  "message_term msg = (case msg of REQUEST_VOTE q \<Rightarrow> rv_term q | REQUEST_VOTE_RESPONSE r \<Rightarrow> vr_term r
     | APPEND_ENTRIES q \<Rightarrow> ae_term q | APPEND_ENTRIES_RESPONSE r \<Rightarrow> ar_term r
     | INSTALL_SNAPSHOT q \<Rightarrow> is_term q | INSTALL_SNAPSHOT_RESPONSE r \<Rightarrow> sr_term r)"

definition plain_prev :: "raft_message \<Rightarrow> bool" where
  "plain_prev msg \<longleftrightarrow> (case msg of APPEND_ENTRIES req \<Rightarrow> ae_prev_log_index req = 0 \<longrightarrow> ae_prev_log_term req = 0 | _ \<Rightarrow> True)"

lemma plain_prev_keeps_sentinel: "plain_prev msg \<Longrightarrow> \<not> pops_sentinel msg n"
  by (auto simp: plain_prev_def pops_sentinel_def split: raft_message.splits)

lemma random_timeout_bounds:
  "rc_election_timeout_ms cfg \<le> RandomElectionTimeout cfg rnd" "RandomElectionTimeout cfg rnd \<le> 2 * rc_election_timeout_ms cfg"
  using mod_less_divisor [of "rc_election_timeout_ms cfg + 1" rnd] by (simp_all add: RandomElectionTimeout_def)

text \<open>
  No turn comes as late as the shortest timeout after the last request of the leader of term \<open>t\<close>, and no
  message carries a later term.
\<close>

definition feeds :: "u64 \<Rightarrow> raft_message \<Rightarrow> bool" where
  "feeds t msg \<longleftrightarrow> (case msg of APPEND_ENTRIES req \<Rightarrow> ae_term req = t | _ \<Rightarrow> False)"

fun fed :: "raft_config \<Rightarrow> u64 \<Rightarrow> nat \<Rightarrow> timed_event list \<Rightarrow> bool" where
  "fed cfg t heard [] \<longleftrightarrow> True"
| "fed cfg t heard (Turn now later rnd # es) \<longleftrightarrow> now < heard + rc_election_timeout_ms cfg \<and> fed cfg t heard es"
| "fed cfg t heard (Message now rnd msg # es) \<longleftrightarrow> message_term msg \<le> t \<and> plain_prev msg \<and>
     ((feeds t msg \<and> fed cfg t now es) \<or> (heard \<le> now \<and> fed cfg t heard es))"

lemma append_same_term:
  assumes "HandleAppendEntries sender req n = Some (r, n')" "ae_term req = rn_current_term n"
  shows "rn_state n' = FOLLOWER \<and> rn_current_term n' = rn_current_term n \<and> rn_voted_for n' = rn_voted_for n"
proof -
  let ?m = "ae_enter sender req (n\<lparr> rn_ae_resp := (rn_ae_resp n)\<lparr> ar_term := rn_current_term n \<rparr> \<rparr>)"
  have "ae_check_log req ?m = Some (r, n')" using assms by (simp add: HandleAppendEntries_def Let_def)
  from ae_check_log_same [OF this] assms(2) show ?thesis
    by (auto simp: same_vote_def ae_enter_def Let_def)
qed

text \<open>A message of no later term leaves a follower a follower of its term, with its vote if it has cast one.\<close>

lemma install_same_term:
  assumes "HandleInstallSnapshot ser ok sender req n = Some (r, n')" "is_term req \<le> rn_current_term n" "rn_state n = FOLLOWER"
  shows "rn_state n' = FOLLOWER \<and> rn_current_term n' = rn_current_term n \<and> rn_voted_for n' = rn_voted_for n"
  using assms
  by (auto simp: HandleInstallSnapshot_def is_enter_def is_install_def Let_def bind_eq_Some_conv split: if_splits)

lemma vote_same_term:
  assumes "HandleRequestVote sender req n = Some (r, n')" "rv_term req \<le> rn_current_term n"
  shows "rn_state n' = rn_state n \<and> rn_current_term n' = rn_current_term n \<and> (rn_voted_for n \<noteq> [] \<longrightarrow> rn_voted_for n' = rn_voted_for n)"
proof (cases "rv_term req < rn_current_term n")
  case True
  with assms(1) show ?thesis by (auto simp: HandleRequestVote_def Let_def)
next
  case False
  let ?m = "n\<lparr> rn_vote_resp := (rn_vote_resp n)\<lparr> vr_term := rn_current_term n \<rparr> \<rparr>"
  have "rv_enter req ?m = ?m" using assms(2) by (simp add: rv_enter_def)
  then obtain ok where ok: "can_vote req ?m = Some ok"
    "n' = (if ok then (PersistState (?m\<lparr> rn_voted_for := rv_candidate_id req \<rparr>))\<lparr> rn_vote_resp := r \<rparr> else ?m\<lparr> rn_vote_resp := r \<rparr>)"
    using assms(1) False by (auto simp: HandleRequestVote_def Let_def bind_eq_Some_conv)
  have "rn_voted_for n = [] \<or> rn_voted_for n = rv_candidate_id req" if ok
    using ok(1) that by (auto simp: can_vote_def split: if_splits)
  with ok(2) show ?thesis by auto
qed

lemma append_no_later_term:
  assumes "HandleAppendEntries sender req n = Some (r, n')" "ae_term req \<le> rn_current_term n" "rn_state n = FOLLOWER"
  shows "rn_state n' = FOLLOWER \<and> rn_current_term n' = rn_current_term n \<and> rn_voted_for n' = rn_voted_for n"
proof (cases "ae_term req = rn_current_term n")
  case True
  with append_same_term [OF assms(1)] show ?thesis by simp
next
  case False
  with assms(2) have "ae_term req < rn_current_term n" by simp
  with assms show ?thesis by (auto simp: HandleAppendEntries_def Let_def)
qed

lemma follower_message:
  assumes "log_wf (rn_log n)" "rn_state n = FOLLOWER" "message_term msg \<le> rn_current_term n" "plain_prev msg"
  obtains reply n' where "Raft_OnMessage ser can_open record_rpc msg n = Some (reply, n')" "log_wf (rn_log n')"
    "rn_state n' = FOLLOWER" "rn_current_term n' = rn_current_term n" "rn_voted_for n \<noteq> [] \<longrightarrow> rn_voted_for n' = rn_voted_for n"
proof -
  have "Raft_OnMessage ser can_open record_rpc msg n \<noteq> None"
    using Raft_OnMessage_None [OF assms(1)] plain_prev_keeps_sentinel [OF assms(4)] by blast
  then obtain reply n' where run: "Raft_OnMessage ser can_open record_rpc msg n = Some (reply, n')" by auto
  have "rn_state n' = FOLLOWER \<and> rn_current_term n' = rn_current_term n \<and> (rn_voted_for n \<noteq> [] \<longrightarrow> rn_voted_for n' = rn_voted_for n)"
  proof (cases msg)
    case (REQUEST_VOTE req)
    then obtain r where "HandleRequestVote (rv_candidate_id req) req n = Some (r, n')" "rv_term req \<le> rn_current_term n"
      using run assms(3) by (auto simp: Raft_OnMessage_def message_term_def bind_eq_Some_conv)
    from vote_same_term [OF this] assms(2) show ?thesis by simp
  next
    case (APPEND_ENTRIES req)
    then obtain r where "HandleAppendEntries (ae_leader_id req) req n = Some (r, n')" "ae_term req \<le> rn_current_term n"
      using run assms(3) by (auto simp: Raft_OnMessage_def message_term_def bind_eq_Some_conv)
    from append_no_later_term [OF this assms(2)] show ?thesis by simp
  next
    case (INSTALL_SNAPSHOT req)
    then obtain r where "HandleInstallSnapshot ser can_open (is_leader_id req) req n = Some (r, n')" "is_term req \<le> rn_current_term n"
      using run assms(3) by (auto simp: Raft_OnMessage_def message_term_def bind_eq_Some_conv)
    from install_same_term [OF this assms(2)] show ?thesis by simp
  qed (use run assms(2,3) in \<open>auto simp: Raft_OnMessage_def message_term_def HandleRequestVoteResponse_def
      HandleAppendEntriesResponse_def not_less bind_eq_Some_conv split: if_splits\<close>)
  with run Raft_OnMessage_log_wf [OF run assms(1)] show thesis by (intro that [of reply n']) simp_all
qed

lemma resets_timer_follower:
  "rn_state n' = FOLLOWER \<Longrightarrow> feeds (rn_current_term n) msg \<Longrightarrow> resets_timer msg reply n n'"
  by (auto simp: resets_timer_def feeds_def split: raft_message.splits)

lemma fed_follower:
  assumes "fed cfg t heard es" "rn_state (td_node td) = FOLLOWER" "rn_current_term (td_node td) = t" "log_wf (rn_log (td_node td))"
    "heard + rc_election_timeout_ms cfg \<le> td_election_deadline td"
  shows "\<exists>td'. timed_run cfg ser can_open record_rpc es td = Some td' \<and> rn_state (td_node td') = FOLLOWER \<and>
    rn_current_term (td_node td') = t \<and> (rn_voted_for (td_node td) \<noteq> [] \<longrightarrow> rn_voted_for (td_node td') = rn_voted_for (td_node td))"
  using assms
proof (induction cfg t heard es arbitrary: td rule: fed.induct)
  case (2 cfg t heard now later rnd es)
  then have "TimerLoop cfg record_rpc now later rnd td = Some td" by (simp add: TimerLoop_def)
  with 2 show ?case by simp
next
  case (3 cfg t heard now rnd msg es)
  from 3 have m: "message_term msg \<le> rn_current_term (td_node td)" "plain_prev msg" by simp_all
  obtain reply n where n: "Raft_OnMessage ser can_open record_rpc msg (td_node td) = Some (reply, n)" "log_wf (rn_log n)" "rn_state n = FOLLOWER"
    "rn_current_term n = t" "rn_voted_for (td_node td) \<noteq> [] \<longrightarrow> rn_voted_for n = rn_voted_for (td_node td)"
    using follower_message [OF "3.prems"(4,2) m] "3.prems"(3) by metis
  define td1 where "td1 = (if resets_timer msg reply (td_node td) n then ResetElectionTimer cfg now rnd (td\<lparr> td_node := n \<rparr>) else td\<lparr> td_node := n \<rparr>)"
  have run: "timed_message cfg ser can_open record_rpc now rnd msg td = Some td1" by (simp add: timed_message_def n(1) td1_def Let_def)
  have node: "td_node td1 = n" by (simp add: td1_def ResetElectionTimer_def)
  have "now + rc_election_timeout_ms cfg \<le> td_election_deadline td1" if "feeds t msg"
    using that resets_timer_follower [OF n(3), of "td_node td" msg reply] "3.prems"(3) n(3) random_timeout_bounds(1) [of cfg rnd]
    by (simp add: td1_def ResetElectionTimer_def)
  moreover have "heard + rc_election_timeout_ms cfg \<le> td_election_deadline td1" if "heard \<le> now"
    using that "3.prems"(5) n(3) random_timeout_bounds(1) [of cfg rnd] by (simp add: td1_def ResetElectionTimer_def)
  ultimately have "\<exists>td'. timed_run cfg ser can_open record_rpc es td1 = Some td' \<and> rn_state (td_node td') = FOLLOWER \<and>
    rn_current_term (td_node td') = t \<and> (rn_voted_for (td_node td1) \<noteq> [] \<longrightarrow> rn_voted_for (td_node td') = rn_voted_for (td_node td1))"
    using "3.IH"(1) [of td1] "3.IH"(2) [of td1] "3.prems"(1) node n by auto
  with run n(5) node show ?case by auto
qed simp

text \<open>
  The leader's turns: before each the thread sleeps (\<open>wait\<close>), and a turn that fires is busy sending for \<open>dur\<close>.
  \<open>beats\<close> lists when each round of heartbeats starts and ends.
\<close>

fun beats :: "raft_config \<Rightarrow> rpc_cb \<Rightarrow> nat \<Rightarrow> (nat \<times> nat \<times> nat) list \<Rightarrow> timed \<Rightarrow> (nat \<times> nat) list option" where
  "beats cfg rpc clock [] td = Some []"
| "beats cfg rpc clock ((wait, dur, rnd) # ts) td = do {
     let now = clock + wait;
     td1 \<leftarrow> TimerLoop cfg rpc now (now + dur) rnd td;
     if td_election_deadline td \<le> now
     then do { rs \<leftarrow> beats cfg rpc (now + dur) ts td1; Some ((now, now + dur) # rs) }
     else beats cfg rpc now ts td1 }"

text \<open>Two rounds in a row: the next one starts an interval after the end of the last, and not later than one sleep after that.\<close>

fun spaced :: "nat \<Rightarrow> nat \<Rightarrow> nat \<Rightarrow> nat \<Rightarrow> (nat \<times> nat) list \<Rightarrow> bool" where
  "spaced H W D deadline [] \<longleftrightarrow> True"
| "spaced H W D deadline ((s, e) # rs) \<longleftrightarrow> deadline \<le> s \<and> s \<le> deadline + W \<and> s \<le> e \<and> e \<le> s + D \<and> spaced H W D (e + H) rs"

lemma leader_turn:
  assumes "rn_state (td_node td) = LEADER"
  shows "\<exists>td1. TimerLoop cfg record_rpc now later rnd td = Some td1 \<and> rn_state (td_node td1) = LEADER \<and>
    td_election_deadline td1 = (if td_election_deadline td \<le> now then later + rc_heartbeat_interval_ms cfg else td_election_deadline td)"
proof (cases "td_election_deadline td \<le> now")
  case True
  obtain n where n: "SendHeartbeats record_rpc (td_node td) = Some n" "core n = core (td_node td)" using SendHeartbeats_core by blast
  from core_fields(6) [OF n(2)] n(1) True assms show ?thesis
    by (simp add: TimerLoop_def OnElectionTimeout_def ResetElectionTimer_def)
next
  case False
  with assms show ?thesis by (simp add: TimerLoop_def)
qed

lemma beats_spaced:
  assumes "rn_state (td_node td) = LEADER" "clock \<le> td_election_deadline td" "\<forall>(wait, dur, rnd) \<in> set ts. wait \<le> W \<and> dur \<le> D"
  shows "\<exists>rs. beats cfg record_rpc clock ts td = Some rs \<and> spaced (rc_heartbeat_interval_ms cfg) W D (td_election_deadline td) rs"
  using assms
proof (induction ts arbitrary: clock td)
  case (Cons x ts)
  obtain wait dur rnd where x: "x = (wait, dur, rnd)" by (cases x) auto
  from leader_turn [OF Cons.prems(1), of cfg "clock + wait" "clock + wait + dur" rnd] obtain td1 where
    td1: "TimerLoop cfg record_rpc (clock + wait) (clock + wait + dur) rnd td = Some td1" "rn_state (td_node td1) = LEADER"
    "td_election_deadline td1 = (if td_election_deadline td \<le> clock + wait then clock + wait + dur + rc_heartbeat_interval_ms cfg else td_election_deadline td)"
    by blast
  show ?case
  proof (cases "td_election_deadline td \<le> clock + wait")
    case True
    have "\<exists>rs. beats cfg record_rpc (clock + wait + dur) ts td1 = Some rs \<and> spaced (rc_heartbeat_interval_ms cfg) W D (td_election_deadline td1) rs"
      by (rule Cons.IH) (use Cons.prems td1 True in auto)
    with Cons.prems td1 True show ?thesis by (auto simp: x Let_def)
  next
    case False
    have "\<exists>rs. beats cfg record_rpc (clock + wait) ts td1 = Some rs \<and> spaced (rc_heartbeat_interval_ms cfg) W D (td_election_deadline td1) rs"
      by (rule Cons.IH) (use Cons.prems td1 False in auto)
    with td1 False show ?thesis by (auto simp: x Let_def)
  qed
qed simp

text \<open>
  What a follower sees of these rounds: in each, one request of the leader at some time while the round lasts,
  then turns of its own timer and any other messages, from anybody, as long as they carry no later term.  The
  turns of a round are over when the next request comes; after the last request they stay within the shortest
  timeout.
\<close>

type_synonym episode = "(nat \<times> nat \<times> append_request) \<times> timed_event list"

fun episode_events :: "episode list \<Rightarrow> timed_event list" where
  "episode_events [] = []"
| "episode_events (((now, rnd, req), evs) # eps) = Message now rnd (APPEND_ENTRIES req) # evs @ episode_events eps"

fun event_within :: "u64 \<Rightarrow> nat \<Rightarrow> nat \<Rightarrow> timed_event \<Rightarrow> bool" where
  "event_within t from until (Turn now later rnd) \<longleftrightarrow> now \<le> until"
| "event_within t from until (Message now rnd msg) \<longleftrightarrow> from \<le> now \<and> message_term msg \<le> t \<and> plain_prev msg"

fun hears :: "nat \<Rightarrow> u64 \<Rightarrow> (nat \<times> nat) list \<Rightarrow> episode list \<Rightarrow> bool" where
  "hears T t [] [] \<longleftrightarrow> True"
| "hears T t ((s, e) # rs) (((now, rnd, req), evs) # eps) \<longleftrightarrow> s \<le> now \<and> now \<le> e \<and> ae_term req = t \<and> plain_prev (APPEND_ENTRIES req) \<and>
     (\<forall>ev \<in> set evs. event_within t now (case eps of [] \<Rightarrow> now + (T - 1) | ((nxt, _), _) # _ \<Rightarrow> nxt) ev) \<and> hears T t rs eps"
| "hears T t _ _ \<longleftrightarrow> False"

lemma fed_events: "(\<forall>ev \<in> set evs. event_within t heard until ev) \<Longrightarrow> until < heard + rc_election_timeout_ms cfg \<Longrightarrow>
  fed cfg t heard es \<Longrightarrow> fed cfg t heard (evs @ es)"
proof (induction evs)
  case (Cons ev evs)
  then show ?case by (cases ev) auto
qed simp

lemma hears_fed:
  assumes "spaced H W D deadline rs" "hears T t rs eps" "H + W + 2 * D < T" "T = rc_election_timeout_ms cfg"
  shows "fed cfg t heard (episode_events eps)"
  using assms
proof (induction T t rs eps arbitrary: deadline heard rule: hears.induct)
  case (2 T t s e rs now rnd req evs eps)
  let ?until = "case eps of [] \<Rightarrow> now + (T - 1) | ((nxt, _), _) # _ \<Rightarrow> nxt"
  have bound: "?until < now + rc_election_timeout_ms cfg"
  proof (cases eps)
    case Nil
    with 2 show ?thesis by simp
  next
    case (Cons ep eps')
    obtain nxt rest evs' where ep: "ep = ((nxt, rest), evs')" by (cases ep) auto
    from 2 Cons obtain s' e' rs' where rs: "rs = (s', e') # rs'" by (cases rs) auto
    obtain rnd' req' where "rest = (rnd', req')" by (cases rest)
    then have "nxt \<le> e'" "s' \<le> e + H + W" "e' \<le> s' + D" "e \<le> s + D" "s \<le> now" using 2 Cons ep rs by auto
    with 2 have "nxt < now + rc_election_timeout_ms cfg" by linarith
    with Cons ep show ?thesis by simp
  qed
  have "fed cfg t now (episode_events eps)" by (rule "2.IH" [of "e + H"]) (use 2 in auto)
  then have "fed cfg t now (evs @ episode_events eps)"
    using "2.prems"(2) [unfolded hears.simps] by (intro fed_events [OF _ bound]) blast+
  with 2 show ?case by (simp add: message_term_def feeds_def)
qed auto

text \<open>
  C6: a leader that is not held up keeps its followers, as long as nobody shows them a later term.  With
  interval \<open>H\<close>, shortest timeout \<open>T\<close>, sleeps of at most \<open>W\<close> and rounds of at most \<open>D\<close> milliseconds, and
  \<open>H + W + 2 D < T\<close>: let a follower with a well-formed log get one request of the leader in every round and,
  in between, any other messages, vote requests and snapshots of any node among them, none of which carries
  a later term and none of which has previous index 0 with a previous term other than 0.  Then, however the
  turns and draws of both timers fall, every message is handled, and the follower never stands for election:
  it is still a follower in the leader's term and keeps its vote, if it had cast one.  The condition on the
  terms is needed, since a vote request of a later term takes any node into that term.
\<close>

theorem leader_keeps_its_followers:
  assumes "rn_state (td_node l) = LEADER" "clock \<le> td_election_deadline l" "\<forall>(wait, dur, rnd) \<in> set ts. wait \<le> W \<and> dur \<le> D"
    and "beats cfg record_rpc clock ts l = Some rs" "rc_heartbeat_interval_ms cfg + W + 2 * D < rc_election_timeout_ms cfg"
    and "hears (rc_election_timeout_ms cfg) t rs eps" "rn_state (td_node f) = FOLLOWER" "rn_current_term (td_node f) = t"
    and "log_wf (rn_log (td_node f))" "rc_election_timeout_ms cfg \<le> td_election_deadline f"
  shows "\<exists>f'. timed_run cfg ser can_open record_rpc (episode_events eps) f = Some f' \<and> rn_state (td_node f') = FOLLOWER \<and>
    rn_current_term (td_node f') = t \<and> (rn_voted_for (td_node f) \<noteq> [] \<longrightarrow> rn_voted_for (td_node f') = rn_voted_for (td_node f))"
proof -
  have "spaced (rc_heartbeat_interval_ms cfg) W D (td_election_deadline l) rs" using beats_spaced [where cfg = cfg, OF assms(1-3)] assms(4) by auto
  from hears_fed [OF this assms(6,5) refl] have "fed cfg t 0 (episode_events eps)" .
  from fed_follower [OF this assms(7-9)] assms(10) show ?thesis by simp
qed

text \<open>One round, in which another node asks for a vote in the same term, and a turn just before the timeout.\<close>

theorem leader_keeps_its_followers_witness:
  "\<exists>l f f'. beats default_config record_rpc 0 [(100, 50, 0)] l = Some [(100, 150)] \<and>
     timed_run default_config (\<lambda>_. []) True record_rpc [Message 120 0 (APPEND_ENTRIES \<lparr> ae_term = 1, ae_leader_id = [97], ae_prev_log_index = 0,
         ae_prev_log_term = 0, ae_entries = [], ae_leader_commit = 0 \<rparr>),
       Message 200 0 (REQUEST_VOTE \<lparr> rv_term = 1, rv_candidate_id = [99], rv_last_log_index = 0, rv_last_log_term = 0 \<rparr>),
       Turn 3100 3100 0] f = Some f' \<and> rn_state (td_node f') = FOLLOWER \<and> rn_voted_for (td_node f') = [97]"
proof -
  define l where "l = \<lparr> td_node = (RaftNode_new [97] [[97], [98], [99]] None None)\<lparr> rn_current_term := 1, rn_state := LEADER \<rparr>, td_election_deadline = 50 \<rparr>"
  define f where "f = \<lparr> td_node = (RaftNode_new [98] [[97], [98], [99]] None None)\<lparr> rn_current_term := 1, rn_voted_for := [97] \<rparr>, td_election_deadline = 3000 \<rparr>"
  define eps :: "episode list" where "eps = [((120, 0, \<lparr> ae_term = 1, ae_leader_id = [97 :: byte], ae_prev_log_index = 0, ae_prev_log_term = 0,
      ae_entries = [], ae_leader_commit = 0 \<rparr>),
    [Message 200 0 (REQUEST_VOTE \<lparr> rv_term = 1, rv_candidate_id = [99], rv_last_log_index = 0, rv_last_log_term = 0 \<rparr>), Turn 3100 3100 0])]"
  have start: "rn_state (td_node l) = LEADER" "0 \<le> td_election_deadline l" "\<forall>(wait, dur, rnd) \<in> set [(100 :: nat, 50 :: nat, 0 :: nat)]. wait \<le> 100 \<and> dur \<le> 50"
    by (simp_all add: l_def)
  obtain td1 where "TimerLoop default_config record_rpc 100 150 0 l = Some td1" using leader_turn [OF start(1)] by blast
  then have rs: "beats default_config record_rpc 0 [(100, 50, 0)] l = Some [(100, 150)]" by (simp add: l_def Let_def)
  have h: "hears (rc_election_timeout_ms default_config) 1 [(100, 150)] eps"
    by (simp add: eps_def default_config_def message_term_def plain_prev_def)
  have fo: "rn_state (td_node f) = FOLLOWER" "rn_current_term (td_node f) = 1" "log_wf (rn_log (td_node f))"
    "rn_voted_for (td_node f) = [97]"
    by (simp_all add: f_def RaftNode_new_def log_wf_def)
  obtain f' where "timed_run default_config (\<lambda>_. []) True record_rpc (episode_events eps) f = Some f'" "rn_state (td_node f') = FOLLOWER"
    "rn_voted_for (td_node f') = [97]"
    using leader_keeps_its_followers [OF start rs _ h fo(1-3), of "\<lambda>_. []" True] fo(4) by (auto simp: default_config_def f_def)
  with rs show ?thesis unfolding eps_def by auto
qed

lemma turns_bounded: "\<exists>W D. \<forall>(wait, dur, rnd) \<in> set ts. wait \<le> (W :: nat) \<and> dur \<le> (D :: nat)"
proof (induction ts)
  case (Cons t ts)
  then obtain W D where "\<forall>(wait, dur, rnd) \<in> set ts. wait \<le> W \<and> dur \<le> D" by blast
  then show ?case by (intro exI [of _ "W + fst t"] exI [of _ "D + fst (snd t)"]) (cases t, fastforce)
qed simp

text \<open>What an election timeout does while no answers come.\<close>

lemma election_loop_silent: "\<exists>n'. election_loop record_rpc msg ps n = Some n' \<and> core n' = core n"
proof (induction ps arbitrary: n)
  case (Cons p ps)
  then show ?case
    by (cases "p = rn_my_id n") (simp_all add: record_rpc_def, metis core_update(5))
qed simp

lemma timeout_stands:
  assumes "rn_state n \<noteq> LEADER" "rn_log n \<noteq> []" "2 \<le> length (rn_peers n)"
  shows "\<exists>n'. OnElectionTimeout record_rpc n = Some n' \<and> rn_state n' = CANDIDATE \<and> rn_current_term n' = rn_current_term n + 1 \<and> rn_voted_for n' = rn_my_id n"
proof -
  define m where "m = BecomeCandidate n"
  have m: "rn_state m = CANDIDATE" "rn_current_term m = rn_current_term n + 1" "rn_voted_for m = rn_my_id n" "rn_votes_received m = 1"
    "rn_log m = rn_log n" "rn_peers m = rn_peers n" by (simp_all add: m_def BecomeCandidate_def)
  obtain req where req: "vote_request_of m = Some req" using m(5) assms(2) by (auto simp: vote_request_of_def log_back_def)
  obtain k where k: "election_loop record_rpc (REQUEST_VOTE req) (rn_peers m) m = Some k" "core k = core m" using election_loop_silent by blast
  note cf = core_fields [OF k(2)]
  have "2 \<le> majority k" using assms(3) cf m by (simp add: majority_def)
  then have "election_check record_rpc k = Some k" using cf m by (simp add: election_check_def)
  with req k(1) assms(1) cf m show ?thesis by (simp add: OnElectionTimeout_def StartElection_def m_def [symmetric])
qed

text \<open>
  One peer that does not answer costs a healthy leader its term.  Heartbeats are sent one after the other,
  and a peer that cannot be reached holds the round up (for up to three seconds, \<open>SO_SNDTIMEO\<close>).  If a round
  takes so long that with the interval it reaches the timeout another follower has drawn, that follower, though
  it was the first to be served in this round, has its timeout before the leader's next round begins, and when
  its timer fires it is a candidate of the next term.
\<close>

theorem slow_round_starts_election:
  assumes "rn_state (td_node l) = LEADER" "clock \<le> td_election_deadline l" "beats cfg record_rpc clock ts l = Some ((s, e) # (s', e') # rs)"
    and "RandomElectionTimeout cfg rnd \<le> (e - s) + rc_heartbeat_interval_ms cfg"
    and "ae_term req = rn_current_term (td_node f)" "timed_message cfg ser can_open record_rpc s rnd (APPEND_ENTRIES req) f = Some f1"
    and "rn_log (td_node f1) \<noteq> []" "2 \<le> length (rn_peers (td_node f1))"
  shows "td_election_deadline f1 \<le> s' \<and> (\<exists>f2. TimerLoop cfg record_rpc (td_election_deadline f1) later rnd' f1 = Some f2 \<and>
    rn_state (td_node f2) = CANDIDATE \<and> rn_current_term (td_node f2) = rn_current_term (td_node f) + 1)"
proof -
  obtain W D where "\<forall>(wait, dur, rnd) \<in> set ts. wait \<le> W \<and> dur \<le> (D :: nat)" using turns_bounded [of ts] by (elim exE)
  from beats_spaced [where cfg = cfg, OF assms(1,2) this] have
    "spaced (rc_heartbeat_interval_ms cfg) W D (td_election_deadline l) ((s, e) # (s', e') # rs)" unfolding assms(3) by blast
  then have sp: "s \<le> e" "e + rc_heartbeat_interval_ms cfg \<le> s'" by simp_all
  obtain r n where n: "HandleAppendEntries (ae_leader_id req) req (td_node f) = Some (r, n)" "f1 = ResetElectionTimer cfg s rnd (f\<lparr> td_node := n \<rparr>)"
    using assms(6) by (auto simp: timed_message_def Raft_OnMessage_def resets_timer_def assms(5) bind_eq_Some_conv Let_def)
  note same = append_same_term [OF n(1) assms(5)]
  have f1: "td_node f1 = n" "td_election_deadline f1 = s + RandomElectionTimeout cfg rnd"
    unfolding n(2) ResetElectionTimer_def using same by simp_all
  have "td_election_deadline f1 \<le> s'" using f1(2) assms(4) sp by linarith
  moreover obtain n2 where "OnElectionTimeout record_rpc n = Some n2" "rn_state n2 = CANDIDATE" "rn_current_term n2 = rn_current_term n + 1"
    using timeout_stands [of n] same assms(7,8) f1(1) by auto
  ultimately show ?thesis using same f1(1) by (simp add: TimerLoop_def ResetElectionTimer_def)
qed

text \<open>The default configuration, and a round in which one peer takes its three seconds.\<close>

theorem slow_round_starts_election_witness:
  "\<exists>l f f1 f2 req. beats default_config record_rpc 0 [(100, 3000, 0), (500, 0, 0)] l = Some [(100, 3100), (3600, 3600)] \<and>
     rn_current_term (td_node f) = 1 \<and> timed_message default_config (\<lambda>_. []) True record_rpc 100 0 (APPEND_ENTRIES req) f = Some f1 \<and>
     TimerLoop default_config record_rpc 3100 3100 0 f1 = Some f2 \<and> rn_state (td_node f2) = CANDIDATE \<and> rn_current_term (td_node f2) = 2"
proof -
  define l where "l = \<lparr> td_node = (RaftNode_new [97] [[97], [98], [99]] None None)\<lparr> rn_current_term := 1, rn_state := LEADER \<rparr>, td_election_deadline = 50 \<rparr>"
  define f where "f = \<lparr> td_node = (RaftNode_new [98] [[97], [98], [99]] None None)\<lparr> rn_current_term := 1 \<rparr>, td_election_deadline = 3000 \<rparr>"
  define req where "req = \<lparr> ae_term = 1, ae_leader_id = [97 :: byte], ae_prev_log_index = 0, ae_prev_log_term = 0, ae_entries = [] :: log_entry list, ae_leader_commit = 0 \<rparr>"
  have start: "rn_state (td_node l) = LEADER" "0 \<le> td_election_deadline l" by (simp_all add: l_def)
  obtain td1 where td1: "TimerLoop default_config record_rpc 100 3100 0 l = Some td1" "rn_state (td_node td1) = LEADER" "td_election_deadline td1 = 3600"
    using leader_turn [OF start(1), of default_config 100 3100 0] by (auto simp: l_def default_config_def)
  obtain td2 where "TimerLoop default_config record_rpc 3600 3600 0 td1 = Some td2" using leader_turn [OF td1(2)] by blast
  then have rs: "beats default_config record_rpc 0 [(100, 3000, 0), (500, 0, 0)] l = Some [(100, 3100), (3600, 3600)]"
    using td1 by (simp add: l_def Let_def)
  obtain r n where n: "HandleAppendEntries [97] req (td_node f) = Some (r, n)" "rn_log n = [dummy_entry]" "rn_peers n = [[97], [98], [99]]"
    by (simp add: HandleAppendEntries_def ae_enter_def ae_check_log_def ae_accept_def req_def f_def RaftNode_new_def log_back_def GetLogEntry_def
        follower_commit_def dummy_entry_def Let_def)
  have same: "ae_term req = rn_current_term (td_node f)" and ae_leader: "ae_leader_id req = [97]" by (simp_all add: req_def f_def)
  define f1 where "f1 = ResetElectionTimer default_config 100 0 (f\<lparr> td_node := n \<rparr>)"
  from append_same_term [OF n(1) same] n same
  have f1: "timed_message default_config (\<lambda>_. []) True record_rpc 100 0 (APPEND_ENTRIES req) f = Some f1" "td_node f1 = n" "td_election_deadline f1 = 3100"
    by (simp_all add: f1_def timed_message_def Raft_OnMessage_def resets_timer_def ae_leader ResetElectionTimer_def RandomElectionTimeout_def default_config_def)
  obtain f2 where f2: "TimerLoop default_config record_rpc (td_election_deadline f1) 3100 0 f1 = Some f2" "rn_state (td_node f2) = CANDIDATE"
      "rn_current_term (td_node f2) = rn_current_term (td_node f) + 1"
    using slow_round_starts_election [OF start rs _ same f1(1), of 3100 0] by (auto simp: f1(2) n RandomElectionTimeout_def default_config_def)
  have "rn_current_term (td_node f) = 1" by (simp add: f_def)
  with rs f1 f2 show ?thesis by (intro exI [of _ l] exI [of _ f] exI [of _ f1] exI [of _ f2] exI [of _ req]) simp
qed

end
