(* ===== verification/SSTable.thy ===== *)
theory SSTable
  imports Bloom LruCache MemTable
begin

text \<open>
  Table files: \<open>SSTableBuilder\<close> and \<open>SSTableReader\<close> (\<open>src/src/engine\<close>).  The builder's state holds the
  bytes written so far; \<open>None\<close> is a call that never returns (the varint encoder of theory \<open>Coding\<close>
  does not return for 128 and more) or undefined behaviour.  The reader reads from the bytes of the
  file through the shared block cache of theory \<open>LruCache\<close>.
\<close>

subsection \<open>The builder\<close>

record sst_builder =
  sb_file :: str
  sb_open :: bool
  sb_keys :: "str list"
  sb_buffer :: str
  sb_num_entries :: u32
  sb_offset :: u64
  sb_index_block :: str
  sb_last_key :: str

definition SB_new :: sst_builder where
  "SB_new = \<lparr> sb_file = [], sb_open = True, sb_keys = [], sb_buffer = [], sb_num_entries = 0, sb_offset = 0,
              sb_index_block = [], sb_last_key = [] \<rparr>"

definition block_crc :: "str \<Rightarrow> u32" where
  "block_crc b = ValueCRC32 0xffffffff b"

definition SB_FlushDataBlock :: "sst_builder \<Rightarrow> sst_builder option" where
  "SB_FlushDataBlock b =
     (if sb_buffer b = [] then Some b
      else do {
        i1 \<leftarrow> PutLengthPrefixedString (sb_index_block b) (sb_last_key b);
        i2 \<leftarrow> PutVarint32 i1 (ucast (sb_offset b));
        i3 \<leftarrow> PutVarint32 i2 (word_of_nat (length (sb_buffer b) + 4));
        Some (b\<lparr> sb_index_block := i3,
                 sb_file := sb_file b @ sb_buffer b @ EncodeFixed32 (block_crc (sb_buffer b)),
                 sb_offset := sb_offset b + word_of_nat (length (sb_buffer b) + 4),
                 sb_buffer := [] \<rparr>) })"

definition SB_Add :: "str \<Rightarrow> str \<Rightarrow> sst_builder \<Rightarrow> sst_builder option" where
  "SB_Add key val b = do {
     b1 \<leftarrow> PutLengthPrefixedString (sb_buffer b) key;
     b2 \<leftarrow> PutLengthPrefixedString b1 val;
     let b' = b\<lparr> sb_buffer := b2, sb_last_key := key, sb_num_entries := sb_num_entries b + 1 \<rparr>;
     b'' \<leftarrow> (if 4096 \<le> length (sb_buffer b') then SB_FlushDataBlock b' else Some b');
     Some (b''\<lparr> sb_keys := sb_keys b'' @ [key] \<rparr>) }"

text \<open>\<open>keys_.size()\<close> is converted to the \<open>int\<close> parameter of the filter's constructor.\<close>

definition SB_Finish :: "sst_builder \<Rightarrow> (bool \<times> sst_builder) option" where
  "SB_Finish b0 = do {
     b \<leftarrow> (if sb_buffer b0 \<noteq> [] then SB_FlushDataBlock b0 else Some b0);
     bf0 \<leftarrow> BloomFilter_new (sint (word_of_nat (length (sb_keys b)) :: u32)) 10;
     bf \<leftarrow> BF_add_all (sb_keys b) bf0;
     let filter_offset = sb_offset b;
         filter_size = 1 + (word_of_nat (length (bf_data bf)) :: u32);
         offset1 = sb_offset b + ucast filter_size;
         index_offset = offset1;
         index_block_size = (word_of_nat (length (sb_index_block b) + 4) :: u32);
         offset2 = offset1 + ucast index_block_size;
         footer = EncodeFixed64 index_offset @ EncodeFixed32 index_block_size @
                  EncodeFixed64 filter_offset @ EncodeFixed32 filter_size
     in Some (True, b\<lparr> sb_file := sb_file b @ BF_serialize bf @ sb_index_block b @
                         EncodeFixed32 (block_crc (sb_index_block b)) @ footer,
                       sb_offset := offset2 + 24, sb_open := False, sb_keys := [] \<rparr>) }"

definition SB_destroy :: "sst_builder \<Rightarrow> sst_builder option" where
  "SB_destroy b = (if sb_open b then map_option snd (SB_Finish b) else Some b)"

definition SB_FileSize :: "sst_builder \<Rightarrow> u64" where
  "SB_FileSize b = sb_offset b"

fun SB_add_all :: "(str \<times> str) list \<Rightarrow> sst_builder \<Rightarrow> sst_builder option" where
  "SB_add_all [] b = Some b"
| "SB_add_all ((k, v) # kvs) b = do { b1 \<leftarrow> SB_Add k v b; SB_add_all kvs b1 }"

text \<open>What every user of the builder does: open, add the entries in order, finish, destroy.\<close>

definition sst_build :: "(str \<times> str) list \<Rightarrow> str option" where
  "sst_build kvs = do {
     b \<leftarrow> SB_add_all kvs SB_new;
     (_, b1) \<leftarrow> SB_Finish b;
     b2 \<leftarrow> SB_destroy b1;
     Some (sb_file b2) }"

subsection \<open>The reader\<close>

record sst_reader =
  st_filename :: str
  st_file :: str
  st_failed :: bool
  st_filter :: "bloom option"
  st_index :: "(str \<times> (u64 \<times> u32)) list"

text \<open>\<open>seekg\<close> and \<open>read\<close> into a zeroed buffer: a failed stream stays failed and reads nothing; a read past
  the end stores what there is.  Offsets from \<open>2^63\<close> on are negative for the stream.\<close>

definition seek_read :: "u64 \<Rightarrow> nat \<Rightarrow> sst_reader \<Rightarrow> str \<times> sst_reader" where
  "seek_read off n r =
     (let avail = drop (unat off) (st_file r) in
      if st_failed r \<or> 2 ^ 63 \<le> unat off then (replicate n 0, r\<lparr> st_failed := True \<rparr>)
      else if n \<le> length avail then (take n avail, r)
      else (avail @ replicate (n - length avail) 0, r\<lparr> st_failed := True \<rparr>))"

text \<open>The loop over the index entries; \<open>mem\<close> is the string's storage with its terminating zero.\<close>

function index_loop :: "str \<Rightarrow> nat \<Rightarrow> nat \<Rightarrow> (str \<times> (u64 \<times> u32)) list \<Rightarrow> (str \<times> (u64 \<times> u32)) list option" where
  "index_loop mem p limit idx =
     (if p < limit then
        (case DecodeString mem p limit of
           None \<Rightarrow> None
         | Some None \<Rightarrow> Some idx
         | Some (Some (max_string, p1)) \<Rightarrow>
             (case DecodeVarint32 (drop p1 mem) of
                None \<Rightarrow> None
              | Some (off, n1) \<Rightarrow>
                  if n1 \<le> 0 then Some idx
                  else (case DecodeVarint32 (drop (p1 + nat n1) mem) of
                          None \<Rightarrow> None
                        | Some (sz, n2) \<Rightarrow>
                            if n2 \<le> 0 then Some idx
                            else index_loop mem (p1 + nat n1 + nat n2) limit
                                   (al_put max_string (ucast off, sz) idx))))
      else Some idx)"
  by pat_completeness auto
termination
  by (relation "measure (\<lambda>(mem, p, limit, idx). limit - p)") (auto dest!: DecodeString_advances)

declare index_loop.simps [simp del]

text \<open>
  \<open>Open\<close> of a file with the given bytes (\<open>None\<close> inside: it cannot be opened).  The size of the index
  less than 4 makes the subtraction wrap and the read leave the string: outer \<open>None\<close>.
\<close>

definition sst_open :: "str \<Rightarrow> str option \<Rightarrow> (bool \<times> sst_reader) option" where
  "sst_open filename contents =
     (case contents of
        None \<Rightarrow> Some (False, \<lparr> st_filename = filename, st_file = [], st_failed = True, st_filter = None, st_index = [] \<rparr>)
      | Some f \<Rightarrow>
          let r = \<lparr> st_filename = filename, st_file = f, st_failed = False, st_filter = None, st_index = [] \<rparr> in
          if length f < 24 then Some (False, r)
          else do {
            let (footer, r1) = seek_read (word_of_nat (length f - 24)) 24 r;
            index_offset \<leftarrow> DecodeFixed64 footer;
            total_index_size \<leftarrow> DecodeFixed32 (drop 8 footer);
            filter_offset \<leftarrow> DecodeFixed64 (drop 12 footer);
            filter_size \<leftarrow> DecodeFixed32 (drop 20 footer);
            let r2 = (if 0 < filter_size then
                        let (d, r') = seek_read filter_offset (unat filter_size) r1
                        in r'\<lparr> st_filter := Some (BloomFilter_of_raw d) \<rparr>
                      else r1);
                (full, r3) = seek_read index_offset (unat total_index_size) r2;
                index_data_size = unat total_index_size - 4
            in if unat total_index_size < 4 then None
               else do {
                 saved_crc \<leftarrow> DecodeFixed32 (drop index_data_size full);
                 if saved_crc \<noteq> block_crc (take index_data_size full) then Some (False, r3)
                 else do {
                   idx \<leftarrow> index_loop (full @ [0]) 0 index_data_size [];
                   Some (True, r3\<lparr> st_index := idx \<rparr>) } } })"

function parse_block :: "str \<Rightarrow> nat \<Rightarrow> nat \<Rightarrow> block \<Rightarrow> block option" where
  "parse_block mem p limit out =
     (if p < limit then
        (case DecodeString mem p limit of
           None \<Rightarrow> None
         | Some None \<Rightarrow> Some out
         | Some (Some (k, p1)) \<Rightarrow>
             (case DecodeString mem p1 limit of
                None \<Rightarrow> None
              | Some None \<Rightarrow> Some out
              | Some (Some (v, p2)) \<Rightarrow> parse_block mem p2 limit (out @ [(k, v)])))
      else Some out)"
  by pat_completeness auto
termination
  by (relation "measure (\<lambda>(mem, p, limit, out). limit - p)") (auto dest!: DecodeString_advances)

declare parse_block.simps [simp del]

text \<open>The part of \<open>ReadDataBlock\<close> that reads the file; the inner \<open>None\<close> is \<open>return false\<close>.\<close>

definition load_block :: "u64 \<Rightarrow> u32 \<Rightarrow> sst_reader \<Rightarrow> (block option \<times> sst_reader) option" where
  "load_block off sz r =
     (let (full, r1) = seek_read off (unat sz) r; n = unat sz - 4 in
      if unat sz < 4 then None
      else do {
        saved_crc \<leftarrow> DecodeFixed32 (drop n full);
        if saved_crc \<noteq> block_crc (take n full) then Some (None, r1)
        else do { out \<leftarrow> parse_block (full @ [0]) 0 n []; Some (Some out, r1) } })"

definition ReadDataBlock ::
    "u64 \<Rightarrow> u32 \<Rightarrow> sst_reader \<Rightarrow> lru_cache option \<Rightarrow> (block option \<times> sst_reader \<times> lru_cache option) option" where
  "ReadDataBlock off sz r cache =
     (let cache_key = MakeCacheKey (st_filename r) off in
      case cache of
        None \<Rightarrow> do { (res, r1) \<leftarrow> load_block off sz r; Some (res, r1, None) }
      | Some c \<Rightarrow> do {
          (hit, c1) \<leftarrow> LRU_Get cache_key c;
          (case hit of
             Some out \<Rightarrow> Some (Some out, r, Some c1)
           | None \<Rightarrow> do {
               (res, r1) \<leftarrow> load_block off sz r;
               (case res of
                  None \<Rightarrow> Some (None, r1, Some c1)
                | Some out \<Rightarrow> do { c2 \<leftarrow> LRU_Insert cache_key out c1; Some (Some out, r1, Some c2) }) }) })"

text \<open>\<open>index_.lower_bound(key)\<close>: the first entry whose key is not less.\<close>

definition lower_bound :: "str \<Rightarrow> (str \<times> 'a) list \<Rightarrow> (str \<times> 'a) option" where
  "lower_bound key l = find (\<lambda>(k, _). key \<le> k) l"

text \<open>\<open>Get\<close>: the inner \<open>None\<close> is \<open>return false\<close>.\<close>

definition SST_Get :: "str \<Rightarrow> sst_reader \<Rightarrow> lru_cache option \<Rightarrow> (str option \<times> sst_reader \<times> lru_cache option) option" where
  "SST_Get key r cache = do {
     may \<leftarrow> (case st_filter r of None \<Rightarrow> Some True | Some f \<Rightarrow> BF_MayContain f key);
     if \<not> may then Some (None, r, cache)
     else case lower_bound key (st_index r) of
            None \<Rightarrow> Some (None, r, cache)
          | Some (_, off, sz) \<Rightarrow> do {
              (res, r1, c1) \<leftarrow> ReadDataBlock off sz r cache;
              Some (case res of None \<Rightarrow> None | Some entries \<Rightarrow> map_option snd (find (\<lambda>(k, _). key = k) entries), r1, c1) } }"

subsection \<open>The iterator\<close>

record sst_iterator =
  it_entries :: block
  it_pos :: nat

fun iterator_load :: "(str \<times> (u64 \<times> u32)) list \<Rightarrow> sst_reader \<Rightarrow> lru_cache option \<Rightarrow> block \<Rightarrow>
    (block \<times> sst_reader \<times> lru_cache option) option" where
  "iterator_load [] r c acc = Some (acc, r, c)"
| "iterator_load ((_, off, sz) # idx) r c acc = do {
     (res, r1, c1) \<leftarrow> ReadDataBlock off sz r c;
     iterator_load idx r1 c1 (acc @ (case res of None \<Rightarrow> [] | Some kvs \<Rightarrow> kvs)) }"

definition SST_NewIterator :: "sst_reader \<Rightarrow> lru_cache option \<Rightarrow> (sst_iterator \<times> sst_reader \<times> lru_cache option) option" where
  "SST_NewIterator r c = do {
     (es, r1, c1) \<leftarrow> iterator_load (st_index r) r c [];
     Some (\<lparr> it_entries = es, it_pos = 0 \<rparr>, r1, c1) }"

definition It_SeekToFirst :: "sst_iterator \<Rightarrow> sst_iterator" where
  "It_SeekToFirst it = it\<lparr> it_pos := 0 \<rparr>"

function seek_loop :: "str \<Rightarrow> block \<Rightarrow> nat \<Rightarrow> nat \<Rightarrow> nat" where
  "seek_loop target es lo hi =
     (if lo < hi then
        let mid = (lo + hi) div 2
        in if fst (es ! mid) < target then seek_loop target es (mid + 1) hi else seek_loop target es lo mid
      else lo)"
  by pat_completeness auto
termination by (relation "measure (\<lambda>(target, es, lo, hi). hi - lo)") auto

declare seek_loop.simps [simp del]

definition It_Seek :: "str \<Rightarrow> sst_iterator \<Rightarrow> sst_iterator" where
  "It_Seek target it = it\<lparr> it_pos := seek_loop target (it_entries it) 0 (length (it_entries it)) \<rparr>"

definition It_Valid :: "sst_iterator \<Rightarrow> bool" where
  "It_Valid it \<longleftrightarrow> it_pos it < length (it_entries it)"

definition It_Next :: "sst_iterator \<Rightarrow> sst_iterator" where
  "It_Next it = (if It_Valid it then it\<lparr> it_pos := it_pos it + 1 \<rparr> else it)"

definition It_Key :: "sst_iterator \<Rightarrow> str option" where
  "It_Key it = (if It_Valid it then Some (fst (it_entries it ! it_pos it)) else None)"

definition It_Value :: "sst_iterator \<Rightarrow> str option" where
  "It_Value it = (if It_Valid it then Some (snd (it_entries it ! it_pos it)) else None)"

subsection \<open>What the builder writes\<close>

definition kv_bytes :: "(str \<times> str) list \<Rightarrow> str" where
  "kv_bytes kvs = concat (map (\<lambda>(k, v). lp k @ lp v) kvs)"

definition short_kvs :: "(str \<times> str) list \<Rightarrow> bool" where
  "short_kvs kvs \<longleftrightarrow> (\<forall>(k, v) \<in> set kvs. length k < 128 \<and> length v < 128)"

lemma ucast_u64: "m < 4294967296 \<Longrightarrow> (ucast (word_of_nat m :: u32) :: u64) = word_of_nat m"
  by (intro word_unat_eq_iff [THEN iffD2]) (simp add: unsigned_ucast_eq take_bit_eq_mod)

lemma short_last:
  assumes "short_kvs kvs" and "kvs \<noteq> []"
  shows "length (fst (last kvs)) < 128"
proof -
  obtain k v where kv: "last kvs = (k, v)" by (cases "last kvs")
  then have "(k, v) \<in> set kvs" using last_in_set [OF assms(2)] by simp
  with assms(1) kv show ?thesis unfolding short_kvs_def by auto
qed

lemma kv_bytes_simps [simp]: "kv_bytes [] = []" "kv_bytes ((k, v) # kvs) = lp k @ lp v @ kv_bytes kvs"
  by (simp_all add: kv_bytes_def)

lemma kv_bytes_append: "kv_bytes (xs @ ys) = kv_bytes xs @ kv_bytes ys"
  by (simp add: kv_bytes_def)

lemma kv_bytes_nonempty: "kvs \<noteq> [] \<Longrightarrow> 2 \<le> length (kv_bytes kvs)"
  by (cases kvs) auto

lemma lp_nonempty [simp]: "lp v \<noteq> []"
  by (simp add: lp_def)

lemma length_kvs_le: "2 * length kvs \<le> length (kv_bytes kvs)"
  by (induction kvs) auto

text \<open>A builder that has written no block yet.\<close>

definition sb_fresh :: "sst_builder \<Rightarrow> (str \<times> str) list \<Rightarrow> bool" where
  "sb_fresh b kvs \<longleftrightarrow> sb_file b = [] \<and> sb_open b \<and> sb_keys b = map fst kvs \<and> sb_buffer b = kv_bytes kvs \<and>
     sb_offset b = 0 \<and> sb_index_block b = [] \<and> (kvs \<noteq> [] \<longrightarrow> sb_last_key b = fst (last kvs))"

lemma small_u32: "m < 4294967296 \<Longrightarrow> (word_of_nat m :: u32) < 128 \<longleftrightarrow> m < 128"
  by (simp add: word_less_nat_alt)

lemma ucast_small: "m < 256 \<Longrightarrow> (ucast (word_of_nat m :: u32) :: byte) = word_of_nat m"
  by (intro word_unat_eq_iff [THEN iffD2]) (simp add: unsigned_ucast_eq take_bit_eq_mod)

lemma flush_large:
  assumes "length (sb_last_key b) < 128" and "124 \<le> length (sb_buffer b)" and "length (sb_buffer b) < 2 ^ 31"
  shows "SB_FlushDataBlock b = None"
proof -
  have "\<not> (word_of_nat (length (sb_buffer b) + 4) :: u32) < 128"
    by (subst small_u32) (use assms(2,3) in simp_all)
  then have "PutVarint32 i (word_of_nat (length (sb_buffer b) + 4)) = None" for i
    by (simp only: PutVarint32_eq if_False)
  then show ?thesis using assms by (auto simp: SB_FlushDataBlock_def bind_eq_None_conv codec_simps)
qed

definition index_entry :: "str \<Rightarrow> nat \<Rightarrow> str" where
  "index_entry key n = lp key @ [0, word_of_nat (n + 4)]"

lemma flush_small:
  assumes "sb_fresh b kvs" and "kvs \<noteq> []" and "length (fst (last kvs)) < 128" and "length (kv_bytes kvs) < 124"
  shows "SB_FlushDataBlock b = Some (b\<lparr> sb_index_block := index_entry (fst (last kvs)) (length (kv_bytes kvs)),
           sb_file := kv_bytes kvs @ EncodeFixed32 (block_crc (kv_bytes kvs)),
           sb_offset := word_of_nat (length (kv_bytes kvs) + 4), sb_buffer := [] \<rparr>)"
proof -
  let ?n = "length (kv_bytes kvs)"
  have "kv_bytes kvs \<noteq> []" using kv_bytes_nonempty [OF assms(2)] by auto
  moreover have "PutVarint32 i (word_of_nat (?n + 4)) = Some (i @ [word_of_nat (?n + 4)])" for i
  proof -
    have "(word_of_nat (?n + 4) :: u32) < 128" by (subst small_u32) (use assms(4) in simp_all)
    moreover have "(ucast (word_of_nat (?n + 4) :: u32) :: byte) = word_of_nat (?n + 4)"
      using assms(4) by (intro ucast_small) simp
    ultimately show ?thesis by (simp only: PutVarint32_eq if_True)
  qed
  moreover have "PutVarint32 i 0 = Some (i @ [0])" for i by (simp add: PutVarint32_eq)
  ultimately show ?thesis
    using assms by (simp add: SB_FlushDataBlock_def sb_fresh_def codec_simps index_entry_def)
qed

lemma SB_Add_small:
  assumes "sb_fresh b kvs" and "length k < 128" and "length v < 128" and "length (kv_bytes (kvs @ [(k, v)])) < 4096"
  shows "\<exists>b'. SB_Add k v b = Some b' \<and> sb_fresh b' (kvs @ [(k, v)])"
  using assms by (simp add: SB_Add_def sb_fresh_def codec_simps kv_bytes_append)

lemma SB_Add_large:
  assumes "sb_fresh b kvs" and "length k < 128" and "length v < 128" and "4096 \<le> length (kv_bytes (kvs @ [(k, v)]))"
    and "length (kv_bytes kvs) < 4096"
  shows "SB_Add k v b = None"
  using assms by (auto simp: SB_Add_def sb_fresh_def codec_simps kv_bytes_append flush_large)

lemma SB_Add_long:
  assumes "128 \<le> length k \<or> 128 \<le> length v" and "length k < 2 ^ 31" and "length v < 2 ^ 31"
  shows "SB_Add k v b = None"
  using assms by (cases "length k < 128") (auto simp: SB_Add_def codec_simps)

lemma SB_add_all_small:
  assumes "sb_fresh b xs" and "short_kvs kvs" and "length (kv_bytes (xs @ kvs)) < 4096"
  shows "\<exists>b'. SB_add_all kvs b = Some b' \<and> sb_fresh b' (xs @ kvs)"
  using assms
proof (induction kvs arbitrary: xs b)
  case Nil
  then show ?case by simp
next
  case (Cons kv kvs)
  obtain k v where kv: "kv = (k, v)" by (cases kv)
  have "length (kv_bytes (xs @ [(k, v)])) < 4096" using Cons.prems(3) by (simp add: kv_bytes_append kv)
  with Cons.prems(1,2) obtain b1 where b1: "SB_Add k v b = Some b1" "sb_fresh b1 (xs @ [(k, v)])"
    using SB_Add_small [of b xs k v] by (auto simp: short_kvs_def kv)
  from Cons.IH [OF b1(2)] Cons.prems(2,3) b1(1) show ?case by (simp add: short_kvs_def kv)
qed

lemma SB_add_all_fails:
  assumes "sb_fresh b xs" and "\<forall>(k, v) \<in> set kvs. length k < 2 ^ 31 \<and> length v < 2 ^ 31" and "length (kv_bytes xs) < 4096"
    and "\<not> short_kvs kvs \<or> 4096 \<le> length (kv_bytes (xs @ kvs))"
  shows "SB_add_all kvs b = None"
  using assms
proof (induction kvs arbitrary: xs b)
  case Nil
  then show ?case by (simp add: short_kvs_def)
next
  case (Cons kv kvs)
  obtain k v where kv: "kv = (k, v)" by (cases kv)
  have kl: "length k < 2 ^ 31" "length v < 2 ^ 31" using Cons.prems(2) by (auto simp: kv)
  show ?case
  proof (cases "length k < 128 \<and> length v < 128")
    case False
    then have "SB_Add k v b = None" using kl by (intro SB_Add_long) auto
    then show ?thesis by (simp add: kv)
  next
    case short: True
    show ?thesis
    proof (cases "length (kv_bytes (xs @ [(k, v)])) < 4096")
      case True
      with short Cons.prems(1) obtain b1 where b1: "SB_Add k v b = Some b1" "sb_fresh b1 (xs @ [(k, v)])"
        using SB_Add_small by blast
      have "\<not> short_kvs kvs \<or> 4096 \<le> length (kv_bytes ((xs @ [(k, v)]) @ kvs))"
        using Cons.prems(4) short by (auto simp: kv short_kvs_def)
      with Cons.IH [OF b1(2)] Cons.prems(2) True b1(1) show ?thesis by (simp add: kv)
    next
      case False
      with short Cons.prems(1,3) have "SB_Add k v b = None" by (intro SB_Add_large) auto
      then show ?thesis by (simp add: kv)
    qed
  qed
qed

text \<open>The bytes of a table file.\<close>

definition sst_footer :: "nat \<Rightarrow> nat \<Rightarrow> nat \<Rightarrow> nat \<Rightarrow> str" where
  "sst_footer io isz fo fsz = EncodeFixed64 (word_of_nat io) @ EncodeFixed32 (word_of_nat isz) @
     EncodeFixed64 (word_of_nat fo) @ EncodeFixed32 (word_of_nat fsz)"

definition data_part :: "(str \<times> str) list \<Rightarrow> str" where
  "data_part kvs = (if kvs = [] then [] else kv_bytes kvs @ EncodeFixed32 (block_crc (kv_bytes kvs)))"

definition index_part :: "(str \<times> str) list \<Rightarrow> str" where
  "index_part kvs = (if kvs = [] then [] else index_entry (fst (last kvs)) (length (kv_bytes kvs)))"

definition sst_bytes :: "bloom \<Rightarrow> (str \<times> str) list \<Rightarrow> str" where
  "sst_bytes g kvs =
     (let d = data_part kvs; f = BF_serialize g; i = index_part kvs @ EncodeFixed32 (block_crc (index_part kvs))
      in d @ f @ i @ sst_footer (length d + length f) (length i) (length d) (length f))"

lemma SB_Finish_small:
  assumes "sb_fresh b kvs" and "short_kvs kvs" and "length (kv_bytes kvs) < 124"
  shows "\<exists>g. bloom_wf g \<and> bf_num_hashes g = 6 \<and> length (bf_data g) < 2 ^ 20 \<and> BloomFilter_of_raw (BF_serialize g) = g \<and>
     (\<forall>k \<in> fst ` set kvs. BF_MayContain g k = Some True) \<and>
     (\<exists>b'. SB_Finish b = Some (True, b') \<and> \<not> sb_open b' \<and> sb_file b' = sst_bytes g kvs)"
proof -
  let ?ks = "map fst kvs"
  have n: "length kvs < 62" using length_kvs_le [of kvs] assms(3) by linarith
  have si: "sint (word_of_nat (length ?ks) :: u32) = int (length ?ks)"
  proof -
    have "int (length kvs) < 2 ^ 31" using n by simp
    then show ?thesis by (simp add: signed_of_nat signed_take_bit_int_eq_self)
  qed
  obtain f g where g: "BloomFilter_new (int (length ?ks)) 10 = Some f" "BF_add_all ?ks f = Some g" "bloom_wf g"
    "bf_num_hashes g = 6" "BloomFilter_of_raw (BF_serialize g) = g" "length (bf_data g) = (max 64 (10 * length ?ks) + 7) div 8"
    "\<forall>k \<in> set ?ks. BF_MayContain g k = Some True"
    using filter_stored [of ?ks] n by auto
  have gl: "length (bf_data g) < 2 ^ 20" using g(6) n by simp
  define b1 where "b1 = (if kvs = [] then b else b\<lparr> sb_index_block := index_part kvs, sb_file := data_part kvs,
           sb_offset := word_of_nat (length (kv_bytes kvs) + 4), sb_buffer := [] \<rparr>)"
  have fl: "(if sb_buffer b \<noteq> [] then SB_FlushDataBlock b else Some b) = Some b1"
  proof (cases "kvs = []")
    case True
    with assms(1) show ?thesis by (simp add: sb_fresh_def b1_def)
  next
    case False
    then have "kv_bytes kvs \<noteq> []" using kv_bytes_nonempty [OF False] by auto
    moreover have "length (fst (last kvs)) < 128" using assms(2) False by (rule short_last)
    ultimately show ?thesis using flush_small [OF assms(1) False _ assms(3)] assms(1) False
      by (simp add: b1_def index_part_def data_part_def sb_fresh_def)
  qed
  have b1: "sb_keys b1 = ?ks" "sb_file b1 = data_part kvs" "sb_index_block b1 = index_part kvs"
    "sb_offset b1 = word_of_nat (length (data_part kvs))"
    using assms(1) by (auto simp: b1_def sb_fresh_def data_part_def index_part_def)
  define b' where "b' = b1\<lparr> sb_file := sst_bytes g kvs,
      sb_offset := sb_offset b1 + ucast (1 + (word_of_nat (length (bf_data g)) :: u32)) +
        ucast (word_of_nat (length (index_part kvs) + 4) :: u32) + 24, sb_open := False, sb_keys := [] \<rparr>"
  have il: "length (index_part kvs) < 200"
  proof (cases "kvs = []")
    case False
    with assms(2) have "length (fst (last kvs)) < 128" by (rule short_last)
    with False show ?thesis by (simp add: index_part_def index_entry_def)
  qed (simp add: index_part_def)
  have w1: "1 + (word_of_nat (length (bf_data g)) :: u32) = word_of_nat (length (BF_serialize g))"
    by (simp add: BF_serialize_def)
  have w2: "(ucast (word_of_nat (length (BF_serialize g)) :: u32) :: u64) = word_of_nat (length (BF_serialize g))"
    by (rule ucast_u64) (use gl in \<open>simp add: BF_serialize_def\<close>)
  have "SB_Finish b = Some (True, b')"
    unfolding SB_Finish_def fl b'_def sst_bytes_def sst_footer_def Let_def
    by (simp add: b1 si g(1,2) w1 w2 del: of_nat_Suc length_map)
  then show ?thesis using g gl by (auto simp: b'_def)
qed

lemma SB_Finish_large:
  assumes "sb_fresh b kvs" and "kvs \<noteq> []" and "length (fst (last kvs)) < 128"
    and "124 \<le> length (kv_bytes kvs)" and "length (kv_bytes kvs) < 4096"
  shows "SB_Finish b = None"
proof -
  have "kv_bytes kvs \<noteq> []" using assms(4) by auto
  moreover have "SB_FlushDataBlock b = None"
    by (rule flush_large) (use assms in \<open>simp_all add: sb_fresh_def\<close>)
  ultimately show ?thesis using assms(1) by (simp add: SB_Finish_def sb_fresh_def)
qed

lemma SB_new_fresh: "sb_fresh SB_new []"
  by (simp add: sb_fresh_def SB_new_def)

lemma sst_build_small:
  assumes "short_kvs kvs" and "length (kv_bytes kvs) < 124"
  shows "\<exists>g. bloom_wf g \<and> bf_num_hashes g = 6 \<and> length (bf_data g) < 2 ^ 20 \<and> BloomFilter_of_raw (BF_serialize g) = g \<and>
     (\<forall>k \<in> fst ` set kvs. BF_MayContain g k = Some True) \<and> sst_build kvs = Some (sst_bytes g kvs)"
proof -
  obtain b where b: "SB_add_all kvs SB_new = Some b" "sb_fresh b kvs"
    using SB_add_all_small [OF SB_new_fresh assms(1)] assms(2) by auto
  from SB_Finish_small [OF b(2) assms] b(1) show ?thesis by (auto simp: sst_build_def SB_destroy_def)
qed

subsection \<open>What the reader reads\<close>

lemma seek_read_part:
  assumes "st_file r = xs @ ys @ zs" and "length xs = unat off" and "length ys = n" and "\<not> st_failed r" and "unat off < 2 ^ 63"
  shows "seek_read off n r = (ys, r)"
  using assms by (simp add: seek_read_def Let_def)

lemma drop_middle: "length xs = p \<Longrightarrow> drop p (xs @ ys) = ys"
  by simp

lemma parse_block_kvs:
  assumes "short_kvs kvs" and "mem = pre @ kv_bytes kvs @ post" and "post \<noteq> []"
    and "limit = length pre + length (kv_bytes kvs)"
  shows "parse_block mem (length pre) limit out = Some (out @ kvs)"
  using assms
proof (induction kvs arbitrary: pre out)
  case Nil
  then show ?case by (simp add: parse_block.simps)
next
  case (Cons kv kvs)
  obtain k v where kv: "kv = (k, v)" by (cases kv)
  let ?pre = "pre @ lp k @ lp v"
  have sh: "length k < 128" "length v < 128" "short_kvs kvs" using Cons.prems(1) by (auto simp: short_kvs_def kv)
  have d1: "drop (length pre) mem = lp k @ (lp v @ kv_bytes kvs @ post)"
    using Cons.prems(2) by (simp add: kv)
  have d2: "drop (length pre + Suc (length k)) mem = lp v @ (kv_bytes kvs @ post)"
    using Cons.prems(2) drop_middle [of "pre @ lp k" "length pre + Suc (length k)"] by (simp add: kv)
  have s1: "DecodeString mem (length pre) limit = Some (Some (k, length pre + Suc (length k)))"
    by (rule DecodeString_lp [OF sh(1) d1]) (simp add: Cons.prems(4) kv)
  have s2: "DecodeString mem (length pre + Suc (length k)) limit =
      Some (Some (v, length pre + Suc (length k) + Suc (length v)))"
    by (rule DecodeString_lp [OF sh(2) d2]) (simp add: Cons.prems(4) kv)
  have "parse_block mem (length ?pre) limit (out @ [(k, v)]) = Some ((out @ [(k, v)]) @ kvs)"
    by (rule Cons.IH [OF sh(3)]) (use Cons.prems kv in simp_all)
  moreover have "length pre < limit" using Cons.prems(4) by (simp add: kv)
  ultimately show ?case
    using s1 s2 by (subst parse_block.simps) (simp add: kv add.assoc)
qed

lemma index_loop_entry:
  assumes "length key < 128" and "n + 4 < 128" and "mem = index_entry key n @ post" and "post \<noteq> []"
  shows "index_loop mem 0 (length (index_entry key n)) [] = Some [(key, (0, word_of_nat (n + 4)))]"
proof -
  let ?p = "Suc (length key)"
  have mem: "mem = lp key @ 0 # word_of_nat (n + 4) # post" using assms(3) by (simp add: index_entry_def)
  have d0: "DecodeString mem 0 (length (index_entry key n)) = Some (Some (key, ?p))"
    using DecodeString_lp [OF assms(1), of 0 mem "0 # word_of_nat (n + 4) # post"] by (simp add: mem index_entry_def)
  have v1: "DecodeVarint32 (drop ?p mem) = Some (0, 1)"
    using DecodeVarint32_small [of 0] drop_middle [of "lp key" ?p] by (simp add: mem)
  have "(word_of_nat (n + 4) :: byte) < 128" using assms(2) by (simp add: word_less_nat_alt del: of_nat_add)
  then have v2: "DecodeVarint32 (drop (?p + 1) mem) = Some (word_of_nat (n + 4), 1)"
  proof -
    have "drop (?p + 1) mem = word_of_nat (n + 4) # post"
      using drop_middle [of "lp key @ [0]" "?p + 1"] by (simp add: mem)
    moreover have "(ucast (word_of_nat (n + 4) :: byte) :: u32) = word_of_nat (n + 4)"
      by (rule word_unat_eq_iff [THEN iffD2]) (use assms(2) in \<open>simp add: unsigned_ucast_eq take_bit_eq_mod del: of_nat_add\<close>)
    ultimately show ?thesis using DecodeVarint32_small [OF \<open>(word_of_nat (n + 4) :: byte) < 128\<close>] by simp
  qed
  have l: "length (index_entry key n) = ?p + 2" by (simp add: index_entry_def)
  show ?thesis
    unfolding l using d0 v1 v2
    by (subst index_loop.simps, simp add: l del: of_nat_add) (subst index_loop.simps, simp)
qed

definition sst_index :: "(str \<times> str) list \<Rightarrow> (str \<times> (u64 \<times> u32)) list" where
  "sst_index kvs = (if kvs = [] then [] else [(fst (last kvs), (0, word_of_nat (length (kv_bytes kvs) + 4)))])"

definition sst_reader_of :: "str \<Rightarrow> bloom \<Rightarrow> (str \<times> str) list \<Rightarrow> sst_reader" where
  "sst_reader_of name g kvs = \<lparr> st_filename = name, st_file = sst_bytes g kvs, st_failed = False,
     st_filter = Some g, st_index = sst_index kvs \<rparr>"

lemma EncodeFixed32_4: "length (EncodeFixed32 v) = 4"
  by simp

lemma index_part_loop:
  assumes "short_kvs kvs" and "length (kv_bytes kvs) < 124" and "post \<noteq> []"
  shows "index_loop (index_part kvs @ post) 0 (length (index_part kvs)) [] = Some (sst_index kvs)"
proof (cases "kvs = []")
  case True
  then show ?thesis by (simp add: index_part_def sst_index_def index_loop.simps)
next
  case False
  show ?thesis using index_loop_entry [OF short_last [OF assms(1) False], of "length (kv_bytes kvs)"] assms(2,3) False
    by (simp add: index_part_def sst_index_def)
qed

lemma sst_open_bytes:
  assumes "short_kvs kvs" and "length (kv_bytes kvs) < 124" and "bloom_wf g" and "length (bf_data g) < 2 ^ 20"
    and "BloomFilter_of_raw (BF_serialize g) = g"
  shows "sst_open name (Some (sst_bytes g kvs)) = Some (True, sst_reader_of name g kvs)"
proof -
  define d f i where "d = data_part kvs" and "f = BF_serialize g" and "i = index_part kvs"
  define ic where "ic = i @ EncodeFixed32 (block_crc i)"
  define foot where "foot = sst_footer (length d + length f) (length ic) (length d) (length f)"
  have bytes: "sst_bytes g kvs = d @ f @ ic @ foot"
    by (simp add: sst_bytes_def Let_def d_def f_def i_def ic_def foot_def)
  have ld: "length d < 200" using assms(2) by (simp add: d_def data_part_def)
  have lf: "length f < 2 ^ 21" "0 < length f" using assms(4) by (simp_all add: f_def BF_serialize_def)
  have li: "length i < 200" using short_last [OF assms(1)] by (auto simp: i_def index_part_def index_entry_def)
  have lic: "length ic = length i + 4" by (simp add: ic_def)
  have lfoot: "length foot = 24" by (simp add: foot_def sst_footer_def)
  have u32: "unat (word_of_nat (length f) :: u32) = length f" "unat (word_of_nat (length ic) :: u32) = length ic"
    using lf li lic by (simp_all only: unat_of_nat_u32) (simp_all add: lic)
  have u64: "unat (word_of_nat (length d) :: u64) = length d"
    "unat (word_of_nat (length d + length f) :: u64) = length d + length f"
    "unat (word_of_nat (length d + length f + length ic) :: u64) = length d + length f + length ic"
    using ld lf li lic by (simp_all del: of_nat_add)
  define r where "r = \<lparr> st_filename = name, st_file = sst_bytes g kvs, st_failed = False, st_filter = None, st_index = [] \<rparr>"
  define r2 where "r2 = r\<lparr> st_filter := Some g \<rparr>"
  have fr: "seek_read (word_of_nat (length (sst_bytes g kvs) - 24)) 24 r = (foot, r)"
    by (rule seek_read_part [of _ "d @ f @ ic" _ "[]"])
      (use ld lf li lic u64 in \<open>simp_all add: r_def bytes lfoot del: of_nat_add flip: add.assoc\<close>)
  have f1: "DecodeFixed64 foot = Some (word_of_nat (length d + length f))"
    by (simp add: foot_def sst_footer_def le_bytes)
  have f2: "DecodeFixed32 (drop 8 foot) = Some (word_of_nat (length ic))"
    by (simp add: foot_def sst_footer_def le_bytes)
  have f3: "DecodeFixed64 (drop 12 foot) = Some (word_of_nat (length d))"
    by (simp add: foot_def sst_footer_def le_bytes)
  have f4: "DecodeFixed32 (drop 20 foot) = Some (word_of_nat (length f))"
    by (simp add: foot_def sst_footer_def le_bytes)
  have sf: "seek_read (word_of_nat (length d)) (length f) r = (f, r)"
    by (rule seek_read_part [of _ d _ "ic @ foot"]) (use ld u64 in \<open>simp_all add: r_def bytes\<close>)
  have si: "seek_read (word_of_nat (length d + length f)) (length ic) r2 = (ic, r2)"
    by (rule seek_read_part [of _ "d @ f" _ foot]) (use ld lf u64 in \<open>simp_all add: r_def r2_def bytes del: of_nat_add\<close>)
  have pos: "(0 :: u32) < word_of_nat (length f)" using u32(1) lf(2) by (simp add: word_less_nat_alt)
  have crc: "DecodeFixed32 (drop (length i) ic) = Some (block_crc i)" "take (length i) ic = i"
    by (simp_all add: ic_def le_bytes)
  have idx: "index_loop (ic @ [0]) 0 (length i) [] = Some (sst_index kvs)"
    unfolding ic_def i_def append_assoc using assms(1,2) by (rule index_part_loop) simp
  have long: "\<not> length (sst_bytes g kvs) < 24" by (simp add: bytes lfoot)
  have u4: "length ic - 4 = length i" "\<not> length ic < 4" by (simp_all add: lic)
  have fin: "r2\<lparr> st_index := sst_index kvs \<rparr> = sst_reader_of name g kvs" by (simp add: r2_def r_def sst_reader_of_def)
  show ?thesis
    unfolding sst_open_def option.case Let_def r_def [symmetric] fr
    using long pos
    by (simp add: f1 f2 f3 f4 u32 sf assms(5) [folded f_def] r2_def [symmetric] si u4 crc idx fin del: of_nat_add)
qed

lemma load_block_bytes:
  assumes "short_kvs kvs" and "kvs \<noteq> []" and "length (kv_bytes kvs) < 124"
  shows "load_block 0 (word_of_nat (length (kv_bytes kvs) + 4)) (sst_reader_of name g kvs) =
     Some (Some kvs, sst_reader_of name g kvs)"
proof -
  let ?n = "length (kv_bytes kvs)"
  define d where "d = kv_bytes kvs @ EncodeFixed32 (block_crc (kv_bytes kvs))"
  have u: "unat (word_of_nat (?n + 4) :: u32) = ?n + 4" using assms(3) by (intro unat_of_nat_u32) simp
  obtain t where t: "sst_bytes g kvs = d @ t" using assms(2) by (simp add: sst_bytes_def data_part_def d_def Let_def)
  have sr: "seek_read 0 (?n + 4) (sst_reader_of name g kvs) = (d, sst_reader_of name g kvs)"
    by (rule seek_read_part [of _ "[]" _ t]) (simp_all add: sst_reader_of_def t d_def)
  have crc: "DecodeFixed32 (drop ?n d) = Some (block_crc (kv_bytes kvs))" "take ?n d = kv_bytes kvs"
    by (simp_all add: d_def le_bytes)
  have "parse_block (d @ [0]) (length []) ?n [] = Some ([] @ kvs)"
    using parse_block_kvs [OF assms(1), where pre = "[]" and mem = "d @ [0]" and out = "[]" and limit = ?n
        and post = "EncodeFixed32 (block_crc (kv_bytes kvs)) @ [0]"] by (simp add: d_def)
  then have pb: "parse_block (d @ [0]) 0 ?n [] = Some kvs" by simp
  have n4: "?n + 4 - 4 = ?n" "\<not> ?n + 4 < 4" by simp_all
  show ?thesis unfolding load_block_def u sr by (simp add: crc pb n4)
qed

text \<open>A cache coherent with the disk stays coherent, and the block read is the one on disk.\<close>

definition coherent :: "(str \<Rightarrow> block option) \<Rightarrow> lru_cache \<Rightarrow> bool" where
  "coherent disk c \<longleftrightarrow> lru_wf c \<and> lru_contents c \<subseteq>\<^sub>m disk"

lemma ReadDataBlock_through:
  assumes "coherent disk c" and "disk (MakeCacheKey (st_filename r) off) = Some kvs"
    and "load_block off sz r = Some (Some kvs, r)"
  shows "\<exists>c'. ReadDataBlock off sz r (Some c) = Some (Some kvs, r, Some c') \<and> coherent disk c'"
proof -
  let ?k = "MakeCacheKey (st_filename r) off"
  obtain c' where c': "lru.read_through disk ?k c = Some (Some kvs, c')" "coherent disk c'"
    using lru.read_through_transparent [of c disk ?k] assms(1,2) by (auto simp: coherent_def)
  obtain hit c1 where g: "LRU_Get ?k c = Some (hit, c1)"
    using c'(1) by (cases "LRU_Get ?k c") (auto simp: lru.read_through_def)
  show ?thesis
  proof (cases hit)
    case (Some out)
    with c' g show ?thesis by (simp add: lru.read_through_def ReadDataBlock_def)
  next
    case None
    with c'(1) g assms(2) have "LRU_Insert ?k kvs c1 = Some c'"
      by (auto simp: lru.read_through_def bind_eq_Some_conv)
    with c'(2) g None assms(3) show ?thesis by (simp add: ReadDataBlock_def)
  qed
qed

lemma find_key: "map_option snd (find (\<lambda>(k, _). key = k) kvs) = map_of kvs key"
  by (induction kvs) auto

lemma sorted_last:
  assumes "sorted_wrt (<) (map fst kvs)" and "x \<in> set kvs"
  shows "fst x \<le> (fst (last kvs) :: 'a :: linorder)"
proof -
  obtain ys y where ys: "kvs = ys @ [y]" using assms(2) by (cases kvs rule: rev_cases) auto
  with assms show ?thesis by (auto simp: sorted_wrt_append intro: less_imp_le)
qed

lemma SST_Get_bytes:
  assumes kvs: "short_kvs kvs" "length (kv_bytes kvs) < 124" "sorted_wrt (<) (map fst kvs)"
    and g: "bloom_wf g" "\<forall>k \<in> fst ` set kvs. BF_MayContain g k = Some True"
    and c: "coherent disk c" "kvs \<noteq> [] \<Longrightarrow> disk (MakeCacheKey name 0) = Some kvs"
  shows "\<exists>c'. SST_Get key (sst_reader_of name g kvs) (Some c) =
      Some (map_of kvs key, sst_reader_of name g kvs, Some c') \<and> coherent disk c'"
proof -
  let ?r = "sst_reader_of name g kvs"
  obtain may where may: "BF_MayContain g key = Some may" using BF_MayContain_bit_set [OF g(1)] by blast
  have f: "st_filter ?r = Some g" "st_index ?r = sst_index kvs" "st_filename ?r = name" by (simp_all add: sst_reader_of_def)
  show ?thesis
  proof (cases "may \<and> kvs \<noteq> [] \<and> key \<le> fst (last kvs)")
    case False
    have none: "map_of kvs key = None"
    proof (rule ccontr)
      assume "map_of kvs key \<noteq> None"
      then obtain v where v: "(key, v) \<in> set kvs" by (auto dest: map_of_SomeD)
      then have "key \<in> fst ` set kvs" "kvs \<noteq> []" by force+
      moreover have "key \<le> fst (last kvs)" using sorted_last [OF kvs(3) v] by simp
      ultimately show False using False g(2) may by auto
    qed
    show ?thesis
    proof (cases may)
      case True
      with False have "lower_bound key (sst_index kvs) = None" by (auto simp: lower_bound_def sst_index_def)
      with True may f none c(1) show ?thesis by (simp add: SST_Get_def)
    next
      case no: False
      with may f none c(1) show ?thesis by (simp add: SST_Get_def)
    qed
  next
    case True
    then have lb: "lower_bound key (sst_index kvs) = Some (fst (last kvs), 0, word_of_nat (length (kv_bytes kvs) + 4))"
      by (simp add: lower_bound_def sst_index_def del: of_nat_add)
    obtain c' where "ReadDataBlock 0 (word_of_nat (length (kv_bytes kvs) + 4)) ?r (Some c) = Some (Some kvs, ?r, Some c')"
      "coherent disk c'"
      using ReadDataBlock_through [OF c(1) _ load_block_bytes [OF kvs(1) _ kvs(2)], of name g] c(2) True f by auto
    with True may f lb show ?thesis by (simp add: SST_Get_def find_key del: of_nat_add)
  qed
qed

lemma SST_NewIterator_bytes:
  assumes "short_kvs kvs" and "length (kv_bytes kvs) < 124"
  shows "SST_NewIterator (sst_reader_of name g kvs) None =
     Some (\<lparr> it_entries = kvs, it_pos = 0 \<rparr>, sst_reader_of name g kvs, None)"
proof (cases "kvs = []")
  case True
  then show ?thesis by (simp add: SST_NewIterator_def sst_reader_of_def sst_index_def)
next
  case False
  have "st_index (sst_reader_of name g kvs) = sst_index kvs" by (simp add: sst_reader_of_def)
  with False load_block_bytes [OF assms(1) False assms(2), of name g] show ?thesis
    by (simp add: SST_NewIterator_def sst_index_def ReadDataBlock_def Let_def del: of_nat_add)
qed

lemma sst_build_large:
  assumes "\<forall>(k, v) \<in> set kvs. length k < 2 ^ 31 \<and> length v < 2 ^ 31" and "\<not> (short_kvs kvs \<and> length (kv_bytes kvs) < 124)"
  shows "sst_build kvs = None"
proof (cases "\<not> short_kvs kvs \<or> 4096 \<le> length (kv_bytes kvs)")
  case True
  then have "SB_add_all kvs SB_new = None" using SB_add_all_fails [OF SB_new_fresh assms(1)] by simp
  then show ?thesis by (simp add: sst_build_def)
next
  case small: False
  then obtain b where b: "SB_add_all kvs SB_new = Some b" "sb_fresh b kvs"
    using SB_add_all_small [OF SB_new_fresh, of kvs] by auto
  have ne: "kvs \<noteq> []" using assms(2) small by auto
  have "SB_Finish b = None"
    using SB_Finish_large [OF b(2) ne short_last [OF _ ne]] assms(2) small by auto
  with b show ?thesis by (simp add: sst_build_def)
qed

text \<open>
  A table that was built can be opened; lookups and the iterator return what was put in.
\<close>

lemma table_read:
  assumes "sst_build kvs = Some contents" and "short_kvs kvs" and "sorted_wrt (<) (map fst kvs)"
  obtains r where "sst_open name (Some contents) = Some (True, r)"
    "\<And>key c disk. coherent disk c \<Longrightarrow> disk (MakeCacheKey name 0) = Some kvs \<Longrightarrow>
       \<exists>c'. SST_Get key r (Some c) = Some (map_of kvs key, r, Some c') \<and> coherent disk c'"
    "SST_NewIterator r None = Some (\<lparr> it_entries = kvs, it_pos = 0 \<rparr>, r, None)"
proof -
  have "\<forall>(k, v) \<in> set kvs. length k < 2 ^ 31 \<and> length v < 2 ^ 31"
    using assms(2) unfolding short_kvs_def by fastforce
  then have len: "length (kv_bytes kvs) < 124" using sst_build_large [of kvs] assms(1) by auto
  obtain g where g: "bloom_wf g" "length (bf_data g) < 2 ^ 20" "BloomFilter_of_raw (BF_serialize g) = g"
    "\<forall>k \<in> fst ` set kvs. BF_MayContain g k = Some True" "contents = sst_bytes g kvs"
    using sst_build_small [OF assms(2) len] assms(1) by auto
  show thesis
  proof (rule that)
    show "sst_open name (Some contents) = Some (True, sst_reader_of name g kvs)"
      unfolding g(5) by (rule sst_open_bytes [OF assms(2) len g(1-3)])
    show "\<exists>c'. SST_Get key (sst_reader_of name g kvs) (Some c) =
        Some (map_of kvs key, sst_reader_of name g kvs, Some c') \<and> coherent disk c'"
      if "coherent disk c" "disk (MakeCacheKey name 0) = Some kvs" for key c disk
      using SST_Get_bytes [OF assms(2) len assms(3) g(1,4) that(1)] that(2) by simp
    show "SST_NewIterator (sst_reader_of name g kvs) None = Some (\<lparr> it_entries = kvs, it_pos = 0 \<rparr>, sst_reader_of name g kvs, None)"
      by (rule SST_NewIterator_bytes [OF assms(2) len])
  qed
qed

subsection \<open>Properties\<close>

text \<open>
  C35: a table built from sorted entries (keys and values below 128 bytes, less than 124 bytes of
  encoded entries in all) opens, and every lookup, through a block cache that agrees with the disk,
  returns exactly the entry of the key or reports it absent; the cache stays in agreement.
\<close>

theorem sstable_lookup:
  assumes "short_kvs kvs" and "length (kv_bytes kvs) < 124" and "sorted_wrt (<) (map fst kvs)"
    and "coherent disk c" and "kvs \<noteq> [] \<longrightarrow> disk (MakeCacheKey name 0) = Some kvs"
  shows "\<exists>contents r c'. sst_build kvs = Some contents \<and> sst_open name (Some contents) = Some (True, r) \<and>
     SST_Get key r (Some c) = Some (map_of kvs key, r, Some c') \<and> coherent disk c'"
proof -
  obtain g where g: "bloom_wf g" "length (bf_data g) < 2 ^ 20" "BloomFilter_of_raw (BF_serialize g) = g"
    "\<forall>k \<in> fst ` set kvs. BF_MayContain g k = Some True" "sst_build kvs = Some (sst_bytes g kvs)"
    using sst_build_small [OF assms(1,2)] by blast
  have "sst_open name (Some (sst_bytes g kvs)) = Some (True, sst_reader_of name g kvs)"
    by (rule sst_open_bytes [OF assms(1,2) g(1-3)])
  with g(5) SST_Get_bytes [OF assms(1-3) g(1,4) assms(4)] assms(5) show ?thesis by blast
qed

theorem sstable_lookup_witness:
  "\<exists>contents r c'. sst_build [([1], [10]), ([2, 3], [])] = Some contents \<and> sst_open [115] (Some contents) = Some (True, r) \<and>
     SST_Get [2, 3] r (Some (LRU_new 4)) = Some (Some [], r, Some c') \<and>
     coherent [MakeCacheKey [115] 0 \<mapsto> [([1], [10]), ([2, 3], [])]] c'"
proof -
  have "coherent d (LRU_new 4)" for d
    using LRU_new_inv [of 4] lru_contents_list [OF LRU_new_inv [of 4]] by (auto simp: coherent_def lru_wf_def lru_list_def)
  from sstable_lookup [OF _ _ _ this, of "[([1], [10]), ([2, 3], [])]" "[MakeCacheKey [115] 0 \<mapsto> [([1], [10]), ([2, 3], [])]]" "[115]" "[2, 3]"]
  show ?thesis by (simp add: short_kvs_def)
qed

text \<open>
  C36: building a table returns exactly when every key and value is shorter than 128 bytes and the
  encoded entries take less than 124 bytes in all; otherwise the varint encoder of the index entry (or
  of a length) loops for ever.  In particular no table ever has two blocks, and the 4096-byte block
  limit is never reached by a call that returns.
\<close>

theorem sstable_build_returns_iff:
  assumes "\<forall>(k, v) \<in> set kvs. length k < 2 ^ 31 \<and> length v < 2 ^ 31"
  shows "(sst_build kvs \<noteq> None) = (short_kvs kvs \<and> length (kv_bytes kvs) < 124)"
proof (cases "short_kvs kvs \<and> length (kv_bytes kvs) < 124")
  case True
  with sst_build_small [of kvs] show ?thesis by auto
next
  case False
  from sst_build_large [OF assms this] False show ?thesis by simp
qed

theorem sstable_build_returns_iff_witness:
  "sst_build [(replicate 60 1, replicate 61 2)] \<noteq> None \<and> sst_build [(replicate 61 1, replicate 61 2)] = None"
proof -
  have "(sst_build [(replicate 60 1, replicate 61 2)] \<noteq> None) = True"
    by (subst sstable_build_returns_iff) (simp_all add: short_kvs_def)
  moreover have "(sst_build [(replicate 61 1, replicate 61 2)] \<noteq> None) = False"
    by (subst sstable_build_returns_iff) (simp_all add: short_kvs_def)
  ultimately show ?thesis by simp
qed

lemma seek_loop_spec:
  assumes "sorted_wrt (<) (map fst es)" and "lo \<le> hi" and "hi \<le> length es"
    and "\<forall>i < lo. fst (es ! i) < target" and "\<forall>i. hi \<le> i \<and> i < length es \<longrightarrow> target \<le> fst (es ! i)"
  shows "seek_loop target es lo hi \<le> length es \<and> (\<forall>i < seek_loop target es lo hi. fst (es ! i) < target) \<and>
     (\<forall>i. seek_loop target es lo hi \<le> i \<and> i < length es \<longrightarrow> target \<le> fst (es ! i))"
  using assms
proof (induction target es lo hi rule: seek_loop.induct)
  case (1 target es lo hi)
  have mono: "fst (es ! i) \<le> fst (es ! j)" if "i \<le> j" "j < length es" for i j
    using that "1.prems"(1) by (cases "i = j") (auto simp: sorted_wrt_iff_nth_less intro: less_imp_le)
  show ?case
  proof (cases "lo < hi")
    case False
    with "1.prems" have "seek_loop target es lo hi = lo" "hi = lo" by (simp_all add: seek_loop.simps)
    with "1.prems" show ?thesis by simp
  next
    case True
    define mid where "mid = (lo + hi) div 2"
    have m: "lo \<le> mid" "mid < hi" "mid < length es" using True "1.prems"(3) by (auto simp: mid_def)
    show ?thesis
    proof (cases "fst (es ! mid) < target")
      case lt: True
      have below: "\<forall>i < mid + 1. fst (es ! i) < target"
      proof (intro allI impI)
        fix i assume "i < mid + 1"
        then have "fst (es ! i) \<le> fst (es ! mid)" using mono [OF _ m(3), of i] by simp
        then show "fst (es ! i) < target" using lt by (rule le_less_trans)
      qed
      have run: "seek_loop target es lo hi = seek_loop target es (mid + 1) hi"
        using True lt by (subst seek_loop.simps) (simp add: mid_def [symmetric])
      show ?thesis unfolding run
        using "1.IH"(1) [OF True mid_def lt "1.prems"(1) _ "1.prems"(3) below "1.prems"(5)] m by simp
    next
      case False
      have above: "\<forall>i. mid \<le> i \<and> i < length es \<longrightarrow> target \<le> fst (es ! i)"
      proof (intro allI impI)
        fix i assume "mid \<le> i \<and> i < length es"
        then have "fst (es ! mid) \<le> fst (es ! i)" using mono by simp
        with False show "target \<le> fst (es ! i)" by (meson leI order_trans)
      qed
      have run: "seek_loop target es lo hi = seek_loop target es lo mid"
        using True False by (subst seek_loop.simps) (simp add: mid_def [symmetric])
      have "mid \<le> length es" using m by simp
      from "1.IH"(2) [OF True mid_def False "1.prems"(1) m(1) this "1.prems"(4) above] show ?thesis unfolding run .
    qed
  qed
qed

text \<open>
  The iterator over a table holds exactly the entries in order, and \<open>Seek\<close> (binary search) leaves
  it at the first key not less than the target: every earlier key is less, every later one is not.
\<close>

theorem iterator_seek:
  assumes "short_kvs kvs" and "length (kv_bytes kvs) < 124" and "sorted_wrt (<) (map fst kvs)"
  shows "\<exists>contents r it. sst_build kvs = Some contents \<and> sst_open name (Some contents) = Some (True, r) \<and>
     SST_NewIterator r None = Some (it, r, None) \<and> it_entries it = kvs \<and>
     (let p = it_pos (It_Seek target it) in p \<le> length kvs \<and> (\<forall>i < p. fst (kvs ! i) < target) \<and>
        (\<forall>i. p \<le> i \<and> i < length kvs \<longrightarrow> target \<le> fst (kvs ! i)))"
proof -
  obtain g where g: "bloom_wf g" "length (bf_data g) < 2 ^ 20" "BloomFilter_of_raw (BF_serialize g) = g"
    "sst_build kvs = Some (sst_bytes g kvs)"
    using sst_build_small [OF assms(1,2)] by blast
  have "sst_open name (Some (sst_bytes g kvs)) = Some (True, sst_reader_of name g kvs)"
    by (rule sst_open_bytes [OF assms(1,2) g(1-3)])
  with g(4) SST_NewIterator_bytes [OF assms(1,2), of name g] seek_loop_spec [OF assms(3), of 0 "length kvs" target]
  show ?thesis by (fastforce simp: It_Seek_def)
qed

theorem iterator_seek_witness:
  "\<exists>contents r it. sst_build [([1], [10]), ([3], [30])] = Some contents \<and> sst_open [115] (Some contents) = Some (True, r) \<and>
     SST_NewIterator r None = Some (it, r, None) \<and> it_entries it = [([1], [10]), ([3], [30])] \<and>
     (let p = it_pos (It_Seek [2] it) in p \<le> 2)"
  using iterator_seek [of "[([1], [10]), ([3], [30])]" "[115]" "[2]"] by (auto simp: short_kvs_def Let_def)

end
