(* ===== verification/DB.thy ===== *)
theory DB
  imports WriteBatch Wal SSTable
begin

text \<open>
  The storage engine \<open>DB\<close> (\<open>src/src/engine/db.cc\<close>): write-ahead log, memtable, table files, block cache.
  The files of the directory are a map from full path to bytes; the log file is the one the log
  writer holds.  The heights the skip list draws come from \<open>db_rng\<close>, one draw per insertion.  What the
  operating system does with a log write is an argument, as in theory \<open>Wal\<close>; writing a table file is
  taken to succeed (the source does not look).  \<open>None\<close> is a call that does not return or undefined
  behaviour.  The path does not end in a slash.
\<close>

type_synonym rng = "nat \<Rightarrow> nat \<Rightarrow> bool"

record db =
  db_path :: str
  db_write_buffer_size :: u64
  db_max_sstable_count :: int
  db_mem :: memtable
  db_log :: log_writer
  db_cache :: lru_cache
  db_ssts :: "str list"
  db_next_id :: u64
  db_files :: "str \<Rightarrow> str option"
  db_rng :: rng

subsection \<open>File names\<close>

definition sst_filename :: "str \<Rightarrow> u64 \<Rightarrow> str" where
  "sst_filename path n = path @ 47 # pad6 n @ lit ''.sst''"

definition GenerateSSTableFilename :: "db \<Rightarrow> str \<times> db" where
  "GenerateSSTableFilename d = (sst_filename (db_path d) (db_next_id d), d\<lparr> db_next_id := db_next_id d + 1 \<rparr>)"

text \<open>\<open>std::stoll\<close>: white space, a sign, digits, whatever follows; \<open>None\<close> where it throws.\<close>

definition stoll :: "str \<Rightarrow> int option" where
  "stoll s =
     (let s1 = dropWhile is_space s;
          (neg, s2) = (case s1 of [] \<Rightarrow> (False, []) | b # r \<Rightarrow>
                         if b = 45 then (True, r) else if b = 43 then (False, r) else (False, s1));
          ds = takeWhile digit s2;
          n = int (digits_val 0 ds);
          v = (if neg then - n else n)
      in if ds = [] then None else if v < - (2 ^ 63) \<or> 2 ^ 63 \<le> v then None else Some v)"

text \<open>\<open>path(f).stem()\<close> of a name that ends in \<open>.sst\<close>.\<close>

definition sst_stem :: "str \<Rightarrow> str" where
  "sst_stem f = (let n = rev (takeWhile (\<lambda>b. b \<noteq> 47) (rev f)) in take (length n - 4) n)"

definition has_sst :: "str \<Rightarrow> bool" where
  "has_sst name \<longleftrightarrow> 4 < length name \<and> drop (length name - 4) name = lit ''.sst''"

text \<open>\<open>LoadSSTableList\<close>: \<open>names\<close> is the listing of the directory, in any order.\<close>

definition next_id_of :: "u64 \<Rightarrow> str \<Rightarrow> u64" where
  "next_id_of nxt f =
     (case stoll (sst_stem f) of None \<Rightarrow> nxt
      | Some v \<Rightarrow> let n = (word_of_int v :: u64) in if nxt \<le> n then n + 1 else nxt)"

definition LoadSSTableList :: "str \<Rightarrow> str list \<Rightarrow> str list \<times> u64" where
  "LoadSSTableList path names =
     (let found = map (\<lambda>n. path @ 47 # n) (filter has_sst names);
          files = sort found
      in (files, foldl next_id_of 1 files))"

subsection \<open>Recovery\<close>

text \<open>\<open>MemTableInserter\<close>: the handler of the replay; the state is the memtable, unless a call faulted.\<close>

definition inserter_put :: "str \<Rightarrow> str \<Rightarrow> (memtable \<times> rng) option \<Rightarrow> (memtable \<times> rng) option" where
  "inserter_put key val s = do {
     (m, g) \<leftarrow> s;
     m' \<leftarrow> MT_Put (g 0) key val m;
     Some (m', \<lambda>i. g (Suc i)) }"

definition inserter_delete :: "str \<Rightarrow> (memtable \<times> rng) option \<Rightarrow> (memtable \<times> rng) option" where
  "inserter_delete key s = inserter_put key [] s"

fun replay :: "str list \<Rightarrow> (memtable \<times> rng) option \<Rightarrow> (memtable \<times> rng) option" where
  "replay [] s = s"
| "replay (b # bs) s = do { (s1, _) \<leftarrow> WB_Iterate inserter_put inserter_delete b s; replay bs s1 }"

definition DB_Recover :: "str option \<Rightarrow> memtable \<times> rng \<Rightarrow> (memtable \<times> rng) option" where
  "DB_Recover log s = (case log of None \<Rightarrow> Some s | Some f \<Rightarrow> replay (read_all (LogReader_open (Some f))) (Some s))"

text \<open>The constructor, on a directory that holds the given files and log (\<open>None\<close>: no log file).\<close>

definition DB_open ::
    "str \<Rightarrow> u64 \<Rightarrow> int \<Rightarrow> nat \<Rightarrow> str list \<Rightarrow> (str \<Rightarrow> str option) \<Rightarrow> str option \<Rightarrow> bool \<Rightarrow> rng \<Rightarrow> db option" where
  "DB_open path wbs max_count cache_size names files log can_open g = do {
     let (ssts, nxt) = LoadSSTableList path names;
     (m, g') \<leftarrow> DB_Recover log (MemTable_new, g);
     Some \<lparr> db_path = path, db_write_buffer_size = wbs, db_max_sstable_count = max_count, db_mem = m,
            db_log = LogWriter_open (case log of None \<Rightarrow> [] | Some f \<Rightarrow> f) True can_open,
            db_cache = LRU_new cache_size, db_ssts = ssts, db_next_id = nxt, db_files = files, db_rng = g' \<rparr> }"

subsection \<open>Flushing and compaction\<close>

text \<open>Step 1 of \<open>DoCompaction\<close>: every table from old to new into one ordered map.\<close>

fun merge_tables :: "(str \<Rightarrow> str option) \<Rightarrow> str list \<Rightarrow> (str \<times> str) list \<Rightarrow> (str \<times> str) list option" where
  "merge_tables files [] merged = Some merged"
| "merge_tables files (f # fs) merged = do {
     (ok, r) \<leftarrow> sst_open f (files f);
     if \<not> ok then merge_tables files fs merged
     else do {
       (it, _, _) \<leftarrow> SST_NewIterator r None;
       merge_tables files fs (fold (\<lambda>(k, v) acc. al_put k v acc) (it_entries it) merged) } }"

definition DoCompaction :: "db \<Rightarrow> db option" where
  "DoCompaction d =
     (if length (db_ssts d) \<le> 1 then Some d
      else do {
        merged \<leftarrow> merge_tables (db_files d) (db_ssts d) [];
        let (new_name, d1) = GenerateSSTableFilename d;
        contents \<leftarrow> sst_build (filter (\<lambda>(k, v). v \<noteq> []) merged);
        cache' \<leftarrow> LRU_Clear (db_cache d1);
        Some (d1\<lparr> db_files := (\<lambda>f. if f \<in> set (db_ssts d1) then None else ((db_files d1)(new_name \<mapsto> contents)) f),
                  db_cache := cache', db_ssts := [new_name] \<rparr>) })"

definition MaybeScheduleCompaction :: "db \<Rightarrow> db option" where
  "MaybeScheduleCompaction d =
     (if db_max_sstable_count d \<le> sint (word_of_nat (length (db_ssts d)) :: u32) then DoCompaction d else Some d)"

definition flush_table :: "bool \<Rightarrow> db \<Rightarrow> db option" where
  "flush_table can_open d = do {
     let (name, d1) = GenerateSSTableFilename d;
     entries \<leftarrow> MT_entries (db_mem d1);
     contents \<leftarrow> sst_build entries;
     m \<leftarrow> MT_Clear (db_mem d1);
     Some (d1\<lparr> db_files := (db_files d1)(name \<mapsto> contents), db_ssts := db_ssts d1 @ [name], db_mem := m,
               db_log := LogWriter_open [] True can_open \<rparr>) }"

definition FlushMemTable :: "bool \<Rightarrow> db \<Rightarrow> db option" where
  "FlushMemTable can_open d =
     (if MT_Empty (db_mem d) then Some d
      else do { d1 \<leftarrow> flush_table can_open d; MaybeScheduleCompaction d1 })"

subsection \<open>The public operations\<close>

text \<open>
  \<open>wr\<close>: what the log write does; \<open>sy\<close>: what the flush of the log does, whose answer the source drops;
  \<open>can_open\<close>: whether a new log file can be opened.
\<close>

definition DB_Put :: "str \<Rightarrow> str \<Rightarrow> nat option \<Rightarrow> nat option \<Rightarrow> bool \<Rightarrow> db \<Rightarrow> (bool \<times> db) option" where
  "DB_Put key val wr sy can_open d = do {
     rep \<leftarrow> WB_Put WB_Clear key val;
     let (ok, lw) = AddRecord (db_log d) rep wr;
     if \<not> ok then Some (False, d\<lparr> db_log := lw \<rparr>)
     else do {
       let (_, lw1) = Sync lw sy;
       m \<leftarrow> MT_Put (db_rng d 0) key val (db_mem d);
       let d1 = d\<lparr> db_log := lw1, db_mem := m, db_rng := (\<lambda>i. db_rng d (Suc i)) \<rparr>;
       d2 \<leftarrow> (if db_write_buffer_size d1 \<le> MT_Size (db_mem d1) then FlushMemTable can_open d1 else Some d1);
       Some (True, d2) } }"

definition DB_Delete :: "str \<Rightarrow> nat option \<Rightarrow> nat option \<Rightarrow> db \<Rightarrow> (bool \<times> db) option" where
  "DB_Delete key wr sy d = do {
     rep \<leftarrow> WB_Delete WB_Clear key;
     let (ok, lw) = AddRecord (db_log d) rep wr;
     if \<not> ok then Some (False, d\<lparr> db_log := lw \<rparr>)
     else do {
       let (_, lw1) = Sync lw sy;
       m \<leftarrow> MT_Put (db_rng d 0) key [] (db_mem d);
       Some (True, d\<lparr> db_log := lw1, db_mem := m, db_rng := (\<lambda>i. db_rng d (Suc i)) \<rparr>) } }"

text \<open>\<open>GetFromSSTables\<close>, over the tables from new to old; the inner \<open>None\<close> is \<open>return false\<close>.\<close>

fun search_tables :: "str \<Rightarrow> (str \<Rightarrow> str option) \<Rightarrow> str list \<Rightarrow> lru_cache \<Rightarrow> (str option \<times> lru_cache) option" where
  "search_tables key files [] c = Some (None, c)"
| "search_tables key files (f # fs) c = do {
     (ok, r) \<leftarrow> sst_open f (files f);
     if \<not> ok then search_tables key files fs c
     else do {
       (res, _, c1) \<leftarrow> SST_Get key r (Some c);
       c2 \<leftarrow> c1;
       (case res of
          Some v \<Rightarrow> Some (if v = [] then None else Some v, c2)
        | None \<Rightarrow> search_tables key files fs c2) } }"

definition GetFromSSTables :: "str \<Rightarrow> db \<Rightarrow> (str option \<times> db) option" where
  "GetFromSSTables key d = do {
     (res, c) \<leftarrow> search_tables key (db_files d) (rev (db_ssts d)) (db_cache d);
     Some (res, d\<lparr> db_cache := c \<rparr>) }"

definition DB_Get :: "str \<Rightarrow> db \<Rightarrow> (str option \<times> db) option" where
  "DB_Get key d = do {
     hit \<leftarrow> MT_Get key (db_mem d);
     (case hit of
        Some v \<Rightarrow> Some (if v = [] then None else Some v, d)
      | None \<Rightarrow> GetFromSSTables key d) }"

definition DB_Compaction :: "db \<Rightarrow> db option" where
  "DB_Compaction d = DoCompaction d"

end
