(* ===== verification/DBProps.thy ===== *)
theory DBProps
  imports DB
begin

text \<open>
  The storage engine implements a finite map: the abstraction of a database state, the invariant that
  ties memtable, table files, cache and log to it, and one lemma per operation.
\<close>

subsection \<open>Names\<close>

lemma sst_filename_inj: "sst_filename path m = sst_filename path n \<Longrightarrow> m = n"
proof -
  assume "sst_filename path m = sst_filename path n"
  then have "pad6 m = pad6 n" by (simp add: sst_filename_def)
  then have "unat m = unat n" by (metis pad6_value)
  then show "m = n" by (simp add: word_unat_eq_iff)
qed

lemma cache_key_file: "MakeCacheKey f 0 = MakeCacheKey g 0 \<longleftrightarrow> f = g"
  by (simp add: MakeCacheKey_def)

subsection \<open>The abstraction\<close>

type_synonym tables = "(str \<times> (str \<times> str) list) list"

text \<open>An empty value is a deletion.\<close>

definition hide :: "str option \<Rightarrow> str option" where
  "hide v = (case v of None \<Rightarrow> None | Some x \<Rightarrow> if x = [] then None else Some x)"

lemma hide_simps [simp]: "hide None = None" "hide (Some []) = None" "x \<noteq> [] \<Longrightarrow> hide (Some x) = Some x"
  by (simp_all add: hide_def)

fun tables_map :: "tables \<Rightarrow> str \<rightharpoonup> str" where
  "tables_map [] = Map.empty"
| "tables_map ((_, kvs) # ts) = map_of kvs ++ tables_map ts"

lemma tables_map_append [simp]: "tables_map (ts @ us) = tables_map ts ++ tables_map us"
  by (induction ts) auto

definition table_ok :: "(str \<Rightarrow> str option) \<Rightarrow> str \<times> (str \<times> str) list \<Rightarrow> bool" where
  "table_ok files t \<longleftrightarrow> (\<exists>contents. files (fst t) = Some contents \<and> sst_build (snd t) = Some contents) \<and>
     short_kvs (snd t) \<and> sorted_wrt (<) (map fst (snd t))"

definition disk_of :: "tables \<Rightarrow> str \<Rightarrow> block option" where
  "disk_of ts = map_of (map (\<lambda>(f, kvs). (MakeCacheKey f 0, kvs)) ts)"

definition tables_ok :: "db \<Rightarrow> tables \<Rightarrow> bool" where
  "tables_ok d ts \<longleftrightarrow> map fst ts = db_ssts d \<and> (\<forall>t \<in> set ts. table_ok (db_files d) t) \<and>
     coherent (disk_of ts) (db_cache d) \<and>
     (\<exists>ns. db_ssts d = map (sst_filename (db_path d)) ns \<and> sorted_wrt (<) ns \<and> (\<forall>n \<in> set ns. n < db_next_id d))"

lemma distinct_names: "sorted_wrt (<) (ns :: u64 list) \<Longrightarrow> distinct (map (sst_filename path) ns)"
  by (simp add: distinct_map strict_sorted_iff inj_on_def) (blast dest: sst_filename_inj)

lemma tables_distinct: "tables_ok d ts \<Longrightarrow> distinct (map fst ts)"
  using distinct_names by (fastforce simp: tables_ok_def)

definition mem_ok :: "db \<Rightarrow> (str \<times> str) list \<Rightarrow> bool" where
  "mem_ok d l \<longleftrightarrow> mt_wf (db_mem d) \<and> MT_entries (db_mem d) = Some l \<and> short_kvs l"

lemma mem_sorted: "mem_ok d l \<Longrightarrow> sorted_wrt (<) (map fst l)"
  using mt.entries_sorted [of "db_mem d"] by (auto simp: mem_ok_def)

definition contents_of :: "(str \<times> str) list \<Rightarrow> tables \<Rightarrow> str \<rightharpoonup> str" where
  "contents_of l ts = tables_map ts ++ map_of l"

definition view :: "(str \<times> str) list \<Rightarrow> tables \<Rightarrow> str \<Rightarrow> str option" where
  "view l ts key = hide (contents_of l ts key)"

lemma short_al_put: "short_kvs l \<Longrightarrow> length k < 128 \<Longrightarrow> length v < 128 \<Longrightarrow> short_kvs (al_put k v l)"
proof -
  have "set (al_put k v l) \<subseteq> insert (k, v) (set l)" by (induction k v l rule: al_put.induct) auto
  then show "short_kvs l \<Longrightarrow> length k < 128 \<Longrightarrow> length v < 128 \<Longrightarrow> short_kvs (al_put k v l)"
    unfolding short_kvs_def by fastforce
qed

subsection \<open>Reading\<close>

lemma disk_of_table:
  assumes "(f, kvs) \<in> set ts" and "distinct (map fst ts)"
  shows "disk_of ts (MakeCacheKey f 0) = Some kvs"
proof -
  have "distinct (map fst (map (\<lambda>(f, kvs). (MakeCacheKey f 0, kvs)) ts))"
    using assms(2)
  proof (induction ts)
    case (Cons t ts)
    then have "fst t \<notin> fst ` set ts" by simp
    have "MakeCacheKey (fst t) 0 \<notin> (\<lambda>t. MakeCacheKey (fst t) 0) ` set ts"
    proof
      assume "MakeCacheKey (fst t) 0 \<in> (\<lambda>t. MakeCacheKey (fst t) 0) ` set ts"
      then obtain u where "u \<in> set ts" "fst t = fst u" by (auto simp: cache_key_file)
      with \<open>fst t \<notin> fst ` set ts\<close> show False by simp
    qed
    with Cons show ?case by (simp add: case_prod_beta comp_def image_image)
  qed simp
  then show ?thesis unfolding disk_of_def using assms(1) by (auto intro!: map_of_is_SomeI)
qed

lemma search_tables_ok:
  assumes "\<forall>t \<in> set us. table_ok files t" and "\<forall>(f, kvs) \<in> set us. disk (MakeCacheKey f 0) = Some kvs" and "coherent disk c"
  shows "\<exists>c'. search_tables key files (rev (map fst us)) c = Some (hide (tables_map us key), c') \<and> coherent disk c'"
  using assms
proof (induction us arbitrary: c rule: rev_induct)
  case Nil
  then show ?case by simp
next
  case (snoc t us)
  obtain f kvs where t: "t = (f, kvs)" by (cases t)
  obtain contents where tk: "files f = Some contents" "sst_build kvs = Some contents" "short_kvs kvs" "sorted_wrt (<) (map fst kvs)"
    using snoc.prems(1) by (auto simp: table_ok_def t)
  have dk: "disk (MakeCacheKey f 0) = Some kvs" using snoc.prems(2) by (simp add: t)
  obtain r where r: "sst_open f (Some contents) = Some (True, r)"
    "\<And>key c. coherent disk c \<Longrightarrow> \<exists>c'. SST_Get key r (Some c) = Some (map_of kvs key, r, Some c') \<and> coherent disk c'"
    using table_read [OF tk(2-4), of f] dk by metis
  obtain c1 where c1: "SST_Get key r (Some c) = Some (map_of kvs key, r, Some c1)" "coherent disk c1"
    using r(2) [OF snoc.prems(3)] by blast
  obtain c2 where c2: "search_tables key files (rev (map fst us)) c1 = Some (hide (tables_map us key), c2)" "coherent disk c2"
    using snoc.IH [OF _ _ c1(2)] snoc.prems(1,2) by auto
  show ?case
  proof (cases "map_of kvs key")
    case None
    with t r(1) c1 c2 tk(1) show ?thesis by (simp add: map_add_def)
  next
    case (Some v)
    with t r(1) c1 tk(1) show ?thesis by (simp add: map_add_def hide_def)
  qed
qed

lemma DB_Get_ok:
  assumes m: "mem_ok d l" and ts: "tables_ok d ts"
  shows "\<exists>c. DB_Get key d = Some (view l ts key, d\<lparr> db_cache := c \<rparr>) \<and> coherent (disk_of ts) c"
proof -
  have g: "MT_Get key (db_mem d) = Some (map_of l key)" using m mt.get_spec by (auto simp: mem_ok_def)
  show ?thesis
  proof (cases "map_of l key")
    case (Some v)
    have "coherent (disk_of ts) (db_cache d)" "d = d\<lparr> db_cache := db_cache d \<rparr>" using ts by (simp_all add: tables_ok_def)
    with Some g show ?thesis
      by (intro exI [of _ "db_cache d"]) (simp add: DB_Get_def view_def contents_of_def hide_def)
  next
    case None
    have "\<forall>(f, kvs) \<in> set ts. disk_of ts (MakeCacheKey f 0) = Some kvs"
      using disk_of_table [OF _ tables_distinct [OF ts]] by auto
    then obtain c where c: "search_tables key (db_files d) (rev (map fst ts)) (db_cache d) = Some (hide (tables_map ts key), c)"
      "coherent (disk_of ts) c"
      using search_tables_ok [of ts "db_files d" "disk_of ts" "db_cache d" key] ts by (auto simp: tables_ok_def)
    with None g ts show ?thesis
      by (intro exI [of _ c]) (simp add: DB_Get_def GetFromSSTables_def view_def contents_of_def map_add_def tables_ok_def)
  qed
qed

subsection \<open>Flushing\<close>

lemma map_le_disk:
  assumes "distinct (map fst (ts @ [t]))"
  shows "disk_of ts \<subseteq>\<^sub>m disk_of (ts @ [t])"
proof -
  have "map_of (xs @ [y]) k = map_of xs k" if "map_of xs k \<noteq> None" for xs :: "('x \<times> 'y) list" and y k
    using that by (auto simp: map_add_def split: option.split)
  then show ?thesis by (auto simp: map_le_def disk_of_def)
qed

lemma coherent_mono: "coherent d c \<Longrightarrow> d \<subseteq>\<^sub>m e \<Longrightarrow> coherent e c"
  by (auto simp: coherent_def intro: map_le_trans)

lemma coherent_empty: "lru_inv c [] \<Longrightarrow> coherent d c"
  using lru_contents_list [of c "[]"] by (auto simp: coherent_def lru_wf_def lru_list_def)

lemma fresh_name:
  assumes "tables_ok d ts"
  shows "sst_filename (db_path d) (db_next_id d) \<notin> set (db_ssts d)"
proof
  assume "sst_filename (db_path d) (db_next_id d) \<in> set (db_ssts d)"
  then obtain n where "n < db_next_id d" "sst_filename (db_path d) (db_next_id d) = sst_filename (db_path d) n"
    using assms by (force simp: tables_ok_def)
  then show False using sst_filename_inj by blast
qed

lemma next_id_less: "(i :: u64) \<noteq> - 1 \<Longrightarrow> n < i \<or> n = i \<Longrightarrow> n < i + 1"
proof -
  assume "i \<noteq> - 1" "n < i \<or> n = i"
  then have "i < - 1" by (simp add: word_order.not_eq_extremum)
  from u64_inc [OF this] \<open>n < i \<or> n = i\<close> show "n < i + 1" by (auto simp: word_less_nat_alt)
qed

lemma flush_table_ok:
  assumes m: "mem_ok d l" and ts: "tables_ok d ts" and n: "db_next_id d \<noteq> - 1"
    and run: "flush_table can d = Some d'"
  shows "mem_ok d' []" "tables_ok d' (ts @ [(sst_filename (db_path d) (db_next_id d), l)])"
    "db_next_id d' = db_next_id d + 1" "db_path d' = db_path d" "db_log d' = LogWriter_open [] True can"
    "db_max_sstable_count d' = db_max_sstable_count d" "db_write_buffer_size d' = db_write_buffer_size d"
proof -
  let ?f = "sst_filename (db_path d) (db_next_id d)"
  have e: "MT_entries (db_mem d) = Some l" "short_kvs l" using m by (simp_all add: mem_ok_def)
  obtain contents m' where r: "sst_build l = Some contents" "MT_Clear (db_mem d) = Some m'"
    "d' = d\<lparr> db_next_id := db_next_id d + 1, db_files := (db_files d)(?f \<mapsto> contents), db_ssts := db_ssts d @ [?f], db_mem := m',
        db_log := LogWriter_open [] True can \<rparr>"
    using run e by (auto simp: flush_table_def GenerateSSTableFilename_def bind_eq_Some_conv)
  then show "db_next_id d' = db_next_id d + 1" "db_path d' = db_path d" "db_log d' = LogWriter_open [] True can"
    "db_max_sstable_count d' = db_max_sstable_count d" "db_write_buffer_size d' = db_write_buffer_size d" by simp_all
  obtain m2 where "MT_Clear (db_mem d) = Some m2" "mt_wf m2" "MT_entries m2 = Some []"
    using mt.clear_spec m by (auto simp: mem_ok_def)
  with r show "mem_ok d' []" by (simp add: mem_ok_def short_kvs_def)
  have new: "?f \<notin> set (db_ssts d)" by (rule fresh_name [OF ts])
  have old: "table_ok ((db_files d)(?f \<mapsto> contents)) t" if "t \<in> set ts" for t
  proof -
    have "set (db_ssts d) = fst ` set ts" using ts unfolding tables_ok_def by (metis list.set_map)
    with that have "fst t \<in> set (db_ssts d)" by simp
    with new have "fst t \<noteq> ?f" by auto
    with that ts show ?thesis by (auto simp: tables_ok_def table_ok_def)
  qed
  have "table_ok ((db_files d)(?f \<mapsto> contents)) (?f, l)"
    using r(1) e(2) mem_sorted [OF m] by (simp add: table_ok_def)
  moreover have "coherent (disk_of (ts @ [(?f, l)])) (db_cache d)"
    using ts new tables_distinct [OF ts] by (intro coherent_mono [OF _ map_le_disk]) (auto simp: tables_ok_def)
  moreover obtain ns where ns: "db_ssts d = map (sst_filename (db_path d)) ns" "sorted_wrt (<) ns" "\<forall>n \<in> set ns. n < db_next_id d"
    using ts by (auto simp: tables_ok_def)
  moreover have "db_ssts d @ [?f] = map (sst_filename (db_path d)) (ns @ [db_next_id d])" "sorted_wrt (<) (ns @ [db_next_id d])"
    "\<forall>k \<in> set (ns @ [db_next_id d]). k < db_next_id d + 1"
    using ns next_id_less [OF n] by (auto simp: sorted_wrt_append)
  ultimately show "tables_ok d' (ts @ [(?f, l)])"
    using ts old unfolding r(3) tables_ok_def
    by (intro conjI exI [of _ "ns @ [db_next_id d]"]) simp_all
qed

subsection \<open>Compaction\<close>

lemma fold_al_put:
  assumes "sorted_wrt (<) (map fst m)" and "short_kvs m" and "short_kvs kvs"
  shows "sorted_wrt (<) (map fst (fold (\<lambda>(k, v) acc. al_put k v acc) kvs m)) \<and>
     short_kvs (fold (\<lambda>(k, v) acc. al_put k v acc) kvs m) \<and>
     map_of (fold (\<lambda>(k, v) acc. al_put k v acc) kvs m) = map_of m ++ map_of (rev kvs)"
  using assms
proof (induction kvs arbitrary: m)
  case (Cons kv kvs)
  obtain k v where kv: "kv = (k, v)" by (cases kv)
  have s: "length k < 128" "length v < 128" "short_kvs kvs" using Cons.prems(3) by (auto simp: short_kvs_def kv)
  from Cons.IH [OF sorted_al_put [OF Cons.prems(1)] short_al_put [OF Cons.prems(2) s(1,2)] s(3)]
  show ?case by (simp add: kv map_of_al_put [OF Cons.prems(1)] map_add_def fun_eq_iff split: option.split)
qed simp

lemma map_of_rev_sorted: "sorted_wrt (<) (map fst kvs) \<Longrightarrow> map_of (rev kvs) = map_of (kvs :: ('a :: linorder \<times> 'b) list)"
  using map_of_inject_set [of "rev kvs" kvs] by (simp add: strict_sorted_iff rev_map [symmetric])

lemma merge_tables_ok:
  assumes "\<forall>t \<in> set ts. table_ok files t" and "sorted_wrt (<) (map fst m)" and "short_kvs m"
  shows "\<exists>m'. merge_tables files (map fst ts) m = Some m' \<and> sorted_wrt (<) (map fst m') \<and> short_kvs m' \<and>
     map_of m' = map_of m ++ tables_map ts"
  using assms
proof (induction ts arbitrary: m)
  case (Cons t ts)
  obtain f kvs where t: "t = (f, kvs)" by (cases t)
  obtain contents where tk: "files f = Some contents" "sst_build kvs = Some contents" "short_kvs kvs" "sorted_wrt (<) (map fst kvs)"
    using Cons.prems(1) by (auto simp: table_ok_def t)
  obtain r where r: "sst_open f (Some contents) = Some (True, r)"
    "SST_NewIterator r None = Some (\<lparr> it_entries = kvs, it_pos = 0 \<rparr>, r, None)"
    using table_read [OF tk(2-4), of f] by metis
  let ?m = "fold (\<lambda>(k, v) acc. al_put k v acc) kvs m"
  note fp = fold_al_put [OF Cons.prems(2,3) tk(3)]
  obtain m' where m': "merge_tables files (map fst ts) ?m = Some m'" "sorted_wrt (<) (map fst m')" "short_kvs m'"
    "map_of m' = map_of ?m ++ tables_map ts"
    using Cons.IH [of ?m] Cons.prems(1) fp by auto
  have "map_of m' = map_of m ++ tables_map (t # ts)"
    using m'(4) fp map_of_rev_sorted [OF tk(4)] by (simp add: t)
  with t r tk(1) m'(1-3) show ?case by simp
qed simp

lemma map_of_live:
  assumes "sorted_wrt (<) (map fst (m :: (str \<times> str) list))"
  shows "map_of (filter (\<lambda>(k, v). v \<noteq> []) m) k = hide (map_of m k)"
  using assms
proof (induction m)
  case (Cons kv m)
  obtain a v where kv: "kv = (a, v)" by (cases kv)
  have "a \<notin> fst ` set m" using Cons.prems by (auto simp: kv)
  then have "map_of m a = None" by (simp add: map_of_eq_None_iff)
  with Cons show ?case by (auto simp: kv hide_def)
qed simp

lemma DoCompaction_ok:
  assumes ts: "tables_ok d ts" and n: "db_next_id d \<noteq> - 1" and run: "DoCompaction d = Some d'"
  obtains ts' where "tables_ok d' ts'" "\<forall>key. hide (tables_map ts' key) = hide (tables_map ts key)"
    "tables_map ts' \<subseteq>\<^sub>m tables_map ts"
    "db_mem d' = db_mem d" "db_log d' = db_log d" "db_next_id d' = db_next_id d \<or> db_next_id d' = db_next_id d + 1"
    "db_path d' = db_path d" "db_max_sstable_count d' = db_max_sstable_count d"
    "db_write_buffer_size d' = db_write_buffer_size d" "db_rng d' = db_rng d"
proof (cases "length (db_ssts d) \<le> 1")
  case True
  with run have "d' = d" by (simp add: DoCompaction_def)
  with ts show thesis by (intro that [of ts]) simp_all
next
  case False
  let ?f = "sst_filename (db_path d) (db_next_id d)"
  have tok: "\<forall>t \<in> set ts. table_ok (db_files d) t" and names: "map fst ts = db_ssts d" using ts by (simp_all add: tables_ok_def)
  obtain m where m: "merge_tables (db_files d) (db_ssts d) [] = Some m" "sorted_wrt (<) (map fst m)" "short_kvs m"
    "map_of m = tables_map ts"
    using merge_tables_ok [OF tok, of "[]"] names by (auto simp: short_kvs_def)
  define kvs where "kvs = filter (\<lambda>(k, v). v \<noteq> []) m"
  obtain contents c where r: "sst_build kvs = Some contents" "LRU_Clear (db_cache d) = Some c"
    "d' = d\<lparr> db_next_id := db_next_id d + 1, db_files := (\<lambda>f. if f \<in> set (db_ssts d) then None else ((db_files d)(?f \<mapsto> contents)) f),
        db_cache := c, db_ssts := [?f] \<rparr>"
    using run False m(1) by (auto simp: DoCompaction_def GenerateSSTableFilename_def kvs_def bind_eq_Some_conv cong: if_cong)
  have new: "?f \<notin> set (db_ssts d)" by (rule fresh_name [OF ts])
  obtain as where "lru_inv (db_cache d) as" using ts by (auto simp: tables_ok_def coherent_def lru_wf_def)
  from LRU_Clear_spec [OF this] r(2) have c: "coherent (disk_of [(?f, kvs)]) c" using coherent_empty by auto
  have kv: "short_kvs kvs" "sorted_wrt (<) (map fst kvs)"
    using m(2,3) by (auto simp: kvs_def short_kvs_def sorted_wrt_map sorted_wrt_filter)
  have live: "map_of kvs key = hide (tables_map ts key)" for key
    unfolding kvs_def map_of_live [OF m(2)] m(4) ..
  show thesis
  proof (rule that [of "[(?f, kvs)]"])
    show "tables_ok d' [(?f, kvs)]"
      using r(1) new c kv next_id_less [OF n, of "db_next_id d"] unfolding r(3) tables_ok_def
      by (intro conjI exI [of _ "[db_next_id d]"]) (simp_all add: table_ok_def)
    show "\<forall>key. hide (tables_map [(?f, kvs)] key) = hide (tables_map ts key)"
      by (simp add: live hide_def split: option.split)
    show "tables_map [(?f, kvs)] \<subseteq>\<^sub>m tables_map ts"
      by (auto simp: map_le_def dom_def live hide_def split: option.splits if_splits)
  qed (simp_all add: r(3))
qed

lemma FlushMemTable_ok:
  assumes m: "mem_ok d l" and ts: "tables_ok d ts" and n: "unat (db_next_id d) + 2 < 2 ^ 64"
    and run: "FlushMemTable can d = Some d'"
  obtains l' ts' where "mem_ok d' l'" "tables_ok d' ts'" "\<forall>key. view l' ts' key = view l ts key"
    "unat (db_next_id d') \<le> unat (db_next_id d) + 2" "db_path d' = db_path d"
    "d' = d \<or> (l' = [] \<and> db_log d' = LogWriter_open [] True can)" "db_write_buffer_size d' = db_write_buffer_size d"
proof (cases "MT_Empty (db_mem d)")
  case True
  with run have "d' = d" by (simp add: FlushMemTable_def)
  with m ts show thesis by (intro that [of l ts]) simp_all
next
  case False
  then obtain d1 where d1: "flush_table can d = Some d1" "MaybeScheduleCompaction d1 = Some d'"
    using run by (auto simp: FlushMemTable_def bind_eq_Some_conv)
  have n1: "db_next_id d \<noteq> - 1" "db_next_id d + 1 \<noteq> - 1" "unat (db_next_id d + 1) = unat (db_next_id d) + 1"
    "unat (db_next_id d + 1 + 1) = unat (db_next_id d) + 2"
    using u64_not_max [of "db_next_id d"] u64_not_max [of "db_next_id d + 1"] n by simp_all
  let ?ts = "ts @ [(sst_filename (db_path d) (db_next_id d), l)]"
  note f = flush_table_ok [OF m ts n1(1) d1(1)]
  have v: "view [] ?ts key = view l ts key" for key by (simp add: view_def contents_of_def)
  show thesis
  proof (cases "d' = d1")
    case True
    with f v n1 show thesis by (intro that [of "[]" ?ts]) simp_all
  next
    case False
    with d1(2) have dc: "DoCompaction d1 = Some d'" by (auto simp: MaybeScheduleCompaction_def split: if_splits)
    have nx: "db_next_id d1 \<noteq> - 1" using n1(2) f(3) by simp
    obtain ts' where ts': "tables_ok d' ts'" "\<forall>key. hide (tables_map ts' key) = hide (tables_map ?ts key)"
      "tables_map ts' \<subseteq>\<^sub>m tables_map ?ts"
      "db_mem d' = db_mem d1" "db_log d' = db_log d1" "db_next_id d' = db_next_id d1 \<or> db_next_id d' = db_next_id d1 + 1"
      "db_path d' = db_path d1" "db_max_sstable_count d' = db_max_sstable_count d1"
      "db_write_buffer_size d' = db_write_buffer_size d1" "db_rng d' = db_rng d1"
      by (rule DoCompaction_ok [OF f(2) nx dc])
    show thesis
    proof (rule that [of "[]" ts'])
      show "mem_ok d' []" using f(1) ts'(4) by (simp add: mem_ok_def)
      show "\<forall>key. view [] ts' key = view l ts key"
        using v ts'(2) by (simp add: view_def contents_of_def)
    qed (use ts' f n1 in auto)
  qed
qed

end
