(* ===== verification/DBSpec.thy ===== *)
theory DBSpec
  imports DBProps
begin

text \<open>
  The database as a whole: every history of calls that return answers like a finite map, a restart from
  the files and a torn log restores it, and what does not work (a second crash, a flush of realistic size).
\<close>

subsection \<open>The log\<close>

definition batch_of :: "batch_op \<Rightarrow> str" where
  "batch_of x = batch_head 0 1 @ op_bytes x"

fun op_map :: "batch_op \<Rightarrow> (str \<rightharpoonup> str) \<Rightarrow> (str \<rightharpoonup> str)" where
  "op_map (OpPut k v) m = m(k \<mapsto> v)"
| "op_map (OpDelete k) m = m(k \<mapsto> [])"

definition log_bytes :: "batch_op list \<Rightarrow> str" where
  "log_bytes ops = concat (map (\<lambda>x. physical_record kFullType (batch_of x)) ops)"

text \<open>
  The log holds the operations that made the memtable out of \<open>base\<close>, and perhaps a torn record at the
  end.  \<open>base\<close> is what the memtable held when the log was truncated: what a recovery replayed.  When a
  flush of the log has failed, the operation it was for (\<open>lost\<close>) is in the memtable but not in the log;
  the stream is bad from then on, so there is at most one such operation.
\<close>

definition log_ok :: "log_writer \<Rightarrow> (str \<rightharpoonup> str) \<Rightarrow> (str \<times> str) list \<Rightarrow> batch_op list \<Rightarrow> bool" where
  "log_ok lw base l lost \<longleftrightarrow> (\<exists>ops t. lw_file lw = log_bytes ops @ t \<and> wal_dec t = None \<and>
     (lw_good lw \<longrightarrow> t = [] \<and> lost = [] \<and> lw_synced lw = length (lw_file lw)) \<and> length lost \<le> 1 \<and>
     (\<forall>x \<in> set ops. op_short x) \<and> map_of l = fold op_map (ops @ lost) base)"

definition db_ok :: "db \<Rightarrow> (str \<rightharpoonup> str) \<Rightarrow> (str \<times> str) list \<Rightarrow> tables \<Rightarrow> batch_op list \<Rightarrow> bool" where
  "db_ok d base l ts lost \<longleftrightarrow> mem_ok d l \<and> tables_ok d ts \<and> log_ok (db_log d) base l lost"

lemma log_ok_new: "can \<or> f = [] \<Longrightarrow> log_ok (LogWriter_open f True can) (map_of l) l []"
  unfolding log_ok_def
  by (intro exI [of _ "[]"]) (auto simp: LogWriter_open_def log_bytes_def wal_dec_empty)

lemma batch_written: "op_short x \<Longrightarrow> WB_add WB_Clear x = Some (batch_of x)"
  using WB_add_short [of x 0 0 "[]"] by (simp add: WB_Clear_head batch_of_def)

lemma length_batch_of: "op_short x \<Longrightarrow> length (batch_of x) < 65536"
  by (cases x) (simp_all add: batch_of_def)

lemma batch_replay: "op_short x \<Longrightarrow> WB_Iterate put del (batch_of x) s = Some (apply_op put del x s, True)"
  using WB_Iterate_ops [of "[x]" put del 0 1 s] by (simp add: batch_of_def)

text \<open>An operation the encoder returns for is short (sizes fit in 32 bits).\<close>

fun op_sane :: "batch_op \<Rightarrow> bool" where
  "op_sane (OpPut k v) \<longleftrightarrow> length k < 2 ^ 32 \<and> length v < 2 ^ 32"
| "op_sane (OpDelete k) \<longleftrightarrow> length k < 2 ^ 32"

lemma WB_add_stuck: "op_sane x \<Longrightarrow> \<not> op_short x \<Longrightarrow> WB_add WB_Clear x = None"
proof -
  assume a: "op_sane x" "\<not> op_short x"
  note c = head_count(1) [of 0 0] head_set_count [of 0 0 "[]", simplified] WB_add_long [of _ 0 0 "[]", simplified]
  show ?thesis
  proof (cases x)
    case (OpPut k v)
    show ?thesis
    proof (cases "length k < 128")
      case True
      with a OpPut show ?thesis by (simp add: WB_Clear_head WB_Put_def c codec_simps)
    next
      case False
      with a OpPut show ?thesis by (simp add: WB_Clear_head c)
    qed
  next
    case (OpDelete k)
    with a show ?thesis by (simp add: WB_Clear_head c)
  qed
qed

lemma WB_add_returns: "op_sane x \<Longrightarrow> WB_add WB_Clear x = Some rep \<Longrightarrow> op_short x \<and> rep = batch_of x"
  using WB_add_stuck [of x] batch_written [of x] by (cases "op_short x") auto

definition write_sane :: "batch_op \<Rightarrow> nat option \<Rightarrow> bool" where
  "write_sane x wr \<longleftrightarrow> op_sane x \<and> (\<forall>n. wr = Some n \<longrightarrow> n < 7 + length (batch_of x))"

text \<open>
  A log write and its flush: a refused operation is not in the log; an acknowledged one is, unless the
  flush failed, and then it is the one operation that is missing.
\<close>

lemma wal_dec_torn_batch:
  "op_short x \<Longrightarrow> n < 7 + length (batch_of x) \<Longrightarrow> wal_dec (take n (physical_record kFullType (batch_of x))) = None"
  using length_batch_of by (intro wal_dec_torn) (simp_all add: wal_valid_def)

lemma log_ok_same:
  "lw_file lw' = lw_file lw \<Longrightarrow> lw_good lw' = lw_good lw \<Longrightarrow> lw_synced lw' = lw_synced lw \<Longrightarrow>
   log_ok lw' base l lost = log_ok lw base l lost"
  by (simp add: log_ok_def)

lemma AddRecord_refused:
  assumes "log_ok lw base l lost" and "op_short x" and "write_sane x wr" and "AddRecord lw (batch_of x) wr = (False, lw')"
  shows "log_ok lw' base l lost"
proof (cases "lw_ok lw \<and> lw_good lw")
  case False
  with assms(4) have "lw_file lw' = lw_file lw" "lw_good lw' = lw_good lw" "lw_synced lw' = lw_synced lw"
    by (auto simp: AddRecord_def EmitPhysicalRecord_def split: if_splits)
  with assms(1) show ?thesis using log_ok_same by blast
next
  case True
  obtain ops t where l: "lw_file lw = log_bytes ops @ t" "lw_good lw \<longrightarrow> t = [] \<and> lost = []" "\<forall>x \<in> set ops. op_short x"
    "length lost \<le> 1" "map_of l = fold op_map (ops @ lost) base"
    using assms(1) unfolding log_ok_def by blast
  obtain n where n: "wr = Some n" using assms(4) True by (cases wr) (auto simp: step_simps)
  with True assms(4) have "lw' = lw\<lparr> lw_file := lw_file lw @ take n (physical_record kFullType (batch_of x)), lw_ok := False, lw_good := False \<rparr>"
    by (simp add: step_simps)
  moreover have "wal_dec (take n (physical_record kFullType (batch_of x))) = None"
    using wal_dec_torn_batch [OF assms(2)] assms(3) n by (simp add: write_sane_def)
  ultimately show ?thesis using l True unfolding log_ok_def by (intro exI [of _ ops]) simp
qed

lemma Sync_log:
  assumes "log_ok lw base l lost" and "op_short x" and "AddRecord lw (batch_of x) wr = (True, lw1)" and "Sync lw1 sy = (b, lw')"
    and "map_of l' = op_map x (map_of l)"
  obtains lost' where "log_ok lw' base l' lost'" "sy = None \<Longrightarrow> lost = [] \<and> lost' = []" "lost = []" "lost' = [] \<or> lost' = [x]"
proof -
  obtain ops t where l: "lw_file lw = log_bytes ops @ t" "lw_good lw \<longrightarrow> t = [] \<and> lost = [] \<and> lw_synced lw = length (lw_file lw)"
    "\<forall>x \<in> set ops. op_short x" "map_of l = fold op_map (ops @ lost) base"
    using assms(1) unfolding log_ok_def by blast
  let ?r = "physical_record kFullType (batch_of x)"
  have g: "lw_ok lw" "lw_good lw" "wr = None" using assms(3)
    by (auto simp: AddRecord_def EmitPhysicalRecord_def Let_def split: if_splits option.splits)
  then have lw1: "lw1 = lw\<lparr> lw_file := lw_file lw @ ?r \<rparr>" using assms(3) by (simp add: step_simps)
  have f: "lw_file lw = log_bytes ops" "lost = []" "lw_synced lw = length (log_bytes ops)" using l(1,2) g(2) by simp_all
  have whole: "log_bytes ops @ ?r = log_bytes (ops @ [x])" by (simp add: log_bytes_def)
  show thesis
  proof (cases sy)
    case None
    then have "lw' = lw1\<lparr> lw_synced := length (lw_file lw1) \<rparr>" using assms(4) lw1 g(2) by (simp add: Sync_def)
    then have "log_ok lw' base l' []" unfolding log_ok_def
      using l(3,4) assms(2,5) lw1 f whole wal_dec_empty by (intro exI [of _ "ops @ [x]"] exI [of _ "[]"]) simp
    with f(2) show thesis by (intro that [of "[]"]) simp_all
  next
    case (Some n)
    then have lw': "lw_file lw' = log_bytes ops @ take n ?r" "\<not> lw_good lw'"
      using assms(4) lw1 g(2) f by (auto simp: Sync_def Let_def)
    show thesis
    proof (cases "n < 7 + length (batch_of x)")
      case True
      have "log_ok lw' base l' [x]" unfolding log_ok_def
        using l(3,4) assms(5) f(2) lw' wal_dec_torn_batch [OF assms(2) True]
        by (intro exI [of _ ops] exI [of _ "take n ?r"]) simp
      with f(2) Some show thesis by (intro that [of "[x]"]) simp_all
    next
      case False
      then have "log_ok lw' base l' []" unfolding log_ok_def
        using l(3,4) assms(2,5) f(2) lw' whole wal_dec_empty by (intro exI [of _ "ops @ [x]"] exI [of _ "[]"]) simp
      with f(2) Some show thesis by (intro that [of "[]"]) simp_all
    qed
  qed
qed

subsection \<open>Writing\<close>

lemma mem_put_ok:
  assumes "mem_ok d l" and "length k < 128" and "length v < 128"
  shows "\<exists>m. MT_Put g k v (db_mem d) = Some m \<and> mt_wf m \<and> MT_entries m = Some (al_put k v l) \<and> short_kvs (al_put k v l)"
  using assms mt.put_spec [of "db_mem d" l g k v] short_al_put by (auto simp: mem_ok_def)

lemma view_put: "sorted_wrt (<) (map fst l) \<Longrightarrow> view (al_put k v l) ts = (view l ts)(k := hide (Some v))"
  by (auto simp: view_def contents_of_def map_of_al_put fun_eq_iff)

lemma db_ok_write:
  assumes ok: "db_ok d base l ts lost" and x: "op_short x" and kv: "length k < 128" "length v < 128"
    and op: "op_map x = (\<lambda>m. m(k \<mapsto> v))" and add: "AddRecord (db_log d) (batch_of x) wr = (True, lw)" "Sync lw sy = (b, lw1)"
    and put: "MT_Put g k v (db_mem d) = Some m"
  obtains lost' where "db_ok (d\<lparr> db_log := lw1, db_mem := m, db_rng := gs \<rparr>) base (al_put k v l) ts lost'"
    "sy = None \<Longrightarrow> lost' = []" "lost' = [] \<or> lost' = [x]"
proof -
  have m: "mem_ok d l" and t: "tables_ok d ts" and lg: "log_ok (db_log d) base l lost" using ok by (simp_all add: db_ok_def)
  have "map_of (al_put k v l) = op_map x (map_of l)" using map_of_al_put [OF mem_sorted [OF m]] op by simp
  then obtain lost' where "log_ok lw1 base (al_put k v l) lost'" "sy = None \<Longrightarrow> lost' = []" "lost' = [] \<or> lost' = [x]"
    using Sync_log [OF lg x add] by metis
  moreover have "mt_wf m" "MT_entries m = Some (al_put k v l)" "short_kvs (al_put k v l)"
    using mem_put_ok [OF m kv, of g] put by auto
  ultimately show thesis using t by (intro that [of lost']) (simp_all add: db_ok_def mem_ok_def tables_ok_def)
qed

lemma db_ok_refused:
  assumes "db_ok d base l ts lost" and "op_short x" "write_sane x wr" and "AddRecord (db_log d) (batch_of x) wr = (False, lw)"
  shows "db_ok (d\<lparr> db_log := lw \<rparr>) base l ts lost"
  using assms AddRecord_refused [of "db_log d" base l lost x wr lw] by (simp add: db_ok_def mem_ok_def tables_ok_def)

lemma length_al_put: "length (al_put k v l) \<le> Suc (length l)"
  by (induction k v l rule: al_put.induct) auto

text \<open>A flush of the memtable, automatic or asked for.\<close>

lemma FlushMemTable_keeps:
  assumes ok: "db_ok d base l ts lost" and n: "unat (db_next_id d) + 2 < 2 ^ 64" and run: "FlushMemTable can d = Some d'"
  obtains base' l' ts' lost' where "db_ok d' base' l' ts' lost'" "base' = base \<or> base' = Map.empty" "view l' ts' = view l ts"
    "unat (db_next_id d') \<le> unat (db_next_id d) + 2" "db_path d' = db_path d" "lost' = lost \<or> lost' = []"
    "length l' \<le> length l"
proof -
  have mt: "mem_ok d l" "tables_ok d ts" using ok by (simp_all add: db_ok_def)
  obtain l' ts' where f: "mem_ok d' l'" "tables_ok d' ts'" "\<forall>key. view l' ts' key = view l ts key"
    "unat (db_next_id d') \<le> unat (db_next_id d) + 2" "db_path d' = db_path d"
    "d' = d \<or> (l' = [] \<and> db_log d' = LogWriter_open [] True can)" "db_write_buffer_size d' = db_write_buffer_size d"
    by (rule FlushMemTable_ok [OF mt n run])
  show thesis
  proof (cases "d' = d")
    case True
    with ok show thesis by (intro that [of base l ts lost]) simp_all
  next
    case False
    with f have "db_ok d' Map.empty l' ts' []" using log_ok_new [of can "[]" "[]"] by (auto simp: db_ok_def)
    moreover have "l' = []" using f(6) False by blast
    ultimately show thesis using f by (intro that [of Map.empty l' ts' "[]"]) (simp_all add: fun_eq_iff)
  qed
qed

lemma DB_Put_ok:
  assumes ok: "db_ok d base l ts lost" and sane: "write_sane (OpPut k v) wr" and n: "unat (db_next_id d) + 2 < 2 ^ 64"
    and run: "DB_Put k v wr sy can d = Some (b, d')"
  obtains base' l' ts' lost' where "db_ok d' base' l' ts' lost'" "base' = base \<or> base' = Map.empty"
    "view l' ts' = (if b then (view l ts)(k := hide (Some v)) else view l ts)"
    "unat (db_next_id d') \<le> unat (db_next_id d) + 2" "db_path d' = db_path d" "sy = None \<Longrightarrow> lost = [] \<Longrightarrow> lost' = []"
    "length l' \<le> Suc (length l)"
proof -
  obtain rep where rep: "WB_Put WB_Clear k v = Some rep" using run by (auto simp: DB_Put_def bind_eq_Some_conv)
  then have x: "op_short (OpPut k v)" "rep = batch_of (OpPut k v)"
    using WB_add_returns [of "OpPut k v"] sane by (auto simp: write_sane_def)
  obtain ok' lw where add: "AddRecord (db_log d) (batch_of (OpPut k v)) wr = (ok', lw)"
    by (cases "AddRecord (db_log d) (batch_of (OpPut k v)) wr")
  show thesis
  proof (cases ok')
    case False
    with run rep x add have "b = False" "d' = d\<lparr> db_log := lw \<rparr>" by (simp_all add: DB_Put_def)
    with db_ok_refused [OF ok x(1) sane] add False show thesis by (intro that [of base l ts lost]) simp_all
  next
    case True
    obtain sb lw1 where sync: "Sync lw sy = (sb, lw1)" by (cases "Sync lw sy")
    obtain m where m: "MT_Put (db_rng d 0) k v (db_mem d) = Some m"
      using ok x(1) mem_put_ok [of d l k v] by (auto simp: db_ok_def)
    define d1 where "d1 = d\<lparr> db_log := lw1, db_mem := m, db_rng := (\<lambda>i. db_rng d (Suc i)) \<rparr>"
    have kv: "length k < 128" "length v < 128" "op_map (OpPut k v) = (\<lambda>m. m(k \<mapsto> v))" using x(1) by auto
    have addT: "AddRecord (db_log d) (batch_of (OpPut k v)) wr = (True, lw)" using add True by simp
    obtain lost1 where d1: "db_ok d1 base (al_put k v l) ts lost1" "sy = None \<Longrightarrow> lost1 = []" unfolding d1_def
      by (rule db_ok_write [OF ok x(1) kv addT sync m, of "\<lambda>i. db_rng d (Suc i)"]) blast
    have v1: "view (al_put k v l) ts = (view l ts)(k := hide (Some v))"
      using ok mem_sorted by (intro view_put) (auto simp: db_ok_def)
    have same: "db_next_id d1 = db_next_id d" "db_path d1 = db_path d" "db_write_buffer_size d = db_write_buffer_size d1"
      "m = db_mem d1" by (simp_all add: d1_def)
    from run rep x add sync True m have r: "b" "(if db_write_buffer_size d1 \<le> MT_Size (db_mem d1) then FlushMemTable can d1 else Some d1) = Some d'"
      by (auto simp add: DB_Put_def d1_def bind_eq_Some_conv Let_def cong: if_cong split del: if_split)
    show thesis
    proof (cases "db_write_buffer_size d1 \<le> MT_Size (db_mem d1)")
      case False
      then have "d' = d1" using r(2) by simp
      show thesis
      proof (rule that [of base "al_put k v l" ts lost1])
        show "db_ok d' base (al_put k v l) ts lost1" using d1(1) \<open>d' = d1\<close> by simp
        show "view (al_put k v l) ts = (if b then (view l ts)(k := hide (Some v)) else view l ts)" using v1 r(1) by simp
        show "unat (db_next_id d') \<le> unat (db_next_id d) + 2" "db_path d' = db_path d" using same(1,2) \<open>d' = d1\<close> by simp_all
      qed (simp_all add: d1(2) length_al_put)
    next
      case True
      with r have fl: "FlushMemTable can d1 = Some d'" by simp
      have n1: "unat (db_next_id d1) + 2 < 2 ^ 64" using n same(1) by simp
      obtain base' l' ts' lost' where f: "db_ok d' base' l' ts' lost'" "base' = base \<or> base' = Map.empty" "view l' ts' = view (al_put k v l) ts"
        "unat (db_next_id d') \<le> unat (db_next_id d1) + 2" "db_path d' = db_path d1" "lost' = lost1 \<or> lost' = []"
        "length l' \<le> length (al_put k v l)"
        by (rule FlushMemTable_keeps [OF d1(1) n1 fl])
      show thesis
      proof (rule that [OF f(1,2)])
        show "view l' ts' = (if b then (view l ts)(k := hide (Some v)) else view l ts)" using f(3) v1 r(1) by simp
        show "unat (db_next_id d') \<le> unat (db_next_id d) + 2" "db_path d' = db_path d" using f(4,5) same by simp_all
        show "sy = None \<Longrightarrow> lost = [] \<Longrightarrow> lost' = []" using f(6) d1(2) by blast
        show "length l' \<le> Suc (length l)" by (rule le_trans [OF f(7) length_al_put])
      qed
    qed
  qed
qed

lemma DB_Delete_ok:
  assumes ok: "db_ok d base l ts lost" and sane: "write_sane (OpDelete k) wr" and run: "DB_Delete k wr sy d = Some (b, d')"
  obtains l' lost' where "db_ok d' base l' ts lost'" "view l' ts = (if b then (view l ts)(k := None) else view l ts)"
    "db_next_id d' = db_next_id d" "db_path d' = db_path d" "sy = None \<Longrightarrow> lost = [] \<Longrightarrow> lost' = []"
    "length l' \<le> Suc (length l)"
proof -
  obtain rep where rep: "WB_Delete WB_Clear k = Some rep" using run by (auto simp: DB_Delete_def bind_eq_Some_conv)
  then have x: "op_short (OpDelete k)" "rep = batch_of (OpDelete k)"
    using WB_add_returns [of "OpDelete k"] sane by (auto simp: write_sane_def)
  obtain ok' lw where add: "AddRecord (db_log d) (batch_of (OpDelete k)) wr = (ok', lw)"
    by (cases "AddRecord (db_log d) (batch_of (OpDelete k)) wr")
  show thesis
  proof (cases ok')
    case False
    with run rep x add have "b = False" "d' = d\<lparr> db_log := lw \<rparr>" by (simp_all add: DB_Delete_def)
    with db_ok_refused [OF ok x(1) sane] add False show thesis by (intro that [of l lost]) simp_all
  next
    case True
    obtain sb lw1 where sync: "Sync lw sy = (sb, lw1)" by (cases "Sync lw sy")
    obtain m where m: "MT_Put (db_rng d 0) k [] (db_mem d) = Some m"
      using ok x(1) mem_put_ok [of d l k "[]"] by (auto simp: db_ok_def)
    have kv: "length k < 128" "length ([] :: str) < 128" "op_map (OpDelete k) = (\<lambda>m. m(k \<mapsto> []))" using x(1) by auto
    have addT: "AddRecord (db_log d) (batch_of (OpDelete k)) wr = (True, lw)" using add True by simp
    obtain lost1 where "db_ok (d\<lparr> db_log := lw1, db_mem := m, db_rng := (\<lambda>i. db_rng d (Suc i)) \<rparr>) base (al_put k [] l) ts lost1"
      "sy = None \<Longrightarrow> lost1 = []"
      by (rule db_ok_write [OF ok x(1) kv addT sync m, of "\<lambda>i. db_rng d (Suc i)"]) blast
    moreover have "view (al_put k [] l) ts = (view l ts)(k := None)"
      using view_put [of l k "[]" ts] ok mem_sorted by (auto simp: db_ok_def)
    moreover from run rep x add sync True m have "b" "d' = d\<lparr> db_log := lw1, db_mem := m, db_rng := (\<lambda>i. db_rng d (Suc i)) \<rparr>"
      by (simp_all add: DB_Delete_def)
    ultimately show thesis using length_al_put by (intro that [of "al_put k [] l" lost1]) simp_all
  qed
qed

end
