(* ===== verification/DBHistory.thy ===== *)
theory DBHistory
  imports DBSpec
begin

text \<open>
  Histories of calls to one database, and the finite map a client sees.  \<open>kv_run\<close> is the specification:
  it follows the answers and says whether they are those of a map.
\<close>

datatype db_call =
    CallPut str str "nat option" "nat option" bool
  | CallDelete str "nat option" "nat option"
  | CallGet str
  | CallCompaction
  | CallFlush bool

datatype db_result = Acked bool | Found "str option" | Done

fun db_call_run :: "db_call \<Rightarrow> db \<Rightarrow> (db_result \<times> db) option" where
  "db_call_run (CallPut k v wr sy can) d = map_option (apfst Acked) (DB_Put k v wr sy can d)"
| "db_call_run (CallDelete k wr sy) d = map_option (apfst Acked) (DB_Delete k wr sy d)"
| "db_call_run (CallGet k) d = map_option (apfst Found) (DB_Get k d)"
| "db_call_run CallCompaction d = map_option (Pair Done) (DB_Compaction d)"
| "db_call_run (CallFlush can) d = map_option (Pair Done) (FlushMemTable can d)"

fun db_run :: "db_call list \<Rightarrow> db \<Rightarrow> (db_result list \<times> db) option" where
  "db_run [] d = Some ([], d)"
| "db_run (c # cs) d = do { (r, d1) \<leftarrow> db_call_run c d; (rs, d2) \<leftarrow> db_run cs d1; Some (r # rs, d2) }"

fun kv_step :: "db_call \<Rightarrow> db_result \<Rightarrow> (str \<rightharpoonup> str) \<Rightarrow> (str \<rightharpoonup> str) option" where
  "kv_step (CallPut k v _ _ _) (Acked b) m = Some (if b then m(k := hide (Some v)) else m)"
| "kv_step (CallDelete k _ _) (Acked b) m = Some (if b then m(k := None) else m)"
| "kv_step (CallGet k) (Found r) m = (if r = m k then Some m else None)"
| "kv_step CallCompaction Done m = Some m"
| "kv_step (CallFlush _) Done m = Some m"
| "kv_step _ _ m = None"

fun kv_run :: "db_call list \<Rightarrow> db_result list \<Rightarrow> (str \<rightharpoonup> str) \<Rightarrow> (str \<rightharpoonup> str) option" where
  "kv_run [] [] m = Some m"
| "kv_run (c # cs) (r # rs) m = Option.bind (kv_step c r m) (kv_run cs rs)"
| "kv_run _ _ m = None"

text \<open>What \<open>size_t\<close> and a failing write allow: strings below 4 GiB, a failed write is a short one.\<close>

fun call_sane :: "db_call \<Rightarrow> bool" where
  "call_sane (CallPut k v wr _ _) \<longleftrightarrow> write_sane (OpPut k v) wr"
| "call_sane (CallDelete k wr _) \<longleftrightarrow> write_sane (OpDelete k) wr"
| "call_sane _ \<longleftrightarrow> True"

text \<open>The flush of the log behind a write succeeds.\<close>

fun call_synced :: "db_call \<Rightarrow> bool" where
  "call_synced (CallPut _ _ _ sy _) \<longleftrightarrow> sy = None"
| "call_synced (CallDelete _ _ sy) \<longleftrightarrow> sy = None"
| "call_synced _ \<longleftrightarrow> True"

lemma DB_Get_keeps:
  assumes "db_ok d base l ts lost"
  obtains c where "DB_Get key d = Some (view l ts key, d\<lparr> db_cache := c \<rparr>)" "db_ok (d\<lparr> db_cache := c \<rparr>) base l ts lost"
proof -
  obtain c where "DB_Get key d = Some (view l ts key, d\<lparr> db_cache := c \<rparr>)" "coherent (disk_of ts) c"
    using DB_Get_ok [of d l ts key] assms by (auto simp: db_ok_def)
  with assms show thesis by (intro that [of c]) (simp_all add: db_ok_def mem_ok_def tables_ok_def)
qed

lemma DB_Compaction_keeps:
  assumes ok: "db_ok d base l ts lost" and n: "unat (db_next_id d) + 2 < 2 ^ 64" and run: "DB_Compaction d = Some d'"
  obtains ts' where "db_ok d' base l ts' lost" "view l ts' = view l ts" "unat (db_next_id d') \<le> unat (db_next_id d) + 2"
    "db_path d' = db_path d"
proof -
  have t: "tables_ok d ts" using ok by (simp add: db_ok_def)
  have nx: "db_next_id d \<noteq> - 1" "unat (db_next_id d + 1) = unat (db_next_id d) + 1" using u64_not_max [of "db_next_id d"] n by simp_all
  have run': "DoCompaction d = Some d'" using run by (simp add: DB_Compaction_def)
  obtain ts' where ts': "tables_ok d' ts'" "\<forall>key. hide (tables_map ts' key) = hide (tables_map ts key)"
    "tables_map ts' \<subseteq>\<^sub>m tables_map ts" "db_mem d' = db_mem d" "db_log d' = db_log d"
    "db_next_id d' = db_next_id d \<or> db_next_id d' = db_next_id d + 1" "db_path d' = db_path d"
    "db_max_sstable_count d' = db_max_sstable_count d" "db_write_buffer_size d' = db_write_buffer_size d" "db_rng d' = db_rng d"
    by (rule DoCompaction_ok [OF t nx(1) run'])
  show thesis
  proof (rule that [of ts'])
    show "db_ok d' base l ts' lost" using ok ts' by (simp add: db_ok_def mem_ok_def)
    show "view l ts' = view l ts" using ts'(2) by (auto simp: view_def contents_of_def fun_eq_iff map_add_def split: option.split)
  qed (use ts' nx in auto)
qed

lemma db_call_ok:
  assumes ok: "db_ok d base l ts lost" and c: "call_sane c" and n: "unat (db_next_id d) + 2 < 2 ^ 64"
    and run: "db_call_run c d = Some (r, d')"
  shows "\<exists>base' l' ts' lost'. db_ok d' base' l' ts' lost' \<and> (base' = base \<or> base' = Map.empty) \<and>
    kv_step c r (view l ts) = Some (view l' ts') \<and> unat (db_next_id d') \<le> unat (db_next_id d) + 2 \<and> db_path d' = db_path d \<and>
    (call_synced c \<longrightarrow> lost = [] \<longrightarrow> lost' = []) \<and> length l' \<le> Suc (length l)"
proof (cases c)
  case (CallPut k v wr sy can)
  then obtain b where b: "DB_Put k v wr sy can d = Some (b, d')" "r = Acked b" using run by auto
  have sane: "write_sane (OpPut k v) wr" using c CallPut by simp
  obtain base' l' ts' lost' where "db_ok d' base' l' ts' lost'" "base' = base \<or> base' = Map.empty"
    "view l' ts' = (if b then (view l ts)(k := hide (Some v)) else view l ts)"
    "unat (db_next_id d') \<le> unat (db_next_id d) + 2" "db_path d' = db_path d" "sy = None \<Longrightarrow> lost = [] \<Longrightarrow> lost' = []" "length l' \<le> Suc (length l)"
    using DB_Put_ok [OF ok sane n b(1)] by metis
  with b(2) CallPut show ?thesis by (intro exI [of _ base'] exI [of _ l'] exI [of _ ts'] exI [of _ lost']) simp
next
  case (CallDelete k wr sy)
  then obtain b where b: "DB_Delete k wr sy d = Some (b, d')" "r = Acked b" using run by auto
  have sane: "write_sane (OpDelete k) wr" using c CallDelete by simp
  obtain l' lost' where "db_ok d' base l' ts lost'" "view l' ts = (if b then (view l ts)(k := None) else view l ts)"
    "db_next_id d' = db_next_id d" "db_path d' = db_path d" "sy = None \<Longrightarrow> lost = [] \<Longrightarrow> lost' = []" "length l' \<le> Suc (length l)"
    using DB_Delete_ok [OF ok sane b(1)] by metis
  with b(2) CallDelete show ?thesis by (intro exI [of _ base] exI [of _ l'] exI [of _ ts] exI [of _ lost']) simp
next
  case (CallGet k)
  obtain c where "DB_Get k d = Some (view l ts k, d\<lparr> db_cache := c \<rparr>)" "db_ok (d\<lparr> db_cache := c \<rparr>) base l ts lost"
    by (rule DB_Get_keeps [OF ok])
  with CallGet run show ?thesis by (intro exI [of _ base] exI [of _ l] exI [of _ ts] exI [of _ lost]) auto
next
  case CallCompaction
  then have "DB_Compaction d = Some d'" "r = Done" using run by auto
  from DB_Compaction_keeps [OF ok n this(1)] obtain ts' where "db_ok d' base l ts' lost" "view l ts' = view l ts"
    "unat (db_next_id d') \<le> unat (db_next_id d) + 2" "db_path d' = db_path d" by metis
  with \<open>r = Done\<close> CallCompaction show ?thesis by (intro exI [of _ base] exI [of _ l] exI [of _ ts'] exI [of _ lost]) simp
next
  case (CallFlush can)
  then have run: "FlushMemTable can d = Some d'" "r = Done" using run by auto
  obtain base' l' ts' lost' where "db_ok d' base' l' ts' lost'" "base' = base \<or> base' = Map.empty" "view l' ts' = view l ts"
    "unat (db_next_id d') \<le> unat (db_next_id d) + 2" "db_path d' = db_path d" "lost' = lost \<or> lost' = []" "length l' \<le> length l"
    by (rule FlushMemTable_keeps [OF ok n run(1)])
  with run(2) CallFlush show ?thesis by (intro exI [of _ base'] exI [of _ l'] exI [of _ ts'] exI [of _ lost']) auto
qed

lemma db_run_ok:
  assumes "db_ok d base l ts lost" and "list_all call_sane cs" and "unat (db_next_id d) + 2 * length cs + 2 < 2 ^ 64"
    and "db_run cs d = Some (rs, d')"
  shows "\<exists>base' l' ts' lost'. db_ok d' base' l' ts' lost' \<and> (base' = base \<or> base' = Map.empty) \<and>
    kv_run cs rs (view l ts) = Some (view l' ts') \<and> unat (db_next_id d') \<le> unat (db_next_id d) + 2 * length cs \<and>
    db_path d' = db_path d \<and> (list_all call_synced cs \<longrightarrow> lost = [] \<longrightarrow> lost' = []) \<and>
    length l' \<le> length l + length cs"
  using assms
proof (induction cs arbitrary: d base l ts lost rs)
  case Nil
  then show ?case by auto
next
  case (Cons c cs)
  obtain r d1 rs' where r: "db_call_run c d = Some (r, d1)" "db_run cs d1 = Some (rs', d')" "rs = r # rs'"
    using Cons.prems(4) by (auto simp: bind_eq_Some_conv)
  have n: "call_sane c" "unat (db_next_id d) + 2 < 2 ^ 64" using Cons.prems(2,3) by simp_all
  obtain base1 l1 ts1 lost1 where s: "db_ok d1 base1 l1 ts1 lost1" "base1 = base \<or> base1 = Map.empty"
    "kv_step c r (view l ts) = Some (view l1 ts1)" "unat (db_next_id d1) \<le> unat (db_next_id d) + 2" "db_path d1 = db_path d"
    "call_synced c \<longrightarrow> lost = [] \<longrightarrow> lost1 = []" "length l1 \<le> Suc (length l)"
    using db_call_ok [OF Cons.prems(1) n r(1)] by blast
  have "\<exists>base' l' ts' lost'. db_ok d' base' l' ts' lost' \<and> (base' = base1 \<or> base' = Map.empty) \<and>
    kv_run cs rs' (view l1 ts1) = Some (view l' ts') \<and> unat (db_next_id d') \<le> unat (db_next_id d1) + 2 * length cs \<and>
    db_path d' = db_path d1 \<and> (list_all call_synced cs \<longrightarrow> lost1 = [] \<longrightarrow> lost' = []) \<and>
    length l' \<le> length l1 + length cs"
    using Cons.prems(2,3) s(4) by (intro Cons.IH [OF s(1) _ _ r(2)]) simp_all
  then obtain base' l' ts' lost' where t: "db_ok d' base' l' ts' lost'" "base' = base1 \<or> base' = Map.empty" "kv_run cs rs' (view l1 ts1) = Some (view l' ts')"
    "unat (db_next_id d') \<le> unat (db_next_id d1) + 2 * length cs" "db_path d' = db_path d1"
    "list_all call_synced cs \<longrightarrow> lost1 = [] \<longrightarrow> lost' = []" "length l' \<le> length l1 + length cs" by blast
  from t(2) s(2) have "base' = base \<or> base' = Map.empty" by blast
  with t s(3-7) r(3) show ?case by (intro exI [of _ base'] exI [of _ l'] exI [of _ ts'] exI [of _ lost']) simp
qed

end
