(* ===== verification/DBRecovery.thy ===== *)
theory DBRecovery
  imports DBHistory
begin

text \<open>
  Starting again: a new database is the empty map, and opening the files that any history left behind,
  the last log record torn or not, gives back the map the client saw.
\<close>

subsection \<open>The names of the table files order as their numbers\<close>

lemma digits_val_acc: "digits_val a xs = a * 10 ^ length xs + digits_val 0 xs"
proof (induction xs arbitrary: a)
  case (Cons x xs)
  show ?case using Cons.IH [of "10 * a + (unat x - 48)"] Cons.IH [of "unat x - 48"] by (simp add: algebra_simps)
qed simp

lemma digits_val_bound: "\<forall>b \<in> set xs. digit b \<Longrightarrow> digits_val 0 xs < 10 ^ length xs"
proof (induction xs)
  case (Cons x xs)
  have "unat x - 48 \<le> 9" using Cons.prems by (auto simp: digit_unat)
  then have "(unat x - 48) * 10 ^ length xs \<le> 9 * 10 ^ length xs" by (rule mult_right_mono) simp
  moreover have "digits_val 0 xs < 10 ^ length xs" using Cons by simp
  moreover have "digits_val 0 (x # xs) = (unat x - 48) * 10 ^ length xs + digits_val 0 xs"
    using digits_val_acc [of "unat x - 48" xs] by simp
  ultimately have "digits_val 0 (x # xs) < 9 * 10 ^ length xs + 10 ^ length xs" by linarith
  then show ?case by simp
qed simp

lemma digits_less:
  assumes "length xs = length ys" and "\<forall>b \<in> set xs \<union> set ys. digit b" and "digits_val 0 xs < digits_val 0 ys"
  shows "xs < ys"
  using assms
proof (induction xs ys rule: list_induct2)
  case (Cons x xs y ys)
  have v: "(unat x - 48) * 10 ^ length xs + digits_val 0 xs < (unat y - 48) * 10 ^ length xs + digits_val 0 ys"
    using Cons.prems(2) Cons.hyps digits_val_acc [of "unat x - 48" xs] digits_val_acc [of "unat y - 48" ys] by simp
  have b: "digits_val 0 ys < 10 ^ length xs" using digits_val_bound [of ys] Cons.prems(1) Cons.hyps by simp
  have d: "48 \<le> unat x" "48 \<le> unat y" using Cons.prems(1) by (simp_all add: digit_unat)
  show ?case
  proof (cases "x = y")
    case True
    with Cons v show ?thesis by simp
  next
    case False
    have "unat x < unat y"
    proof (rule ccontr)
      assume "\<not> unat x < unat y"
      with False have "unat y < unat x" by (simp add: word_unat_eq_iff)
      with d have "Suc (unat y - 48) \<le> unat x - 48" by simp
      then have "Suc (unat y - 48) * 10 ^ length xs \<le> (unat x - 48) * 10 ^ length xs" by (rule mult_right_mono) simp
      with v b show False by simp
    qed
    then show ?thesis by (simp add: word_less_nat_alt)
  qed
qed simp

lemma append_mono: "(xs :: str) < ys \<Longrightarrow> length xs = length ys \<Longrightarrow> zs @ xs @ r < zs @ ys @ r"
proof -
  have "xs @ r < ys @ r" if "xs < ys" "length xs = length ys"
    using that(2,1) by (induction xs ys rule: list_induct2) auto
  moreover have "(us :: str) < vs \<Longrightarrow> zs @ us < zs @ vs" for us vs by (induction zs) auto
  ultimately show "xs < ys \<Longrightarrow> length xs = length ys \<Longrightarrow> zs @ xs @ r < zs @ ys @ r" by blast
qed

lemma sst_filename_mono:
  assumes "m < n" and "unat n < 1000000"
  shows "sst_filename path m < sst_filename path n"
proof -
  have lt: "unat m < unat n" using assms(1) by (simp add: word_less_nat_alt)
  have "pad6 m < pad6 n"
    using lt assms(2) pad6_digits by (intro digits_less) (auto simp: length_pad6 pad6_value)
  from append_mono [OF this, of "path @ [47]" "lit ''.sst''"] show ?thesis
    using lt assms(2) by (simp add: sst_filename_def length_pad6)
qed

lemma names_sorted:
  assumes "sorted_wrt (<) ns" and "\<forall>n \<in> set ns. unat n < 1000000"
  shows "sorted_wrt (<) (map (sst_filename path) ns)"
  using assms sst_filename_mono by (induction ns) auto

lemma stem_of_name: "sst_stem (sst_filename path n) = pad6 n"
proof -
  have p: "b \<noteq> 47" if "b \<in> set (pad6 n)" for b using pad6_digits [OF that] by (auto simp: digit_unat)
  have "takeWhile (\<lambda>b. b \<noteq> 47) (rev (pad6 n @ lit ''.sst'') @ 47 # rev path) = rev (pad6 n @ lit ''.sst'')"
    using p by (subst takeWhile_append2) (auto simp: lit_def)
  then show ?thesis by (simp add: sst_stem_def sst_filename_def lit_def)
qed

lemma stoll_pad6:
  assumes "unat n < 1000000"
  shows "stoll (pad6 n) = Some (int (unat n))"
proof -
  obtain b r where p: "pad6 n = b # r" using length_pad6 [OF assms] by (cases "pad6 n") auto
  have d: "\<forall>x \<in> set (pad6 n). digit x" using pad6_digits by blast
  then have "digit b" by (simp add: p)
  then have b: "\<not> is_space b" "b \<noteq> 45" "b \<noteq> 43" by (auto simp: digit_unat is_space_def word_le_nat_alt)
  have t: "takeWhile digit (b # r) = b # r" using d by (simp add: p takeWhile_eq_all_conv)
  have v: "digits_val 0 (b # r) = unat n" using pad6_value [of n] by (simp add: p)
  have i: "\<not> int k < - (2 ^ 63)" "\<not> 2 ^ 63 \<le> int k" if "k < 1000000" for k using that by simp_all
  note i = i [OF assms]
  show ?thesis using b i by (simp add: stoll_def p Let_def t v del:  digits_val.simps takeWhile.simps)
qed

lemma next_id_name:
  assumes "unat n < 1000000"
  shows "next_id_of i (sst_filename path n) = (if i \<le> n then n + 1 else i)"
  using assms by (simp add: next_id_of_def stem_of_name stoll_pad6 Let_def)

lemma next_id_above:
  assumes "\<forall>n \<in> set ns. unat n < 1000000"
  shows "i \<le> foldl next_id_of i (map (sst_filename path) ns) \<and>
    (\<forall>n \<in> set ns. n < foldl next_id_of i (map (sst_filename path) ns)) \<and>
    unat (foldl next_id_of i (map (sst_filename path) ns)) \<le> max (unat i) 1000000"
  using assms
proof (induction ns arbitrary: i)
  case (Cons n ns)
  define j where "j = next_id_of i (sst_filename path n)"
  have n: "unat n < 1000000" using Cons.prems by simp
  have "unat (n + 1) = unat n + 1" using n u64_not_max [of n] by simp
  then have j: "i \<le> j" "n < j" "unat j \<le> max (unat i) 1000000"
    unfolding j_def next_id_name [OF n] using n by (auto simp: word_le_nat_alt word_less_nat_alt)
  from Cons.IH [of j] Cons.prems have
    "j \<le> foldl next_id_of j (map (sst_filename path) ns)" "\<forall>n \<in> set ns. n < foldl next_id_of j (map (sst_filename path) ns)"
    "unat (foldl next_id_of j (map (sst_filename path) ns)) \<le> max (unat j) 1000000" by auto
  with j show ?case by (auto simp: j_def [symmetric])
qed simp

subsection \<open>Replay\<close>

lemma replay_op:
  assumes "mt_wf m" and "MT_entries m = Some l" and "short_kvs l" and "op_short x"
  shows "\<exists>m' g' l'. apply_op inserter_put inserter_delete x (Some (m, g)) = Some (m', g') \<and> mt_wf m' \<and>
    MT_entries m' = Some l' \<and> short_kvs l' \<and> map_of l' = op_map x (map_of l)"
proof -
  have s: "sorted_wrt (<) (map fst l)" using mt.entries_sorted [OF assms(1)] assms(2) by auto
  have "\<exists>m' g' l'. inserter_put k v (Some (m, g)) = Some (m', g') \<and> mt_wf m' \<and> MT_entries m' = Some l' \<and> short_kvs l' \<and>
      map_of l' = (map_of l)(k \<mapsto> v)" if "length k < 128" "length v < 128" for k v
    using mt.put_spec [OF assms(1,2), of "g 0" k v] map_of_al_put [OF s, of k v] short_al_put [OF assms(3) that]
    by (auto simp: inserter_put_def)
  from this [of "case x of OpPut k v \<Rightarrow> k | OpDelete k \<Rightarrow> k" "case x of OpPut k v \<Rightarrow> v | OpDelete k \<Rightarrow> []"] assms(4)
  show ?thesis by (cases x) (simp_all add: inserter_delete_def)
qed

lemma replay_ops:
  assumes "mt_wf m" and "MT_entries m = Some l" and "short_kvs l" and "\<forall>x \<in> set ops. op_short x"
  shows "\<exists>m' g' l'. replay (map batch_of ops) (Some (m, g)) = Some (m', g') \<and> mt_wf m' \<and>
    MT_entries m' = Some l' \<and> short_kvs l' \<and> map_of l' = fold op_map ops (map_of l)"
  using assms
proof (induction ops arbitrary: m g l)
  case (Cons x ops)
  have x: "op_short x" "\<forall>x \<in> set ops. op_short x" using Cons.prems(4) by simp_all
  obtain m1 g1 l1 where s: "apply_op inserter_put inserter_delete x (Some (m, g)) = Some (m1, g1)" "mt_wf m1"
    "MT_entries m1 = Some l1" "short_kvs l1" "map_of l1 = op_map x (map_of l)"
    using replay_op [OF Cons.prems(1-3) x(1), of g] by blast
  from Cons.IH [OF s(2-4) x(2), of g1] obtain m' g' l' where "replay (map batch_of ops) (Some (m1, g1)) = Some (m', g')"
    "mt_wf m'" "MT_entries m' = Some l'" "short_kvs l'" "map_of l' = fold op_map ops (map_of l1)" by blast
  with s x(1) show ?case by (simp add: batch_replay)
qed simp

lemma log_read_back:
  assumes "\<forall>x \<in> set ops. op_short x" and "wal_dec t = None"
  shows "read_all (LogReader_open (Some (log_bytes ops @ t))) = map batch_of ops"
  using assms read_all_written [of "map batch_of ops" t] length_batch_of
  by (simp add: log_bytes_def wal_valid_def comp_def)


subsection \<open>Opening\<close>

definition in_dir :: "str \<Rightarrow> str list \<Rightarrow> str list" where
  "in_dir path names = map (\<lambda>n. path @ 47 # n) (filter has_sst names)"

lemma cache_new: "coherent d (LRU_new cap)"
  by (rule coherent_empty [OF LRU_new_inv])

lemma DB_open_fresh:
  assumes "filter has_sst names = []" and "DB_open path wbs mc cs names files None can g = Some d"
  shows "db_ok d Map.empty [] [] []" and "db_next_id d = 1" and "db_path d = path" and "db_write_buffer_size d = wbs"
    and "db_ssts d = []" and "lw_ok (db_log d) = can" "lw_good (db_log d) = can" and "view [] [] = Map.empty"
proof -
  have d: "d = \<lparr> db_path = path, db_write_buffer_size = wbs, db_max_sstable_count = mc, db_mem = MemTable_new,
      db_log = LogWriter_open [] True can, db_cache = LRU_new cs, db_ssts = [], db_next_id = 1, db_files = files, db_rng = g \<rparr>"
    using assms by (simp add: DB_open_def LoadSSTableList_def DB_Recover_def)
  show "db_ok d Map.empty [] [] []"
    using MemTable_new_wf cache_new log_ok_new [of can "[]" "[]"]
    by (simp add: d db_ok_def mem_ok_def tables_ok_def short_kvs_def)
  show "view [] [] = Map.empty" by (simp add: view_def contents_of_def fun_eq_iff)
qed (use assms in \<open>auto simp: DB_open_def LoadSSTableList_def DB_Recover_def LogWriter_open_def split: if_splits\<close>)

lemma LoadSSTableList_ok:
  assumes ns: "db_ssts d = map (sst_filename (db_path d)) ns" "sorted_wrt (<) ns" "\<forall>n \<in> set ns. unat n < 1000000"
    and names: "distinct names" "set (in_dir (db_path d) names) = set (db_ssts d)"
  shows "LoadSSTableList (db_path d) names = (db_ssts d, foldl next_id_of 1 (db_ssts d))"
proof -
  have "distinct (in_dir (db_path d) names)" using names(1) by (simp add: in_dir_def distinct_map inj_on_def)
  moreover have "sorted_wrt (<) (db_ssts d)" unfolding ns(1) by (rule names_sorted [OF ns(2,3)])
  ultimately have "sort (in_dir (db_path d) names) = db_ssts d"
    using names(2) by (intro sorted_distinct_set_unique) (simp_all add: strict_sorted_iff)
  then show ?thesis by (simp add: LoadSSTableList_def in_dir_def Let_def)
qed

text \<open>Opening the files of a database: what its memtable held because of the log comes back.\<close>

lemma DB_open_ok:
  assumes ok: "db_ok d base l ts lost" and names: "distinct names" "set (in_dir (db_path d) names) = set (db_ssts d)"
    and n: "unat (db_next_id d) \<le> 1000000"
  obtains d' ops l' where "DB_open (db_path d) wbs mc cs names (db_files d) (Some (lw_file (db_log d))) True g = Some d'"
    "db_ok d' (map_of l') l' ts []" "map_of l = fold op_map (ops @ lost) base" "length lost \<le> 1" "map_of l' = fold op_map ops Map.empty"
    "lw_file (db_log d') = []" "db_path d' = db_path d" "db_files d' = db_files d" "db_ssts d' = db_ssts d"
    "unat (db_next_id d') \<le> 1000000"
proof -
  obtain ops t where l: "lw_file (db_log d) = log_bytes ops @ t" "wal_dec t = None" "\<forall>x \<in> set ops. op_short x"
    "map_of l = fold op_map (ops @ lost) base" "length lost \<le> 1" using ok by (auto simp: db_ok_def log_ok_def)
  have "short_kvs []" by (simp add: short_kvs_def)
  then obtain m' g' l' where r: "replay (map batch_of ops) (Some (MemTable_new, g)) = Some (m', g')" "mt_wf m'"
    "MT_entries m' = Some l'" "short_kvs l'" "map_of l' = fold op_map ops (map_of [])"
    using replay_ops [OF _ _ _ l(3), of MemTable_new "[]" g] MemTable_new_wf by blast
  obtain ns where ns: "db_ssts d = map (sst_filename (db_path d)) ns" "sorted_wrt (<) ns" "\<forall>n \<in> set ns. n < db_next_id d"
    using ok by (auto simp: db_ok_def tables_ok_def)
  have ns': "\<forall>n \<in> set ns. unat n < 1000000" using ns(3) n by (auto simp: word_less_nat_alt)
  let ?nxt = "foldl next_id_of 1 (db_ssts d)"
  note nx = next_id_above [OF ns', of 1 "db_path d", folded ns(1)]
  define d' where "d' = \<lparr> db_path = db_path d, db_write_buffer_size = wbs, db_max_sstable_count = mc, db_mem = m',
      db_log = LogWriter_open (lw_file (db_log d)) True True, db_cache = LRU_new cs, db_ssts = db_ssts d, db_next_id = ?nxt,
      db_files = db_files d, db_rng = g' \<rparr>"
  have op: "DB_open (db_path d) wbs mc cs names (db_files d) (Some (lw_file (db_log d))) True g = Some d'"
    using r(1) log_read_back [OF l(3,2)] LoadSSTableList_ok [OF ns(1,2) ns' names]
    by (simp add: DB_open_def DB_Recover_def l(1) d'_def)
  have "tables_ok d' ts"
    using ok nx ns(1,2) cache_new by (auto simp: db_ok_def tables_ok_def d'_def)
  moreover have "log_ok (db_log d') (map_of l') l' []" unfolding d'_def by (simp add: log_ok_new)
  ultimately have "db_ok d' (map_of l') l' ts []" using r by (simp add: db_ok_def mem_ok_def d'_def)
  then show thesis
    using op l(4,5) r(5) nx by (intro that [of d' l' ops]) (simp_all add: d'_def LogWriter_open_def)
qed

end
