(* ===== verification/DBTheorems.thy ===== *)
theory DBTheorems
  imports DBRecovery
begin

text \<open>
  What the storage engine promises, over whole histories: answers, progress, recovery, and the limits
  of each.
\<close>

subsection \<open>Progress\<close>

text \<open>What a database that keeps its promises answers, and the map it leaves.\<close>

fun kv_answer :: "db_call \<Rightarrow> (str \<rightharpoonup> str) \<Rightarrow> db_result" where
  "kv_answer (CallGet k) m = Found (m k)"
| "kv_answer CallCompaction m = Done"
| "kv_answer (CallFlush _) m = Done"
| "kv_answer _ m = Acked True"

fun kv_next :: "db_call \<Rightarrow> (str \<rightharpoonup> str) \<Rightarrow> (str \<rightharpoonup> str)" where
  "kv_next (CallPut k v _ _ _) m = m(k := hide (Some v))"
| "kv_next (CallDelete k _ _) m = m(k := None)"
| "kv_next _ m = m"

fun kv_answers :: "db_call list \<Rightarrow> (str \<rightharpoonup> str) \<Rightarrow> db_result list" where
  "kv_answers [] m = []"
| "kv_answers (c # cs) m = kv_answer c m # kv_answers cs (kv_next c m)"

text \<open>A call with short strings whose log write and flush succeed, and the bytes it can add to the memtable.\<close>

fun call_short :: "db_call \<Rightarrow> bool" where
  "call_short (CallPut k v wr sy _) \<longleftrightarrow> length k < 128 \<and> length v < 128 \<and> wr = None \<and> sy = None"
| "call_short (CallDelete k wr sy) \<longleftrightarrow> length k < 128 \<and> wr = None \<and> sy = None"
| "call_short (CallFlush _) \<longleftrightarrow> False"
| "call_short _ \<longleftrightarrow> True"

fun call_weight :: "db_call \<Rightarrow> nat" where
  "call_weight (CallPut k v _ _ _) = length k + length v"
| "call_weight (CallDelete k _ _) = length k"
| "call_weight _ = 0"

abbreviation kvs_size :: "(str \<times> str) list \<Rightarrow> nat" where
  "kvs_size l \<equiv> sum_list (map (\<lambda>(k, v). length k + length v) l)"

lemma kvs_size_put: "kvs_size (al_put k v l) \<le> kvs_size l + length k + length v"
  by (induction k v l rule: al_put.induct) auto

lemma MT_Size_le: "mem_ok d l \<Longrightarrow> unat (MT_Size (db_mem d)) \<le> kvs_size l"
  using MT_stats(2) [of "db_mem d" l] by (simp add: mem_ok_def unat_of_nat)


lemma db_ok_log: "db_ok d base l ts lost \<Longrightarrow> db_ssts d = map fst ts"
  by (simp add: db_ok_def tables_ok_def)

lemma write_returns:
  assumes ok: "db_ok d base l [] lost" and lw: "lw_ok (db_log d)" "lw_good (db_log d)" and kv: "length k < 128" "length v < 128"
    and x: "op_short x" "op_map x = (\<lambda>m. m(k \<mapsto> v))"
    and add: "AddRecord (db_log d) (batch_of x) None = (b, lw0)" "Sync lw0 None = (sb, lw')"
    and put: "MT_Put g k v (db_mem d) = Some m"
    and d1: "d1 = d\<lparr> db_log := lw', db_mem := m, db_rng := gs \<rparr>"
  shows "\<exists>lost'. db_ok d1 base (al_put k v l) [] lost'" "lw_ok (db_log d1)" "lw_good (db_log d1)" "b"
    "view (al_put k v l) [] = (view l [])(k := hide (Some v))"
    "unat (MT_Size (db_mem d1)) \<le> kvs_size l + length k + length v"
proof -
  have b: "b" "lw_ok lw'" "lw_good lw'" using add lw by (auto simp: step_simps Sync_def)
  then obtain lost' where 1: "db_ok d1 base (al_put k v l) [] lost'"
    unfolding d1 using db_ok_write [OF ok x(1) kv x(2) _ add(2) put] add(1) by metis
  then show "\<exists>lost'. db_ok d1 base (al_put k v l) [] lost'" by blast
  show "b" "lw_ok (db_log d1)" "lw_good (db_log d1)" using b by (simp_all add: d1)
  show "view (al_put k v l) [] = (view l [])(k := hide (Some v))"
    using ok mem_sorted by (intro view_put) (auto simp: db_ok_def)
  have "mem_ok d1 (al_put k v l)" using 1 by (simp add: db_ok_def)
  from MT_Size_le [OF this] kvs_size_put [of k v l]
  show "unat (MT_Size (db_mem d1)) \<le> kvs_size l + length k + length v" by linarith
qed

lemma call_returns:
  assumes ok: "db_ok d base l [] lost" and lw: "lw_ok (db_log d)" "lw_good (db_log d)" and c: "call_short c"
    and size: "kvs_size l + call_weight c < unat (db_write_buffer_size d)"
  shows "\<exists>d' l' lost'. db_call_run c d = Some (kv_answer c (view l []), d') \<and> db_ok d' base l' [] lost' \<and> lw_ok (db_log d') \<and>
    lw_good (db_log d') \<and> db_write_buffer_size d' = db_write_buffer_size d \<and> view l' [] = kv_next c (view l []) \<and>
    kvs_size l' \<le> kvs_size l + call_weight c"
proof (cases c)
  case (CallPut k v wr sy can)
  with c have kv: "length k < 128" "length v < 128" "wr = None" "sy = None" by simp_all
  have x: "op_short (OpPut k v)" using kv by simp
  obtain b lw0 where add: "AddRecord (db_log d) (batch_of (OpPut k v)) None = (b, lw0)"
    by (cases "AddRecord (db_log d) (batch_of (OpPut k v)) None")
  obtain sb lw' where sync: "Sync lw0 None = (sb, lw')" by (cases "Sync lw0 None")
  obtain m where m: "MT_Put (db_rng d 0) k v (db_mem d) = Some m"
    using ok kv mem_put_ok [of d l k v] by (auto simp: db_ok_def)
  define d1 where "d1 = d\<lparr> db_log := lw', db_mem := m, db_rng := (\<lambda>i. db_rng d (Suc i)) \<rparr>"
  note w = write_returns [OF ok lw kv(1,2) x _ add sync m d1_def]
  have e: "op_map (OpPut k v) = (\<lambda>m. m(k \<mapsto> v))" by (simp add: fun_eq_iff)
  obtain lost' where ok': "db_ok d1 base (al_put k v l) [] lost'" using w(1) [OF e] by blast
  have "\<not> db_write_buffer_size d \<le> MT_Size m"
    using w(6) [OF e] size CallPut by (simp add: word_le_nat_alt d1_def)
  then have "DB_Put k v wr sy can d = Some (True, d1)"
    using batch_written [OF x] add sync w(4) [OF e] m kv(3,4) by (simp add: DB_Put_def d1_def)
  moreover have "db_write_buffer_size d1 = db_write_buffer_size d" by (simp add: d1_def)
  ultimately show ?thesis
    using CallPut ok' w(2,3,5) [OF e] kvs_size_put [of k v l]
    by (intro exI [of _ d1] exI [of _ "al_put k v l"] exI [of _ lost']) simp
next
  case (CallDelete k wr sy)
  with c have kv: "length k < 128" "length ([] :: str) < 128" "wr = None" "sy = None" by simp_all
  have x: "op_short (OpDelete k)" using kv by simp
  obtain b lw0 where add: "AddRecord (db_log d) (batch_of (OpDelete k)) None = (b, lw0)"
    by (cases "AddRecord (db_log d) (batch_of (OpDelete k)) None")
  obtain sb lw' where sync: "Sync lw0 None = (sb, lw')" by (cases "Sync lw0 None")
  obtain m where m: "MT_Put (db_rng d 0) k [] (db_mem d) = Some m"
    using ok kv mem_put_ok [of d l k "[]"] by (auto simp: db_ok_def)
  define d1 where "d1 = d\<lparr> db_log := lw', db_mem := m, db_rng := (\<lambda>i. db_rng d (Suc i)) \<rparr>"
  note w = write_returns [OF ok lw kv(1,2) x _ add sync m d1_def]
  have e: "op_map (OpDelete k) = (\<lambda>m. m(k \<mapsto> []))" by (simp add: fun_eq_iff)
  obtain lost' where ok': "db_ok d1 base (al_put k [] l) [] lost'" using w(1) [OF e] by blast
  have "DB_Delete k wr sy d = Some (True, d1)"
    using batch_written [OF x] add sync w(4) [OF e] m kv(3,4) by (simp add: DB_Delete_def d1_def)
  moreover have "db_write_buffer_size d1 = db_write_buffer_size d" by (simp add: d1_def)
  ultimately show ?thesis
    using CallDelete ok' w(2,3,5) [OF e] kvs_size_put [of k "[]" l]
    by (intro exI [of _ d1] exI [of _ "al_put k [] l"] exI [of _ lost']) simp
next
  case (CallGet k)
  obtain c where "DB_Get k d = Some (view l [] k, d\<lparr> db_cache := c \<rparr>)" "db_ok (d\<lparr> db_cache := c \<rparr>) base l [] lost"
    by (rule DB_Get_keeps [OF ok])
  with CallGet lw show ?thesis by (intro exI [of _ "d\<lparr> db_cache := c \<rparr>"] exI [of _ l] exI [of _ lost]) simp
next
  case CallCompaction
  then have "DB_Compaction d = Some d" using db_ok_log [OF ok] by (simp add: DB_Compaction_def DoCompaction_def)
  with CallCompaction ok lw show ?thesis by (intro exI [of _ d] exI [of _ l] exI [of _ lost]) simp
qed (use c in simp)

lemma run_returns:
  assumes "db_ok d base l [] lost" and "lw_ok (db_log d)" "lw_good (db_log d)" and "list_all call_short cs"
    and "kvs_size l + sum_list (map call_weight cs) < unat (db_write_buffer_size d)"
  shows "\<exists>d' l' lost'. db_run cs d = Some (kv_answers cs (view l []), d') \<and> db_ok d' base l' [] lost' \<and>
    view l' [] = fold kv_next cs (view l [])"
  using assms
proof (induction cs arbitrary: d l lost)
  case Nil
  then show ?case by auto
next
  case (Cons c cs)
  obtain d1 l1 lost1 where s: "db_call_run c d = Some (kv_answer c (view l []), d1)" "db_ok d1 base l1 [] lost1" "lw_ok (db_log d1)"
    "lw_good (db_log d1)" "db_write_buffer_size d1 = db_write_buffer_size d" "view l1 [] = kv_next c (view l [])"
    "kvs_size l1 \<le> kvs_size l + call_weight c"
    using call_returns [OF Cons.prems(1-3), of c] Cons.prems(4,5) by auto
  have "\<exists>d' l' lost'. db_run cs d1 = Some (kv_answers cs (view l1 []), d') \<and> db_ok d' base l' [] lost' \<and>
      view l' [] = fold kv_next cs (view l1 [])"
    using Cons.prems(4,5) s(5,7) by (intro Cons.IH [OF s(2-4)]) simp_all
  then obtain d' l' lost' where t: "db_run cs d1 = Some (kv_answers cs (view l1 []), d')" "db_ok d' base l' [] lost'"
    "view l' [] = fold kv_next cs (view l1 [])" by blast
  with s(1,6) show ?case by (intro exI [of _ d'] exI [of _ l'] exI [of _ lost']) simp
qed


subsection \<open>The flush\<close>


text \<open>Which calls can add a table: only a flush that was asked for.\<close>

fun is_flush :: "db_call \<Rightarrow> bool" where
  "is_flush (CallFlush _) \<longleftrightarrow> True"
| "is_flush _ \<longleftrightarrow> False"






lemma fresh_run:
  assumes "filter has_sst names = []" and "DB_open path wbs mc cs names files None True g = Some d"
    and "list_all call_short calls" and "sum_list (map call_weight calls) < unat wbs"
  shows "\<exists>d'. db_run calls d = Some (kv_answers calls Map.empty, d') \<and> db_ssts d' = []"
proof -
  note o = DB_open_fresh [OF assms(1,2)]
  obtain d' l' lost' where "db_run calls d = Some (kv_answers calls (view [] []), d')" "db_ok d' Map.empty l' [] lost'"
    using run_returns [OF o(1) _ _ assms(3)] o(4,6,7) assms(4) by auto
  with o(8) db_ok_log show ?thesis by fastforce
qed

text \<open>What the examples below run.\<close>

definition some_calls :: "db_call list" where
  "some_calls = [CallPut [1] [2] None None True, CallPut [3] [4] None None True, CallDelete [1] None None, CallGet [3]]"

lemma some_calls_simps [simp]: "list_all call_sane some_calls" "list_all call_short some_calls" "list_all call_synced some_calls" "length some_calls = 4"
    "sum_list (map call_weight some_calls) = 5" "filter is_flush some_calls = []"
  by (simp_all add: some_calls_def write_sane_def)

lemma fresh_db_run:
  obtains d rs d' where "DB_open [100] 4194304 4 8 [] (\<lambda>_. None) None True (\<lambda>_ _. False) = Some d"
    "db_run some_calls d = Some (rs, d')" "db_ssts d' = []"
proof -
  obtain d where d: "DB_open [100] 4194304 4 8 [] (\<lambda>_. None) None True (\<lambda>_ _. False) = Some d"
    by (simp add: DB_open_def LoadSSTableList_def DB_Recover_def)
  from fresh_run [OF _ this some_calls_simps(2)] some_calls_simps(5) obtain d' where
    "db_run some_calls d = Some (kv_answers some_calls Map.empty, d')" "db_ssts d' = []" by auto
  with d show thesis by (rule that)
qed

subsection \<open>Properties\<close>

text \<open>
  C7: the database is a finite map.  From an empty directory, every history of \<open>Put\<close>, \<open>Delete\<close>,
  \<open>Get\<close>, manual flush and manual compaction whose calls return gives the answers of a map in which an acknowledged
  \<open>Put\<close> stores (an empty value: removes), an acknowledged \<open>Delete\<close> removes and a refused one changes
  nothing, through any number of flushes and compactions, with any cache size and skip-list heights and
  log writes and log flushes failing anywhere; and a later \<open>Get\<close> of every key answers by that map.
\<close>

theorem database_answers_like_a_map:
  assumes "filter has_sst names = []" and "DB_open path wbs mc cs names files None can g = Some d"
    and "list_all call_sane calls" and "2 * length calls + 3 < 2 ^ 64" and "db_run calls d = Some (rs, d')"
  shows "\<exists>m. kv_run calls rs Map.empty = Some m \<and> (\<forall>key. map_option fst (DB_Get key d') = Some (m key))"
proof -
  note o = DB_open_fresh [OF assms(1,2)]
  obtain base l ts lost where r: "db_ok d' base l ts lost" "kv_run calls rs Map.empty = Some (view l ts)"
    using db_run_ok [OF o(1) assms(3) _ assms(5)] assms(4) o(2,8) by auto
  have "map_option fst (DB_Get key d') = Some (view l ts key)" for key
    using DB_Get_ok [of d' l ts key] r(1) by (auto simp: db_ok_def)
  with r(2) show ?thesis by blast
qed

theorem database_answers_like_a_map_witness:
  "\<exists>d rs d' m. DB_open [100] 4194304 4 8 [] (\<lambda>_. None) None True (\<lambda>_ _. False) = Some d \<and>
     db_run some_calls d = Some (rs, d') \<and> kv_run some_calls rs Map.empty = Some m \<and>
     (\<forall>key. map_option fst (DB_Get key d') = Some (m key))"
proof -
  obtain d rs d' where f: "DB_open [100] 4194304 4 8 [] (\<lambda>_. None) None True (\<lambda>_ _. False) = Some d"
    "db_run some_calls d = Some (rs, d')" "db_ssts d' = []" by (rule fresh_db_run)
  with database_answers_like_a_map [OF _ f(1) _ _ f(2)] show ?thesis by auto
qed

text \<open>
  C9: short histories return.  On a fresh database whose log can be opened, every history of \<open>Put\<close>,
  \<open>Delete\<close>, \<open>Get\<close> and manual compaction whose keys and values are all shorter than 128 bytes, whose log
  writes and log flushes succeed, and whose writes together carry fewer bytes than the write buffer takes,
  returns, every write is acknowledged, and the answers are those of the map.  (A longer key or value makes
  the varint encoder loop for ever, and so does a flush of 124 bytes or more.)
\<close>

theorem short_history_returns:
  assumes "filter has_sst names = []" and "DB_open path wbs mc cs names files None True g = Some d"
    and "list_all call_short calls" and "sum_list (map call_weight calls) < unat wbs"
  shows "map_option fst (db_run calls d) = Some (kv_answers calls Map.empty)"
proof -
  note o = DB_open_fresh [OF assms(1,2)]
  show ?thesis using run_returns [OF o(1) _ _ assms(3)] o(4,6,7,8) assms(4) by auto
qed

theorem short_history_returns_witness:
  "\<exists>d. DB_open [100] 4194304 4 8 [] (\<lambda>_. None) None True (\<lambda>_ _. False) = Some d \<and>
     map_option fst (db_run some_calls d) = Some [Acked True, Acked True, Acked True, Found (Some [4])]"
proof -
  obtain d rs d' where f: "DB_open [100] 4194304 4 8 [] (\<lambda>_. None) None True (\<lambda>_ _. False) = Some d"
    "db_run some_calls d = Some (rs, d')" "db_ssts d' = []" by (rule fresh_db_run)
  have "map_option fst (db_run some_calls d) = Some (kv_answers some_calls Map.empty)"
    by (rule short_history_returns [OF _ f(1)]) (use some_calls_simps(5) in auto)
  with f(1) show ?thesis by (simp add: some_calls_def)
qed

text \<open>An operation concerns one key only.\<close>

fun op_key :: "batch_op \<Rightarrow> str" where
  "op_key (OpPut k v) = k"
| "op_key (OpDelete k) = k"

lemma op_map_other: "key \<noteq> op_key x \<Longrightarrow> op_map x m key = m key"
  by (cases x) simp_all

text \<open>
  C8: recovery after the first run.  Let a database start in an empty directory, run any history of fewer
  than half a million calls that return, with log writes and log flushes failing anywhere, and crash.
  Opening the files it left (the directory listed in any order, the last log record torn or not) returns a
  database that answers every \<open>Get\<close>.  If every flush of the log behind an acknowledged write succeeded, it
  answers every key as the old one would have.  Otherwise at most one acknowledged write is missing: there
  is one key outside of which all answers agree.  This is about the first run; the log is truncated when
  it has been replayed, so a second crash before a flush loses what it held.
\<close>

theorem database_survives_crash:
  assumes "filter has_sst names = []" and "DB_open path wbs mc cs names files None can g = Some d"
    and "list_all call_sane calls" and "length calls < 499999" and "db_run calls d = Some (rs, d1)"
    and "distinct names'" and "set (in_dir path names') = set (db_ssts d1)"
  shows "\<exists>d2. DB_open path wbs' mc' cs' names' (db_files d1) (Some (lw_file (db_log d1))) True g' = Some d2 \<and>
     (\<forall>key. DB_Get key d1 \<noteq> None \<and> DB_Get key d2 \<noteq> None) \<and>
     (list_all call_synced calls \<longrightarrow> (\<forall>key. map_option fst (DB_Get key d2) = map_option fst (DB_Get key d1))) \<and>
     (\<exists>k. \<forall>key. key \<noteq> k \<longrightarrow> map_option fst (DB_Get key d2) = map_option fst (DB_Get key d1))"
proof -
  note o = DB_open_fresh [OF assms(1,2)]
  obtain base l ts lost where r: "db_ok d1 base l ts lost" "base = Map.empty" "unat (db_next_id d1) \<le> unat (db_next_id d) + 2 * length calls"
    "db_path d1 = db_path d" "list_all call_synced calls \<longrightarrow> lost = []"
    using db_run_ok [OF o(1) assms(3) _ assms(5)] assms(4) o(2) by auto
  have n: "unat (db_next_id d1) \<le> 1000000" "set (in_dir (db_path d1) names') = set (db_ssts d1)" "db_path d1 = path"
    using r(3,4) o(2,3) assms(4,7) by simp_all
  obtain d2 ops l' where d2: "DB_open (db_path d1) wbs' mc' cs' names' (db_files d1) (Some (lw_file (db_log d1))) True g' = Some d2"
    "db_ok d2 (map_of l') l' ts []" "map_of l = fold op_map (ops @ lost) base" "length lost \<le> 1" "map_of l' = fold op_map ops Map.empty"
    "lw_file (db_log d2) = []" "db_path d2 = db_path d1" "db_files d2 = db_files d1" "db_ssts d2 = db_ssts d1"
    "unat (db_next_id d2) \<le> 1000000"
    by (rule DB_open_ok [OF r(1) assms(6) n(2,1)])
  have get: "map_option fst (DB_Get key d1) = Some (view l ts key)" "map_option fst (DB_Get key d2) = Some (view l' ts key)" for key
    using DB_Get_ok [of d2 l' ts key] DB_Get_ok [of d1 l ts key] d2(2) r(1) by (auto simp: db_ok_def)
  have same: "view l' ts key = view l ts key" if "map_of l' key = map_of l key" for key
    using that by (simp add: view_def contents_of_def map_add_def)
  have all: "view l' ts key = view l ts key" if "lost = []" for key
    using d2(3,5) r(2) that by (intro same) simp
  have but: "\<exists>k. \<forall>key. key \<noteq> k \<longrightarrow> view l' ts key = view l ts key"
  proof (cases lost)
    case (Cons x xs)
    then have "map_of l = op_map x (map_of l')" using d2(3-5) r(2) by simp
    then show ?thesis by (intro exI [of _ "op_key x"]) (simp add: same op_map_other)
  qed (use all in simp)
  have "DB_Get key d1 \<noteq> None" "DB_Get key d2 \<noteq> None" for key using get [of key] by auto
  moreover have "list_all call_synced calls \<longrightarrow> (\<forall>key. map_option fst (DB_Get key d2) = map_option fst (DB_Get key d1))"
    using all r(5) by (simp add: get)
  moreover have "\<exists>k. \<forall>key. key \<noteq> k \<longrightarrow> map_option fst (DB_Get key d2) = map_option fst (DB_Get key d1)"
    using but by (simp add: get)
  ultimately show ?thesis using d2(1) n(3) by blast
qed

theorem database_survives_crash_witness:
  "\<exists>d rs d1 d2. DB_open [100] 4194304 4 8 [] (\<lambda>_. None) None True (\<lambda>_ _. False) = Some d \<and>
     db_run some_calls d = Some (rs, d1) \<and>
     DB_open [100] 4194304 4 8 [lit ''current.log''] (db_files d1) (Some (lw_file (db_log d1))) True (\<lambda>_ _. False) = Some d2 \<and>
     (\<forall>key. map_option fst (DB_Get key d2) = map_option fst (DB_Get key d1) \<and> DB_Get key d1 \<noteq> None)"
proof -
  obtain d rs d1 where f: "DB_open [100] 4194304 4 8 [] (\<lambda>_. None) None True (\<lambda>_ _. False) = Some d"
    "db_run some_calls d = Some (rs, d1)" "db_ssts d1 = []" by (rule fresh_db_run)
  have "set (in_dir [100] [lit ''current.log'']) = set (db_ssts d1)"
    by (simp add: in_dir_def f(3) has_sst_def lit_def)
  from database_survives_crash [OF _ f(1) _ _ f(2) _ this, of 4194304 4 8 "\<lambda>_ _. False"] f show ?thesis by auto
qed

text \<open>
  An acknowledged write can be lost: \<open>Put\<close> does not look at what \<open>Sync\<close> answers.  With a flush of the log
  that writes nothing, the \<open>Put\<close> is acknowledged, a \<open>Get\<close> finds the value, and after a crash it is gone.
\<close>

theorem unsynced_put_is_acknowledged:
  "\<exists>d d1 d2. DB_open [100] 4194304 4 8 [] (\<lambda>_. None) None True (\<lambda>_ _. False) = Some d \<and>
     db_run [CallPut [1] [2] None (Some 0) True] d = Some ([Acked True], d1) \<and> map_option fst (DB_Get [1] d1) = Some (Some [2]) \<and>
     DB_open [100] 4194304 4 8 [] (db_files d1) (Some (lw_file (db_log d1))) True (\<lambda>_ _. False) = Some d2 \<and>
     map_option fst (DB_Get [1] d2) = Some None"
proof -
  obtain d where d: "DB_open [100] 4194304 4 8 [] (\<lambda>_. None) None True (\<lambda>_ _. False) = Some d"
    by (simp add: DB_open_def LoadSSTableList_def DB_Recover_def)
  note o = DB_open_fresh [OF _ d]
  have log: "db_log d = LogWriter_open [] True True" and wbs: "db_write_buffer_size d = 4194304"
    using d by (auto simp: DB_open_def LoadSSTableList_def DB_Recover_def)
  have x: "op_short (OpPut [1] [2])" "op_map (OpPut [1] [2]) = (\<lambda>m. m([1] \<mapsto> [2]))" by auto
  obtain lw where add: "AddRecord (db_log d) (batch_of (OpPut [1] [2])) None = (True, lw)"
    by (simp add: log LogWriter_open_def step_simps)
  then have lw: "lw_good lw" "lw_synced lw = 0" by (auto simp: log LogWriter_open_def step_simps)
  obtain lw1 where sync: "Sync lw (Some 0) = (False, lw1)" "lw_file lw1 = []" using lw by (simp add: Sync_def Let_def)
  have ok: "db_ok d Map.empty [] [] []" using o(1) by simp
  obtain m where m: "MT_Put (db_rng d 0) [1] [2] (db_mem d) = Some m"
    using ok mem_put_ok [of d "[]" "[1]" "[2]"] by (auto simp: db_ok_def)
  define d1 where "d1 = d\<lparr> db_log := lw1, db_mem := m, db_rng := (\<lambda>i. db_rng d (Suc i)) \<rparr>"
  obtain loss where ok1: "db_ok d1 Map.empty (al_put [1] [2] []) [] loss" unfolding d1_def
    by (rule db_ok_write [OF ok x(1) _ _ x(2) add sync(1) m]) simp_all
  have "unat (MT_Size (db_mem d1)) \<le> 2" using MT_Size_le [of d1 "al_put [1] [2] []"] ok1 by (simp add: db_ok_def)
  then have "\<not> db_write_buffer_size d \<le> MT_Size m" by (simp add: word_le_nat_alt d1_def wbs)
  then have "DB_Put [1] [2] None (Some 0) True d = Some (True, d1)"
    using batch_written [OF x(1)] add sync m by (simp add: DB_Put_def d1_def)
  then have run: "db_run [CallPut [1] [2] None (Some 0) True] d = Some ([Acked True], d1)" by simp
  have g1: "map_option fst (DB_Get [1] d1) = Some (Some [2])"
    using DB_Get_ok [of d1 "al_put [1] [2] []" "[]" "[1]"] ok1 by (auto simp: db_ok_def view_def contents_of_def hide_def)
  have empty: "lw_file (db_log d1) = []" using sync(2) by (simp add: d1_def)
  have dir: "set (in_dir (db_path d1) []) = set (db_ssts d1)" using o(5) by (simp add: in_dir_def d1_def)
  obtain d2 where d2: "DB_open [100] 4194304 4 8 [] (db_files d1) (Some (lw_file (db_log d1))) True (\<lambda>_ _. False) = Some d2"
    "db_mem d2 = MemTable_new" "db_ssts d2 = []"
    using log_read_back [of "[]" "[]"] wal_dec_empty
    by (simp add: DB_open_def LoadSSTableList_def DB_Recover_def log_bytes_def empty)
  have "MT_Get [1] MemTable_new = Some None" using mt.get_spec [of MemTable_new "[]" "[1]"] MemTable_new_wf by simp
  then have "map_option fst (DB_Get [1] d2) = Some None" by (simp add: d2(2,3) DB_Get_def GetFromSSTables_def)
  with d run g1 d2(1) show ?thesis by blast
qed

text \<open>
  Recovery works once.  The constructor truncates the log right after replaying it and does not
  write the recovered entries anywhere: when the database is opened a second time before a flush, what
  the log had kept is gone, for every history that never flushed.
\<close>

theorem second_crash_loses_the_log:
  assumes "filter has_sst names = []" and "DB_open path wbs mc cs names files None can g = Some d"
    and "list_all call_sane calls" and "length calls < 499999" and "db_run calls d = Some (rs, d1)"
    and "db_ssts d1 = []" and "DB_open path wbs mc cs names (db_files d1) (Some (lw_file (db_log d1))) True g' = Some d2"
    and "DB_open path wbs mc cs names (db_files d2) (Some (lw_file (db_log d2))) True g'' = Some d3"
  shows "map_option fst (DB_Get key d3) = Some None"
proof -
  note o = DB_open_fresh [OF assms(1,2)]
  obtain base l ts lost where r: "db_ok d1 base l ts lost" "db_path d1 = path"
    using db_run_ok [OF o(1) assms(3) _ assms(5)] assms(4) o(2,3) by auto
  have "lw_file (db_log d2) = []" using assms(7) by (auto simp: DB_open_def LogWriter_open_def bind_eq_Some_conv split: prod.splits)
  with assms(8) have d3: "d3 = \<lparr> db_path = path, db_write_buffer_size = wbs, db_max_sstable_count = mc, db_mem = MemTable_new,
      db_log = LogWriter_open [] True True, db_cache = LRU_new cs, db_ssts = [], db_next_id = 1, db_files = db_files d2, db_rng = g'' \<rparr>"
    using log_read_back [of "[]" "[]"] wal_dec_empty assms(1)
    by (simp add: DB_open_def LoadSSTableList_def DB_Recover_def log_bytes_def)
  have "MT_Get key MemTable_new = Some None" using mt.get_spec [of MemTable_new "[]" key] MemTable_new_wf by simp
  then show ?thesis by (simp add: d3 DB_Get_def GetFromSSTables_def)
qed

theorem second_crash_loses_the_log_witness:
  "\<exists>d rs d1 d2 d3. DB_open [100] 4194304 4 8 [] (\<lambda>_. None) None True (\<lambda>_ _. False) = Some d \<and>
     db_run some_calls d = Some (rs, d1) \<and>
     DB_open [100] 4194304 4 8 [] (db_files d1) (Some (lw_file (db_log d1))) True (\<lambda>_ _. False) = Some d2 \<and>
     DB_open [100] 4194304 4 8 [] (db_files d2) (Some (lw_file (db_log d2))) True (\<lambda>_ _. False) = Some d3 \<and>
     map_option fst (DB_Get [3] d3) = Some None"
proof -
  obtain d rs d1 where f: "DB_open [100] 4194304 4 8 [] (\<lambda>_. None) None True (\<lambda>_ _. False) = Some d"
    "db_run some_calls d = Some (rs, d1)" "db_ssts d1 = []" by (rule fresh_db_run)
  have p: "db_ok d Map.empty [] [] []" "db_next_id d = 1" "db_path d = [100]" using DB_open_fresh [OF _ f(1)] by simp_all
  obtain base l ts lost where r: "db_ok d1 base l ts lost" "db_path d1 = [100]" "unat (db_next_id d1) \<le> 9"
    using db_run_ok [OF p(1) some_calls_simps(1) _ f(2)] p(2,3) by auto
  have dn: "distinct ([] :: str list)" and n1: "unat (db_next_id d1) \<le> 1000000" using r(3) by simp_all
  have dir: "set (in_dir (db_path d1) []) = set (db_ssts d1)" by (simp add: in_dir_def f(3))
  obtain d2 ops l' where s: "DB_open (db_path d1) 4194304 4 8 [] (db_files d1) (Some (lw_file (db_log d1))) True (\<lambda>_ _. False) = Some d2"
    "db_ok d2 (map_of l') l' ts []" "map_of l = fold op_map (ops @ lost) base" "length lost \<le> 1" "map_of l' = fold op_map ops Map.empty"
    "lw_file (db_log d2) = []" "db_path d2 = db_path d1" "db_files d2 = db_files d1" "db_ssts d2 = db_ssts d1"
    "unat (db_next_id d2) \<le> 1000000"
    by (rule DB_open_ok [OF r(1) dn dir n1])
  have dir2: "set (in_dir (db_path d2) []) = set (db_ssts d2)" using dir s(7,9) by simp
  obtain d3 where t: "DB_open (db_path d2) 4194304 4 8 [] (db_files d2) (Some (lw_file (db_log d2))) True (\<lambda>_ _. False) = Some d3"
    by (rule DB_open_ok [OF s(2) dn dir2 s(10)])
  have e: "DB_open [100] 4194304 4 8 [] (db_files d1) (Some (lw_file (db_log d1))) True (\<lambda>_ _. False) = Some d2"
    "DB_open [100] 4194304 4 8 [] (db_files d2) (Some (lw_file (db_log d2))) True (\<lambda>_ _. False) = Some d3"
    using s(1) t s(7) r(2) by simp_all
  have "map_option fst (DB_Get [3] d3) = Some None"
    by (rule second_crash_loses_the_log [OF _ f(1) _ _ f(2,3) e]) simp_all
  with f e show ?thesis by blast
qed



end
