(* ===== verification/Histories.thy ===== *)
theory Histories
  imports Main
begin

text \<open>
  What one operation keeps, a history of operations keeps: the two contracts a component can have, as
  locales.  \<open>keeps\<close> is an invariant of the operations, \<open>refines\<close> a relation to an abstract machine that
  takes the same operations; both are used through interpretations on the components' own steps.
\<close>

locale keeps =
  fixes step :: "'op \<Rightarrow> 's \<Rightarrow> 's"
    and ok :: "'op \<Rightarrow> bool"
    and inv :: "'s \<Rightarrow> bool"
  assumes inv_step: "inv s \<Longrightarrow> ok p \<Longrightarrow> inv (step p s)"
begin

lemma inv_history: "inv s \<Longrightarrow> list_all ok ps \<Longrightarrow> inv (fold step ps s)"
  by (induction ps arbitrary: s) (simp_all add: inv_step)

end

locale refines =
  fixes step :: "'op \<Rightarrow> 's \<Rightarrow> 's"
    and spec :: "'op \<Rightarrow> 'a \<Rightarrow> 'a"
    and ok :: "'op \<Rightarrow> bool"
    and rel :: "'s \<Rightarrow> 'a \<Rightarrow> bool"
  assumes rel_step: "rel s a \<Longrightarrow> ok p \<Longrightarrow> rel (step p s) (spec p a)"
begin

lemma rel_history: "rel s a \<Longrightarrow> list_all ok ps \<Longrightarrow> rel (fold step ps s) (fold spec ps a)"
  by (induction ps arbitrary: s a) (simp_all add: rel_step)

text \<open>An observation both sides answer alike on related states is answered alike after every history.\<close>

lemma observe_history:
  assumes "rel s a" "list_all ok ps" "\<And>s a. rel s a \<Longrightarrow> f s = g a"
  shows "f (fold step ps s) = g (fold spec ps a)"
  by (rule assms(3)) (rule rel_history [OF assms(1,2)])

end

text \<open>A refinement keeps the pairs of states in its relation.\<close>

sublocale refines \<subseteq> pair: keeps "\<lambda>p sa. (step p (fst sa), spec p (snd sa))" ok "\<lambda>sa. rel (fst sa) (snd sa)"
  by unfold_locales (simp add: rel_step)

end
