(* ===== verification/Metadata.thy ===== *)
theory Metadata
  imports Prelude "HOL-Library.AList"
begin

text \<open>
  What the name node keeps in memory (\<open>src/src/namenode\<close>): \<open>MetadataStore\<close>, \<open>BlockManager\<close>,
  \<open>DataNodeManager\<close>, with the types of \<open>src/src/common/common_types.h\<close>.  A \<open>std::unordered_map\<close> is
  an association list with distinct keys; the order in which the library walks one is an argument
  \<open>ord\<close>, a permutation, of the operations that walk.  The clock (\<open>NowMs\<close>) is the argument \<open>now\<close>.
  The stores lock themselves, so every operation is one step.
\<close>

type_synonym s64 = "64 word"
type_synonym s32 = "32 word"

subsection \<open>common_types.h\<close>

definition kBlockSize :: int where "kBlockSize = 4 * 1024 * 1024"
definition kReplicationFactor :: nat where "kReplicationFactor = 3"
definition kHeartbeatTimeoutSec :: int where "kHeartbeatTimeoutSec = 30"

record block_info =
  bi_id :: u64
  bi_size :: s64
  bi_locations :: "str list"

record file_info =
  fi_path :: str
  fi_size :: s64
  fi_create_time :: s64
  fi_modify_time :: s64
  fi_blocks :: "u64 list"

datatype dn_status = ALIVE | SUSPECT | DEAD

text \<open>An \<open>enum class\<close> is ordered by its values.\<close>

fun status_value :: "dn_status \<Rightarrow> nat" where
  "status_value ALIVE = 0"
| "status_value SUSPECT = 1"
| "status_value DEAD = 2"

lemma status_value_inj: "status_value x = status_value y \<Longrightarrow> x = y"
  by (cases x; cases y) simp_all

instantiation dn_status :: linorder
begin

definition less_eq_dn_status :: "dn_status \<Rightarrow> dn_status \<Rightarrow> bool" where
  "less_eq_dn_status x y \<longleftrightarrow> status_value x \<le> status_value y"

definition less_dn_status :: "dn_status \<Rightarrow> dn_status \<Rightarrow> bool" where
  "less_dn_status x y \<longleftrightarrow> status_value x < status_value y"

instance
  by intro_classes (auto simp: less_eq_dn_status_def less_dn_status_def intro: status_value_inj)

end

record datanode_info =
  di_id :: str
  di_host :: str
  di_port :: s32
  di_status :: dn_status
  di_last_heartbeat :: s64
  di_free_space :: s64
  di_block_count :: s32

text \<open>The order in which an \<open>unordered_map\<close> is walked.\<close>

definition walk_ok :: "(('k \<times> 'v) list \<Rightarrow> ('k \<times> 'v) list) \<Rightarrow> bool" where
  "walk_ok ord \<longleftrightarrow> (\<forall>m. set (ord m) = set m \<and> length (ord m) = length m)"

text \<open>The orders in which the files and the data nodes are walked.\<close>

type_synonym file_walk = "(str \<times> file_info) list \<Rightarrow> (str \<times> file_info) list"
type_synonym node_walk = "(str \<times> datanode_info) list \<Rightarrow> (str \<times> datanode_info) list"

subsection \<open>MetadataStore\<close>

record metadata_store =
  ms_files :: "(str \<times> file_info) list"
  ms_blocks :: "(u64 \<times> block_info) list"

definition MetadataStore_new :: metadata_store where
  "MetadataStore_new = \<lparr> ms_files = [], ms_blocks = [] \<rparr>"

definition empty_file :: "str \<Rightarrow> s64 \<Rightarrow> file_info" where
  "empty_file path now = \<lparr> fi_path = path, fi_size = 0, fi_create_time = now, fi_modify_time = now, fi_blocks = [] \<rparr>"

definition MS_CreateFile :: "str \<Rightarrow> s64 \<Rightarrow> metadata_store \<Rightarrow> bool \<times> metadata_store" where
  "MS_CreateFile path now ms =
     (if map_of (ms_files ms) path \<noteq> None then (False, ms)
      else (True, ms\<lparr> ms_files := AList.update path (empty_file path now) (ms_files ms) \<rparr>))"

definition MS_GetFile :: "str \<Rightarrow> metadata_store \<Rightarrow> file_info option" where
  "MS_GetFile path ms = map_of (ms_files ms) path"

definition MS_UpdateFile :: "str \<Rightarrow> file_info \<Rightarrow> s64 \<Rightarrow> metadata_store \<Rightarrow> bool \<times> metadata_store" where
  "MS_UpdateFile path info now ms =
     (case map_of (ms_files ms) path of
        None \<Rightarrow> (False, ms)
      | Some _ \<Rightarrow> (True, ms\<lparr> ms_files := AList.update path (info\<lparr> fi_modify_time := now \<rparr>) (ms_files ms) \<rparr>))"

definition MS_DeleteFile :: "str \<Rightarrow> metadata_store \<Rightarrow> bool \<times> metadata_store" where
  "MS_DeleteFile path ms =
     (map_of (ms_files ms) path \<noteq> None, ms\<lparr> ms_files := AList.delete path (ms_files ms) \<rparr>)"

definition starts_with :: "str \<Rightarrow> str \<Rightarrow> bool" where
  "starts_with prefix s \<longleftrightarrow> take (length prefix) s = prefix"

definition MS_ListFiles ::
    "file_walk \<Rightarrow> str \<Rightarrow> metadata_store \<Rightarrow> file_info list" where
  "MS_ListFiles ord dir_prefix ms = map snd (filter (\<lambda>(path, _). starts_with dir_prefix path) (ord (ms_files ms)))"

definition MS_AddBlock :: "block_info \<Rightarrow> metadata_store \<Rightarrow> metadata_store" where
  "MS_AddBlock b ms = ms\<lparr> ms_blocks := AList.update (bi_id b) b (ms_blocks ms) \<rparr>"

definition MS_GetBlock :: "u64 \<Rightarrow> metadata_store \<Rightarrow> block_info option" where
  "MS_GetBlock bid ms = map_of (ms_blocks ms) bid"

definition MS_UpdateBlock :: "block_info \<Rightarrow> metadata_store \<Rightarrow> bool \<times> metadata_store" where
  "MS_UpdateBlock b ms =
     (case map_of (ms_blocks ms) (bi_id b) of
        None \<Rightarrow> (False, ms)
      | Some _ \<Rightarrow> (True, ms\<lparr> ms_blocks := AList.update (bi_id b) b (ms_blocks ms) \<rparr>))"

definition MS_DeleteBlock :: "u64 \<Rightarrow> metadata_store \<Rightarrow> bool \<times> metadata_store" where
  "MS_DeleteBlock bid ms =
     (map_of (ms_blocks ms) bid \<noteq> None, ms\<lparr> ms_blocks := AList.delete bid (ms_blocks ms) \<rparr>)"

text \<open>\<open>operator[]\<close> creates the block when it is not there.\<close>

definition MS_UpdateBlockLocation :: "u64 \<Rightarrow> str \<Rightarrow> metadata_store \<Rightarrow> metadata_store" where
  "MS_UpdateBlockLocation bid dn ms =
     (let b0 = (case map_of (ms_blocks ms) bid of
                  Some b \<Rightarrow> b | None \<Rightarrow> \<lparr> bi_id = 0, bi_size = 0, bi_locations = [] \<rparr>);
          b1 = b0\<lparr> bi_id := bid \<rparr>;
          b2 = (if dn \<in> set (bi_locations b1) then b1 else b1\<lparr> bi_locations := bi_locations b1 @ [dn] \<rparr>)
      in ms\<lparr> ms_blocks := AList.update bid b2 (ms_blocks ms) \<rparr>)"

definition MS_GetBlockLocations :: "u64 \<Rightarrow> metadata_store \<Rightarrow> str list" where
  "MS_GetBlockLocations bid ms = (case map_of (ms_blocks ms) bid of None \<Rightarrow> [] | Some b \<Rightarrow> bi_locations b)"

definition MS_FileCount :: "metadata_store \<Rightarrow> nat" where
  "MS_FileCount ms = length (ms_files ms)"

definition MS_BlockCount :: "metadata_store \<Rightarrow> nat" where
  "MS_BlockCount ms = length (ms_blocks ms)"

subsection \<open>BlockManager\<close>

record block_manager =
  bm_next_block_id :: u64
  bm_round_robin_index :: nat

definition BlockManager_new :: block_manager where
  "BlockManager_new = \<lparr> bm_next_block_id = 1, bm_round_robin_index = 0 \<rparr>"

definition SelectDataNodes :: "datanode_info list \<Rightarrow> nat \<Rightarrow> block_manager \<Rightarrow> str list \<times> block_manager" where
  "SelectDataNodes available n bm =
     (let sz = length available;
          start = bm_round_robin_index bm mod sz
      in (map (\<lambda>i. di_id (available ! ((start + i) mod sz))) [0..<n],
          bm\<lparr> bm_round_robin_index := (start + n) mod sz \<rparr>))"

text \<open>\<open>Inl\<close> is the exception with its message.\<close>

definition AllocateBlock :: "datanode_info list \<Rightarrow> block_manager \<Rightarrow> str + (block_info \<times> block_manager)" where
  "AllocateBlock available_nodes bm =
     (let usable = filter (\<lambda>dn. di_status dn = ALIVE \<and> kBlockSize \<le> sint (di_free_space dn)) available_nodes
      in if usable = [] then Inl (lit ''No available DataNode to allocate block'')
         else let replicas = min (length usable) kReplicationFactor;
                  (selected, bm1) = SelectDataNodes usable replicas bm;
                  block = \<lparr> bi_id = bm_next_block_id bm1, bi_size = 0, bi_locations = selected \<rparr>
              in Inr (block, bm1\<lparr> bm_next_block_id := bm_next_block_id bm1 + 1 \<rparr>))"

definition CommitBlock :: "block_info \<Rightarrow> metadata_store \<Rightarrow> metadata_store" where
  "CommitBlock b ms = MS_AddBlock b ms"

definition GetBlockInfo :: "u64 \<Rightarrow> metadata_store \<Rightarrow> block_info option" where
  "GetBlockInfo bid ms = MS_GetBlock bid ms"

definition GetBlockCount :: "metadata_store \<Rightarrow> nat" where
  "GetBlockCount ms = MS_BlockCount ms"

subsection \<open>DataNodeManager\<close>

type_synonym dn_manager = "(str \<times> datanode_info) list"

definition DM_RegisterDataNode :: "datanode_info \<Rightarrow> s64 \<Rightarrow> dn_manager \<Rightarrow> bool \<times> dn_manager" where
  "DM_RegisterDataNode info now dm =
     (True, AList.update (di_id info) (info\<lparr> di_status := ALIVE, di_last_heartbeat := now \<rparr>) dm)"

definition DM_HandleHeartbeat :: "str \<Rightarrow> s64 \<Rightarrow> s32 \<Rightarrow> s64 \<Rightarrow> dn_manager \<Rightarrow> bool \<times> dn_manager" where
  "DM_HandleHeartbeat dn free_space block_count now dm =
     (case map_of dm dn of
        None \<Rightarrow> (False, dm)
      | Some info \<Rightarrow>
          let i1 = info\<lparr> di_last_heartbeat := now, di_free_space := free_space, di_block_count := block_count \<rparr>;
              i2 = (if di_status i1 \<noteq> ALIVE then i1\<lparr> di_status := ALIVE \<rparr> else i1)
          in (True, AList.update dn i2 dm))"

definition DM_GetAliveDataNodes ::
    "node_walk \<Rightarrow> dn_manager \<Rightarrow> datanode_info list" where
  "DM_GetAliveDataNodes ord dm = filter (\<lambda>i. di_status i = ALIVE) (map snd (ord dm))"

definition DM_GetDataNode :: "str \<Rightarrow> dn_manager \<Rightarrow> datanode_info option" where
  "DM_GetDataNode dn dm = map_of dm dn"

definition check_node :: "s64 \<Rightarrow> datanode_info \<Rightarrow> datanode_info" where
  "check_node now info =
     (let timeout_ms = kHeartbeatTimeoutSec * 1000;
          suspect_ms = (kHeartbeatTimeoutSec div 3) * 1000;
          elapsed = sint (now - di_last_heartbeat info)
      in if di_status info = DEAD then info
         else if timeout_ms < elapsed then info\<lparr> di_status := DEAD \<rparr>
         else if suspect_ms < elapsed \<and> di_status info = ALIVE then info\<lparr> di_status := SUSPECT \<rparr>
         else info)"

definition DM_CheckDataNodeHealth :: "s64 \<Rightarrow> dn_manager \<Rightarrow> dn_manager" where
  "DM_CheckDataNodeHealth now dm = map (\<lambda>(dn, info). (dn, check_node now info)) dm"

definition DM_TotalCount :: "dn_manager \<Rightarrow> nat" where
  "DM_TotalCount dm = length dm"

definition DM_AliveCount :: "dn_manager \<Rightarrow> nat" where
  "DM_AliveCount dm = length (filter (\<lambda>(_, info). di_status info = ALIVE) dm)"

text \<open>The timer never makes a node look better, and leaves everything but the status alone.\<close>

lemma check_node_worse: "di_status i \<le> di_status (check_node now i)"
  by (cases "di_status i") (simp_all add: check_node_def Let_def less_eq_dn_status_def)

lemma check_node_rest: "check_node now i = i\<lparr> di_status := di_status (check_node now i) \<rparr>"
  by (simp add: check_node_def Let_def)

end
