(* ===== verification/EditLog.thy ===== *)
theory EditLog
  imports Prelude
begin

text \<open>
  Length-prefixed messages and the edit log (\<open>src/src/namenode/namenode_edit_log.cc\<close>).  A message is
  framed by its length in four bytes, most significant first (\<open>htonl\<close>); the same frame is used on
  the wire (theory \<open>Net\<close>).  What protobuf does (\<open>SerializeToString\<close>, \<open>ParseFromString\<close>) is an argument.
\<close>

subsection \<open>The frame\<close>

definition htonl_bytes :: "u32 \<Rightarrow> str" where
  "htonl_bytes v = [ucast (drop_bit 24 v), ucast (drop_bit 16 v), ucast (drop_bit 8 v), ucast v]"

fun ntohl_bytes :: "str \<Rightarrow> u32 option" where
  "ntohl_bytes (a # b # c # d # _) =
     Some (push_bit 24 (ucast a) OR push_bit 16 (ucast b) OR push_bit 8 (ucast c) OR ucast d)"
| "ntohl_bytes _ = None"

definition frame :: "str \<Rightarrow> str" where
  "frame data = htonl_bytes (word_of_nat (length data)) @ data"

lemma length_htonl [simp]: "length (htonl_bytes v) = 4"
  by (simp add: htonl_bytes_def)

lemma ntohl_htonl [codec_simps]: "ntohl_bytes (htonl_bytes v @ r) = Some v"
proof -
  have "bit (push_bit 24 (ucast (ucast (drop_bit 24 v) :: byte) :: u32) OR push_bit 16 (ucast (ucast (drop_bit 16 v) :: byte)) OR
      push_bit 8 (ucast (ucast (drop_bit 8 v) :: byte)) OR ucast (ucast v :: byte)) n = bit v n" if "n < 32" for n
  proof -
    consider "n < 8" | "8 \<le> n \<and> n < 16" | "16 \<le> n \<and> n < 24" | "24 \<le> n \<and> n < 32" using \<open>n < 32\<close> by linarith
    then show ?thesis by cases (auto simp: bit_simps)
  qed
  then have "push_bit 24 (ucast (ucast (drop_bit 24 v) :: byte) :: u32) OR push_bit 16 (ucast (ucast (drop_bit 16 v) :: byte)) OR
      push_bit 8 (ucast (ucast (drop_bit 8 v) :: byte)) OR ucast (ucast v :: byte) = v"
    by (intro bit_word_eqI) simp
  then show ?thesis by (simp add: htonl_bytes_def)
qed

lemma ntohl_None_iff: "ntohl_bytes s = None \<longleftrightarrow> length s < 4"
  by (cases s rule: ntohl_bytes.cases) auto

lemma ntohl_take: "4 \<le> length s \<Longrightarrow> ntohl_bytes (take 4 s) = ntohl_bytes s"
  by (cases s rule: ntohl_bytes.cases) auto

text \<open>One frame off the front, or \<open>None\<close> where it is not complete.\<close>

definition unframe :: "str \<Rightarrow> (str \<times> str) option" where
  "unframe s =
     (case ntohl_bytes s of None \<Rightarrow> None
      | Some len \<Rightarrow> if length s < 4 + unat len then None
                    else Some (take (unat len) (drop 4 s), drop (4 + unat len) s))"

abbreviation frame_valid :: "str \<Rightarrow> bool" where
  "frame_valid data \<equiv> length data < 2 ^ 32"

lemma length_frame [simp]: "length (frame data) = 4 + length data"
  by (simp add: frame_def)

lemma unframe_frame: "frame_valid data \<Longrightarrow> unframe (frame data @ r) = Some (data, r)"
  by (simp add: unframe_def frame_def ntohl_htonl)

lemma unframe_torn: "frame_valid data \<Longrightarrow> n < 4 + length data \<Longrightarrow> unframe (take n (frame data)) = None"
proof -
  assume v: "frame_valid data" and n: "n < 4 + length data"
  show ?thesis
  proof (cases "n < 4")
    case True
    then have "ntohl_bytes (take n (frame data)) = None" by (simp add: ntohl_None_iff)
    then show ?thesis by (simp add: unframe_def)
  next
    case False
    then have "take n (frame data) = htonl_bytes (word_of_nat (length data)) @ take (n - 4) data" by (simp add: frame_def)
    with v n False show ?thesis by (simp add: unframe_def ntohl_htonl)
  qed
qed

interpretation fr: codec frame unframe frame_valid
proof
  show "unframe (frame x @ r) = Some (x, r)" if "frame_valid x" for x r using that by (rule unframe_frame)
  show "frame x \<noteq> []" for x by (simp add: frame_def htonl_bytes_def)
  show "unframe [] = None" by (simp add: unframe_def)
qed

subsection \<open>The edit log\<close>

record edit_log =
  el_file :: str
  el_ok :: bool

text \<open>\<open>Inl\<close> is the exception of the constructor; \<open>old\<close> is what the file held.\<close>

definition EditLog_open :: "str \<Rightarrow> str \<Rightarrow> bool \<Rightarrow> str + edit_log" where
  "EditLog_open log_path old can_open =
     (if can_open then Inr \<lparr> el_file = old, el_ok = True \<rparr>
      else Inl (lit ''Cannot open edit log: '' @ log_path))"

text \<open>\<open>wr\<close>: what the file system does with the write, as in theory \<open>Wal\<close>; a failed stream stays failed.\<close>

definition EditLog_Append :: "('op \<Rightarrow> str option) \<Rightarrow> 'op \<Rightarrow> nat option \<Rightarrow> edit_log \<Rightarrow> bool \<times> edit_log" where
  "EditLog_Append ser opr wr l =
     (case ser opr of
        None \<Rightarrow> (False, l)
      | Some data \<Rightarrow>
          let record = htonl_bytes (word_of_nat (length data)) @ data
          in if \<not> el_ok l then (False, l)
             else case wr of
                    None \<Rightarrow> (True, l\<lparr> el_file := el_file l @ record \<rparr>)
                  | Some n \<Rightarrow> (False, l\<lparr> el_file := el_file l @ take n record, el_ok := False \<rparr>))"

function EditLog_Replay_loop :: "(str \<Rightarrow> 'op option) \<Rightarrow> ('op \<Rightarrow> 's \<Rightarrow> 's) \<Rightarrow> str \<Rightarrow> 's \<Rightarrow> 's" where
  "EditLog_Replay_loop parse callback rest s =
     (let hdr = take 4 rest in
      if length hdr = 0 then s
      else if length hdr \<noteq> 4 then s
      else case ntohl_bytes hdr of
             None \<Rightarrow> s
           | Some len \<Rightarrow>
               let bytes = take (unat len) (drop 4 rest) in
               if length bytes \<noteq> unat len then s
               else EditLog_Replay_loop parse callback (drop (4 + unat len) rest)
                      (case parse bytes of None \<Rightarrow> s | Some opr \<Rightarrow> callback opr s))"
  by pat_completeness auto
termination
  by (relation "measure (\<lambda>(parse, callback, rest, s). length rest)") auto

declare EditLog_Replay_loop.simps [simp del]

definition EditLog_Replay :: "(str \<Rightarrow> 'op option) \<Rightarrow> ('op \<Rightarrow> 's \<Rightarrow> 's) \<Rightarrow> str option \<Rightarrow> 's \<Rightarrow> bool \<times> 's" where
  "EditLog_Replay parse callback log_file s =
     (case log_file of None \<Rightarrow> (True, s) | Some f \<Rightarrow> (True, EditLog_Replay_loop parse callback f s))"

definition EditLog_Close :: "edit_log \<Rightarrow> edit_log" where
  "EditLog_Close l = l\<lparr> el_ok := False \<rparr>"

text \<open>The loop reads frames until one cannot be read.\<close>

abbreviation feed :: "(str \<Rightarrow> 'op option) \<Rightarrow> ('op \<Rightarrow> 's \<Rightarrow> 's) \<Rightarrow> str \<Rightarrow> 's \<Rightarrow> 's" where
  "feed parse callback bytes s \<equiv> (case parse bytes of None \<Rightarrow> s | Some opr \<Rightarrow> callback opr s)"

lemma Replay_loop_step:
  "EditLog_Replay_loop parse callback rest s =
     (case unframe rest of None \<Rightarrow> s
      | Some (bytes, r) \<Rightarrow> EditLog_Replay_loop parse callback r (feed parse callback bytes s))"
proof (cases "length rest < 4")
  case True
  then have "unframe rest = None" by (simp add: unframe_def ntohl_None_iff [THEN iffD2])
  with True show ?thesis by (subst EditLog_Replay_loop.simps) simp
next
  case False
  then obtain len where "ntohl_bytes rest = Some len" using ntohl_None_iff [of rest] by (cases "ntohl_bytes rest") auto
  with False show ?thesis
    by (subst EditLog_Replay_loop.simps) (auto simp: unframe_def ntohl_take Let_def min_def)
qed

lemma Replay_loop_frames:
  assumes "\<forall>x \<in> set xs. frame_valid x"
  shows "EditLog_Replay_loop parse callback (concat (map frame xs) @ t) s
           = EditLog_Replay_loop parse callback t (fold (feed parse callback) xs s)"
  using assms
proof (induction xs arbitrary: s)
  case (Cons x xs)
  then show ?case by (simp add: Replay_loop_step [of _ _ "frame x @ _"] unframe_frame)
qed simp

lemma Replay_loop_end: "unframe t = None \<Longrightarrow> EditLog_Replay_loop parse callback t s = s"
  by (simp add: Replay_loop_step [of _ _ t])

text \<open>A sequence of appends.\<close>

fun EditLog_append_all :: "('op \<Rightarrow> str option) \<Rightarrow> 'op list \<Rightarrow> edit_log \<Rightarrow> edit_log" where
  "EditLog_append_all ser [] l = l"
| "EditLog_append_all ser (x # xs) l = EditLog_append_all ser xs (snd (EditLog_Append ser x None l))"

lemma append_all_file:
  assumes "\<forall>x \<in> set xs. ser x \<noteq> None" and "el_ok l"
  shows "el_file (EditLog_append_all ser xs l) = el_file l @ concat (map (frame \<circ> the \<circ> ser) xs)"
    and "el_ok (EditLog_append_all ser xs l)"
proof -
  have "el_file (EditLog_append_all ser xs l) = el_file l @ concat (map (frame \<circ> the \<circ> ser) xs) \<and> el_ok (EditLog_append_all ser xs l)"
    using assms
  proof (induction xs arbitrary: l)
    case (Cons x xs)
    then obtain b where "ser x = Some b" by auto
    with Cons show ?case by (simp add: EditLog_Append_def frame_def)
  qed simp
  then show "el_file (EditLog_append_all ser xs l) = el_file l @ concat (map (frame \<circ> the \<circ> ser) xs)"
    and "el_ok (EditLog_append_all ser xs l)" by simp_all
qed

lemma fold_feed:
  assumes "\<forall>x \<in> set xs. parse (the (ser x)) = Some x"
  shows "fold (feed parse callback) (map (the \<circ> ser) xs) s = fold callback xs s"
  using assms by (induction xs arbitrary: s) simp_all


text \<open>What is relied on of protobuf: a message is serialised to less than 4 GiB and parsed back.\<close>

definition ser_ok :: "('op \<Rightarrow> str option) \<Rightarrow> (str \<Rightarrow> 'op option) \<Rightarrow> 'op \<Rightarrow> bool" where
  "ser_ok ser parse opr \<longleftrightarrow> (\<exists>b. ser opr = Some b \<and> parse b = Some opr \<and> length b < 2 ^ 32)"

lemma Replay_appended:
  assumes "\<forall>x \<in> set xs. ser_ok ser parse x" and "unframe t = None"
  shows "snd (EditLog_Replay parse callback (Some (concat (map (frame \<circ> the \<circ> ser) xs) @ t)) s) = fold callback xs s"
proof -
  have v: "\<forall>x \<in> set (map (the \<circ> ser) xs). frame_valid x" and p: "\<forall>x \<in> set xs. parse (the (ser x)) = Some x"
    using assms(1) by (auto simp: ser_ok_def)
  have "EditLog_Replay_loop parse callback (concat (map frame (map (the \<circ> ser) xs)) @ t) s =
      fold (feed parse callback) (map (the \<circ> ser) xs) s"
    by (simp only: Replay_loop_frames [OF v] Replay_loop_end [OF assms(2)])
  also have "\<dots> = fold callback xs s" by (rule fold_feed [OF p])
  finally show ?thesis by (simp add: EditLog_Replay_def comp_assoc)
qed

lemma unframe_swallow:
  assumes "frame_valid d" and "4 \<le> n" and "n + length w < 4 + length d"
  shows "unframe (take n (frame d) @ w) = None"
proof -
  have "take n (frame d) = htonl_bytes (word_of_nat (length d)) @ take (n - 4) d" using assms(2,3) by (simp add: frame_def)
  with assms show ?thesis by (simp add: unframe_def ntohl_htonl)
qed

subsection \<open>Properties\<close>

text \<open>
  What the log gives back after a crash.  When the last append was torn after its length field and the
  log was opened again (it is opened for appending, the torn record stays), replay delivers exactly the
  records before the torn one: what was appended and acknowledged since is swallowed as the rest of the
  torn record, as long as it is shorter than what is missing there.
\<close>

theorem edit_log_torn_tail:
  assumes "\<forall>x \<in> set xs. ser_ok ser parse x" and "ser y = Some d" and "length d < 2 ^ 32" and "4 \<le> n" and "n < 4 + length d"
    and "EditLog_open path [] True = Inr l0" and "EditLog_Append ser y (Some n) (EditLog_append_all ser xs l0) = (ok, l1)"
    and "EditLog_open path (el_file l1) True = Inr l2" and "\<forall>z \<in> set zs. ser z \<noteq> None"
    and "n + length (concat (map (frame \<circ> the \<circ> ser) zs)) < 4 + length d"
  shows "snd (EditLog_Replay parse callback (Some (el_file (EditLog_append_all ser zs l2))) s) = fold callback xs s"
proof -
  have l0: "l0 = \<lparr> el_file = [], el_ok = True \<rparr>" using assms(6) by (simp add: EditLog_open_def)
  have some: "\<forall>x \<in> set xs. ser x \<noteq> None" using assms(1) by (auto simp: ser_ok_def)
  have ok0: "el_ok l0" by (simp add: l0)
  have "el_file l1 = concat (map (frame \<circ> the \<circ> ser) xs) @ take n (frame d)"
    using assms(2,7) append_all_file [OF some ok0] by (auto simp: EditLog_Append_def frame_def l0)
  then have l2: "l2 = \<lparr> el_file = concat (map (frame \<circ> the \<circ> ser) xs) @ take n (frame d), el_ok = True \<rparr>"
    using assms(8) by (simp add: EditLog_open_def)
  then have "el_file (EditLog_append_all ser zs l2) =
      concat (map (frame \<circ> the \<circ> ser) xs) @ (take n (frame d) @ concat (map (frame \<circ> the \<circ> ser) zs))"
    using append_all_file(1) [OF assms(9), of l2] by simp
  moreover have "unframe (take n (frame d) @ concat (map (frame \<circ> the \<circ> ser) zs)) = None"
    using assms(3,4,10) by (intro unframe_swallow) simp_all
  ultimately show ?thesis using Replay_appended [OF assms(1)] by simp
qed

theorem edit_log_torn_tail_witness:
  "let ser = (\<lambda>k :: nat. if k = 1 then Some [7] else if k = 2 then Some (replicate 20 0) else if k = 3 then Some [9 :: byte] else None);
       parse = (\<lambda>b. if b = [7] then Some (1 :: nat) else if b = [9] then Some 3 else None);
       l0 = \<lparr> el_file = [], el_ok = True \<rparr>;
       l1 = snd (EditLog_Append ser 2 (Some 6) (EditLog_append_all ser [1] l0));
       l2 = \<lparr> el_file = el_file l1, el_ok = True \<rparr>
   in snd (EditLog_Replay parse (#) (Some (el_file (EditLog_append_all ser [3, 3] l2))) []) = [1]"
proof -
  define ser where "ser k = (if k = 1 then Some [7] else if k = 2 then Some (replicate 20 0)
      else if k = 3 then Some [9 :: byte] else None)" for k :: nat
  define parse where "parse b = (if b = [7 :: byte] then Some (1 :: nat) else if b = [9] then Some 3 else None)" for b
  define l0 where "l0 = \<lparr> el_file = [], el_ok = True \<rparr>"
  define l1 where "l1 = snd (EditLog_Append ser 2 (Some 6) (EditLog_append_all ser [1] l0))"
  define l2 where "l2 = \<lparr> el_file = el_file l1, el_ok = True \<rparr>"
  have o: "EditLog_open [] [] True = Inr l0" "EditLog_open [] (el_file l1) True = Inr l2"
    by (simp_all add: EditLog_open_def l0_def l2_def)
  have a: "EditLog_Append ser 2 (Some 6) (EditLog_append_all ser [1] l0) =
      (fst (EditLog_Append ser 2 (Some 6) (EditLog_append_all ser [1] l0)), l1)" by (simp add: l1_def)
  have "snd (EditLog_Replay parse (#) (Some (el_file (EditLog_append_all ser [3, 3] l2))) []) = fold (#) [1] []"
    by (rule edit_log_torn_tail [OF _ _ _ _ _ o(1) a o(2), where d = "replicate 20 0"])
      (simp_all add: ser_ok_def ser_def parse_def)
  then show ?thesis by (simp add: Let_def ser_def [abs_def] parse_def [abs_def] l0_def l1_def l2_def)
qed

end
