(* ===== verification/NameNode.thy ===== *)
theory NameNode
  imports Metadata EditLog
begin

text \<open>
  The name node's request handlers (\<open>src/src/namenode/namenode_namenode_server.cc\<close>) on the stores of
  theory \<open>Metadata\<close> and the log of theory \<open>EditLog\<close>.  A request is the record protobuf parses
  (absent sub-messages read as their defaults); parsing and serialising are arguments.  Requests are
  handled one at a time: the thread pool's interleavings of handlers are not modelled.
\<close>

subsection \<open>Messages (namenode.proto)\<close>

datatype nn_op =
    CREATE_FILE | ALLOCATE_BLOCK | GET_FILE_BLOCKS | DELETE_FILE | LIST_FILES
  | REGISTER_DN | HEARTBEAT | BLOCK_REPORT | UNKNOWN_OP

record register_request =
  rg_datanode_id :: str
  rg_host :: str
  rg_port :: s32
  rg_free_space :: s64

record heartbeat_request =
  hb_datanode_id :: str
  hb_timestamp :: s64
  hb_free_space :: s64
  hb_block_count :: s64

record report_item =
  ri_block_id :: u64
  ri_size :: s64
  ri_crc32 :: u32

record report_request =
  br_datanode_id :: str
  br_blocks :: "report_item list"

record nn_request =
  rq_op :: nn_op
  rq_request_id :: u64
  rq_create_path :: str
  rq_allocate_path :: str
  rq_blocks_path :: str
  rq_delete_path :: str
  rq_list_dir :: str
  rq_register :: register_request
  rq_heartbeat :: heartbeat_request
  rq_report :: report_request

record allocate_response =
  al_success :: bool
  al_block_id :: u64
  al_datanodes :: "str list"

record block_location =
  bl_block_id :: u64
  bl_size :: s64
  bl_datanodes :: "str list"

record blocks_response =
  gb_success :: bool
  gb_path :: str
  gb_size :: s64
  gb_blocks :: "block_location list"

record file_summary =
  fs_path :: str
  fs_size :: s64
  fs_create_time :: s64
  fs_block_count :: s32

record nn_response =
  rs_request_id :: u64
  rs_success :: bool
  rs_error :: str
  rs_allocate :: "allocate_response option"
  rs_blocks :: "blocks_response option"
  rs_list :: "(bool \<times> file_summary list) option"

definition resp_new :: nn_response where
  "resp_new = \<lparr> rs_request_id = 0, rs_success = False, rs_error = [], rs_allocate = None, rs_blocks = None, rs_list = None \<rparr>"

definition resp_fail :: "str \<Rightarrow> nn_response" where
  "resp_fail msg = resp_new\<lparr> rs_success := False, rs_error := msg \<rparr>"

subsection \<open>The server\<close>

record namenode =
  nn_meta :: metadata_store
  nn_blocks :: block_manager
  nn_nodes :: dn_manager
  nn_log :: edit_log

subsection \<open>Handlers\<close>

definition HandleCreateFile :: "str \<Rightarrow> s64 \<Rightarrow> namenode \<Rightarrow> nn_response \<times> namenode" where
  "HandleCreateFile path now s =
     (let (ok, ms) = MS_CreateFile path now (nn_meta s)
      in (if \<not> ok then resp_fail (lit ''File already exists: '' @ path) else resp_new\<lparr> rs_success := True \<rparr>,
          s\<lparr> nn_meta := ms \<rparr>))"

definition HandleAllocateBlock :: "node_walk \<Rightarrow> str \<Rightarrow> s64 \<Rightarrow> namenode \<Rightarrow> nn_response \<times> namenode" where
  "HandleAllocateBlock walk path now s =
     (if MS_GetFile path (nn_meta s) = None then (resp_fail (lit ''File not found: '' @ path), s)
      else let alive_nodes = DM_GetAliveDataNodes walk (nn_nodes s) in
        if alive_nodes = [] then (resp_fail (lit ''No available DataNode''), s)
        else case AllocateBlock alive_nodes (nn_blocks s) of
               Inl e \<Rightarrow> (resp_fail e, s)
             | Inr (info, bm) \<Rightarrow>
                 let ms1 = CommitBlock info (nn_meta s);
                     ms2 = (case MS_GetFile path ms1 of None \<Rightarrow> ms1
                            | Some f \<Rightarrow> snd (MS_UpdateFile path (f\<lparr> fi_blocks := fi_blocks f @ [bi_id info] \<rparr>) now ms1))
                 in (resp_new\<lparr> rs_success := True,
                       rs_allocate := Some \<lparr> al_success = True, al_block_id = bi_id info, al_datanodes = bi_locations info \<rparr> \<rparr>,
                     s\<lparr> nn_meta := ms2, nn_blocks := bm \<rparr>))"

definition block_location_of :: "metadata_store \<Rightarrow> u64 \<Rightarrow> block_location" where
  "block_location_of ms bid =
     (case MS_GetBlock bid ms of
        None \<Rightarrow> \<lparr> bl_block_id = bid, bl_size = 0, bl_datanodes = [] \<rparr>
      | Some b \<Rightarrow> \<lparr> bl_block_id = bid, bl_size = bi_size b, bl_datanodes = bi_locations b \<rparr>)"

definition HandleGetFileBlocks :: "str \<Rightarrow> namenode \<Rightarrow> nn_response" where
  "HandleGetFileBlocks path s =
     (case MS_GetFile path (nn_meta s) of
        None \<Rightarrow> resp_fail (lit ''File not found: '' @ path)
      | Some f \<Rightarrow> resp_new\<lparr> rs_success := True,
          rs_blocks := Some \<lparr> gb_success = True, gb_path = fi_path f, gb_size = fi_size f,
                              gb_blocks = map (block_location_of (nn_meta s)) (fi_blocks f) \<rparr> \<rparr>)"

definition HandleDeleteFile :: "str \<Rightarrow> namenode \<Rightarrow> nn_response \<times> namenode" where
  "HandleDeleteFile path s =
     (case MS_GetFile path (nn_meta s) of
        None \<Rightarrow> (resp_fail (lit ''File not found: '' @ path), s)
      | Some f \<Rightarrow>
          let ms1 = fold (\<lambda>bid ms. snd (MS_DeleteBlock bid ms)) (fi_blocks f) (nn_meta s);
              ms2 = snd (MS_DeleteFile path ms1)
          in (resp_new\<lparr> rs_success := True \<rparr>, s\<lparr> nn_meta := ms2 \<rparr>))"

definition summary_of :: "file_info \<Rightarrow> file_summary" where
  "summary_of f = \<lparr> fs_path = fi_path f, fs_size = fi_size f, fs_create_time = fi_create_time f,
                    fs_block_count = word_of_nat (length (fi_blocks f)) \<rparr>"

definition HandleListFiles :: "file_walk \<Rightarrow> str \<Rightarrow> namenode \<Rightarrow> nn_response" where
  "HandleListFiles walk dir s =
     resp_new\<lparr> rs_success := True, rs_list := Some (True, map summary_of (MS_ListFiles walk dir (nn_meta s))) \<rparr>"

definition HandleRegisterDN :: "register_request \<Rightarrow> s64 \<Rightarrow> namenode \<Rightarrow> nn_response \<times> namenode" where
  "HandleRegisterDN req now s =
     (let info = \<lparr> di_id = rg_datanode_id req, di_host = rg_host req, di_port = rg_port req, di_status = ALIVE,
                   di_last_heartbeat = 0, di_free_space = rg_free_space req, di_block_count = 0 \<rparr>;
          (_, dm) = DM_RegisterDataNode info now (nn_nodes s)
      in (resp_new\<lparr> rs_success := True \<rparr>, s\<lparr> nn_nodes := dm \<rparr>))"

text \<open>\<open>block_count\<close> is narrowed from 64 to 32 bits.\<close>

definition HandleHeartbeat :: "heartbeat_request \<Rightarrow> s64 \<Rightarrow> namenode \<Rightarrow> nn_response \<times> namenode" where
  "HandleHeartbeat req now s =
     (let (ok, dm) = DM_HandleHeartbeat (hb_datanode_id req) (hb_free_space req) (ucast (hb_block_count req)) now (nn_nodes s)
      in (if ok then resp_new\<lparr> rs_success := True \<rparr>
          else resp_fail (lit ''DataNode not registered: '' @ hb_datanode_id req),
          s\<lparr> nn_nodes := dm \<rparr>))"

definition report_block :: "str \<Rightarrow> report_item \<Rightarrow> metadata_store \<Rightarrow> metadata_store" where
  "report_block dn item ms =
     (let ms1 = MS_UpdateBlockLocation (ri_block_id item) dn ms
      in case MS_GetBlock (ri_block_id item) ms1 of
           None \<Rightarrow> ms1
         | Some b \<Rightarrow> if bi_size b = 0 \<and> 0 < sint (ri_size item)
                     then snd (MS_UpdateBlock (b\<lparr> bi_size := ri_size item \<rparr>) ms1) else ms1)"

definition HandleBlockReport :: "report_request \<Rightarrow> namenode \<Rightarrow> nn_response \<times> namenode" where
  "HandleBlockReport req s =
     (resp_new\<lparr> rs_success := True \<rparr>,
      s\<lparr> nn_meta := fold (report_block (br_datanode_id req)) (br_blocks req) (nn_meta s) \<rparr>)"

subsection \<open>Dispatch\<close>

definition log_request :: "(nn_request \<Rightarrow> str option) \<Rightarrow> nn_request \<Rightarrow> nat option \<Rightarrow> namenode \<Rightarrow> namenode" where
  "log_request ser req wr s = s\<lparr> nn_log := snd (EditLog_Append ser req wr (nn_log s)) \<rparr>"

definition handle_request ::
    "file_walk \<Rightarrow> node_walk \<Rightarrow> (nn_request \<Rightarrow> str option) \<Rightarrow> s64 \<Rightarrow> nat option \<Rightarrow> nn_request \<Rightarrow> namenode \<Rightarrow>
     nn_response \<times> namenode" where
  "handle_request fwalk nwalk ser now wr req s =
     (case rq_op req of
        CREATE_FILE \<Rightarrow> let (r, s1) = HandleCreateFile (rq_create_path req) now s in (r, log_request ser req wr s1)
      | ALLOCATE_BLOCK \<Rightarrow> HandleAllocateBlock nwalk (rq_allocate_path req) now s
      | GET_FILE_BLOCKS \<Rightarrow> (HandleGetFileBlocks (rq_blocks_path req) s, s)
      | DELETE_FILE \<Rightarrow> let (r, s1) = HandleDeleteFile (rq_delete_path req) s in (r, log_request ser req wr s1)
      | LIST_FILES \<Rightarrow> (HandleListFiles fwalk (rq_list_dir req) s, s)
      | REGISTER_DN \<Rightarrow> HandleRegisterDN (rq_register req) now s
      | HEARTBEAT \<Rightarrow> HandleHeartbeat (rq_heartbeat req) now s
      | BLOCK_REPORT \<Rightarrow> HandleBlockReport (rq_report req) s
      | UNKNOWN_OP \<Rightarrow> (resp_fail (lit ''Unknown operation''), s))"

text \<open>\<open>None\<close>: the request cannot be parsed, and no answer is sent.\<close>

definition ProcessRequest ::
    "file_walk \<Rightarrow> node_walk \<Rightarrow> (nn_request \<Rightarrow> str option) \<Rightarrow> (str \<Rightarrow> nn_request option) \<Rightarrow> s64 \<Rightarrow> nat option \<Rightarrow>
     str \<Rightarrow> namenode \<Rightarrow> nn_response option \<times> namenode" where
  "ProcessRequest fwalk nwalk ser parse now wr data s =
     (case parse data of
        None \<Rightarrow> (None, s)
      | Some req \<Rightarrow>
          let (resp, s1) = handle_request fwalk nwalk ser now wr req s
          in (Some (resp\<lparr> rs_request_id := rq_request_id req \<rparr>), s1))"

subsection \<open>Start and timer\<close>

definition replay_op :: "s64 \<Rightarrow> nn_request \<Rightarrow> metadata_store \<Rightarrow> metadata_store" where
  "replay_op now req ms =
     (if rq_op req = CREATE_FILE then snd (MS_CreateFile (rq_create_path req) now ms) else ms)"

text \<open>The constructor, on the bytes of the log file (\<open>[]\<close> for none); \<open>Inl\<close> is its exception.\<close>

definition NameNodeServer_new ::
    "(str \<Rightarrow> nn_request option) \<Rightarrow> s64 \<Rightarrow> str \<Rightarrow> str \<Rightarrow> bool \<Rightarrow> str + namenode" where
  "NameNodeServer_new parse now data_dir old can_open =
     (case EditLog_open (data_dir @ lit ''/edit.log'') old can_open of
        Inl e \<Rightarrow> Inl e
      | Inr l \<Rightarrow> Inr \<lparr> nn_meta = snd (EditLog_Replay parse (replay_op now) (Some old) MetadataStore_new),
                       nn_blocks = BlockManager_new, nn_nodes = [], nn_log = l \<rparr>)"

definition health_check :: "s64 \<Rightarrow> namenode \<Rightarrow> namenode" where
  "health_check now s = s\<lparr> nn_nodes := DM_CheckDataNodeHealth now (nn_nodes s) \<rparr>"

end
