(* ===== verification/NameNodeProps.thy ===== *)
theory NameNodeProps
  imports NameNode Histories
begin

text \<open>
  The name node: the invariant of the namespace over requests, health checks and recorded replicas, where blocks are
  placed, what the edit log recovers and what a restart makes of the namespace.
\<close>

subsection \<open>The stores as maps\<close>

lemmas alist_simps = update_conv' delete_conv' distinct_update distinct_delete

lemma delete_blocks:
  "ms_files (fold (\<lambda>bid ms. snd (MS_DeleteBlock bid ms)) bs ms) = ms_files ms \<and>
   map_of (ms_blocks (fold (\<lambda>bid ms. snd (MS_DeleteBlock bid ms)) bs ms)) = (map_of (ms_blocks ms)) |` (- set bs) \<and>
   (distinct (map fst (ms_blocks ms)) \<longrightarrow> distinct (map fst (ms_blocks (fold (\<lambda>bid ms. snd (MS_DeleteBlock bid ms)) bs ms))))"
proof (induction bs arbitrary: ms)
  case Nil
  then show ?case by (simp add: restrict_map_def)
next
  case (Cons b bs)
  show ?case
    using Cons.IH [of "snd (MS_DeleteBlock b ms)"]
    by (auto simp: MS_DeleteBlock_def alist_simps restrict_map_def fun_eq_iff)
qed

text \<open>The namespace: files with their blocks, every block known and in one file only.\<close>

definition names_ok :: "u64 \<Rightarrow> (str \<rightharpoonup> file_info) \<Rightarrow> (u64 \<rightharpoonup> block_info) \<Rightarrow> bool" where
  "names_ok nxt F B \<longleftrightarrow>
     (\<forall>p f. F p = Some f \<longrightarrow> fi_path f = p \<and> distinct (fi_blocks f) \<and> (\<forall>b \<in> set (fi_blocks f). B b \<noteq> None \<and> b < nxt)) \<and>
     (\<forall>p q f g. p \<noteq> q \<longrightarrow> F p = Some f \<longrightarrow> F q = Some g \<longrightarrow> set (fi_blocks f) \<inter> set (fi_blocks g) = {})"

lemma names_okD:
  assumes "names_ok nxt F B" and "F p = Some f"
  shows "fi_path f = p" "distinct (fi_blocks f)" "b \<in> set (fi_blocks f) \<Longrightarrow> B b \<noteq> None" "b \<in> set (fi_blocks f) \<Longrightarrow> b < nxt"
  using assms unfolding names_ok_def by blast+

lemma names_ok_sep: "names_ok nxt F B \<Longrightarrow> p \<noteq> q \<Longrightarrow> F p = Some f \<Longrightarrow> F q = Some g \<Longrightarrow> set (fi_blocks f) \<inter> set (fi_blocks g) = {}"
  unfolding names_ok_def by blast

lemma names_ok_create: "names_ok nxt F B \<Longrightarrow> fi_path f = p \<Longrightarrow> fi_blocks f = [] \<Longrightarrow> names_ok nxt (F(p \<mapsto> f)) B"
  unfolding names_ok_def by (auto split: if_splits)

lemma names_ok_delete:
  assumes ok: "names_ok nxt F B" and f: "F p = Some f"
  shows "names_ok nxt (F(p := None)) (B |` (- set (fi_blocks f)))"
proof -
  have "b \<notin> set (fi_blocks f)" if "F q = Some g" "q \<noteq> p" "b \<in> set (fi_blocks g)" for q g b
    using names_ok_sep [OF ok that(2,1) f] that(3) by blast
  with ok show ?thesis unfolding names_ok_def by (auto simp: restrict_map_def split: if_splits)
qed

lemma names_ok_blocks: "names_ok nxt F B \<Longrightarrow> dom B \<subseteq> dom B' \<Longrightarrow> names_ok nxt F B'"
  unfolding names_ok_def dom_def by blast

lemma names_ok_allocate:
  assumes ok: "names_ok nxt F B" and f: "F p = Some f" and n: "nxt \<noteq> - 1"
    and f': "fi_path f' = p" "fi_blocks f' = fi_blocks f @ [nxt]"
  shows "names_ok (nxt + 1) (F(p \<mapsto> f')) (B(nxt \<mapsto> info))"
proof -
  have n1: "b < nxt \<or> b = nxt \<Longrightarrow> b < nxt + 1" for b
  proof -
    have "nxt < - 1" using n by (simp add: word_order.not_eq_extremum)
    from u64_inc [OF this] show "b < nxt \<or> b = nxt \<Longrightarrow> b < nxt + 1" by (auto simp: word_less_nat_alt)
  qed
  have fresh: "nxt \<notin> set (fi_blocks g)" if "F q = Some g" for q g
    using names_okD(4) [OF ok that, of nxt] by auto
  show ?thesis
    unfolding names_ok_def
  proof (rule conjI; intro allI impI)
    fix q g assume q: "(F(p \<mapsto> f')) q = Some g"
    show "fi_path g = q \<and> distinct (fi_blocks g) \<and> (\<forall>b \<in> set (fi_blocks g). (B(nxt \<mapsto> info)) b \<noteq> None \<and> b < nxt + 1)"
    proof (cases "q = p")
      case True
      with q have g: "g = f'" by simp
      have "(B(nxt \<mapsto> info)) b \<noteq> None \<and> b < nxt + 1" if "b \<in> set (fi_blocks g)" for b
        using that names_okD(3,4) [OF ok f, of b] n1 by (auto simp: g f'(2))
      then show ?thesis using g f' True names_okD(2) [OF ok f] fresh [OF f] by simp
    next
      case False
      with q have g: "F q = Some g" by simp
      have "(B(nxt \<mapsto> info)) b \<noteq> None \<and> b < nxt + 1" if "b \<in> set (fi_blocks g)" for b
        using names_okD(3,4) [OF ok g that] n1 by simp
      then show ?thesis using names_okD(1,2) [OF ok g] by simp
    qed
  next
    fix q r g h assume d: "q \<noteq> r" "(F(p \<mapsto> f')) q = Some g" "(F(p \<mapsto> f')) r = Some h"
    have part: "set (fi_blocks f') \<inter> set (fi_blocks g) = {}" if "F q = Some g" "q \<noteq> p" for q g
      using names_ok_sep [OF ok that(2,1) f] fresh [OF that(1)] by (auto simp: f'(2))
    consider "q = p" "g = f'" "r \<noteq> p" "F r = Some h" | "r = p" "h = f'" "q \<noteq> p" "F q = Some g"
      | "q \<noteq> p" "r \<noteq> p" "F q = Some g" "F r = Some h"
      using d by (cases "q = p"; cases "r = p") auto
    then show "set (fi_blocks g) \<inter> set (fi_blocks h) = {}"
    proof cases
      case 1
      with part show ?thesis by blast
    next
      case 2
      with part show ?thesis by blast
    next
      case 3
      with names_ok_sep [OF ok d(1)] show ?thesis by blast
    qed
  qed
qed

definition meta_ok :: "u64 \<Rightarrow> metadata_store \<Rightarrow> bool" where
  "meta_ok nxt ms \<longleftrightarrow> distinct (map fst (ms_files ms)) \<and> distinct (map fst (ms_blocks ms)) \<and>
     names_ok nxt (map_of (ms_files ms)) (map_of (ms_blocks ms))"

definition nodes_ok :: "dn_manager \<Rightarrow> bool" where
  "nodes_ok dm \<longleftrightarrow> distinct (map fst dm) \<and> (\<forall>(n, i) \<in> set dm. di_id i = n)"

definition nn_ok :: "namenode \<Rightarrow> bool" where
  "nn_ok s \<longleftrightarrow> meta_ok (bm_next_block_id (nn_blocks s)) (nn_meta s) \<and> nodes_ok (nn_nodes s)"

lemma meta_ok_new: "meta_ok nxt MetadataStore_new"
  by (simp add: meta_ok_def names_ok_def MetadataStore_new_def)

lemma meta_ok_create: "meta_ok nxt ms \<Longrightarrow> meta_ok nxt (snd (MS_CreateFile path now ms))"
  using names_ok_create [of nxt "map_of (ms_files ms)" "map_of (ms_blocks ms)" "empty_file path now" path]
  by (cases "map_of (ms_files ms) path") (simp_all add: MS_CreateFile_def meta_ok_def alist_simps empty_file_def)

lemma meta_ok_delete:
  assumes ok: "meta_ok nxt ms" and f: "MS_GetFile path ms = Some f"
  shows "meta_ok nxt (snd (MS_DeleteFile path (fold (\<lambda>bid ms. snd (MS_DeleteBlock bid ms)) (fi_blocks f) ms)))"
proof -
  have n: "names_ok nxt (map_of (ms_files ms)) (map_of (ms_blocks ms))" using ok by (simp add: meta_ok_def)
  have p: "map_of (ms_files ms) path = Some f" using f by (simp only: MS_GetFile_def)
  show ?thesis
    using ok delete_blocks [of "fi_blocks f" ms] names_ok_delete [OF n p]
    by (simp add: MS_DeleteFile_def meta_ok_def alist_simps)
qed

text \<open>A new block: committed to the block table, then appended to the file.\<close>

lemma meta_ok_allocate:
  assumes ok: "meta_ok nxt ms" and f: "MS_GetFile path ms = Some f" and b: "bi_id info = nxt" and n: "nxt \<noteq> - 1"
  shows "meta_ok (nxt + 1) (snd (MS_UpdateFile path (f\<lparr> fi_blocks := fi_blocks f @ [bi_id info] \<rparr>) now (CommitBlock info ms)))"
proof -
  have ns: "names_ok nxt (map_of (ms_files ms)) (map_of (ms_blocks ms))" using ok by (simp add: meta_ok_def)
  have p: "map_of (ms_files ms) path = Some f" using f by (simp only: MS_GetFile_def)
  define f' where "f' = f\<lparr> fi_blocks := fi_blocks f @ [bi_id info], fi_modify_time := now \<rparr>"
  have "names_ok (nxt + 1) ((map_of (ms_files ms))(path \<mapsto> f')) ((map_of (ms_blocks ms))(nxt \<mapsto> info))"
    using names_okD(1) [OF ns p] b by (intro names_ok_allocate [OF ns p n]) (simp_all add: f'_def)
  moreover have "ms_files (CommitBlock info ms) = ms_files ms" by (simp add: CommitBlock_def MS_AddBlock_def)
  then have u: "snd (MS_UpdateFile path (f\<lparr> fi_blocks := fi_blocks f @ [bi_id info] \<rparr>) now (CommitBlock info ms))
      = (CommitBlock info ms)\<lparr> ms_files := AList.update path f' (ms_files ms) \<rparr>"
    unfolding MS_UpdateFile_def by (simp only: p option.case snd_conv f'_def)
  ultimately show ?thesis
    using ok b unfolding u by (simp add: CommitBlock_def MS_AddBlock_def alist_simps meta_ok_def)
qed

lemma meta_ok_blocks:
  assumes "meta_ok nxt ms" and "ms_files ms' = ms_files ms" and "distinct (map fst (ms_blocks ms'))"
    and "dom (map_of (ms_blocks ms)) \<subseteq> dom (map_of (ms_blocks ms'))"
  shows "meta_ok nxt ms'"
  using assms(1-3) names_ok_blocks [OF _ assms(4)] by (simp add: meta_ok_def)

lemma update_location:
  obtains b where "MS_UpdateBlockLocation bid dn ms = ms\<lparr> ms_blocks := AList.update bid b (ms_blocks ms) \<rparr>"
  unfolding MS_UpdateBlockLocation_def Let_def by blast

lemma report_block_cases:
  obtains b where "report_block dn item ms = ms\<lparr> ms_blocks := AList.update (ri_block_id item) b (ms_blocks ms) \<rparr>"
    | b c d where "report_block dn item ms =
        ms\<lparr> ms_blocks := AList.update d c (AList.update (ri_block_id item) b (ms_blocks ms)) \<rparr>"
proof -
  obtain b where b: "MS_UpdateBlockLocation (ri_block_id item) dn ms =
      ms\<lparr> ms_blocks := AList.update (ri_block_id item) b (ms_blocks ms) \<rparr>" by (rule update_location)
  have "report_block dn item ms = ms\<lparr> ms_blocks := AList.update (ri_block_id item) b (ms_blocks ms) \<rparr> \<or>
     (\<exists>c d. report_block dn item ms =
        ms\<lparr> ms_blocks := AList.update d c (AList.update (ri_block_id item) b (ms_blocks ms)) \<rparr>)"
    unfolding report_block_def Let_def b MS_UpdateBlock_def by (simp split: option.split) blast
  then show thesis using that by blast
qed

lemma meta_ok_report:
  assumes ok: "meta_ok nxt ms"
  shows "meta_ok nxt (report_block dn item ms)"
proof -
  have up: "meta_ok nxt (ms\<lparr> ms_blocks := bs \<rparr>)"
    if "distinct (map fst bs)" "dom (map_of (ms_blocks ms)) \<subseteq> dom (map_of bs)" for bs
    using that by (intro meta_ok_blocks [OF ok]) simp_all
  have d: "distinct (map fst (ms_blocks ms))" using ok by (simp add: meta_ok_def)
  show ?thesis
  proof (rule report_block_cases [of dn item ms])
    fix b assume r: "report_block dn item ms = ms\<lparr> ms_blocks := AList.update (ri_block_id item) b (ms_blocks ms) \<rparr>"
    show ?thesis unfolding r by (rule up) (use d in \<open>auto simp: alist_simps simp del: map_of_eq_Some_iff\<close>)
  next
    fix b c e assume r: "report_block dn item ms = ms\<lparr> ms_blocks := AList.update e c (AList.update (ri_block_id item) b (ms_blocks ms)) \<rparr>"
    show ?thesis unfolding r by (rule up) (use d in \<open>auto simp: alist_simps simp del: map_of_eq_Some_iff\<close>)
  qed
qed

interpretation report: keeps "report_block dn" "\<lambda>_. True" "meta_ok nxt" for dn nxt
  by unfold_locales (rule meta_ok_report)

lemma meta_ok_reports: "meta_ok nxt ms \<Longrightarrow> meta_ok nxt (fold (report_block dn) items ms)"
  by (rule report.inv_history) (simp_all add: list_all_iff)

lemma set_update: "set (AList.update k v al) \<subseteq> insert (k, v) (set al)"
  by (induction al) auto

lemma nodes_ok_update: "nodes_ok dm \<Longrightarrow> di_id i = n \<Longrightarrow> nodes_ok (AList.update n i dm)"
  using set_update [of n i dm] by (auto simp: nodes_ok_def alist_simps)


subsection \<open>Where blocks go\<close>

text \<open>The nodes a block may go to.\<close>

definition usable_nodes :: "datanode_info list \<Rightarrow> datanode_info list" where
  "usable_nodes nodes = filter (\<lambda>dn. di_status dn = ALIVE \<and> kBlockSize \<le> sint (di_free_space dn)) nodes"

lemma AllocateBlock_eq:
  "AllocateBlock nodes bm =
     (if usable_nodes nodes = [] then Inl (lit ''No available DataNode to allocate block'')
      else let us = usable_nodes nodes; sz = length us; r = min sz 3; start = bm_round_robin_index bm mod sz
           in Inr (\<lparr> bi_id = bm_next_block_id bm, bi_size = 0,
                     bi_locations = map (\<lambda>i. di_id (us ! ((start + i) mod sz))) [0..<r] \<rparr>,
                   \<lparr> bm_next_block_id = bm_next_block_id bm + 1, bm_round_robin_index = (start + r) mod sz \<rparr>))"
  by (simp add: AllocateBlock_def usable_nodes_def SelectDataNodes_def kReplicationFactor_def Let_def)

lemma AllocateBlock_id:
  "AllocateBlock nodes bm = Inr (info, bm') \<Longrightarrow>
     bi_id info = bm_next_block_id bm \<and> bm_next_block_id bm' = bm_next_block_id bm + 1"
  by (auto simp: AllocateBlock_eq Let_def split: if_splits)

lemma mod_shift_inj: "(s + i) mod n = (s + j) mod n \<Longrightarrow> i < n \<Longrightarrow> j < n \<Longrightarrow> i = (j :: nat)"
proof (induction i j rule: linorder_wlog)
  case (le i j)
  from mod_eq_dvd_iff_nat [of "s + i" "s + j" n] le have "n dvd j - i" by simp
  moreover have "j - i < n" using le by simp
  ultimately have "j - i = 0" by (metis nat_dvd_not_less gr0I)
  with le(1) show ?case by simp
qed metis

subsection \<open>Requests\<close>

lemma nn_ok_allocate:
  assumes ok: "nn_ok s" and n: "unat (bm_next_block_id (nn_blocks s)) + 1 < 2 ^ 64"
    and r: "HandleAllocateBlock walk path now s = (resp, s')"
  shows "nn_ok s' \<and> unat (bm_next_block_id (nn_blocks s')) \<le> unat (bm_next_block_id (nn_blocks s)) + 1"
proof (cases "MS_GetFile path (nn_meta s) = None \<or> DM_GetAliveDataNodes walk (nn_nodes s) = []")
  case True
  with r ok show ?thesis by (auto simp: HandleAllocateBlock_def Let_def split: if_splits)
next
  case False
  then obtain f where f: "MS_GetFile path (nn_meta s) = Some f" by auto
  show ?thesis
  proof (cases "AllocateBlock (DM_GetAliveDataNodes walk (nn_nodes s)) (nn_blocks s)")
    case (Inl e)
    with r ok False f show ?thesis by (auto simp: HandleAllocateBlock_def Let_def)
  next
    case (Inr x)
    obtain info bm where x: "x = (info, bm)" by (cases x)
    note i = AllocateBlock_id [OF Inr [unfolded x]]
    have nx: "bm_next_block_id (nn_blocks s) \<noteq> - 1" "unat (bm_next_block_id (nn_blocks s) + 1) = unat (bm_next_block_id (nn_blocks s)) + 1"
      using u64_not_max n by blast+
    have g: "MS_GetFile path (CommitBlock info (nn_meta s)) = Some f"
      using f by (simp add: MS_GetFile_def CommitBlock_def MS_AddBlock_def)
    have mo: "meta_ok (bm_next_block_id (nn_blocks s)) (nn_meta s)" using ok by (simp add: nn_ok_def)
    note mo' = meta_ok_allocate [OF mo f conjunct1 [OF i] nx(1), of now]
    have "s' = s\<lparr> nn_meta := snd (MS_UpdateFile path (f\<lparr> fi_blocks := fi_blocks f @ [bi_id info] \<rparr>) now (CommitBlock info (nn_meta s))),
        nn_blocks := bm \<rparr>"
      using r False f Inr x g by (simp add: HandleAllocateBlock_def Let_def)
    with mo' ok i nx(2) show ?thesis by (simp add: nn_ok_def)
  qed
qed

lemma nn_ok_request:
  assumes ok: "nn_ok s" and n: "unat (bm_next_block_id (nn_blocks s)) + 1 < 2 ^ 64"
    and r: "handle_request fwalk nwalk ser now wr req s = (resp, s')"
  shows "nn_ok s' \<and> unat (bm_next_block_id (nn_blocks s')) \<le> unat (bm_next_block_id (nn_blocks s)) + 1"
proof -
  have mo: "meta_ok (bm_next_block_id (nn_blocks s)) (nn_meta s)" and no: "nodes_ok (nn_nodes s)" using ok by (simp_all add: nn_ok_def)
  show ?thesis
  proof (cases "rq_op req")
    case CREATE_FILE
    with r mo no meta_ok_create [OF mo, of "rq_create_path req" now] show ?thesis
      by (auto simp: handle_request_def HandleCreateFile_def log_request_def nn_ok_def split: prod.splits)
  next
    case ALLOCATE_BLOCK
    with r nn_ok_allocate [OF ok n] show ?thesis by (simp add: handle_request_def)
  next
    case DELETE_FILE
    with r mo no meta_ok_delete [OF mo, of "rq_delete_path req"] show ?thesis
      by (auto simp: handle_request_def HandleDeleteFile_def log_request_def nn_ok_def Let_def split: option.splits)
  next
    case REGISTER_DN
    with r mo no show ?thesis
      by (auto simp: handle_request_def HandleRegisterDN_def DM_RegisterDataNode_def nn_ok_def Let_def intro!: nodes_ok_update)
  next
    case HEARTBEAT
    have "di_id i = dn" if "map_of (nn_nodes s) dn = Some i" for dn i
      using no map_of_SomeD [OF that] unfolding nodes_ok_def by blast
    with HEARTBEAT r mo no show ?thesis
      by (auto simp: handle_request_def HandleHeartbeat_def DM_HandleHeartbeat_def nn_ok_def Let_def intro!: nodes_ok_update
          simp del: map_of_eq_Some_iff split: option.splits)
  next
    case BLOCK_REPORT
    with r mo no meta_ok_reports [OF mo] show ?thesis by (auto simp: handle_request_def HandleBlockReport_def nn_ok_def)
  qed (use r ok in \<open>auto simp: handle_request_def\<close>)
qed

text \<open>
  A history: requests, each with the clock and the fate of its log write; rounds of the health check, by the
  timer thread or the fault detector; and replicas a repair has recorded
  (\<open>namenode_block_replicator.cc\<close>, line 81), the only write of the background threads to the metadata.
  Each handler runs to its end before the next event.
\<close>

datatype nn_event =
    Request s64 "nat option" nn_request
  | HealthTimer s64
  | Replicated u64 str

fun nn_event_run :: "file_walk \<Rightarrow> node_walk \<Rightarrow> (nn_request \<Rightarrow> str option) \<Rightarrow> nn_event \<Rightarrow> namenode \<Rightarrow> namenode" where
  "nn_event_run fwalk nwalk ser (Request now wr req) s = snd (handle_request fwalk nwalk ser now wr req s)"
| "nn_event_run fwalk nwalk ser (HealthTimer now) s = health_check now s"
| "nn_event_run fwalk nwalk ser (Replicated bid dn) s = s\<lparr> nn_meta := MS_UpdateBlockLocation bid dn (nn_meta s) \<rparr>"

fun nn_run :: "file_walk \<Rightarrow> node_walk \<Rightarrow> (nn_request \<Rightarrow> str option) \<Rightarrow> nn_event list \<Rightarrow> namenode \<Rightarrow> namenode" where
  "nn_run fwalk nwalk ser [] s = s"
| "nn_run fwalk nwalk ser (e # es) s = nn_run fwalk nwalk ser es (nn_event_run fwalk nwalk ser e s)"

lemma meta_ok_location: "meta_ok nxt ms \<Longrightarrow> meta_ok nxt (MS_UpdateBlockLocation bid dn ms)"
proof -
  assume ok: "meta_ok nxt ms"
  obtain b where u: "MS_UpdateBlockLocation bid dn ms = ms\<lparr> ms_blocks := AList.update bid b (ms_blocks ms) \<rparr>"
    by (rule update_location)
  show ?thesis unfolding u
    by (rule meta_ok_blocks [OF ok]) (use ok in \<open>auto simp: meta_ok_def alist_simps simp del: map_of_eq_Some_iff\<close>)
qed

lemma nodes_ok_health: "nodes_ok dm \<Longrightarrow> nodes_ok (DM_CheckDataNodeHealth now dm)"
proof -
  assume "nodes_ok dm"
  moreover have "map fst (DM_CheckDataNodeHealth now dm) = map fst dm" by (simp add: DM_CheckDataNodeHealth_def case_prod_beta)
  moreover have "di_id (check_node now i) = di_id i" for i by (simp add: check_node_def Let_def)
  ultimately show ?thesis by (auto simp: nodes_ok_def) (auto simp: DM_CheckDataNodeHealth_def)
qed

lemma nn_ok_event:
  assumes "nn_ok s" and "unat (bm_next_block_id (nn_blocks s)) + 1 < 2 ^ 64"
  shows "nn_ok (nn_event_run fwalk nwalk ser e s) \<and>
    unat (bm_next_block_id (nn_blocks (nn_event_run fwalk nwalk ser e s))) \<le> unat (bm_next_block_id (nn_blocks s)) + 1"
proof (cases e)
  case (Request now wr req)
  obtain resp s1 where s1: "handle_request fwalk nwalk ser now wr req s = (resp, s1)"
    by (cases "handle_request fwalk nwalk ser now wr req s")
  from nn_ok_request [OF assms s1] show ?thesis by (simp add: Request s1)
qed (use assms meta_ok_location nodes_ok_health in \<open>simp_all add: nn_ok_def health_check_def\<close>)

lemma nn_ok_run:
  assumes "nn_ok s" and "unat (bm_next_block_id (nn_blocks s)) + length es < 2 ^ 64"
  shows "nn_ok (nn_run fwalk nwalk ser es s)"
  using assms
proof (induction es arbitrary: s)
  case (Cons e es)
  have "nn_ok (nn_event_run fwalk nwalk ser e s) \<and>
      unat (bm_next_block_id (nn_blocks (nn_event_run fwalk nwalk ser e s))) \<le> unat (bm_next_block_id (nn_blocks s)) + 1"
    using Cons.prems by (intro nn_ok_event) simp_all
  with Cons.IH [of "nn_event_run fwalk nwalk ser e s"] Cons.prems(2) show ?case by simp
qed simp


subsection \<open>What the log holds\<close>

definition logged :: "nn_request \<Rightarrow> bool" where
  "logged req \<longleftrightarrow> rq_op req = CREATE_FILE \<or> rq_op req = DELETE_FILE"

lemma handle_request_log:
  "nn_log (snd (handle_request fwalk nwalk ser now wr req s)) =
     (if logged req then snd (EditLog_Append ser req wr (nn_log s)) else nn_log s)"
proof (cases "rq_op req")
  case ALLOCATE_BLOCK
  then show ?thesis
    by (auto simp: handle_request_def logged_def HandleAllocateBlock_def Let_def split: option.split sum.split)
next
  case DELETE_FILE
  then show ?thesis
    by (auto simp: handle_request_def logged_def HandleDeleteFile_def log_request_def Let_def split: option.split)
qed (auto simp: handle_request_def logged_def HandleCreateFile_def log_request_def HandleRegisterDN_def HandleHeartbeat_def
    HandleBlockReport_def Let_def split: prod.split)

text \<open>The requests of a history, and the condition that each is serialized and its log write succeeds.\<close>

definition requests_of :: "nn_event list \<Rightarrow> nn_request list" where
  "requests_of es = List.map_filter (\<lambda>e. case e of Request _ _ req \<Rightarrow> Some req | _ \<Rightarrow> None) es"

lemma requests_of_simps [simp]:
  "requests_of [] = []" "requests_of (Request now wr req # es) = req # requests_of es"
  "requests_of (HealthTimer now # es) = requests_of es" "requests_of (Replicated bid dn # es) = requests_of es"
  by (simp_all add: requests_of_def List.map_filter_simps)

lemma nn_run_log:
  assumes "\<forall>now wr req. Request now wr req \<in> set es \<longrightarrow> wr = None \<and> ser req \<noteq> None" and "el_ok (nn_log s)"
  shows "el_file (nn_log (nn_run fwalk nwalk ser es s)) = el_file (nn_log s) @
     concat (map (frame \<circ> the \<circ> ser) (filter logged (requests_of es)))"
  using assms
proof (induction es arbitrary: s)
  case (Cons e es)
  show ?case
  proof (cases e)
    case (Request now wr req)
    then have "Request now wr req \<in> set (e # es)" by simp
    with Cons.prems(1) have "wr = None \<and> ser req \<noteq> None" by blast
    then obtain b where b: "wr = None" "ser req = Some b" by blast
    have "el_ok (snd (EditLog_Append ser req None (nn_log s)))"
      "el_file (snd (EditLog_Append ser req None (nn_log s))) = el_file (nn_log s) @ frame b"
      using b Cons.prems(2) by (simp_all add: EditLog_Append_def frame_def)
    with b Cons.IH [of "snd (handle_request fwalk nwalk ser now None req s)"] Cons.prems show ?thesis
      by (simp add: Request handle_request_log)
  next
    case (HealthTimer now)
    with Cons.IH [of "health_check now s"] Cons.prems show ?thesis by (simp add: health_check_def)
  next
    case (Replicated bid dn)
    with Cons.IH [of "s\<lparr> nn_meta := MS_UpdateBlockLocation bid dn (nn_meta s) \<rparr>"] Cons.prems show ?thesis by simp
  qed
qed simp

lemma replay_creates:
  "map_of (ms_files (fold (replay_op now) rs ms)) p =
     (case map_of (ms_files ms) p of Some f \<Rightarrow> Some f
      | None \<Rightarrow> if \<exists>r \<in> set rs. rq_op r = CREATE_FILE \<and> rq_create_path r = p then Some (empty_file p now) else None) \<and>
   ms_blocks (fold (replay_op now) rs ms) = ms_blocks ms"
proof (induction rs arbitrary: ms)
  case Nil
  then show ?case by (simp split: option.split)
next
  case (Cons r rs)
  have 1: "map_of (ms_files (replay_op now r ms)) p =
      (case map_of (ms_files ms) p of Some f \<Rightarrow> Some f
       | None \<Rightarrow> if rq_op r = CREATE_FILE \<and> rq_create_path r = p then Some (empty_file p now) else None)"
    by (auto simp: replay_op_def MS_CreateFile_def alist_simps simp del: map_of_eq_Some_iff split: option.split)
  have 2: "ms_blocks (replay_op now r ms) = ms_blocks ms" by (simp add: replay_op_def MS_CreateFile_def)
  show ?case using Cons.IH [of "replay_op now r ms"] unfolding fold_simps 1 2
    by (auto split: option.splits if_splits simp del: map_of_eq_Some_iff)
qed

lemma fresh_server:
  assumes "NameNodeServer_new parse now dir [] True = Inr s"
  shows "nn_ok s" "bm_next_block_id (nn_blocks s) = 1" "el_ok (nn_log s)" "el_file (nn_log s) = []" "ms_files (nn_meta s) = []"
proof -
  have "unframe [] = None" by (rule fr.dec_end)
  then have s: "s = \<lparr> nn_meta = MetadataStore_new, nn_blocks = BlockManager_new, nn_nodes = [], nn_log = \<lparr> el_file = [], el_ok = True \<rparr> \<rparr>"
    using assms by (simp add: NameNodeServer_new_def EditLog_open_def EditLog_Replay_def Replay_loop_end)
  show "nn_ok s" using meta_ok_new by (simp add: s nn_ok_def nodes_ok_def)
  show "bm_next_block_id (nn_blocks s) = 1" "el_ok (nn_log s)" "el_file (nn_log s) = []" "ms_files (nn_meta s) = []"
    by (simp_all add: s BlockManager_new_def MetadataStore_new_def)
qed

subsection \<open>Properties\<close>

text \<open>
  C10: the namespace stays sound.  After any history of a new name node, of requests handled one after the
  other, rounds of the health check and replicas recorded by repairs, every file knows its path, its blocks
  are different, known to the block table, in no other file and below the next block id; and the table of
  data nodes has one entry per node, under the id the entry carries.  Handlers that overlap in the thread
  pool are outside this: \<open>overlapping_handlers_break_the_namespace\<close>.
\<close>

theorem namespace_invariant:
  assumes "NameNodeServer_new parse now dir [] True = Inr s0" and "length es < 2 ^ 63"
    and "s = nn_run fwalk nwalk ser es s0"
  shows "(\<forall>p f. MS_GetFile p (nn_meta s) = Some f \<longrightarrow>
       fi_path f = p \<and> distinct (fi_blocks f) \<and> (\<forall>b \<in> set (fi_blocks f). MS_GetBlock b (nn_meta s) \<noteq> None \<and>
         b < bm_next_block_id (nn_blocks s) \<and> (\<forall>q g. MS_GetFile q (nn_meta s) = Some g \<and> b \<in> set (fi_blocks g) \<longrightarrow> q = p))) \<and>
     distinct (map fst (nn_nodes s)) \<and> (\<forall>dn i. DM_GetDataNode dn (nn_nodes s) = Some i \<longrightarrow> di_id i = dn)"
proof -
  note fs = fresh_server [OF assms(1)]
  have ok: "nn_ok s" unfolding assms(3) using fs(1,2) assms(2) by (intro nn_ok_run) simp_all
  then have ns: "names_ok (bm_next_block_id (nn_blocks s)) (map_of (ms_files (nn_meta s))) (map_of (ms_blocks (nn_meta s)))"
    by (simp add: nn_ok_def meta_ok_def)
  have each: "fi_path f = p \<and> distinct (fi_blocks f) \<and> (\<forall>b \<in> set (fi_blocks f). MS_GetBlock b (nn_meta s) \<noteq> None \<and>
      b < bm_next_block_id (nn_blocks s) \<and> (\<forall>q g. MS_GetFile q (nn_meta s) = Some g \<and> b \<in> set (fi_blocks g) \<longrightarrow> q = p))"
    if "MS_GetFile p (nn_meta s) = Some f" for p f
  proof -
    have f: "map_of (ms_files (nn_meta s)) p = Some f" using that by (simp only: MS_GetFile_def)
    have "q = p" if "map_of (ms_files (nn_meta s)) q = Some g" "b \<in> set (fi_blocks g)" "b \<in> set (fi_blocks f)" for q g b
      using names_ok_sep [OF ns _ that(1) f] that(2,3) by blast
    with names_okD [OF ns f] show ?thesis unfolding MS_GetFile_def MS_GetBlock_def by blast
  qed
  have nodes: "nodes_ok (nn_nodes s)" using ok by (simp add: nn_ok_def)
  then have "di_id i = dn" if "DM_GetDataNode dn (nn_nodes s) = Some i" for dn i
    using map_of_SomeD [of "nn_nodes s" dn i] that unfolding nodes_ok_def DM_GetDataNode_def by blast
  with each nodes show ?thesis by (auto simp: nodes_ok_def)
qed

text \<open>
  The handlers take the lock of the metadata store once per operation, so two of them can interleave in the
  thread pool.  An \<open>AllocateBlock\<close> that has read its file, then a \<open>DeleteFile\<close> and a \<open>CreateFile\<close> of the
  same path, then the \<open>UpdateFile\<close> of the first: the file lists a block that is in no block table.
\<close>

theorem overlapping_handlers_break_the_namespace:
  assumes "MS_GetFile p ms = Some f" and "b \<in> set (fi_blocks f)"
    and "deleted = snd (MS_DeleteFile p (fold (\<lambda>bid ms. snd (MS_DeleteBlock bid ms)) (fi_blocks f) (CommitBlock info ms)))"
    and "created = snd (MS_CreateFile p now deleted)"
    and "updated = snd (MS_UpdateFile p (f\<lparr> fi_blocks := fi_blocks f @ [bi_id info] \<rparr>) now created)"
  shows "\<exists>g. MS_GetFile p updated = Some g \<and> b \<in> set (fi_blocks g) \<and> MS_GetBlock b updated = None"
proof -
  have files: "ms_files (CommitBlock info ms) = ms_files ms" by (simp add: CommitBlock_def MS_AddBlock_def)
  note d = delete_blocks [of "fi_blocks f" "CommitBlock info ms"]
  have p: "map_of (ms_files deleted) p = None" "map_of (ms_blocks deleted) b = None"
    using d assms(2) by (simp_all add: assms(3) MS_DeleteFile_def alist_simps)
  then have c: "map_of (ms_files created) p = Some (empty_file p now)" "map_of (ms_blocks created) b = None"
    by (simp_all add: assms(4) MS_CreateFile_def alist_simps)
  then show ?thesis
    using assms(2) by (simp add: assms(5) MS_UpdateFile_def MS_GetFile_def MS_GetBlock_def alist_simps)
qed

text \<open>
  C25: where a block goes.  \<open>AllocateBlock\<close> throws exactly when no live node has 4 MiB free; otherwise
  it takes the next block id and \<open>min 3 n\<close> different nodes of the \<open>n\<close> usable ones, in round-robin order
  from where the last call stopped.
\<close>

theorem allocate_placement:
  assumes "distinct (map di_id nodes)" and "us = usable_nodes nodes"
  shows "case AllocateBlock nodes bm of
     Inl _ \<Rightarrow> us = []
   | Inr (b, bm') \<Rightarrow> us \<noteq> [] \<and> bi_id b = bm_next_block_id bm \<and> bm_next_block_id bm' = bm_next_block_id bm + 1 \<and>
       length (bi_locations b) = min (length us) 3 \<and> distinct (bi_locations b) \<and> set (bi_locations b) \<subseteq> di_id ` set us \<and>
       (\<forall>i < length (bi_locations b). bi_locations b ! i = di_id (us ! ((bm_round_robin_index bm + i) mod length us))) \<and>
       bm_round_robin_index bm' = (bm_round_robin_index bm + length (bi_locations b)) mod length us"
proof (cases "us = []")
  case True
  with assms(2) show ?thesis by (simp add: AllocateBlock_eq)
next
  case False
  define sz r where "sz = length us" and "r = min sz 3"
  let ?start = "bm_round_robin_index bm mod sz"
  have sz: "0 < sz" "r \<le> sz" using False by (simp_all add: sz_def r_def)
  have d: "distinct (map di_id us)"
    using assms by (simp add: usable_nodes_def distinct_map inj_on_def)
  have m: "(?start + i) mod sz = (bm_round_robin_index bm + i) mod sz" for i by (simp add: mod_simps)
  let ?ls = "map (\<lambda>i. di_id (us ! ((?start + i) mod sz))) [0..<r]"
  have a: "AllocateBlock nodes bm = Inr (\<lparr> bi_id = bm_next_block_id bm, bi_size = 0, bi_locations = ?ls \<rparr>,
      \<lparr> bm_next_block_id = bm_next_block_id bm + 1, bm_round_robin_index = (?start + r) mod sz \<rparr>)"
    using False assms(2) by (simp add: AllocateBlock_eq Let_def sz_def r_def)
  have "distinct ?ls"
    unfolding distinct_map
  proof (intro conjI inj_onI)
    fix i j assume i: "i \<in> set [0..<r]" and j: "j \<in> set [0..<r]"
      and e: "di_id (us ! ((?start + i) mod sz)) = di_id (us ! ((?start + j) mod sz))"
    have "(?start + i) mod sz < length us" "(?start + j) mod sz < length us" using sz(1) by (simp_all add: sz_def)
    with nth_eq_iff_index_eq [OF d] e have "(?start + i) mod sz = (?start + j) mod sz" by (metis length_map nth_map)
    then show "i = j" using i j sz(2) mod_shift_inj [of ?start i sz j] by simp
  qed simp
  moreover have "set ?ls \<subseteq> di_id ` set us" using sz(1) by (auto simp: sz_def)
  ultimately show ?thesis using False by (simp add: a r_def sz_def mod_add_left_eq)
qed

text \<open>
  C29: a restart brings deleted files back, empty.  When a name node that was started on an empty directory
  is started again on its edit log, its files are exactly those for which a creation was ever requested,
  also those deleted since, all without blocks; no block is known, and block ids start at 1 again,
  although data nodes still hold blocks with those ids.
\<close>

theorem restart_resurrects_files:
  assumes "NameNodeServer_new parse now dir [] True = Inr s0"
    and "\<forall>now wr req. Request now wr req \<in> set es \<longrightarrow> wr = None \<and> ser_ok ser parse req"
    and "s = nn_run fwalk nwalk ser es s0"
  shows "\<exists>s'. NameNodeServer_new parse now' dir (el_file (nn_log s)) True = Inr s' \<and>
     (\<forall>p. MS_GetFile p (nn_meta s') =
        (if \<exists>now wr req. Request now wr req \<in> set es \<and> rq_op req = CREATE_FILE \<and> rq_create_path req = p then Some (empty_file p now') else None)) \<and>
     MS_BlockCount (nn_meta s') = 0 \<and> bm_next_block_id (nn_blocks s') = 1"
proof -
  note fs = fresh_server [OF assms(1)]
  define rs where "rs = filter logged (requests_of es)"
  have req: "r \<in> set (requests_of es) \<longleftrightarrow> (\<exists>now wr. Request now wr r \<in> set es)" for r
    by (induction es) (auto simp: requests_of_def List.map_filter_simps split: nn_event.splits)
  have rs: "\<forall>r \<in> set rs. ser_ok ser parse r" using assms(2) by (auto simp: rs_def req)
  have "\<forall>now wr req. Request now wr req \<in> set es \<longrightarrow> wr = None \<and> ser req \<noteq> None" using assms(2) unfolding ser_ok_def by fast
  then have f: "el_file (nn_log s) = concat (map (frame \<circ> the \<circ> ser) rs) @ []"
    using nn_run_log [OF _ fs(3), of es ser fwalk nwalk] fs(4) by (simp add: assms(3) rs_def)
  define ms where "ms = fold (replay_op now') rs MetadataStore_new"
  have n: "NameNodeServer_new parse now' dir (el_file (nn_log s)) True =
      Inr \<lparr> nn_meta = ms, nn_blocks = BlockManager_new, nn_nodes = [], nn_log = \<lparr> el_file = el_file (nn_log s), el_ok = True \<rparr> \<rparr>"
    unfolding NameNodeServer_new_def f Replay_appended [OF rs fr.dec_end] by (simp add: EditLog_open_def ms_def)
  have "(\<exists>r \<in> set rs. rq_op r = CREATE_FILE \<and> rq_create_path r = p) \<longleftrightarrow>
      (\<exists>now wr req. Request now wr req \<in> set es \<and> rq_op req = CREATE_FILE \<and> rq_create_path req = p)" for p
    by (auto simp: rs_def logged_def req)
  with replay_creates [of now' rs MetadataStore_new] n show ?thesis
    by (simp add: ms_def MS_GetFile_def MS_BlockCount_def BlockManager_new_def MetadataStore_new_def)
qed


subsection \<open>Examples\<close>

definition blank_request :: nn_request where
  "blank_request = \<lparr> rq_op = UNKNOWN_OP, rq_request_id = 0, rq_create_path = [], rq_allocate_path = [], rq_blocks_path = [],
     rq_delete_path = [], rq_list_dir = [],
     rq_register = \<lparr> rg_datanode_id = [], rg_host = [], rg_port = 0, rg_free_space = 0 \<rparr>,
     rq_heartbeat = \<lparr> hb_datanode_id = [], hb_timestamp = 0, hb_free_space = 0, hb_block_count = 0 \<rparr>,
     rq_report = \<lparr> br_datanode_id = [], br_blocks = [] \<rparr> \<rparr>"

definition register_node :: nn_request where
  "register_node = blank_request\<lparr> rq_op := REGISTER_DN,
     rq_register := \<lparr> rg_datanode_id = [49], rg_host = [], rg_port = 1, rg_free_space = 8000000 \<rparr> \<rparr>"

definition create_file :: nn_request where
  "create_file = blank_request\<lparr> rq_op := CREATE_FILE, rq_create_path := [97] \<rparr>"

definition allocate_block :: nn_request where
  "allocate_block = blank_request\<lparr> rq_op := ALLOCATE_BLOCK, rq_allocate_path := [97] \<rparr>"

definition delete_file :: nn_request where
  "delete_file = blank_request\<lparr> rq_op := DELETE_FILE, rq_delete_path := [97] \<rparr>"

lemmas example_simps = blank_request_def register_node_def create_file_def allocate_block_def delete_file_def

theorem namespace_invariant_witness:
  "\<exists>s0 s f. NameNodeServer_new (\<lambda>_. None) 0 [] [] True = Inr s0 \<and>
     s = nn_run id id (\<lambda>_. None) [Request 0 None register_node, Request 0 None create_file, HealthTimer 3, Request 5 None allocate_block] s0 \<and>
     MS_GetFile [97] (nn_meta s) = Some f \<and> fi_blocks f = [1] \<and>
     (\<forall>b \<in> set (fi_blocks f). MS_GetBlock b (nn_meta s) \<noteq> None)"
proof -
  obtain s0 where s0: "NameNodeServer_new (\<lambda>_. None) 0 [] [] True = Inr s0"
    by (simp add: NameNodeServer_new_def EditLog_open_def)
  define es :: "nn_event list" where "es = [Request 0 None register_node, Request 0 None create_file, HealthTimer 3, Request 5 None allocate_block]"
  define s where "s = nn_run id id (\<lambda>_. None) es s0"
  have e: "s0 = \<lparr> nn_meta = MetadataStore_new, nn_blocks = BlockManager_new, nn_nodes = [], nn_log = \<lparr> el_file = [], el_ok = True \<rparr> \<rparr>"
    using s0 by (simp add: NameNodeServer_new_def EditLog_open_def EditLog_Replay_def Replay_loop_end unframe_def)
  obtain f where f: "MS_GetFile [97] (nn_meta s) = Some f" "fi_blocks f = [1]"
    unfolding s_def es_def e
    by (simp add: handle_request_def HandleRegisterDN_def DM_RegisterDataNode_def HandleCreateFile_def MS_CreateFile_def log_request_def
        EditLog_Append_def HandleAllocateBlock_def MS_GetFile_def DM_GetAliveDataNodes_def AllocateBlock_eq usable_nodes_def kBlockSize_def
        health_check_def DM_CheckDataNodeHealth_def check_node_def kHeartbeatTimeoutSec_def CommitBlock_def MS_AddBlock_def MS_UpdateFile_def MetadataStore_new_def BlockManager_new_def empty_file_def example_simps)
  have len: "length es < 2 ^ 63" by (simp add: es_def)
  from namespace_invariant [OF s0 len s_def] f s0 s_def show ?thesis unfolding es_def by blast
qed

theorem allocate_placement_witness:
  "let node = (\<lambda>i free. \<lparr> di_id = [i], di_host = [], di_port = 1, di_status = ALIVE, di_last_heartbeat = 0, di_free_space = free,
        di_block_count = 0 \<rparr>);
      nodes = [node 1 8000000, node 2 1000, node 3 8000000] in
   \<exists>b bm'. AllocateBlock nodes BlockManager_new = Inr (b, bm') \<and> bi_locations b = [[1], [3]] \<and> length (bi_locations b) = 2"
proof -
  define node where "node i free = \<lparr> di_id = [i], di_host = [], di_port = 1, di_status = ALIVE, di_last_heartbeat = 0,
      di_free_space = free, di_block_count = 0 \<rparr>" for i :: byte and free :: s64
  define nodes where "nodes = [node 1 8000000, node 2 1000, node 3 8000000]"
  have d: "distinct (map di_id nodes)" by (simp add: nodes_def node_def)
  have u: "usable_nodes nodes = [node 1 8000000, node 3 8000000]"
    by (simp add: nodes_def node_def usable_nodes_def kBlockSize_def)
  obtain b bm' where a: "AllocateBlock nodes BlockManager_new = Inr (b, bm')" by (simp add: AllocateBlock_eq u Let_def)
  have rr: "bm_round_robin_index BlockManager_new = 0" by (simp add: BlockManager_new_def)
  have "length (bi_locations b) = 2 \<and> (\<forall>i < 2. bi_locations b ! i = di_id ([node 1 8000000, node 3 8000000] ! (i mod 2)))"
    using allocate_placement [OF d refl, of BlockManager_new] by (simp add: a u rr)
  then have "bi_locations b = [[1], [3]]" "length (bi_locations b) = 2"
    by (auto simp: list_eq_iff_nth_eq less_2_cases_iff node_def)
  with a show ?thesis by (simp add: Let_def nodes_def node_def)
qed

theorem restart_resurrects_files_witness:
  "let ser = (\<lambda>r. if r = create_file then Some [1] else if r = delete_file then Some [2] else None);
       parse = (\<lambda>b. if b = [1] then Some create_file else if b = [2] then Some delete_file else None) in
   \<exists>s0 s s'. NameNodeServer_new parse 0 [] [] True = Inr s0 \<and>
     s = nn_run id id ser [Request 0 None create_file, Request 5 None delete_file] s0 \<and> MS_GetFile [97] (nn_meta s) = None \<and>
     NameNodeServer_new parse 9 [] (el_file (nn_log s)) True = Inr s' \<and> MS_GetFile [97] (nn_meta s') = Some (empty_file [97] 9)"
proof -
  define ser where "ser r = (if r = create_file then Some [1 :: byte] else if r = delete_file then Some [2] else None)" for r
  define parse where "parse b = (if b = [1 :: byte] then Some create_file else if b = [2] then Some delete_file else None)" for b
  have ne: "create_file \<noteq> delete_file" by (simp add: example_simps)
  obtain s0 where s0: "NameNodeServer_new parse 0 [] [] True = Inr s0"
    by (simp add: NameNodeServer_new_def EditLog_open_def)
  define es :: "nn_event list" where "es = [Request 0 None create_file, Request 5 None delete_file]"
  define s where "s = nn_run id id ser es s0"
  have ok: "\<forall>now wr req. Request now wr req \<in> set es \<longrightarrow> wr = None \<and> ser_ok ser parse req"
    using ne by (auto simp: es_def ser_ok_def ser_def parse_def)
  have created: "\<exists>now wr req. Request now wr req \<in> set es \<and> rq_op req = CREATE_FILE \<and> rq_create_path req = [97]"
    by (intro exI [of _ 0] exI [of _ None] exI [of _ create_file]) (simp add: es_def example_simps)
  obtain s' where s': "NameNodeServer_new parse 9 [] (el_file (nn_log s)) True = Inr s'"
    "MS_GetFile [97] (nn_meta s') = Some (empty_file [97] 9)"
    using restart_resurrects_files [OF s0 ok s_def, of 9] created by metis
  have e: "s0 = \<lparr> nn_meta = MetadataStore_new, nn_blocks = BlockManager_new, nn_nodes = [], nn_log = \<lparr> el_file = [], el_ok = True \<rparr> \<rparr>"
    using s0 by (simp add: NameNodeServer_new_def EditLog_open_def EditLog_Replay_def Replay_loop_end unframe_def)
  have "MS_GetFile [97] (nn_meta s) = None"
    unfolding s_def es_def e
    by (simp add: handle_request_def HandleCreateFile_def MS_CreateFile_def log_request_def HandleDeleteFile_def MS_GetFile_def
        MS_DeleteFile_def MetadataStore_new_def empty_file_def example_simps)
  with s0 s' show ?thesis unfolding Let_def s_def es_def ser_def parse_def by blast
qed

end
