(* ===== verification/HANameNode.thy ===== *)
theory HANameNode
  imports NameNode Raft
begin

text \<open>
  The replicated name node (\<open>src/src/namenode/namenode_ha_server.cc\<close>): the stores of theory \<open>Metadata\<close>
  as the state machine of the Raft node of theory \<open>Raft\<close>.  Creations, deletions and block allocations
  are Raft commands; what Raft does to the state machine is the list of events of the Raft node
  (\<open>Applied\<close>, \<open>Restored\<close>), which \<open>run_event\<close> hands to the callbacks the constructor installs.
\<close>

record ha_namenode =
  ha_meta :: metadata_store
  ha_blocks :: block_manager
  ha_nodes :: dn_manager
  ha_raft :: raft_node

subsection \<open>Applying committed commands\<close>

definition ApplyCreateFile :: "str \<Rightarrow> s64 \<Rightarrow> ha_namenode \<Rightarrow> ha_namenode" where
  "ApplyCreateFile path now s = s\<lparr> ha_meta := snd (MS_CreateFile path now (ha_meta s)) \<rparr>"

definition ApplyDeleteFile :: "str \<Rightarrow> ha_namenode \<Rightarrow> ha_namenode" where
  "ApplyDeleteFile path s =
     (case MS_GetFile path (ha_meta s) of
        None \<Rightarrow> s
      | Some f \<Rightarrow>
          let ms1 = fold (\<lambda>bid ms. snd (MS_DeleteBlock bid ms)) (fi_blocks f) (ha_meta s)
          in s\<lparr> ha_meta := snd (MS_DeleteFile path ms1) \<rparr>)"

definition ApplyAllocateBlock :: "node_walk \<Rightarrow> str \<Rightarrow> s64 \<Rightarrow> ha_namenode \<Rightarrow> ha_namenode" where
  "ApplyAllocateBlock walk path now s =
     (case MS_GetFile path (ha_meta s) of
        None \<Rightarrow> s
      | Some f \<Rightarrow>
          let alive_nodes = DM_GetAliveDataNodes walk (ha_nodes s) in
          if alive_nodes = [] then s
          else case AllocateBlock alive_nodes (ha_blocks s) of
                 Inl _ \<Rightarrow> s
               | Inr (block, bm) \<Rightarrow>
                   let ms1 = CommitBlock block (ha_meta s);
                       ms2 = snd (MS_UpdateFile path (f\<lparr> fi_blocks := fi_blocks f @ [bi_id block] \<rparr>) now ms1)
                   in s\<lparr> ha_meta := ms2, ha_blocks := bm \<rparr>)"

definition apply_request :: "node_walk \<Rightarrow> s64 \<Rightarrow> nn_request \<Rightarrow> ha_namenode \<Rightarrow> ha_namenode" where
  "apply_request walk now req s =
     (case rq_op req of
        CREATE_FILE \<Rightarrow> ApplyCreateFile (rq_create_path req) now s
      | DELETE_FILE \<Rightarrow> ApplyDeleteFile (rq_delete_path req) s
      | ALLOCATE_BLOCK \<Rightarrow> ApplyAllocateBlock walk (rq_allocate_path req) now s
      | _ \<Rightarrow> s)"

definition OnApplyCommitted ::
    "node_walk \<Rightarrow> (str \<Rightarrow> nn_request option) \<Rightarrow> s64 \<Rightarrow> u64 \<Rightarrow> str \<Rightarrow> ha_namenode \<Rightarrow> ha_namenode" where
  "OnApplyCommitted walk parse now index command s =
     (case parse command of None \<Rightarrow> s | Some req \<Rightarrow> apply_request walk now req s)"

subsection \<open>Snapshots\<close>

text \<open>\<open>MetadataStoreSnapshot\<close> of \<open>raft.proto\<close>; its entries have the fields of \<open>FileInfo\<close> and \<open>BlockInfo\<close>.\<close>

record meta_snapshot =
  sn_files :: "file_info list"
  sn_blocks :: "block_info list"

definition snapshot_of :: "file_walk \<Rightarrow> ha_namenode \<Rightarrow> meta_snapshot" where
  "snapshot_of walk s =
     (let files = MS_ListFiles walk [] (ha_meta s);
          blocks = concat (map (\<lambda>f. concat (map (\<lambda>bid.
                     case MS_GetBlock bid (ha_meta s) of None \<Rightarrow> [] | Some b \<Rightarrow> [b]) (fi_blocks f))) files)
      in \<lparr> sn_files = files, sn_blocks = blocks \<rparr>)"

definition TakeMetadataSnapshot :: "file_walk \<Rightarrow> (meta_snapshot \<Rightarrow> str) \<Rightarrow> ha_namenode \<Rightarrow> str" where
  "TakeMetadataSnapshot walk ser_snap s = ser_snap (snapshot_of walk s)"

text \<open>Both calls of the clock for one file are the argument \<open>now\<close>.\<close>

definition restore_file :: "s64 \<Rightarrow> file_info \<Rightarrow> metadata_store \<Rightarrow> metadata_store" where
  "restore_file now fi ms =
     (let ms1 = snd (MS_DeleteFile (fi_path fi) ms);
          ms2 = snd (MS_CreateFile (fi_path fi) now ms1)
      in snd (MS_UpdateFile (fi_path fi) fi now ms2))"

definition RestoreMetadataSnapshot ::
    "(str \<Rightarrow> meta_snapshot option) \<Rightarrow> s64 \<Rightarrow> str \<Rightarrow> ha_namenode \<Rightarrow> bool \<times> ha_namenode" where
  "RestoreMetadataSnapshot parse_snap now data s =
     (case parse_snap data of
        None \<Rightarrow> (False, s)
      | Some snap \<Rightarrow> (True, s\<lparr> ha_meta := fold (restore_file now) (sn_files snap) (fold MS_AddBlock (sn_blocks snap) (ha_meta s)) \<rparr>))"

text \<open>The callbacks Raft calls.\<close>

fun run_event ::
    "node_walk \<Rightarrow> (str \<Rightarrow> nn_request option) \<Rightarrow> (str \<Rightarrow> meta_snapshot option) \<Rightarrow> s64 \<Rightarrow> raft_event \<Rightarrow> ha_namenode \<Rightarrow> ha_namenode" where
  "run_event walk parse parse_snap now (Applied index command) s = OnApplyCommitted walk parse now index command s"
| "run_event walk parse parse_snap now (Restored data) s = snd (RestoreMetadataSnapshot parse_snap now data s)"
| "run_event walk parse parse_snap now (Sent _ _) s = s"

text \<open>A step of the Raft node: its new events are run.\<close>

definition with_raft ::
    "node_walk \<Rightarrow> (str \<Rightarrow> nn_request option) \<Rightarrow> (str \<Rightarrow> meta_snapshot option) \<Rightarrow> s64 \<Rightarrow> raft_node \<Rightarrow> ha_namenode \<Rightarrow> ha_namenode" where
  "with_raft walk parse parse_snap now raft s =
     fold (run_event walk parse parse_snap now) (drop (length (rn_events (ha_raft s))) (rn_events raft)) (s\<lparr> ha_raft := raft \<rparr>)"

subsection \<open>Start\<close>

definition HANameNodeServer_new :: "str \<Rightarrow> str list \<Rightarrow> str option \<Rightarrow> str option \<Rightarrow> ha_namenode" where
  "HANameNodeServer_new my_peer_id cluster_peers state_file snapshot_file =
     \<lparr> ha_meta = MetadataStore_new, ha_blocks = BlockManager_new, ha_nodes = [],
       ha_raft = RaftNode_new my_peer_id cluster_peers state_file snapshot_file \<rparr>"

definition HA_Start ::
    "node_walk \<Rightarrow> (str \<Rightarrow> nn_request option) \<Rightarrow> (str \<Rightarrow> meta_snapshot option) \<Rightarrow> (str \<Rightarrow> snapshot_meta option) \<Rightarrow> s64 \<Rightarrow>
     ha_namenode \<Rightarrow> ha_namenode option" where
  "HA_Start walk parse parse_snap parse_meta now s = do {
     raft \<leftarrow> Raft_Start parse_meta (ha_raft s);
     Some (with_raft walk parse parse_snap now raft s) }"

definition HA_IsLeader :: "ha_namenode \<Rightarrow> bool" where
  "HA_IsLeader s \<longleftrightarrow> rn_state (ha_raft s) = LEADER"

definition GetLogSize :: "raft_node \<Rightarrow> u64" where
  "GetLogSize n = word_of_nat (length (rn_log n)) - 1"

text \<open>One turn of the timer thread.\<close>

definition HA_health_check ::
    "file_walk \<Rightarrow> (meta_snapshot \<Rightarrow> str) \<Rightarrow> (snapshot_meta \<Rightarrow> str) \<Rightarrow> bool \<Rightarrow> s64 \<Rightarrow> ha_namenode \<Rightarrow> ha_namenode option" where
  "HA_health_check walk ser_snap ser_meta can_open now s =
     (let s1 = s\<lparr> ha_nodes := DM_CheckDataNodeHealth now (ha_nodes s) \<rparr>
      in if HA_IsLeader s1 \<and> 50 < GetLogSize (ha_raft s1) then do {
           (_, raft) \<leftarrow> TakeSnapshot ser_meta can_open (Some (TakeMetadataSnapshot walk ser_snap s1)) (ha_raft s1);
           Some (s1\<lparr> ha_raft := raft \<rparr>) }
         else Some s1)"

subsection \<open>Writes\<close>

text \<open>The answer to a committed command, read off the stores.\<close>

definition write_response :: "nn_request \<Rightarrow> metadata_store \<Rightarrow> nn_response" where
  "write_response req ms =
     (case rq_op req of
        CREATE_FILE \<Rightarrow>
          if MS_GetFile (rq_create_path req) ms \<noteq> None then resp_new\<lparr> rs_success := True \<rparr>
          else resp_fail (lit ''Failed to create file: '' @ rq_create_path req)
      | DELETE_FILE \<Rightarrow>
          if MS_GetFile (rq_delete_path req) ms = None then resp_new\<lparr> rs_success := True \<rparr>
          else resp_fail (lit ''Failed to delete file: '' @ rq_delete_path req)
      | ALLOCATE_BLOCK \<Rightarrow>
          (case MS_GetFile (rq_allocate_path req) ms of
             None \<Rightarrow> resp_fail (lit ''Block allocation failed'')
           | Some f \<Rightarrow>
               if fi_blocks f = [] then resp_fail (lit ''Block allocation failed'')
               else let last_bid = last (fi_blocks f) in
                 resp_new\<lparr> rs_success := True,
                   rs_allocate := Some \<lparr> al_success = True, al_block_id = last_bid,
                     al_datanodes = (case MS_GetBlock last_bid ms of None \<Rightarrow> [] | Some b \<Rightarrow> bi_locations b) \<rparr> \<rparr>)
      | _ \<Rightarrow> resp_fail (lit ''Unknown write operation''))"

text \<open>
  \<open>wakeups\<close> are the states of the Raft node at which the waiting proposal looks, \<open>later\<close> the commands
  other threads apply while it waits.
\<close>

definition ProposeWrite ::
    "node_walk \<Rightarrow> (nn_request \<Rightarrow> str option) \<Rightarrow> (str \<Rightarrow> nn_request option) \<Rightarrow> (str \<Rightarrow> meta_snapshot option) \<Rightarrow> rpc_cb \<Rightarrow> s64 \<Rightarrow>
     raft_node list \<Rightarrow> (u64 \<times> str) list \<Rightarrow> nn_request \<Rightarrow> ha_namenode \<Rightarrow> (nn_response \<times> ha_namenode) option" where
  "ProposeWrite walk ser parse parse_snap rpc now wakeups later req s =
     (if \<not> HA_IsLeader s then Some (resp_fail (lit ''Not leader. Leader: '' @ rn_leader_id (ha_raft s)), s)
      else case ser req of
             None \<Rightarrow> Some (resp_fail (lit ''Failed to serialize command''), s)
           | Some command \<Rightarrow> do {
               (result, raft) \<leftarrow> Propose rpc command wakeups (ha_raft s);
               let s1 = with_raft walk parse parse_snap now raft s;
               let s2 = fold (\<lambda>(i, c). OnApplyCommitted walk parse now i c) later s1;
               Some (if \<not> pr_is_leader result then resp_fail (lit ''Not leader anymore. Leader: '' @ pr_leader_id result)
                     else if \<not> pr_committed result then resp_fail (lit ''Request timed out (not committed)'')
                     else write_response req (ha_meta s2), s2) })"

subsection \<open>Reads and data nodes\<close>

definition HA_block_location :: "metadata_store \<Rightarrow> u64 \<Rightarrow> block_location" where
  "HA_block_location ms bid =
     (let bl = \<lparr> bl_block_id = bid, bl_size = 0, bl_datanodes = [] \<rparr>
      in case MS_GetBlock bid ms of None \<Rightarrow> bl | Some b \<Rightarrow> bl\<lparr> bl_size := bi_size b, bl_datanodes := bi_locations b \<rparr>)"

definition HA_HandleGetFileBlocks :: "str \<Rightarrow> ha_namenode \<Rightarrow> nn_response" where
  "HA_HandleGetFileBlocks path s =
     (case MS_GetFile path (ha_meta s) of
        None \<Rightarrow> resp_fail (lit ''File not found: '' @ path)
      | Some f \<Rightarrow> resp_new\<lparr> rs_success := True,
          rs_blocks := Some \<lparr> gb_success = True, gb_path = fi_path f, gb_size = fi_size f,
                              gb_blocks = map (HA_block_location (ha_meta s)) (fi_blocks f) \<rparr> \<rparr>)"

definition HA_HandleListFiles :: "file_walk \<Rightarrow> str \<Rightarrow> ha_namenode \<Rightarrow> nn_response" where
  "HA_HandleListFiles walk dir s =
     resp_new\<lparr> rs_success := True, rs_list := Some (True, map summary_of (MS_ListFiles walk dir (ha_meta s))) \<rparr>"

definition HA_HandleRegisterDN :: "register_request \<Rightarrow> s64 \<Rightarrow> ha_namenode \<Rightarrow> nn_response \<times> ha_namenode" where
  "HA_HandleRegisterDN req now s =
     (let dn = \<lparr> di_id = rg_datanode_id req, di_host = rg_host req, di_port = rg_port req, di_status = ALIVE,
                 di_last_heartbeat = 0, di_free_space = rg_free_space req, di_block_count = 0 \<rparr>
      in (resp_new\<lparr> rs_success := True \<rparr>, s\<lparr> ha_nodes := snd (DM_RegisterDataNode dn now (ha_nodes s)) \<rparr>))"

definition HA_HandleHeartbeat :: "heartbeat_request \<Rightarrow> s64 \<Rightarrow> ha_namenode \<Rightarrow> nn_response \<times> ha_namenode" where
  "HA_HandleHeartbeat req now s =
     (let (ok, dm) = DM_HandleHeartbeat (hb_datanode_id req) (hb_free_space req) (ucast (hb_block_count req)) now (ha_nodes s)
      in (if ok then resp_new\<lparr> rs_success := True \<rparr>
          else resp_fail (lit ''DataNode not registered: '' @ hb_datanode_id req),
          s\<lparr> ha_nodes := dm \<rparr>))"

definition HA_report_block :: "str \<Rightarrow> report_item \<Rightarrow> metadata_store \<Rightarrow> metadata_store" where
  "HA_report_block dn item ms =
     (let ms1 = MS_UpdateBlockLocation (ri_block_id item) dn ms
      in case MS_GetBlock (ri_block_id item) ms1 of
           None \<Rightarrow> ms1
         | Some b \<Rightarrow> if bi_size b = 0 \<and> 0 < sint (ri_size item)
                     then snd (MS_UpdateBlock (b\<lparr> bi_size := ri_size item \<rparr>) ms1) else ms1)"

definition HA_HandleBlockReport :: "report_request \<Rightarrow> ha_namenode \<Rightarrow> nn_response \<times> ha_namenode" where
  "HA_HandleBlockReport req s =
     (resp_new\<lparr> rs_success := True \<rparr>,
      s\<lparr> ha_meta := fold (HA_report_block (br_datanode_id req)) (br_blocks req) (ha_meta s) \<rparr>)"

definition HA_handle_request ::
    "file_walk \<Rightarrow> node_walk \<Rightarrow> (nn_request \<Rightarrow> str option) \<Rightarrow> (str \<Rightarrow> nn_request option) \<Rightarrow> (str \<Rightarrow> meta_snapshot option) \<Rightarrow> rpc_cb \<Rightarrow>
     s64 \<Rightarrow> raft_node list \<Rightarrow> (u64 \<times> str) list \<Rightarrow> nn_request \<Rightarrow> ha_namenode \<Rightarrow> (nn_response \<times> ha_namenode) option" where
  "HA_handle_request fwalk nwalk ser parse parse_snap rpc now wakeups later req s =
     (case rq_op req of
        CREATE_FILE \<Rightarrow> ProposeWrite nwalk ser parse parse_snap rpc now wakeups later req s
      | DELETE_FILE \<Rightarrow> ProposeWrite nwalk ser parse parse_snap rpc now wakeups later req s
      | ALLOCATE_BLOCK \<Rightarrow> ProposeWrite nwalk ser parse parse_snap rpc now wakeups later req s
      | GET_FILE_BLOCKS \<Rightarrow> Some (HA_HandleGetFileBlocks (rq_blocks_path req) s, s)
      | LIST_FILES \<Rightarrow> Some (HA_HandleListFiles fwalk (rq_list_dir req) s, s)
      | REGISTER_DN \<Rightarrow> Some (HA_HandleRegisterDN (rq_register req) now s)
      | HEARTBEAT \<Rightarrow> Some (HA_HandleHeartbeat (rq_heartbeat req) now s)
      | BLOCK_REPORT \<Rightarrow> Some (HA_HandleBlockReport (rq_report req) s)
      | UNKNOWN_OP \<Rightarrow> Some (resp_fail (lit ''Unknown operation''), s))"

definition ProcessClientRequest ::
    "file_walk \<Rightarrow> node_walk \<Rightarrow> (nn_request \<Rightarrow> str option) \<Rightarrow> (str \<Rightarrow> nn_request option) \<Rightarrow> (str \<Rightarrow> meta_snapshot option) \<Rightarrow> rpc_cb \<Rightarrow>
     s64 \<Rightarrow> raft_node list \<Rightarrow> (u64 \<times> str) list \<Rightarrow> str \<Rightarrow> ha_namenode \<Rightarrow> (nn_response option \<times> ha_namenode) option" where
  "ProcessClientRequest fwalk nwalk ser parse parse_snap rpc now wakeups later data s =
     (case parse data of
        None \<Rightarrow> Some (None, s)
      | Some req \<Rightarrow> do {
          (resp, s1) \<leftarrow> HA_handle_request fwalk nwalk ser parse parse_snap rpc now wakeups later req s;
          Some (Some (resp\<lparr> rs_request_id := rq_request_id req \<rparr>), s1) })"

end
