(* ===== verification/HAProps.thy ===== *)
theory HAProps
  imports HANameNode NameNodeProps RaftNode
begin

text \<open>
  The replicated name node: what a snapshot brings to a replica, on what the replicas agree, and what a
  restart loses.
\<close>

subsection \<open>Walking a map\<close>

lemma walk_distinct: "walk_ok walk \<Longrightarrow> distinct (map fst m) \<Longrightarrow> distinct (map fst (walk m))"
proof -
  assume w: "walk_ok walk" and d: "distinct (map fst m)"
  have "card (set (map fst (walk m))) = length (map fst (walk m))"
    using w d distinct_card [OF d] by (simp add: walk_ok_def)
  then show ?thesis by (rule card_distinct)
qed

lemma ListFiles_all:
  assumes w: "walk_ok walk" and ok: "meta_ok nxt ms"
  shows "distinct (map fi_path (MS_ListFiles walk [] ms))"
    and "set (MS_ListFiles walk [] ms) = {f. MS_GetFile (fi_path f) ms = Some f}"
proof -
  have d: "distinct (map fst (ms_files ms))" and ns: "names_ok nxt (map_of (ms_files ms)) (map_of (ms_blocks ms))"
    using ok by (simp_all add: meta_ok_def)
  have key: "fi_path f = p" if "(p, f) \<in> set (ms_files ms)" for p f
    using names_okD(1) [OF ns, of p f] map_of_is_SomeI [OF d that] by simp
  have l: "MS_ListFiles walk [] ms = map snd (walk (ms_files ms))"
    by (simp add: MS_ListFiles_def starts_with_def)
  have s: "set (walk (ms_files ms)) = set (ms_files ms)" using w by (simp add: walk_ok_def)
  have "map fi_path (map snd (walk (ms_files ms))) = map fst (walk (ms_files ms))"
    using key s by (auto simp: list.map_comp)
  with walk_distinct [OF w d] show "distinct (map fi_path (MS_ListFiles walk [] ms))" by (simp only: l)
  have "f \<in> snd ` set (ms_files ms) \<longleftrightarrow> map_of (ms_files ms) (fi_path f) = Some f" for f
  proof
    assume "f \<in> snd ` set (ms_files ms)"
    then obtain p where "(p, f) \<in> set (ms_files ms)" by auto
    with key [OF this] map_of_is_SomeI [OF d this] show "map_of (ms_files ms) (fi_path f) = Some f" by simp
  next
    assume "map_of (ms_files ms) (fi_path f) = Some f"
    from map_of_SomeD [OF this] show "f \<in> snd ` set (ms_files ms)" by force
  qed
  then show "set (MS_ListFiles walk [] ms) = {f. MS_GetFile (fi_path f) ms = Some f}"
    unfolding l MS_GetFile_def by (auto simp: s simp del: map_of_eq_Some_iff)
qed

subsection \<open>Restoring a snapshot\<close>

lemma restore_file_store:
  "map_of (ms_files (restore_file now f ms)) = (map_of (ms_files ms))(fi_path f \<mapsto> f\<lparr> fi_modify_time := now \<rparr>)"
  "ms_blocks (restore_file now f ms) = ms_blocks ms"
  by (simp_all add: restore_file_def MS_DeleteFile_def MS_CreateFile_def MS_UpdateFile_def alist_simps)

lemma restore_files_blocks: "ms_blocks (fold (restore_file now) fs ms) = ms_blocks ms"
  by (induction fs arbitrary: ms) (simp_all add: restore_file_store)

lemma restore_files_other:
  "p \<notin> fi_path ` set fs \<Longrightarrow> map_of (ms_files (fold (restore_file now) fs ms)) p = map_of (ms_files ms) p"
  by (induction fs arbitrary: ms) (simp_all add: restore_file_store)

lemma restore_files_in:
  "distinct (map fi_path fs) \<Longrightarrow> f \<in> set fs \<Longrightarrow>
     map_of (ms_files (fold (restore_file now) fs ms)) (fi_path f) = Some (f\<lparr> fi_modify_time := now \<rparr>)"
proof (induction fs arbitrary: ms)
  case (Cons g fs)
  show ?case
  proof (cases "f = g")
    case True
    with Cons.prems(1) have "fi_path f \<notin> fi_path ` set fs" by simp
    from restore_files_other [OF this] show ?thesis by (simp add: True restore_file_store)
  next
    case False
    with Cons show ?thesis by simp
  qed
qed simp

lemma add_blocks_store:
  "ms_files (fold MS_AddBlock bs ms) = ms_files ms"
  "map_of (ms_blocks (fold MS_AddBlock bs ms)) = map_of (ms_blocks ms) ++ map_of (rev (map (\<lambda>b. (bi_id b, b)) bs))"
  by (induction bs arbitrary: ms) (simp_all add: MS_AddBlock_def alist_simps)

text \<open>The blocks of a snapshot are those of its files.\<close>

lemma map_of_rev_agree:
  assumes "\<forall>b \<in> set bs. M (bi_id b) = Some b" and "b \<in> set bs"
  shows "map_of (rev (map (\<lambda>b. (bi_id b, b)) bs)) (bi_id b) = Some b"
proof -
  have "(bi_id b, b) \<in> set (rev (map (\<lambda>b. (bi_id b, b)) bs))" using assms(2) by simp
  from weak_map_of_SomeI [OF this] obtain c where c: "map_of (rev (map (\<lambda>b. (bi_id b, b)) bs)) (bi_id b) = Some c" by blast
  from map_of_SomeD [OF this] have "c \<in> set bs" "bi_id c = bi_id b" by auto
  with assms have "c = b" by (metis option.inject)
  with c show ?thesis by simp
qed

definition blocks_keyed :: "metadata_store \<Rightarrow> bool" where
  "blocks_keyed ms \<longleftrightarrow> (\<forall>b info. MS_GetBlock b ms = Some info \<longrightarrow> bi_id info = b)"

lemma snapshot_blocks:
  "set (concat (map (\<lambda>f. concat (map (\<lambda>bid. case MS_GetBlock bid ms of None \<Rightarrow> [] | Some b \<Rightarrow> [b]) (fi_blocks f))) fs)) =
     {b. \<exists>f \<in> set fs. \<exists>bid \<in> set (fi_blocks f). MS_GetBlock bid ms = Some b}"
proof -
  have "b \<in> set (case MS_GetBlock bid ms of None \<Rightarrow> [] | Some b \<Rightarrow> [b]) \<longleftrightarrow> MS_GetBlock bid ms = Some b" for b bid
    by (auto split: option.split)
  then show ?thesis by simp blast
qed

subsection \<open>Replicas\<close>

text \<open>
  One replica: the committed commands it applies, between them whatever its data nodes ask of it and its
  timer does.
\<close>

datatype replica_step = Committed s64 str | Local s64 nn_request | HealthCheck s64

fun local_step :: "s64 \<Rightarrow> nn_request \<Rightarrow> ha_namenode \<Rightarrow> ha_namenode" where
  "local_step now req s =
     (case rq_op req of
        REGISTER_DN \<Rightarrow> snd (HA_HandleRegisterDN (rq_register req) now s)
      | HEARTBEAT \<Rightarrow> snd (HA_HandleHeartbeat (rq_heartbeat req) now s)
      | BLOCK_REPORT \<Rightarrow> snd (HA_HandleBlockReport (rq_report req) s)
      | _ \<Rightarrow> s)"

fun replica_run :: "node_walk \<Rightarrow> (str \<Rightarrow> nn_request option) \<Rightarrow> replica_step list \<Rightarrow> ha_namenode \<Rightarrow> ha_namenode" where
  "replica_run walk parse [] s = s"
| "replica_run walk parse (Committed now c # h) s = replica_run walk parse h (OnApplyCommitted walk parse now 0 c s)"
| "replica_run walk parse (Local now req # h) s = replica_run walk parse h (local_step now req s)"
| "replica_run walk parse (HealthCheck now # h) s =
     replica_run walk parse h (s\<lparr> ha_nodes := DM_CheckDataNodeHealth now (ha_nodes s) \<rparr>)"

fun commands :: "replica_step list \<Rightarrow> str list" where
  "commands [] = []"
| "commands (Committed _ c # h) = c # commands h"
| "commands (_ # h) = commands h"

text \<open>The abstract state machine: the set of file names.\<close>

definition names_step :: "(str \<Rightarrow> nn_request option) \<Rightarrow> str \<Rightarrow> str set \<Rightarrow> str set" where
  "names_step parse c N =
     (case parse c of None \<Rightarrow> N
      | Some req \<Rightarrow> if rq_op req = CREATE_FILE then insert (rq_create_path req) N
                    else if rq_op req = DELETE_FILE then N - {rq_delete_path req} else N)"

definition file_names :: "ha_namenode \<Rightarrow> str set" where
  "file_names s = dom (map_of (ms_files (ha_meta s)))"

lemma file_names_update [simp]:
  "file_names (s\<lparr> ha_nodes := dm \<rparr>) = file_names s" "file_names (s\<lparr> ha_blocks := bm \<rparr>) = file_names s"
  by (simp_all add: file_names_def)

lemma HA_report_files: "ms_files (fold (HA_report_block dn) items ms) = ms_files ms"
proof (induction items arbitrary: ms)
  case (Cons i items)
  have "ms_files (HA_report_block dn i ms) = ms_files ms"
    by (auto simp: HA_report_block_def Let_def MS_UpdateBlockLocation_def MS_UpdateBlock_def split: option.split)
  with Cons show ?case by simp
qed simp

lemma local_step_names: "file_names (local_step now req s) = file_names s"
  by (auto simp: file_names_def HA_HandleRegisterDN_def HA_HandleHeartbeat_def HA_HandleBlockReport_def HA_report_files Let_def
      split: nn_op.split prod.split)

lemma dom_restrict: "map_of (AList.update k v al) = (map_of al)(k \<mapsto> v)"
  by (rule update_conv')

lemma create_names: "dom (map_of (ms_files (snd (MS_CreateFile p now ms)))) = insert p (dom (map_of (ms_files ms)))"
  by (cases "map_of (ms_files ms) p") (auto simp: MS_CreateFile_def alist_simps simp del: map_of_eq_Some_iff)

lemma apply_request_names:
  "file_names (apply_request walk now req s) =
     (if rq_op req = CREATE_FILE then insert (rq_create_path req) (file_names s)
      else if rq_op req = DELETE_FILE then file_names s - {rq_delete_path req} else file_names s)"
proof (cases "rq_op req")
  case CREATE_FILE
  then show ?thesis by (simp add: apply_request_def ApplyCreateFile_def file_names_def create_names)
next
  case DELETE_FILE
  show ?thesis
  proof (cases "MS_GetFile (rq_delete_path req) (ha_meta s)")
    case None
    then have "rq_delete_path req \<notin> file_names s" by (simp add: MS_GetFile_def file_names_def dom_def)
    with None DELETE_FILE show ?thesis by (simp add: apply_request_def ApplyDeleteFile_def)
  next
    case (Some f)
    with DELETE_FILE delete_blocks [of "fi_blocks f" "ha_meta s"] show ?thesis
      by (simp add: apply_request_def ApplyDeleteFile_def file_names_def MS_DeleteFile_def alist_simps)
  qed
next
  case ALLOCATE_BLOCK
  show ?thesis
  proof (cases "MS_GetFile (rq_allocate_path req) (ha_meta s)")
    case None
    with ALLOCATE_BLOCK show ?thesis by (simp add: apply_request_def ApplyAllocateBlock_def)
  next
    case (Some f)
    have f: "map_of (ms_files (ha_meta s)) (rq_allocate_path req) = Some f" using Some by (simp only: MS_GetFile_def)
    then have m: "rq_allocate_path req \<in> dom (map_of (ms_files (ha_meta s)))" by blast
    have "dom (map_of (ms_files (snd (MS_UpdateFile (rq_allocate_path req) g now (CommitBlock b (ha_meta s)))))) =
        dom (map_of (ms_files (ha_meta s)))" for g b
      using m by (simp add: MS_UpdateFile_def CommitBlock_def MS_AddBlock_def f alist_simps insert_absorb)
    with ALLOCATE_BLOCK Some show ?thesis
      by (simp add: apply_request_def ApplyAllocateBlock_def Let_def file_names_def split: sum.split)
  qed
qed (simp_all add: apply_request_def)

lemma replica_names: "file_names (replica_run walk parse h s) = fold (names_step parse) (commands h) (file_names s)"
proof (induction h arbitrary: s)
  case (Cons x h)
  show ?case
  proof (cases x)
    case (Committed now c)
    have "file_names (OnApplyCommitted walk parse now 0 c s) = names_step parse c (file_names s)"
      by (simp add: OnApplyCommitted_def names_step_def apply_request_names split: option.split)
    with Committed Cons show ?thesis by simp
  next
    case (Local now req)
    with Cons local_step_names show ?thesis by (simp del: local_step.simps)
  next
    case (HealthCheck now)
    with Cons show ?thesis by simp
  qed
qed simp


text \<open>
  The block lists of the files, and the next block id, as a state machine of their own.  A replica follows it
  as long as each allocation it applies finds a data node it can use among those it knows itself.
\<close>

definition file_blocks :: "ha_namenode \<Rightarrow> str \<rightharpoonup> u64 list" where
  "file_blocks s p = map_option fi_blocks (MS_GetFile p (ha_meta s))"

definition blocks_step :: "(str \<Rightarrow> nn_request option) \<Rightarrow> str \<Rightarrow> (str \<rightharpoonup> u64 list) \<times> u64 \<Rightarrow> (str \<rightharpoonup> u64 list) \<times> u64" where
  "blocks_step parse c x = (case x of (F, n) \<Rightarrow>
     (case parse c of None \<Rightarrow> x
      | Some req \<Rightarrow> (case rq_op req of
          CREATE_FILE \<Rightarrow> if F (rq_create_path req) = None then (F(rq_create_path req \<mapsto> []), n) else x
        | DELETE_FILE \<Rightarrow> (F(rq_delete_path req := None), n)
        | ALLOCATE_BLOCK \<Rightarrow> (case F (rq_allocate_path req) of None \<Rightarrow> x
            | Some bs \<Rightarrow> (F(rq_allocate_path req \<mapsto> bs @ [n]), n + 1))
        | _ \<Rightarrow> x)))"

fun allocates :: "(str \<Rightarrow> nn_request option) \<Rightarrow> str \<Rightarrow> bool" where
  "allocates parse c \<longleftrightarrow> (case parse c of None \<Rightarrow> False | Some req \<Rightarrow> rq_op req = ALLOCATE_BLOCK)"

fun served :: "node_walk \<Rightarrow> (str \<Rightarrow> nn_request option) \<Rightarrow> replica_step list \<Rightarrow> ha_namenode \<Rightarrow> bool" where
  "served walk parse [] s \<longleftrightarrow> True"
| "served walk parse (Committed now c # h) s \<longleftrightarrow>
     (allocates parse c \<longrightarrow> usable_nodes (DM_GetAliveDataNodes walk (ha_nodes s)) \<noteq> []) \<and>
     served walk parse h (OnApplyCommitted walk parse now 0 c s)"
| "served walk parse (Local now req # h) s \<longleftrightarrow> served walk parse h (local_step now req s)"
| "served walk parse (HealthCheck now # h) s \<longleftrightarrow> served walk parse h (s\<lparr> ha_nodes := DM_CheckDataNodeHealth now (ha_nodes s) \<rparr>)"

abbreviation blocks_view :: "ha_namenode \<Rightarrow> (str \<rightharpoonup> u64 list) \<times> u64" where
  "blocks_view s \<equiv> (file_blocks s, bm_next_block_id (ha_blocks s))"

lemma local_step_blocks: "blocks_view (local_step now req s) = blocks_view s"
  by (auto simp: file_blocks_def MS_GetFile_def fun_eq_iff HA_HandleRegisterDN_def HA_HandleHeartbeat_def HA_HandleBlockReport_def
      HA_report_files Let_def split: nn_op.split prod.split)

lemma apply_committed_blocks:
  assumes "allocates parse c \<longrightarrow> usable_nodes (DM_GetAliveDataNodes walk (ha_nodes s)) \<noteq> []"
  shows "blocks_view (OnApplyCommitted walk parse now 0 c s) = blocks_step parse c (blocks_view s)"
proof (cases "parse c")
  case None
  then show ?thesis by (simp add: OnApplyCommitted_def blocks_step_def)
next
  case (Some req)
  show ?thesis
  proof (cases "rq_op req")
    case CREATE_FILE
    with Some show ?thesis
      by (auto simp: OnApplyCommitted_def blocks_step_def apply_request_def ApplyCreateFile_def MS_CreateFile_def file_blocks_def
          MS_GetFile_def alist_simps empty_file_def fun_eq_iff simp del: map_of_eq_Some_iff split: option.split)
  next
    case DELETE_FILE
    show ?thesis
    proof (cases "MS_GetFile (rq_delete_path req) (ha_meta s)")
      case None
      with Some DELETE_FILE show ?thesis
        by (simp add: OnApplyCommitted_def blocks_step_def apply_request_def ApplyDeleteFile_def file_blocks_def fun_eq_iff)
    next
      case (Some f)
      with \<open>parse c = Some req\<close> DELETE_FILE delete_blocks [of "fi_blocks f" "ha_meta s"] show ?thesis
        by (simp add: OnApplyCommitted_def blocks_step_def apply_request_def ApplyDeleteFile_def file_blocks_def MS_DeleteFile_def
            MS_GetFile_def alist_simps fun_eq_iff del: map_of_eq_Some_iff)
    qed
  next
    case ALLOCATE_BLOCK
    define us where "us = DM_GetAliveDataNodes walk (ha_nodes s)"
    have u: "usable_nodes us \<noteq> []" using assms Some ALLOCATE_BLOCK by (simp add: us_def)
    then have us: "us \<noteq> []" by (auto simp: usable_nodes_def)
    obtain info bm where a: "AllocateBlock us (ha_blocks s) = Inr (info, bm)" using u by (simp add: AllocateBlock_eq Let_def)
    note i = AllocateBlock_id [OF a]
    have req: "parse c = Some req" by (rule Some)
    show ?thesis
    proof (cases "map_of (ms_files (ha_meta s)) (rq_allocate_path req)")
      case None
      with req ALLOCATE_BLOCK show ?thesis
        by (simp add: OnApplyCommitted_def blocks_step_def apply_request_def ApplyAllocateBlock_def file_blocks_def MS_GetFile_def)
    next
      case (Some f)
      have "OnApplyCommitted walk parse now 0 c s = s\<lparr> ha_meta := snd (MS_UpdateFile (rq_allocate_path req)
          (f\<lparr> fi_blocks := fi_blocks f @ [bi_id info] \<rparr>) now (CommitBlock info (ha_meta s))), ha_blocks := bm \<rparr>"
        using req ALLOCATE_BLOCK Some a us
        by (simp add: OnApplyCommitted_def apply_request_def ApplyAllocateBlock_def MS_GetFile_def us_def [symmetric] Let_def
            del: map_of_eq_Some_iff)
      with req ALLOCATE_BLOCK Some i show ?thesis
        by (simp add: blocks_step_def file_blocks_def MS_GetFile_def MS_UpdateFile_def CommitBlock_def MS_AddBlock_def alist_simps
            fun_eq_iff del: map_of_eq_Some_iff)
    qed
  qed (use Some in \<open>simp_all add: OnApplyCommitted_def blocks_step_def apply_request_def\<close>)
qed

lemma replica_blocks:
  "served walk parse h s \<Longrightarrow> blocks_view (replica_run walk parse h s) = fold (blocks_step parse) (commands h) (blocks_view s)"
proof (induction h arbitrary: s)
  case (Cons x h)
  show ?case
  proof (cases x)
    case (Committed now c)
    with Cons.prems have "allocates parse c \<longrightarrow> usable_nodes (DM_GetAliveDataNodes walk (ha_nodes s)) \<noteq> []"
      "served walk parse h (OnApplyCommitted walk parse now 0 c s)" by simp_all
    with Committed Cons.IH apply_committed_blocks show ?thesis by simp
  next
    case (Local now req)
    with Cons local_step_blocks show ?thesis by (simp del: local_step.simps)
  next
    case (HealthCheck now)
    with Cons show ?thesis by (simp add: file_blocks_def [abs_def])
  qed
qed simp

text \<open>The invariant of the stores of a replica.\<close>

definition ha_ok :: "ha_namenode \<Rightarrow> bool" where
  "ha_ok s \<longleftrightarrow> meta_ok (bm_next_block_id (ha_blocks s)) (ha_meta s) \<and> blocks_keyed (ha_meta s)"

lemma ha_ok_new: "ha_ok (HANameNodeServer_new n peers a b)"
  using meta_ok_new by (simp add: ha_ok_def HANameNodeServer_new_def blocks_keyed_def MetadataStore_new_def MS_GetBlock_def)

lemma keyed_update:
  "blocks_keyed ms \<Longrightarrow> bi_id c = b \<Longrightarrow> ms_blocks ms' = AList.update b c (ms_blocks ms) \<Longrightarrow> blocks_keyed ms'"
  by (simp add: blocks_keyed_def MS_GetBlock_def alist_simps)

lemma keyed_same: "blocks_keyed ms \<Longrightarrow> ms_blocks ms' = ms_blocks ms \<Longrightarrow> blocks_keyed ms'"
  by (simp add: blocks_keyed_def MS_GetBlock_def)

lemma keyed_report: "blocks_keyed ms \<Longrightarrow> blocks_keyed (report_block dn i ms)"
proof -
  assume k: "blocks_keyed ms"
  define ms1 where "ms1 = MS_UpdateBlockLocation (ri_block_id i) dn ms"
  have k1: "blocks_keyed ms1"
    unfolding ms1_def MS_UpdateBlockLocation_def Let_def by (rule keyed_update [OF k]) (auto split: option.split)
  show ?thesis
  proof (cases "MS_GetBlock (ri_block_id i) ms1")
    case None
    with k1 show ?thesis by (simp add: report_block_def ms1_def [symmetric])
  next
    case (Some b)
    have "blocks_keyed (snd (MS_UpdateBlock (b\<lparr> bi_size := ri_size i \<rparr>) ms1))"
      using k1 by (auto simp: MS_UpdateBlock_def intro!: keyed_update [OF k1, of "b\<lparr> bi_size := ri_size i \<rparr>" "bi_id b"] split: option.split)
    with Some k1 show ?thesis by (simp add: report_block_def ms1_def [symmetric])
  qed
qed

lemma HA_report_eq: "HA_report_block = report_block"
  by (intro ext) (simp add: HA_report_block_def report_block_def)

interpretation report_keyed: keeps "report_block dn" "\<lambda>_. True" blocks_keyed for dn
  by unfold_locales (rule keyed_report)

lemma keyed_reports: "blocks_keyed ms \<Longrightarrow> blocks_keyed (fold (report_block dn) is ms)"
  by (rule report_keyed.inv_history) (simp_all add: list_all_iff)

lemma ha_ok_local: "ha_ok s \<Longrightarrow> ha_ok (local_step now req s) \<and> ha_blocks (local_step now req s) = ha_blocks s"
  using meta_ok_reports keyed_reports
  by (auto simp: ha_ok_def HA_HandleRegisterDN_def HA_HandleHeartbeat_def HA_HandleBlockReport_def HA_report_eq Let_def
      split: nn_op.split prod.split)

lemma ha_ok_apply:
  assumes ok: "ha_ok s" and n: "unat (bm_next_block_id (ha_blocks s)) + 1 < 2 ^ 64"
  shows "ha_ok (apply_request walk now req s) \<and>
     unat (bm_next_block_id (ha_blocks (apply_request walk now req s))) \<le> unat (bm_next_block_id (ha_blocks s)) + 1"
proof -
  have mo: "meta_ok (bm_next_block_id (ha_blocks s)) (ha_meta s)" and ky: "blocks_keyed (ha_meta s)" using ok by (simp_all add: ha_ok_def)
  show ?thesis
  proof (cases "rq_op req")
    case CREATE_FILE
    have "blocks_keyed (snd (MS_CreateFile (rq_create_path req) now (ha_meta s)))"
      by (rule keyed_same [OF ky]) (simp add: MS_CreateFile_def)
    with CREATE_FILE meta_ok_create [OF mo] show ?thesis by (simp add: apply_request_def ApplyCreateFile_def ha_ok_def)
  next
    case DELETE_FILE
    show ?thesis
    proof (cases "MS_GetFile (rq_delete_path req) (ha_meta s)")
      case None
      with DELETE_FILE ok show ?thesis by (simp add: apply_request_def ApplyDeleteFile_def)
    next
      case (Some f)
      have "blocks_keyed (snd (MS_DeleteFile (rq_delete_path req)
          (fold (\<lambda>bid ms. snd (MS_DeleteBlock bid ms)) (fi_blocks f) (ha_meta s))))"
        using ky delete_blocks [of "fi_blocks f" "ha_meta s"]
        by (simp add: blocks_keyed_def MS_GetBlock_def MS_DeleteFile_def restrict_map_def)
      with DELETE_FILE Some meta_ok_delete [OF mo Some] show ?thesis
        by (simp add: apply_request_def ApplyDeleteFile_def ha_ok_def)
    qed
  next
    case ALLOCATE_BLOCK
    show ?thesis
    proof (cases "MS_GetFile (rq_allocate_path req) (ha_meta s) = None \<or> DM_GetAliveDataNodes walk (ha_nodes s) = []")
      case True
      with ALLOCATE_BLOCK ok show ?thesis
        by (cases "MS_GetFile (rq_allocate_path req) (ha_meta s)") (simp_all add: apply_request_def ApplyAllocateBlock_def)
    next
      case False
      then obtain f where f: "MS_GetFile (rq_allocate_path req) (ha_meta s) = Some f" by auto
      show ?thesis
      proof (cases "AllocateBlock (DM_GetAliveDataNodes walk (ha_nodes s)) (ha_blocks s)")
        case (Inl e)
        with ALLOCATE_BLOCK False f ok show ?thesis by (simp add: apply_request_def ApplyAllocateBlock_def)
      next
        case (Inr x)
        obtain info bm where x: "x = (info, bm)" by (cases x)
        note i = AllocateBlock_id [OF Inr [unfolded x]]
        have nx: "bm_next_block_id (ha_blocks s) \<noteq> - 1"
          "unat (bm_next_block_id (ha_blocks s) + 1) = unat (bm_next_block_id (ha_blocks s)) + 1"
          using u64_not_max n by blast+
        let ?ms = "snd (MS_UpdateFile (rq_allocate_path req) (f\<lparr> fi_blocks := fi_blocks f @ [bi_id info] \<rparr>) now (CommitBlock info (ha_meta s)))"
        have "ms_blocks ?ms = AList.update (bi_id info) info (ms_blocks (ha_meta s))"
          by (simp add: MS_UpdateFile_def CommitBlock_def MS_AddBlock_def split: option.split)
        from keyed_update [OF ky refl this] meta_ok_allocate [OF mo f conjunct1 [OF i] nx(1), of now] ALLOCATE_BLOCK False f Inr x i nx(2)
        show ?thesis by (simp add: apply_request_def ApplyAllocateBlock_def Let_def ha_ok_def)
      qed
    qed
  qed (use ok in \<open>simp_all add: apply_request_def\<close>)
qed

lemma ha_ok_run:
  assumes "ha_ok s" and "unat (bm_next_block_id (ha_blocks s)) + length h < 2 ^ 64"
  shows "ha_ok (replica_run walk parse h s)"
  using assms
proof (induction h arbitrary: s)
  case (Cons x h)
  show ?case
  proof (cases x)
    case (Committed now c)
    have "ha_ok (OnApplyCommitted walk parse now 0 c s) \<and>
        unat (bm_next_block_id (ha_blocks (OnApplyCommitted walk parse now 0 c s))) \<le> unat (bm_next_block_id (ha_blocks s)) + 1"
      using ha_ok_apply [OF Cons.prems(1)] Cons.prems by (simp add: OnApplyCommitted_def split: option.split)
    with Committed Cons show ?thesis by simp
  next
    case (Local now req)
    with Cons ha_ok_local [OF Cons.prems(1), of now req] show ?thesis by (simp del: local_step.simps)
  next
    case (HealthCheck now)
    with Cons show ?thesis by (simp add: ha_ok_def)
  qed
qed simp

subsection \<open>Properties\<close>

text \<open>
  C28: what a snapshot brings.  A snapshot taken on one replica and restored on another gives the second one
  every file of the first (with the time of the restore) and every block of those files; what the second
  one had besides stays, also files the first has deleted.
\<close>

theorem snapshot_restore_merges:
  assumes "walk_ok walk" and "s = replica_run nwalk parse h (HANameNodeServer_new n peers a b)" and "length h < 2 ^ 63"
    and "parse_snap (ser_snap (snapshot_of walk s)) = Some (snapshot_of walk s)"
    and "RestoreMetadataSnapshot parse_snap now (TakeMetadataSnapshot walk ser_snap s) t = (ok, t')"
  shows "ok \<and>
     (\<forall>p. MS_GetFile p (ha_meta t') = (case MS_GetFile p (ha_meta s) of
        Some f \<Rightarrow> Some (f\<lparr> fi_modify_time := now \<rparr>) | None \<Rightarrow> MS_GetFile p (ha_meta t))) \<and>
     (\<forall>p f b. MS_GetFile p (ha_meta s) = Some f \<and> b \<in> set (fi_blocks f) \<longrightarrow>
        MS_GetBlock b (ha_meta t') = MS_GetBlock b (ha_meta s) \<and> MS_GetBlock b (ha_meta s) \<noteq> None)"
proof -
  define fs where "fs = MS_ListFiles walk [] (ha_meta s)"
  define bs where "bs = concat (map (\<lambda>f. concat (map (\<lambda>bid.
      case MS_GetBlock bid (ha_meta s) of None \<Rightarrow> [] | Some b \<Rightarrow> [b]) (fi_blocks f))) fs)"
  have ok: "ha_ok s" unfolding assms(2) using assms(3) ha_ok_new by (intro ha_ok_run) (simp_all add: HANameNodeServer_new_def BlockManager_new_def)
  then have mo: "meta_ok (bm_next_block_id (ha_blocks s)) (ha_meta s)" and ky: "blocks_keyed (ha_meta s)" by (simp_all add: ha_ok_def)
  then have ns: "names_ok (bm_next_block_id (ha_blocks s)) (map_of (ms_files (ha_meta s))) (map_of (ms_blocks (ha_meta s)))"
    by (simp add: meta_ok_def)
  note fs = ListFiles_all [OF assms(1) mo, folded fs_def]
  have t': "ok" "t' = t\<lparr> ha_meta := fold (restore_file now) fs (fold MS_AddBlock bs (ha_meta t)) \<rparr>"
    using assms(4,5) by (simp_all add: RestoreMetadataSnapshot_def TakeMetadataSnapshot_def snapshot_of_def fs_def bs_def Let_def)
  have files: "map_of (ms_files (ha_meta t')) p = (case map_of (ms_files (ha_meta s)) p of
      Some f \<Rightarrow> Some (f\<lparr> fi_modify_time := now \<rparr>) | None \<Rightarrow> map_of (ms_files (ha_meta t)) p)" for p
  proof (cases "map_of (ms_files (ha_meta s)) p")
    case None
    have "p \<notin> fi_path ` set fs"
    proof
      assume "p \<in> fi_path ` set fs"
      then obtain f where "f \<in> set fs" "p = fi_path f" by blast
      with fs(2) None show False by (simp add: MS_GetFile_def)
    qed
    from restore_files_other [OF this] None show ?thesis by (simp add: t'(2) add_blocks_store)
  next
    case (Some f)
    have p: "fi_path f = p" by (rule names_okD(1) [OF ns Some])
    with Some fs(2) have "f \<in> set fs" by (simp add: MS_GetFile_def del: map_of_eq_Some_iff)
    from restore_files_in [OF fs(1) this, of now] p Some show ?thesis by (simp add: t'(2))
  qed
  have keyed: "\<forall>b \<in> set bs. map_of (ms_blocks (ha_meta s)) (bi_id b) = Some b"
    using ky by (auto simp: bs_def snapshot_blocks blocks_keyed_def MS_GetBlock_def simp del: map_of_eq_Some_iff)
  have blocks: "map_of (ms_blocks (ha_meta t')) b = map_of (ms_blocks (ha_meta s)) b" "map_of (ms_blocks (ha_meta s)) b \<noteq> None"
    if f: "map_of (ms_files (ha_meta s)) p = Some f" and b: "b \<in> set (fi_blocks f)" for p f b
  proof -
    show "map_of (ms_blocks (ha_meta s)) b \<noteq> None" by (rule names_okD(3) [OF ns f b])
    then obtain info where i: "map_of (ms_blocks (ha_meta s)) b = Some info" by blast
    have "f \<in> set fs" using fs(2) f names_okD(1) [OF ns f] by (simp add: MS_GetFile_def del: map_of_eq_Some_iff)
    moreover have "MS_GetBlock b (ha_meta s) = Some info" using i by (simp only: MS_GetBlock_def)
    ultimately have "info \<in> set bs" using b unfolding bs_def snapshot_blocks by blast
    with map_of_rev_agree [OF keyed] have r: "map_of (rev (map (\<lambda>b. (bi_id b, b)) bs)) (bi_id info) = Some info" by blast
    moreover have "bi_id info = b" using ky i by (simp add: blocks_keyed_def MS_GetBlock_def del: map_of_eq_Some_iff)
    ultimately show "map_of (ms_blocks (ha_meta t')) b = map_of (ms_blocks (ha_meta s)) b"
      by (simp add: t'(2) restore_files_blocks add_blocks_store map_add_def i del: map_of_eq_Some_iff)
  qed
  show ?thesis unfolding MS_GetFile_def MS_GetBlock_def using t'(1) files blocks by blast
qed

theorem snapshot_restore_merges_witness:
  "let parse = (\<lambda>c. if c = [1] then Some create_file else None);
       s = replica_run id parse [Committed 5 [1]] (HANameNodeServer_new [49] [] None None);
       t = (HANameNodeServer_new [50] [] None None)\<lparr> ha_meta := \<lparr> ms_files = [([98], empty_file [98] 3)], ms_blocks = [] \<rparr> \<rparr>;
       t' = snd (RestoreMetadataSnapshot (\<lambda>_. Some (snapshot_of id s)) 9 (TakeMetadataSnapshot id (\<lambda>_. [7]) s) t)
   in MS_GetFile [97] (ha_meta t') = Some ((empty_file [97] 5)\<lparr> fi_modify_time := 9 \<rparr>) \<and>
      MS_GetFile [98] (ha_meta t') = Some (empty_file [98] 3)"
proof -
  define parse where "parse c = (if c = [1 :: byte] then Some create_file else None)" for c
  define h where "h = [Committed 5 [1]]"
  define s where "s = replica_run id parse h (HANameNodeServer_new [49] [] None None)"
  define t where "t = (HANameNodeServer_new [50] [] None None)\<lparr> ha_meta := \<lparr> ms_files = [([98], empty_file [98] 3)], ms_blocks = [] \<rparr> \<rparr>"
  obtain ok t' where r: "RestoreMetadataSnapshot (\<lambda>_. Some (snapshot_of id s)) 9 (TakeMetadataSnapshot id (\<lambda>_. [7]) s) t = (ok, t')"
    by (cases "RestoreMetadataSnapshot (\<lambda>_. Some (snapshot_of id s)) 9 (TakeMetadataSnapshot id (\<lambda>_. [7]) s) t")
  have w: "walk_ok (id :: file_walk)" by (simp add: walk_ok_def)
  have len: "length h < 2 ^ 63" by (simp add: h_def)
  have g: "MS_GetFile [97] (ha_meta s) = Some (empty_file [97] 5)" "MS_GetFile [98] (ha_meta s) = None"
    "MS_GetFile [98] (ha_meta t) = Some (empty_file [98] 3)"
    by (simp_all add: s_def t_def h_def parse_def OnApplyCommitted_def apply_request_def ApplyCreateFile_def MS_CreateFile_def
        MS_GetFile_def HANameNodeServer_new_def MetadataStore_new_def example_simps)
  from snapshot_restore_merges [OF w s_def len _ r] g
  have "MS_GetFile [97] (ha_meta t') = Some ((empty_file [97] 5)\<lparr> fi_modify_time := 9 \<rparr>)" "MS_GetFile [98] (ha_meta t') = Some (empty_file [98] 3)"
    by (auto simp del: map_of_eq_Some_iff)
  with r show ?thesis unfolding Let_def s_def t_def h_def parse_def by simp
qed

text \<open>
  C15: what the replicas agree on.  Replicas that started empty and applied the same committed commands have
  files of the same names, whatever data nodes each has seen, at whatever times.  The rest of a file
  need not agree: a block is placed by the data nodes the replica itself knows.  If on both replicas
  every committed allocation found a usable data node, each file also has the same list of block ids on
  both; where the blocks lie and the times of a file can differ even then.  (Snapshots are not among the steps.)
\<close>

theorem replicas_agree_on_names_and_block_ids:
  assumes "commands h = commands h'" and "s0 = HANameNodeServer_new n peers a b" and "s0' = HANameNodeServer_new n' peers' a' b'"
    and "s = replica_run walk parse h s0" and "s' = replica_run walk' parse h' s0'"
  shows "((MS_GetFile p (ha_meta s) = None) = (MS_GetFile p (ha_meta s') = None)) \<and>
    (served walk parse h s0 \<and> served walk' parse h' s0' \<longrightarrow>
       map_option fi_blocks (MS_GetFile p (ha_meta s)) = map_option fi_blocks (MS_GetFile p (ha_meta s')))"
proof (intro conjI impI)
  have "file_names s0 = {}" "file_names s0' = {}" by (simp_all add: assms(2,3) file_names_def HANameNodeServer_new_def MetadataStore_new_def)
  then have "file_names s = file_names s'" by (simp add: assms(1,4,5) replica_names)
  then show "(MS_GetFile p (ha_meta s) = None) = (MS_GetFile p (ha_meta s') = None)"
    by (auto simp: file_names_def MS_GetFile_def simp del: map_of_eq_Some_iff)
next
  assume "served walk parse h s0 \<and> served walk' parse h' s0'"
  then have "blocks_view s = fold (blocks_step parse) (commands h) (blocks_view s0)"
    "blocks_view s' = fold (blocks_step parse) (commands h') (blocks_view s0')" unfolding assms(4,5) by (blast intro: replica_blocks)+
  moreover have "blocks_view s0 = blocks_view s0'"
    by (simp add: assms(2,3) file_blocks_def [abs_def] HANameNodeServer_new_def MetadataStore_new_def)
  ultimately have "blocks_view s = blocks_view s'" by (simp only: assms(1))
  then have "file_blocks s p = file_blocks s' p" by simp
  then show "map_option fi_blocks (MS_GetFile p (ha_meta s)) = map_option fi_blocks (MS_GetFile p (ha_meta s'))"
    by (simp only: file_blocks_def)
qed

text \<open>Two replicas with the same commands: the second knows its data node before and checks it in between.\<close>

definition some_commands :: "str \<Rightarrow> nn_request option" where
  "some_commands c = (if c = [1] then Some create_file else if c = [2] then Some allocate_block else None)"

definition one_replica :: "replica_step list" where
  "one_replica = [Committed 5 [1], Local 6 register_node, Committed 7 [2]]"

definition other_replica :: "replica_step list" where
  "other_replica = [Local 6 register_node, Committed 8 [1], HealthCheck 10, Committed 10 [2]]"

definition lonely_replica :: "replica_step list" where
  "lonely_replica = [Committed 5 [1], Committed 7 [2]]"

lemmas replica_simps = some_commands_def one_replica_def other_replica_def lonely_replica_def OnApplyCommitted_def apply_request_def
  ApplyCreateFile_def ApplyAllocateBlock_def MS_CreateFile_def MS_GetFile_def HANameNodeServer_new_def MetadataStore_new_def
  BlockManager_new_def AllocateBlock_eq usable_nodes_def kBlockSize_def HA_HandleRegisterDN_def DM_RegisterDataNode_def
  DM_GetAliveDataNodes_def DM_CheckDataNodeHealth_def check_node_def kHeartbeatTimeoutSec_def CommitBlock_def MS_AddBlock_def
  MS_UpdateFile_def empty_file_def example_simps

theorem replicas_agree_on_names_and_block_ids_witness:
  "map_option fi_blocks (MS_GetFile [97] (ha_meta (replica_run id some_commands one_replica (HANameNodeServer_new [49] [] None None)))) =
   map_option fi_blocks (MS_GetFile [97] (ha_meta (replica_run rev some_commands other_replica (HANameNodeServer_new [50] [] None None))))"
proof -
  have "commands one_replica = commands other_replica" by (simp add: one_replica_def other_replica_def)
  note agree = replicas_agree_on_names_and_block_ids [OF this refl refl refl refl]
  have "served id some_commands one_replica (HANameNodeServer_new [49] [] None None)"
    "served rev some_commands other_replica (HANameNodeServer_new [50] [] None None)"
    by (simp_all add: replica_simps Let_def)
  with agree show ?thesis by blast
qed

text \<open>Without a data node the commands are the same and the blocks of the file are not.\<close>

theorem replicas_can_disagree_on_blocks:
  "commands one_replica = commands lonely_replica \<and>
   map_option fi_blocks (MS_GetFile [97] (ha_meta (replica_run id some_commands one_replica (HANameNodeServer_new [49] [] None None)))) = Some [1] \<and>
   map_option fi_blocks (MS_GetFile [97] (ha_meta (replica_run id some_commands lonely_replica (HANameNodeServer_new [50] [] None None)))) = Some []"
  by (intro conjI) (simp_all add: replica_simps Let_def)

text \<open>
  C30: a restart forgets the files.  A replica that is started on the state its Raft node persisted, before any
  snapshot was taken, comes up with the whole log, takes every entry for applied, and has no file: none of
  the commands of the log will ever reach the stores again.
\<close>

theorem restart_forgets_files:
  assumes "rn_log m = dummy_entry # es" and "\<forall>e \<in> set es. length (le_command e) < 2 ^ 63" and "length es < 2 ^ 64"
    and "length (rn_voted_for m) < 2 ^ 63"
  shows "\<exists>s. HA_Start walk parse parse_snap parse_meta now (HANameNodeServer_new n peers (Some (state_bytes m)) None) = Some s \<and>
     rn_log (ha_raft s) = rn_log m \<and> rn_last_applied (ha_raft s) = le_index (last (rn_log m)) \<and>
     (\<forall>p. MS_GetFile p (ha_meta s) = None)"
proof -
  define n0 where "n0 = RaftNode_new n peers (Some (state_bytes m)) None"
  define n1 where "n1 = n0\<lparr> rn_current_term := rn_current_term m, rn_voted_for := rn_voted_for m, rn_log := rn_log m,
      rn_commit_index := le_index (last (rn_log m)), rn_last_applied := le_index (last (rn_log m)) \<rparr>"
  have "RestoreState n0 = Some n1"
    unfolding n1_def by (rule RestoreState_bytes [OF _ assms(4,1,2,3)]) (simp_all add: n0_def RaftNode_new_def)
  moreover have "RestoreFromSnapshot parse_meta n1 = Some (True, n1)"
    by (simp add: RestoreFromSnapshot_def n1_def n0_def RaftNode_new_def)
  ultimately have st: "Raft_Start parse_meta n0 = Some (BecomeFollower (rn_current_term n1) n1)" by (simp add: Raft_Start_def)
  have ev: "rn_events (BecomeFollower (rn_current_term n1) n1) = []" "rn_log (BecomeFollower (rn_current_term n1) n1) = rn_log m"
    "rn_last_applied (BecomeFollower (rn_current_term n1) n1) = le_index (last (rn_log m))"
    by (simp_all add: BecomeFollower_def n1_def n0_def RaftNode_new_def)
  show ?thesis
    using st ev
    by (simp add: HA_Start_def HANameNodeServer_new_def n0_def [symmetric] with_raft_def MetadataStore_new_def MS_GetFile_def)
qed

theorem restart_forgets_files_witness:
  "\<exists>s. HA_Start id (\<lambda>_. Some create_file) (\<lambda>_. None) (\<lambda>_. None) 9 (HANameNodeServer_new [97] []
       (Some (state_bytes ((RaftNode_new [97] [] None None)\<lparr>
          rn_log := [dummy_entry, \<lparr> le_term = 1, le_index = 1, le_command = [1] \<rparr>] \<rparr>))) None) = Some s \<and>
     rn_last_applied (ha_raft s) = 1 \<and> MS_GetFile [97] (ha_meta s) = None"
proof -
  define m where "m = (RaftNode_new [97] [] None None)\<lparr> rn_log := [dummy_entry, \<lparr> le_term = 1, le_index = 1, le_command = [1] \<rparr>] \<rparr>"
  have "rn_log m = dummy_entry # [\<lparr> le_term = 1, le_index = 1, le_command = [1] \<rparr>]" by (simp add: m_def)
  from restart_forgets_files [OF this, of id "\<lambda>_. Some create_file" "\<lambda>_. None" "\<lambda>_. None" 9 "[97]" "[]"]
  show ?thesis by (auto simp: m_def RaftNode_new_def)
qed

text \<open>
  An allocation that found no data node is answered with the last block the file already has, as a success.
\<close>

lemma failed_allocation_returns_old_block:
  assumes "HA_IsLeader s" and "ser req = Some command" and "parse command = Some req" and "rq_op req = ALLOCATE_BLOCK"
    and "MS_GetFile (rq_allocate_path req) (ha_meta s) = Some f" and "fi_blocks f \<noteq> []"
    and "DM_GetAliveDataNodes walk (ha_nodes s) = []"
    and "Propose rpc command wakeups (ha_raft s) = Some (result, raft)" and "pr_is_leader result" and "pr_committed result"
    and "\<forall>e \<in> set (drop (length (rn_events (ha_raft s))) (rn_events raft)). \<exists>i peer msg. e = Applied i command \<or> e = Sent peer msg"
    and "ProposeWrite walk ser parse parse_snap rpc now wakeups [] req s = Some (resp, s')"
  shows "rs_success resp \<and> ha_meta s' = ha_meta s \<and> map_option al_block_id (rs_allocate resp) = Some (last (fi_blocks f))"
proof -
  have "OnApplyCommitted walk parse now i command u = u" if "ha_meta u = ha_meta s" "ha_nodes u = ha_nodes s" for i u
    using assms(3-5,7) that by (simp add: OnApplyCommitted_def apply_request_def ApplyAllocateBlock_def)
  then have "fold (run_event walk parse parse_snap now) es u = u"
    if "\<forall>e \<in> set es. \<exists>i peer msg. e = Applied i command \<or> e = Sent peer msg" "ha_meta u = ha_meta s" "ha_nodes u = ha_nodes s" for es u
    using that by (induction es arbitrary: u) auto
  from this [OF assms(11)] have w: "with_raft walk parse parse_snap now raft s = s\<lparr> ha_raft := raft \<rparr>" by (simp add: with_raft_def)
  show ?thesis using assms(1,2,4-6,8-10,12) by (auto simp: ProposeWrite_def write_response_def Let_def w)
qed

end
