(* ===== verification/HASnapshot.thy ===== *)
theory HASnapshot
  imports HAProps RaftReplication
begin

text \<open>
  The replicated name node after its health check has compacted the Raft log: what \<open>HA_health_check\<close>,
  \<open>TakeSnapshot\<close>, \<open>Propose\<close> and \<open>ProposeWrite\<close> together do to the writes of clients.
\<close>

subsection \<open>Proposals below the commit index\<close>

text \<open>The next index of the log is at most the commit index: what is appended there counts as committed.\<close>

definition stale :: "nat \<Rightarrow> raft_node \<Rightarrow> bool" where
  "stale k n \<longleftrightarrow> rn_state n = LEADER \<and> rn_log n \<noteq> [] \<and> unat (le_index (last (rn_log n))) + k \<le> unat (rn_commit_index n)"

lemma heartbeats_sent:
  "heartbeat_loop record_rpc ps n = Some n' \<Longrightarrow> \<exists>es. rn_events n' = rn_events n @ es \<and> (\<forall>e\<in>set es. \<exists>p m. e = Sent p m)"
proof (induction ps arbitrary: n)
  case (Cons p ps)
  show ?case
  proof (cases "p = rn_my_id n")
    case True
    with Cons show ?thesis by simp
  next
    case False
    obtain v m where vm: "next_index_at p n = (v, m)" by (cases "next_index_at p n")
    then have "rn_events m = rn_events n" by (auto simp: next_index_at_def split: option.splits)
    moreover have "heartbeat_loop record_rpc ps (m\<lparr> rn_events := rn_events m @ [Sent p (APPEND_ENTRIES (heartbeat_request v m))] \<rparr>) = Some n'"
      using Cons.prems False vm record_rpc_def [of p "APPEND_ENTRIES (heartbeat_request v m)" m] by simp
    ultimately show ?thesis using Cons.IH by fastforce
  qed
qed simp

lemma stale_proposal:
  assumes "stale (Suc k) n"
  shows "\<exists>i n' es. Propose record_rpc command wakeups n = Some (\<lparr> pr_index = Some i, pr_committed = True, pr_is_leader = True, pr_leader_id = [] \<rparr>, n') \<and>
    stale k n' \<and> rn_events n' = rn_events n @ es \<and> (\<forall>e\<in>set es. \<exists>p m. e = Sent p m)"
proof -
  define i where "i = le_index (last (rn_log n)) + 1"
  define e where "e = \<lparr> le_term = rn_current_term n, le_index = i, le_command = command \<rparr>"
  have s: "rn_state n = LEADER" "rn_log n \<noteq> []" "unat (le_index (last (rn_log n))) + Suc k \<le> unat (rn_commit_index n)"
    using assms by (simp_all add: stale_def)
  then have "le_index (last (rn_log n)) < rn_commit_index n" by (simp add: word_less_nat_alt)
  then have i: "unat i = unat (le_index (last (rn_log n))) + 1" unfolding i_def using u64_inc by simp
  then have le: "i \<le> rn_commit_index n" "unat i + k \<le> unat (rn_commit_index n)" using s(3) by (simp_all add: word_le_nat_alt)
  obtain n1 where n1: "Propose_append command n = Some (i, n1)" "rn_log n1 = rn_log n @ [e]" "rn_commit_index n1 = rn_commit_index n"
      "rn_state n1 = LEADER" "rn_events n1 = rn_events n"
    using s(1,2) by (simp add: Propose_append_def log_back_def i_def e_def Let_def)
  have "AdvanceCommitIndex n1 = Some n1" using le(1) n1(2,3)
    by (subst (asm) linorder_not_less [symmetric]) (simp add: AdvanceCommitIndex_def log_back_def e_def advance_loop.simps [of i])
  moreover obtain n2 where n2: "SendHeartbeats record_rpc n1 = Some n2" "core n2 = core n1" using SendHeartbeats_core [of n1] by blast
  moreover have h: "heartbeat_loop record_rpc (rn_peers n1) n1 = Some n2" using n2(1) n1(4) by (simp add: SendHeartbeats_def)
  moreover have c: "rn_commit_index n2 = rn_commit_index n" using heartbeat_loop_commit [OF h] n1(3) by simp
  moreover have "stale k n2" using core_fields(5,6) [OF n2(2)] n1(2,4) le(2) c by (simp add: stale_def e_def)
  moreover obtain es where "rn_events n2 = rn_events n @ es" "\<forall>e\<in>set es. \<exists>p m. e = Sent p m"
    using heartbeats_sent [OF h] n1(5) by auto
  ultimately show ?thesis using s(1) n1(1) le(1) by (simp add: Propose_def)
qed

subsection \<open>Writes of clients\<close>

fun ha_writes ::
    "node_walk \<Rightarrow> (nn_request \<Rightarrow> str option) \<Rightarrow> (str \<Rightarrow> nn_request option) \<Rightarrow> (str \<Rightarrow> meta_snapshot option) \<Rightarrow> s64 \<Rightarrow> nn_request list \<Rightarrow>
     ha_namenode \<Rightarrow> (nn_response list \<times> ha_namenode) option" where
  "ha_writes walk ser parse parse_snap now [] s = Some ([], s)"
| "ha_writes walk ser parse parse_snap now (req # reqs) s = do {
     (r, s1) \<leftarrow> ProposeWrite walk ser parse parse_snap record_rpc now [] [] req s;
     (rs, s2) \<leftarrow> ha_writes walk ser parse parse_snap now reqs s1;
     Some (r # rs, s2) }"

lemma stale_write:
  assumes "stale (Suc k) (ha_raft s)" "ser req \<noteq> None"
  shows "\<exists>raft. ProposeWrite walk ser parse parse_snap record_rpc now [] [] req s = Some (write_response req (ha_meta s), s\<lparr> ha_raft := raft \<rparr>) \<and> stale k raft"
proof -
  obtain command where c: "ser req = Some command" using assms(2) by blast
  obtain i raft es where p: "Propose record_rpc command [] (ha_raft s) = Some (\<lparr> pr_index = Some i, pr_committed = True, pr_is_leader = True, pr_leader_id = [] \<rparr>, raft)"
      "stale k raft" "rn_events raft = rn_events (ha_raft s) @ es" "\<forall>e\<in>set es. \<exists>p m. e = Sent p m"
    using stale_proposal [OF assms(1)] by blast
  have "fold (run_event walk parse parse_snap now) es u = u" for u
    using p(4) by (induction es arbitrary: u) auto
  then have "with_raft walk parse parse_snap now raft s = s\<lparr> ha_raft := raft \<rparr>" by (simp add: with_raft_def p(3))
  moreover have "HA_IsLeader s" using assms(1) by (simp add: HA_IsLeader_def stale_def)
  ultimately show ?thesis using p(1,2) by (intro exI [of _ raft]) (simp add: ProposeWrite_def c)
qed

lemma stale_writes:
  assumes "stale (length reqs) (ha_raft s)" "\<forall>req\<in>set reqs. ser req \<noteq> None"
  shows "\<exists>raft. ha_writes walk ser parse parse_snap now reqs s = Some (map (\<lambda>req. write_response req (ha_meta s)) reqs, s\<lparr> ha_raft := raft \<rparr>)"
  using assms
proof (induction reqs arbitrary: s)
  case Nil
  show ?case by (rule exI [of _ "ha_raft s"]) simp
next
  case (Cons req reqs)
  obtain raft where r: "ProposeWrite walk ser parse parse_snap record_rpc now [] [] req s = Some (write_response req (ha_meta s), s\<lparr> ha_raft := raft \<rparr>)"
      "stale (length reqs) raft"
    using stale_write [of "length reqs" s ser req walk parse parse_snap now] Cons.prems by auto
  from Cons.IH [of "s\<lparr> ha_raft := raft \<rparr>"] r Cons.prems(2) show ?case by auto
qed

text \<open>
  C23: the health check makes the leader of a replicated name node lose every write.  When the check finds more than 50
  entries in the log and all of them are applied, its snapshot empties the log; the indices begin at 1 again,
  below the commit index, so that every proposal is reported as committed at once and given to nobody's store.  For as many writes as
  the commit index says, the namespace stays as it was, and the answers are read off this unchanged namespace: creating a file
  fails unless it exists, deleting one fails if it exists, and allocating a block for a file that has
  some hands out its last block again, as a success.
\<close>

theorem snapshot_freezes_namespace:
  assumes "HA_health_check fwalk ser_snap ser_meta True now s = Some s1" "HA_IsLeader s" "50 < GetLogSize (ha_raft s)"
    and "log_wf (rn_log (ha_raft s))" "\<forall>e\<in>set (rn_log (ha_raft s)). le_index e \<le> rn_last_applied (ha_raft s)"
    and "rn_snapshot_last_index (ha_raft s) < rn_last_applied (ha_raft s)"
    and "length reqs \<le> unat (rn_commit_index (ha_raft s))" "\<forall>req\<in>set reqs. ser req \<noteq> None"
  shows "\<exists>rs s2. ha_writes walk ser parse parse_snap now' reqs s1 = Some (rs, s2) \<and> ha_meta s2 = ha_meta s \<and> ha_blocks s2 = ha_blocks s \<and>
    list_all2 (\<lambda>req r.
      (rq_op req = CREATE_FILE \<longrightarrow> rs_success r = (MS_GetFile (rq_create_path req) (ha_meta s) \<noteq> None)) \<and>
      (rq_op req = DELETE_FILE \<longrightarrow> rs_success r = (MS_GetFile (rq_delete_path req) (ha_meta s) = None)) \<and>
      (\<forall>f. rq_op req = ALLOCATE_BLOCK \<and> MS_GetFile (rq_allocate_path req) (ha_meta s) = Some f \<and> fi_blocks f \<noteq> [] \<longrightarrow>
        rs_success r \<and> map_option al_block_id (rs_allocate r) = Some (last (fi_blocks f)))) reqs rs"
proof -
  obtain es where es: "rn_log (ha_raft s) = dummy_entry # es" using assms(4) by (cases "rn_log (ha_raft s)") (auto simp: log_wf_def)
  have f: "filter (\<lambda>e. rn_last_applied (ha_raft s) < le_index e) es = []" using assms(5) es by (auto simp: filter_empty_conv not_less)
  have s1: "ha_meta s1 = ha_meta s" "ha_blocks s1 = ha_blocks s" "rn_log (ha_raft s1) = [dummy_entry]"
      "rn_state (ha_raft s1) = LEADER" "rn_commit_index (ha_raft s1) = rn_commit_index (ha_raft s)"
    using assms(1-3,6) es f
    by (auto simp: HA_health_check_def HA_IsLeader_def TakeSnapshot_def trim_log_def Let_def not_le split: if_splits)
  then have "stale (length reqs) (ha_raft s1)" using assms(7) by (simp add: stale_def dummy_entry_def)
  from stale_writes [OF this assms(8)] obtain raft where
    "ha_writes walk ser parse parse_snap now' reqs s1 = Some (map (\<lambda>req. write_response req (ha_meta s1)) reqs, s1\<lparr> ha_raft := raft \<rparr>)" by blast
  then show ?thesis using s1(1,2)
    by (auto simp: list_all2_map2 write_response_def resp_new_def resp_fail_def Let_def intro!: list.rel_refl_strong)
qed

definition snapshot_example :: ha_namenode where
  "snapshot_example = \<lparr> ha_meta = snd (MS_CreateFile [120] 1 MetadataStore_new), ha_blocks = BlockManager_new, ha_nodes = [],
     ha_raft = (RaftNode_new [97] [[97], [98], [99]] None None)\<lparr> rn_state := LEADER,
       rn_log := map (\<lambda>i. \<lparr> le_term = 0, le_index = word_of_nat i, le_command = [] \<rparr>) [0..<52],
       rn_commit_index := 51, rn_last_applied := 51 \<rparr> \<rparr>"

text \<open>The creation of \<open>y\<close> and the deletion of \<open>x\<close> fail, on a node that leads two others.\<close>

lemma snapshot_freezes_namespace_witness:
  "\<exists>s1 rs s2. HA_health_check (\<lambda>m. m) (\<lambda>_. []) (\<lambda>_. []) True 5 snapshot_example = Some s1 \<and>
     ha_writes (\<lambda>m. m) (\<lambda>_. Some [7]) (\<lambda>_. None) (\<lambda>_. None) 6
       [blank_request\<lparr> rq_op := CREATE_FILE, rq_create_path := [121] \<rparr>, blank_request\<lparr> rq_op := DELETE_FILE, rq_delete_path := [120] \<rparr>] s1 =
       Some (rs, s2) \<and> map rs_success rs = [False, False] \<and> ha_meta s2 = ha_meta snapshot_example"
proof -
  let ?reqs = "[blank_request\<lparr> rq_op := CREATE_FILE, rq_create_path := [121] \<rparr>, blank_request\<lparr> rq_op := DELETE_FILE, rq_delete_path := [120] \<rparr>]"
  have log: "rn_log (ha_raft snapshot_example) = map (\<lambda>i. \<lparr> le_term = 0, le_index = word_of_nat i, le_command = [] \<rparr>) [0..<52]"
    by (simp add: snapshot_example_def)
  have len: "50 < GetLogSize (ha_raft snapshot_example)" by (simp add: GetLogSize_def log)
  have idx: "map le_index (rn_log (ha_raft snapshot_example)) = map word_of_nat [0..<52]" by (simp add: log o_def)
  have wf: "log_wf (rn_log (ha_raft snapshot_example))" unfolding log by code_simp
  have le: "\<forall>e\<in>set (rn_log (ha_raft snapshot_example)). le_index e \<le> rn_last_applied (ha_raft snapshot_example)"
    unfolding log by (simp add: snapshot_example_def) code_simp
  obtain s1 where s1: "HA_health_check (\<lambda>m. m) (\<lambda>_. []) (\<lambda>_. []) True 5 snapshot_example = Some s1"
    using len by (fastforce simp: HA_health_check_def TakeSnapshot_def trim_log_def log Let_def upt_conv_Cons simp del: upt_Suc split: bind_split)
  have "HA_IsLeader snapshot_example" "rn_snapshot_last_index (ha_raft snapshot_example) < rn_last_applied (ha_raft snapshot_example)"
      "length ?reqs \<le> unat (rn_commit_index (ha_raft snapshot_example))"
    by (simp_all add: snapshot_example_def HA_IsLeader_def RaftNode_new_def)
  from snapshot_freezes_namespace [OF s1 this(1) len wf le this(2,3), where ser = "\<lambda>_. Some [7]" and walk = "\<lambda>m. m" and parse = "\<lambda>_. None" and
      parse_snap = "\<lambda>_. None" and now' = 6] s1
  show ?thesis
    by (fastforce simp: list_all2_Cons1 snapshot_example_def MS_GetFile_def MS_CreateFile_def MetadataStore_new_def blank_request_def)
qed

end
