(* ===== verification/BlockStore.thy ===== *)
theory BlockStore
  imports Decimal Histories "HOL-Library.Monad_Syntax"
begin

text \<open>
  The block files of a data node (\<open>src/src/datanode/datanode_block_store.cc\<close>): data and metadata of a
  block are files of \<open>blocks/\<close>, written through a temporary file of \<open>tmp/\<close>.  The file system is a map
  from path to bytes.  zlib's \<open>crc32\<close> is the argument \<open>crc\<close>, the clock \<open>now\<close>; what the system calls
  do is the record \<open>write_env\<close>.  An outer \<open>None\<close> is undefined behaviour (signed overflow).
\<close>

record block_meta =
  bm_block_id :: u64
  bm_size :: "64 word"
  bm_crc32 :: u32
  bm_create_time :: "64 word"

record block_store =
  bs_data_dir :: str
  bs_files :: "str \<Rightarrow> str option"

subsection \<open>Paths\<close>

definition BlockDataPath :: "block_store \<Rightarrow> u64 \<Rightarrow> str" where
  "BlockDataPath bs i = (bs_data_dir bs @ lit ''/blocks'') @ 47 # lit ''block_'' @ pad6 i @ lit ''.dat''"

definition BlockMetaPath :: "block_store \<Rightarrow> u64 \<Rightarrow> str" where
  "BlockMetaPath bs i = (bs_data_dir bs @ lit ''/blocks'') @ 47 # lit ''block_'' @ pad6 i @ lit ''.meta''"

definition BlockTmpPath :: "block_store \<Rightarrow> u64 \<Rightarrow> str" where
  "BlockTmpPath bs i = (bs_data_dir bs @ lit ''/tmp'') @ 47 # lit ''block_'' @ pad6 i @ lit ''.dat.tmp''"

subsection \<open>The metadata file\<close>

text \<open>\<open>operator<<\<close> for integers.\<close>

definition put_signed :: "int \<Rightarrow> str" where
  "put_signed i = (if i < 0 then 45 # dec_digits (nat (- i)) else dec_digits (nat i))"

definition meta_bytes :: "block_meta \<Rightarrow> str" where
  "meta_bytes m = dec_digits (unat (bm_block_id m)) @ 32 # put_signed (sint (bm_size m)) @
     32 # dec_digits (unat (bm_crc32 m)) @ 32 # put_signed (sint (bm_create_time m)) @ [10]"

text \<open>\<open>operator>>\<close>: white space, a sign, digits; the number, its sign and what is left.\<close>

definition get_number :: "str \<Rightarrow> (bool \<times> nat \<times> str) option" where
  "get_number s =
     (let s1 = dropWhile is_space s;
          (neg, s2) = (case s1 of [] \<Rightarrow> (False, []) | b # r \<Rightarrow>
                         if b = 45 then (True, r) else if b = 43 then (False, r) else (False, s1));
          ds = takeWhile digit s2
      in if ds = [] then None else Some (neg, digits_val 0 ds, dropWhile digit s2))"

definition get_signed :: "str \<Rightarrow> (64 word \<times> str) option" where
  "get_signed s = do {
     (neg, n, r) \<leftarrow> get_number s;
     let v = (if neg then - int n else int n);
     if v < - (2 ^ 63) \<or> 2 ^ 63 \<le> v then None else Some (word_of_int v, r) }"

definition get_u64 :: "str \<Rightarrow> (u64 \<times> str) option" where
  "get_u64 s = do {
     (neg, n, r) \<leftarrow> get_number s;
     if 2 ^ 64 \<le> n then None else Some (if neg then - word_of_nat n else word_of_nat n, r) }"

definition get_u32 :: "str \<Rightarrow> (u32 \<times> str) option" where
  "get_u32 s = do {
     (neg, n, r) \<leftarrow> get_number s;
     if 2 ^ 32 \<le> n then None else Some (if neg then - word_of_nat n else word_of_nat n, r) }"

definition parse_meta :: "str \<Rightarrow> block_meta option" where
  "parse_meta f = do {
     (i, r1) \<leftarrow> get_u64 f;
     (sz, r2) \<leftarrow> get_signed r1;
     (c, r3) \<leftarrow> get_u32 r2;
     (t, _) \<leftarrow> get_signed r3;
     Some \<lparr> bm_block_id = i, bm_size = sz, bm_crc32 = c, bm_create_time = t \<rparr> }"

text \<open>What is written is not looked at: only opening can fail.\<close>

definition WriteMeta :: "bool \<Rightarrow> u64 \<Rightarrow> block_meta \<Rightarrow> block_store \<Rightarrow> bool \<times> block_store" where
  "WriteMeta can_open i m bs =
     (if can_open then (True, bs\<lparr> bs_files := (bs_files bs)(BlockMetaPath bs i \<mapsto> meta_bytes m) \<rparr>) else (False, bs))"

definition ReadMeta :: "u64 \<Rightarrow> block_store \<Rightarrow> block_meta option" where
  "ReadMeta i bs = Option.bind (bs_files bs (BlockMetaPath bs i)) parse_meta"

subsection \<open>Operations\<close>

text \<open>\<open>we_written\<close>: how much of the data reached the file (\<open>None\<close>: all); the code does not look.\<close>

record write_env =
  we_open_tmp :: bool
  we_written :: "nat option"
  we_open_meta :: bool
  we_rename :: bool

definition WriteBlock :: "(str \<Rightarrow> u32) \<Rightarrow> 64 word \<Rightarrow> write_env \<Rightarrow> u64 \<Rightarrow> str \<Rightarrow> block_store \<Rightarrow> bool \<times> block_store" where
  "WriteBlock crc now env i data bs =
     (if \<not> we_open_tmp env then (False, bs)
      else
        let written = (case we_written env of None \<Rightarrow> data | Some n \<Rightarrow> take n data);
            tmp = BlockTmpPath bs i;
            bs1 = bs\<lparr> bs_files := (bs_files bs)(tmp \<mapsto> written) \<rparr>;
            m = \<lparr> bm_block_id = i, bm_size = word_of_nat (length data), bm_crc32 = crc data, bm_create_time = now \<rparr>;
            (ok, bs2) = WriteMeta (we_open_meta env) i m bs1
        in if \<not> ok then (False, bs2\<lparr> bs_files := (bs_files bs2)(tmp := None) \<rparr>)
           else if \<not> we_rename env then (False, bs2\<lparr> bs_files := (bs_files bs2)(tmp := None) \<rparr>)
           else (True, bs2\<lparr> bs_files := ((bs_files bs2)(tmp := None))(BlockDataPath bs i \<mapsto> written) \<rparr>))"

definition ReadBlock :: "(str \<Rightarrow> u32) \<Rightarrow> u64 \<Rightarrow> 64 word \<Rightarrow> 64 word \<Rightarrow> block_store \<Rightarrow> str option option" where
  "ReadBlock crc i offset len0 bs =
     (case ReadMeta i bs of
        None \<Rightarrow> Some None
      | Some m \<Rightarrow>
          (case bs_files bs (BlockDataPath bs i) of
             None \<Rightarrow> Some None
           | Some f \<Rightarrow>
               let file_size = sint (bm_size m); off = sint offset; l = sint len0 in
               if off < 0 \<or> file_size < off then Some None
               else if 0 < l \<and> 2 ^ 63 \<le> off + l then None
               else
                 let len = (if l \<le> 0 \<or> file_size < off + l then file_size - off else l) in
                 if len = 0 then Some (Some [])
                 else
                   let data = take (nat len) (drop (nat off) f) in
                   if int (length data) \<noteq> len then Some None
                   else if off = 0 \<and> len = file_size \<and> crc data \<noteq> bm_crc32 m then Some None
                   else Some (Some data)))"

definition DeleteBlock :: "u64 \<Rightarrow> block_store \<Rightarrow> bool \<times> block_store" where
  "DeleteBlock i bs = (True, bs\<lparr> bs_files := (bs_files bs)(BlockDataPath bs i := None, BlockMetaPath bs i := None) \<rparr>)"

definition HasBlock :: "u64 \<Rightarrow> block_store \<Rightarrow> bool" where
  "HasBlock i bs \<longleftrightarrow> bs_files bs (BlockDataPath bs i) \<noteq> None"

definition GetBlockMeta :: "u64 \<Rightarrow> block_store \<Rightarrow> block_meta option" where
  "GetBlockMeta i bs = ReadMeta i bs"

text \<open>\<open>std::stoull\<close>; \<open>None\<close> where it throws.\<close>

definition stoull :: "str \<Rightarrow> u64 option" where
  "stoull s = map_option fst (get_u64 s)"

definition listed_block :: "block_store \<Rightarrow> str \<Rightarrow> block_meta option" where
  "listed_block bs name =
     (if 5 < length name \<and> drop (length name - 5) name = lit ''.meta'' \<and> \<not> length name < 12
      then Option.bind (stoull (take (length name - 11) (drop 6 name))) (\<lambda>i. ReadMeta i bs)
      else None)"

text \<open>\<open>names\<close> is the listing of \<open>blocks/\<close>, in any order.\<close>

definition ListAllBlocks :: "str list \<Rightarrow> block_store \<Rightarrow> block_meta list" where
  "ListAllBlocks names bs = concat (map (\<lambda>n. case listed_block bs n of None \<Rightarrow> [] | Some m \<Rightarrow> [m]) names)"

definition CleanTempFiles :: "block_store \<Rightarrow> block_store" where
  "CleanTempFiles bs =
     (let dir = bs_data_dir bs @ lit ''/tmp/''
      in bs\<lparr> bs_files := (\<lambda>p. if take (length dir) p = dir then None else bs_files bs p) \<rparr>)"

definition BlockStore_new :: "str \<Rightarrow> (str \<Rightarrow> str option) \<Rightarrow> block_store" where
  "BlockStore_new data_dir files = CleanTempFiles \<lparr> bs_data_dir = data_dir, bs_files = files \<rparr>"

subsection \<open>Paths are different\<close>

lemma pad6_inj: "pad6 m = pad6 n \<Longrightarrow> m = n"
proof -
  assume "pad6 m = pad6 n"
  then have "unat m = unat n" by (metis pad6_value)
  then show "m = n" by (simp add: word_unat_eq_iff)
qed

text \<open>The digits end where the extension starts.\<close>

lemma stem_digits: "takeWhile digit (pad6 n @ lit e) = pad6 n @ takeWhile digit (lit e)"
  by (rule takeWhile_append2) (rule pad6_digits)

lemma digit_dot: "takeWhile digit (lit (CHR ''.'' # e)) = []"
  by (simp add: lit_def digit_def)

lemma path_inj:
  assumes "pad6 m @ lit (CHR ''.'' # e) = pad6 n @ lit (CHR ''.'' # e')"
  shows "m = n \<and> lit e = lit e'"
proof -
  have "pad6 m = pad6 n" using arg_cong [OF assms, of "takeWhile digit"] unfolding stem_digits digit_dot by simp
  with assms pad6_inj show ?thesis by (auto simp: lit_def)
qed

lemma paths_differ [simp]:
  "BlockDataPath bs i = BlockDataPath bs j \<longleftrightarrow> i = j" "BlockMetaPath bs i = BlockMetaPath bs j \<longleftrightarrow> i = j"
  "BlockDataPath bs i \<noteq> BlockMetaPath bs j" "BlockMetaPath bs i \<noteq> BlockDataPath bs j"
  "BlockDataPath bs i \<noteq> BlockTmpPath bs j" "BlockTmpPath bs i \<noteq> BlockDataPath bs j"
  "BlockMetaPath bs i \<noteq> BlockTmpPath bs j" "BlockTmpPath bs i \<noteq> BlockMetaPath bs j"
proof -
  show "BlockDataPath bs i = BlockDataPath bs j \<longleftrightarrow> i = j"
    using path_inj [of i "''dat''" j "''dat''"] by (auto simp: BlockDataPath_def)
  show "BlockMetaPath bs i = BlockMetaPath bs j \<longleftrightarrow> i = j"
    using path_inj [of i "''meta''" j "''meta''"] by (auto simp: BlockMetaPath_def)
  have "pad6 i @ lit ''.dat'' \<noteq> pad6 j @ lit ''.meta''" for i j
    using path_inj [of i "''dat''" j "''meta''"] by (auto simp: lit_def)
  then show "BlockDataPath bs i \<noteq> BlockMetaPath bs j" "BlockMetaPath bs i \<noteq> BlockDataPath bs j"
    by (auto simp: BlockDataPath_def BlockMetaPath_def dest: sym)
  show "BlockDataPath bs i \<noteq> BlockTmpPath bs j" "BlockTmpPath bs i \<noteq> BlockDataPath bs j"
    "BlockMetaPath bs i \<noteq> BlockTmpPath bs j" "BlockTmpPath bs i \<noteq> BlockMetaPath bs j"
    by (simp_all add: BlockDataPath_def BlockMetaPath_def BlockTmpPath_def lit_def)
qed

subsection \<open>The metadata file read back\<close>

lemma get_number_dec:
  assumes "rest = [] \<or> \<not> digit (hd rest)"
  shows "get_number (dec_digits n @ rest) = Some (False, n, rest)"
proof -
  have dig: "digit b" if "b \<in> set (dec_digits n)" for b using dec_digits_range [OF that] by (simp add: digit_unat)
  obtain b ds where b: "dec_digits n = b # ds" by (cases "dec_digits n") (simp_all add: dec_digits.simps split: if_splits)
  with dig have "digit b" by simp
  then have "\<not> is_space b" "b \<noteq> 45" "b \<noteq> 43"
    by (auto simp: digit_unat is_space_def word_le_nat_alt)
  then have "dropWhile is_space (dec_digits n @ rest) = dec_digits n @ rest" by (simp add: b)
  moreover have "takeWhile digit rest = []" "dropWhile digit rest = rest" using assms by (cases rest; simp)+
  moreover have "takeWhile digit (dec_digits n @ rest) = dec_digits n @ takeWhile digit rest"
    "dropWhile digit (dec_digits n @ rest) = dropWhile digit rest"
    using dig by (simp_all add: takeWhile_append2 dropWhile_append2)
  moreover have "digits_val 0 (b # ds) = n" using digits_val_dec [of n] by (simp only: b)
  ultimately show ?thesis using \<open>b \<noteq> 45\<close> \<open>b \<noteq> 43\<close>
    by (simp only: get_number_def Let_def b append_Cons list.case if_False) simp
qed

lemma get_number_space: "get_number (32 # s) = get_number s"
  by (simp add: get_number_def is_space_def)

lemma get_number_minus:
  assumes "rest = [] \<or> \<not> digit (hd rest)"
  shows "get_number (45 # dec_digits n @ rest) = Some (True, n, rest)"
proof -
  have dig: "digit b" if "b \<in> set (dec_digits n)" for b using dec_digits_range [OF that] by (simp add: digit_unat)
  have "dec_digits n \<noteq> []" by (simp add: dec_digits.simps)
  moreover have "takeWhile digit rest = []" "dropWhile digit rest = rest" using assms by (cases rest; simp)+
  ultimately show ?thesis using dig
    by (simp add: get_number_def Let_def is_space_def takeWhile_append2 dropWhile_append2 digits_val_dec)
qed

lemma get_signed_put:
  assumes "rest = [] \<or> \<not> digit (hd rest)"
  shows "get_signed (put_signed (sint (x :: 64 word)) @ rest) = Some (x, rest)"
proof -
  have "- (2 ^ 63) \<le> sint x" "sint x < 2 ^ 63" using sint_greater_eq [of x] sint_less [of x] by simp_all
  then have "sint x < 0 \<Longrightarrow> nat (- sint x) \<le> 2 ^ 63" "\<not> sint x < 0 \<Longrightarrow> nat (sint x) < 2 ^ 63" by simp_all
  then show ?thesis using get_number_dec [OF assms] get_number_minus [OF assms]
    by (cases "sint x < 0") (simp_all add: get_signed_def put_signed_def)
qed

lemma get_unsigned_dec:
  assumes "rest = [] \<or> \<not> digit (hd rest)"
  shows "get_u64 (dec_digits (unat (x :: u64)) @ rest) = Some (x, rest)"
    "get_u32 (dec_digits (unat (y :: u32)) @ rest) = Some (y, rest)"
proof -
  have "\<not> 18446744073709551616 \<le> unat x" using unat_u64_bound [of x] by linarith
  moreover have "\<not> 4294967296 \<le> unat y" using unat_u32_bound [of y] by linarith
  ultimately show "get_u64 (dec_digits (unat (x :: u64)) @ rest) = Some (x, rest)"
    "get_u32 (dec_digits (unat (y :: u32)) @ rest) = Some (y, rest)"
    by (simp_all add: get_u64_def get_u32_def get_number_dec [OF assms])
qed

lemma get_space: "get_signed (32 # s) = get_signed s" "get_u32 (32 # s) = get_u32 s"
  by (simp_all add: get_signed_def get_u32_def get_number_space)

lemma space_not_digit: "\<not> digit 32" "\<not> digit 10"
  by (simp_all add: digit_def)

lemma parse_meta_bytes [simp]: "parse_meta (meta_bytes m) = Some m"
  by (simp add: parse_meta_def meta_bytes_def get_unsigned_dec get_signed_put get_space space_not_digit)

subsection \<open>The store as a map from block to bytes\<close>

datatype bs_op = Write_op "64 word" write_env u64 str | Delete_op u64 | Restart_op

fun bs_step :: "(str \<Rightarrow> u32) \<Rightarrow> bs_op \<Rightarrow> block_store \<Rightarrow> block_store" where
  "bs_step crc (Write_op now env i data) bs = snd (WriteBlock crc now env i data bs)"
| "bs_step crc (Delete_op i) bs = snd (DeleteBlock i bs)"
| "bs_step crc Restart_op bs = BlockStore_new (bs_data_dir bs) (bs_files bs)"

fun block_spec_step :: "bs_op \<Rightarrow> (u64 \<Rightarrow> str option) \<Rightarrow> u64 \<Rightarrow> str option" where
  "block_spec_step (Write_op now env i data) m = (if we_open_tmp env \<and> we_open_meta env then m(i \<mapsto> data) else m)"
| "block_spec_step (Delete_op i) m = m(i := None)"
| "block_spec_step Restart_op m = m"

text \<open>A write that got as far as the metadata gets to its end.\<close>

fun bs_op_ok :: "bs_op \<Rightarrow> bool" where
  "bs_op_ok (Write_op now env i data) \<longleftrightarrow>
     length data < 2 ^ 63 \<and> (we_open_tmp env \<and> we_open_meta env \<longrightarrow> we_written env = None \<and> we_rename env)"
| "bs_op_ok _ \<longleftrightarrow> True"

definition slice :: "str \<Rightarrow> 64 word \<Rightarrow> 64 word \<Rightarrow> str option option" where
  "slice d offset len =
     (if sint offset < 0 \<or> int (length d) < sint offset then Some None
      else if sint len \<le> 0 then Some (Some (drop (nat (sint offset)) d))
      else if 2 ^ 63 \<le> sint offset + sint len then None
      else Some (Some (take (nat (sint len)) (drop (nat (sint offset)) d))))"

definition holds_block :: "(str \<Rightarrow> u32) \<Rightarrow> block_store \<Rightarrow> u64 \<Rightarrow> str \<Rightarrow> bool" where
  "holds_block crc bs i d \<longleftrightarrow>
     bs_files bs (BlockDataPath bs i) = Some d \<and> length d < 2 ^ 63 \<and>
     (\<exists>t. bs_files bs (BlockMetaPath bs i) = Some (meta_bytes
        \<lparr> bm_block_id = i, bm_size = word_of_nat (length d), bm_crc32 = crc d, bm_create_time = t \<rparr>))"

definition no_block :: "block_store \<Rightarrow> u64 \<Rightarrow> bool" where
  "no_block bs i \<longleftrightarrow> bs_files bs (BlockDataPath bs i) = None \<and> bs_files bs (BlockMetaPath bs i) = None"

definition implements :: "(str \<Rightarrow> u32) \<Rightarrow> block_store \<Rightarrow> (u64 \<Rightarrow> str option) \<Rightarrow> bool" where
  "implements crc bs m \<longleftrightarrow> (\<forall>i. case m i of None \<Rightarrow> no_block bs i | Some d \<Rightarrow> holds_block crc bs i d)"

lemma paths_files [simp]:
  "BlockDataPath (bs\<lparr> bs_files := f \<rparr>) = BlockDataPath bs" "BlockMetaPath (bs\<lparr> bs_files := f \<rparr>) = BlockMetaPath bs"
  "BlockTmpPath (bs\<lparr> bs_files := f \<rparr>) = BlockTmpPath bs"
  by (simp_all add: fun_eq_iff BlockDataPath_def BlockMetaPath_def BlockTmpPath_def)

lemma sint_length: "n < 2 ^ 63 \<Longrightarrow> sint (word_of_nat n :: 64 word) = int n"
  by (simp add: signed_of_nat signed_take_bit_int_eq_self)

lemma holds_block_read:
  assumes "holds_block crc bs i d"
  shows "ReadBlock crc i offset len bs = slice d offset len"
proof -
  obtain t where f: "bs_files bs (BlockDataPath bs i) = Some d" and l: "length d < 2 ^ 63"
    and m: "bs_files bs (BlockMetaPath bs i) = Some (meta_bytes
        \<lparr> bm_block_id = i, bm_size = word_of_nat (length d), bm_crc32 = crc d, bm_create_time = t \<rparr>)"
    using assms by (auto simp: holds_block_def)
  have size: "sint (word_of_nat (length d) :: 64 word) = int (length d)" using l by (rule sint_length)
  have *: "ReadMeta i bs = Some \<lparr> bm_block_id = i, bm_size = word_of_nat (length d), bm_crc32 = crc d, bm_create_time = t \<rparr>"
    by (simp add: ReadMeta_def m)
  define o' l' where "o' = sint offset" and "l' = sint len"
  show ?thesis
    unfolding ReadBlock_def slice_def * option.case f block_meta.select_convs size Let_def o'_def [symmetric] l'_def [symmetric]
    using l by (auto simp: not_less)
qed

lemma no_block_read: "no_block bs i \<Longrightarrow> ReadBlock crc i offset len bs = Some None"
  by (simp add: no_block_def ReadBlock_def ReadMeta_def)

lemma implements_cong:
  assumes "implements crc bs m" "\<And>i. bs_files bs' (BlockDataPath bs' i) = bs_files bs (BlockDataPath bs i)"
    "\<And>i. bs_files bs' (BlockMetaPath bs' i) = bs_files bs (BlockMetaPath bs i)"
  shows "implements crc bs' m"
proof -
  have "no_block bs' = no_block bs" "holds_block crc bs' = holds_block crc bs"
    by (simp_all add: fun_eq_iff holds_block_def no_block_def assms(2,3))
  with assms(1) show ?thesis unfolding implements_def by metis
qed

lemma implements_update:
  assumes "implements crc bs m"
    "\<And>j. j \<noteq> i \<Longrightarrow> bs_files bs' (BlockDataPath bs' j) = bs_files bs (BlockDataPath bs j) \<and>
       bs_files bs' (BlockMetaPath bs' j) = bs_files bs (BlockMetaPath bs j)"
    "case v of None \<Rightarrow> no_block bs' i | Some d \<Rightarrow> holds_block crc bs' i d"
  shows "implements crc bs' (m(i := v))"
  unfolding implements_def
proof
  fix j
  show "case (m(i := v)) j of None \<Rightarrow> no_block bs' j | Some d \<Rightarrow> holds_block crc bs' j d"
  proof (cases "j = i")
    case False
    then have "no_block bs' j = no_block bs j" "holds_block crc bs' j = holds_block crc bs j"
      using assms(2) [of j] by (simp_all add: fun_eq_iff holds_block_def no_block_def)
    with False spec [OF assms(1) [unfolded implements_def], of j] show ?thesis by (simp split: option.splits)
  qed (cases v; use assms(3) in simp)
qed

lemma WriteBlock_implements:
  assumes "implements crc bs m" "bs_op_ok (Write_op now env i d)"
  shows "implements crc (snd (WriteBlock crc now env i d bs)) (block_spec_step (Write_op now env i d) m)"
proof (cases "we_open_tmp env \<and> we_open_meta env")
  case True
  then have "we_written env = None" "we_rename env" "length d < 2 ^ 63" using assms(2) by simp_all
  with True have *: "snd (WriteBlock crc now env i d bs) = bs\<lparr> bs_files := (bs_files bs)
      (BlockTmpPath bs i \<mapsto> d, BlockMetaPath bs i \<mapsto> meta_bytes \<lparr> bm_block_id = i, bm_size = word_of_nat (length d), bm_crc32 = crc d, bm_create_time = now \<rparr>,
       BlockTmpPath bs i := None, BlockDataPath bs i \<mapsto> d) \<rparr>"
    by (simp add: WriteBlock_def WriteMeta_def Let_def)
  have "implements crc (snd (WriteBlock crc now env i d bs)) (m(i := Some d))"
    unfolding * using \<open>length d < 2 ^ 63\<close>
    by (intro implements_update [OF assms(1)]) (auto simp: holds_block_def)
  with True show ?thesis by simp
next
  case False
  then have "implements crc (snd (WriteBlock crc now env i d bs)) m"
    by (intro implements_cong [OF assms(1)]) (auto simp: WriteBlock_def WriteMeta_def Let_def)
  with False show ?thesis by auto
qed

lemma not_in_tmp:
  "take (length (bs_data_dir bs @ lit ''/tmp/'')) (BlockDataPath bs i) \<noteq> bs_data_dir bs @ lit ''/tmp/''"
  "take (length (bs_data_dir bs @ lit ''/tmp/'')) (BlockMetaPath bs i) \<noteq> bs_data_dir bs @ lit ''/tmp/''"
  by (simp_all add: BlockDataPath_def BlockMetaPath_def lit_def)

lemma restart_files:
  "bs_files (BlockStore_new (bs_data_dir bs) (bs_files bs)) (BlockDataPath bs i) = bs_files bs (BlockDataPath bs i)"
  "bs_files (BlockStore_new (bs_data_dir bs) (bs_files bs)) (BlockMetaPath bs i) = bs_files bs (BlockMetaPath bs i)"
  using not_in_tmp [of bs i] by (simp_all add: BlockStore_new_def CleanTempFiles_def Let_def)

lemma restart_paths:
  "BlockDataPath (BlockStore_new (bs_data_dir bs) f) = BlockDataPath bs"
  "BlockMetaPath (BlockStore_new (bs_data_dir bs) f) = BlockMetaPath bs"
  by (simp_all add: fun_eq_iff BlockStore_new_def CleanTempFiles_def Let_def BlockDataPath_def BlockMetaPath_def)

lemma bs_step_implements:
  assumes "implements crc bs m" "bs_op_ok p"
  shows "implements crc (bs_step crc p bs) (block_spec_step p m)"
proof (cases p)
  case (Write_op now env i d)
  with WriteBlock_implements assms show ?thesis by (simp del: block_spec_step.simps(1) bs_op_ok.simps(1))
next
  case (Delete_op i)
  then show ?thesis
    by (auto intro!: implements_update [OF assms(1)] simp: DeleteBlock_def no_block_def)
next
  case Restart_op
  then show ?thesis
    by (auto intro!: implements_cong [OF assms(1)] simp: restart_files restart_paths)
qed

interpretation bst: refines "bs_step crc" block_spec_step bs_op_ok "implements crc" for crc
  by unfold_locales (rule bs_step_implements)

lemma implements_new: "implements crc (BlockStore_new dir (\<lambda>_. None)) (\<lambda>_. None)"
  by (simp add: implements_def no_block_def BlockStore_new_def CleanTempFiles_def Let_def)

text \<open>A whole block that is read has the checksum recorded for it, whatever the files hold.\<close>

lemma full_read_checked:
  assumes "ReadBlock crc i 0 0 bs = Some (Some d)" "d \<noteq> []"
  shows "\<exists>m. ReadMeta i bs = Some m \<and> int (length d) = sint (bm_size m) \<and> crc d = bm_crc32 m"
  using assms by (auto simp: ReadBlock_def Let_def split: option.splits if_splits)

text \<open>The metadata are replaced before the data: when the data then are not, the old block is lost.\<close>

lemma failed_overwrite_loses_block:
  assumes "holds_block crc bs i old" "d \<noteq> []" "length d < 2 ^ 63" "crc (take (length d) old) \<noteq> crc d"
    "we_open_tmp env" "we_open_meta env" "\<not> we_rename env"
  shows "\<not> fst (WriteBlock crc now env i d bs) \<and> ReadBlock crc i 0 0 (snd (WriteBlock crc now env i d bs)) = Some None"
proof -
  define bs' where "bs' = snd (WriteBlock crc now env i d bs)"
  have "bs_files bs' (BlockDataPath bs' i) = Some old" "bs_files bs' (BlockMetaPath bs' i) =
      Some (meta_bytes \<lparr> bm_block_id = i, bm_size = word_of_nat (length d), bm_crc32 = crc d, bm_create_time = now \<rparr>)"
    using assms by (simp_all add: bs'_def holds_block_def WriteBlock_def WriteMeta_def Let_def)
  then have "ReadBlock crc i 0 0 bs' = Some None"
    using assms(2,4) sint_length [OF assms(3)] by (simp add: ReadBlock_def ReadMeta_def Let_def)
  moreover have "\<not> fst (WriteBlock crc now env i d bs)"
    using assms by (simp add: WriteBlock_def WriteMeta_def Let_def)
  ultimately show ?thesis by (simp add: bs'_def)
qed

text \<open>The listing finds a block under the name its metadata file has.\<close>

lemma listed_block_name: "listed_block bs (lit ''block_'' @ pad6 i @ lit ''.meta'') = ReadMeta i bs"
proof -
  have l: "6 \<le> length (pad6 i)" by (simp add: pad6_def Let_def)
  have ne: "pad6 i \<noteq> []" using l by auto
  have b: "get_number (pad6 i) = Some (False, unat i, [])"
  proof -
    obtain b ds where b: "pad6 i = b # ds" using ne by (cases "pad6 i") auto
    then have "digit b" using pad6_digits [of b i] by simp
    then have nb: "\<not> is_space b" "b \<noteq> 45" "b \<noteq> 43" by (auto simp: digit_unat is_space_def word_le_nat_alt)
    have t: "takeWhile digit (pad6 i) = pad6 i" "dropWhile digit (pad6 i) = []"
      using pad6_digits [of _ i] by (simp_all add: takeWhile_eq_all_conv dropWhile_eq_Nil_conv)
    show ?thesis using t pad6_value [of i] nb by (simp add: get_number_def b)
  qed
  have "stoull (pad6 i) = Some i"
    using unat_u64_bound [of i] by (simp add: stoull_def get_u64_def b not_le)
  then show ?thesis using l ne by (simp add: listed_block_def lit_def)
qed

text \<open>
  C11: The block store behaves like a map from block id to bytes.  After any sequence of writes, deletes
  and restarts on an empty directory, in which every write that got as far as the metadata file also
  wrote its data and renamed it, a read of any range is exactly the range of the last value written
  (clipped to its length; \<open>length <= 0\<close> means to the end), fails exactly for a block never written or
  deleted and an offset outside the block, and \<open>HasBlock\<close> says whether the block is there; a write
  that could not open its files leaves the block as it was, whatever the checksum function is.
\<close>

theorem block_store_refines_map:
  assumes "list_all bs_op_ok ops"
  shows "let bs = fold (bs_step crc) ops (BlockStore_new dir (\<lambda>_. None)); m = fold block_spec_step ops (\<lambda>_. None) in
    (\<forall>i offset len. ReadBlock crc i offset len bs =
       (case m i of None \<Rightarrow> Some None | Some d \<Rightarrow> slice d offset len)) \<and>
    (\<forall>i. HasBlock i bs \<longleftrightarrow> m i \<noteq> None)"
proof -
  define bs m where bs: "bs = fold (bs_step crc) ops (BlockStore_new dir (\<lambda>_. None))"
    and m: "m = fold block_spec_step ops (\<lambda>_. None)"
  have i: "case m i of None \<Rightarrow> no_block bs i | Some d \<Rightarrow> holds_block crc bs i d" for i
    using bst.rel_history [OF implements_new assms] unfolding implements_def bs m by blast
  have "ReadBlock crc i offset len bs = (case m i of None \<Rightarrow> Some None | Some d \<Rightarrow> slice d offset len)" for i offset len
    using i [of i] by (auto split: option.splits simp: no_block_read holds_block_read)
  moreover have "HasBlock i bs \<longleftrightarrow> m i \<noteq> None" for i
    using i [of i] by (auto split: option.splits simp: HasBlock_def no_block_def holds_block_def)
  ultimately show ?thesis unfolding bs [symmetric] m [symmetric] Let_def by blast
qed

lemma block_store_refines_map_witness:
  "list_all bs_op_ok [Write_op 5 \<lparr> we_open_tmp = True, we_written = None, we_open_meta = True, we_rename = True \<rparr> 7 [1, 2, 3], Restart_op] \<and>
   ReadBlock (\<lambda>_. 9) 7 1 0 (fold (bs_step (\<lambda>_. 9)) [Write_op 5 \<lparr> we_open_tmp = True, we_written = None, we_open_meta = True, we_rename = True \<rparr> 7 [1, 2, 3], Restart_op]
     (BlockStore_new [100] (\<lambda>_. None))) = Some (Some [2, 3])"
proof -
  define ops where "ops = [Write_op 5 \<lparr> we_open_tmp = True, we_written = None, we_open_meta = True, we_rename = True \<rparr> 7 [1, 2, 3], Restart_op]"
  have ok: "list_all bs_op_ok ops" by (simp add: ops_def)
  moreover have "fold block_spec_step ops (\<lambda>_. None) 7 = Some [1, 2, 3]" by (simp add: ops_def)
  ultimately show ?thesis
    using block_store_refines_map [OF ok, of "\<lambda>_. 9" "[100]"] unfolding ops_def [symmetric] Let_def
    by (simp add: slice_def)
qed

end
