(* ===== verification/DataNode.thy ===== *)
theory DataNode
  imports BlockStore
begin

text \<open>
  The data node's request handlers (\<open>src/src/datanode/datanode_datanode_server.cc\<close>) and the write pipeline
  (\<open>src/src/datanode/datanode_pipeline_handler.cc\<close>) on the block store of theory \<open>BlockStore\<close>.  The
  machines of the cluster are a map from endpoint to block store; \<open>exchange\<close> is one request on a
  connection, and what the network and the disks do is part of the world.  Requests and responses are
  the records protobuf parses.  An outer \<open>None\<close> is undefined behaviour or an exception nobody catches.
\<close>

subsection \<open>Messages (datanode.proto)\<close>

datatype dn_op = WRITE_BLOCK | READ_BLOCK | DELETE_BLOCK | UNKNOWN_DN_OP

record write_request =
  wq_block_id :: u64
  wq_data :: str
  wq_pipeline :: "str list"

record read_request =
  rd_block_id :: u64
  rd_offset :: "64 word"
  rd_length :: "64 word"

record dn_request =
  dq_op :: dn_op
  dq_request_id :: u64
  dq_write :: write_request
  dq_read :: read_request
  dq_delete :: u64

record write_block_response =
  wp_success :: bool
  wp_error :: str

record read_block_response =
  rp_success :: bool
  rp_data :: str

record dn_response =
  dp_success :: bool
  dp_error :: str
  dp_request_id :: u64
  dp_write :: "write_block_response option"
  dp_read :: "read_block_response option"

definition dn_resp_new :: dn_response where
  "dn_resp_new = \<lparr> dp_success = False, dp_error = [], dp_request_id = 0, dp_write = None, dp_read = None \<rparr>"

definition no_write :: write_request where
  "no_write = \<lparr> wq_block_id = 0, wq_data = [], wq_pipeline = [] \<rparr>"

definition no_read :: read_request where
  "no_read = \<lparr> rd_block_id = 0, rd_offset = 0, rd_length = 0 \<rparr>"

subsection \<open>The machines and the network\<close>

text \<open>Host and port, the port as \<open>htons\<close> takes it.\<close>

type_synonym endpoint = "str \<times> u16"

datatype link = Up | Down | Reply_lost

record dn_world =
  dw_stores :: "endpoint \<Rightarrow> block_store option"
  dw_disk :: "endpoint \<Rightarrow> write_env"
  dw_link :: "endpoint \<Rightarrow> link"
  dw_now :: "64 word"

type_synonym deliver = "endpoint \<Rightarrow> dn_request \<Rightarrow> dn_world \<Rightarrow> (dn_response \<times> dn_world) option"

definition exchange :: "deliver \<Rightarrow> endpoint \<Rightarrow> dn_request \<Rightarrow> dn_world \<Rightarrow> (dn_response option \<times> dn_world) option" where
  "exchange deliver ep req w =
     (if dw_stores w ep = None \<or> dw_link w ep = Down then Some (None, w)
      else do {
        (resp, w1) \<leftarrow> deliver ep req w;
        Some (if dw_link w ep = Reply_lost then None else Some resp, w1) })"

subsection \<open>Addresses\<close>

text \<open>\<open>rfind(':')\<close> and the two \<open>substr\<close>.\<close>

definition split_colon :: "str \<Rightarrow> (str \<times> str) option" where
  "split_colon s =
     (if 58 \<in> set s
      then let p = rev (takeWhile (\<lambda>b. b \<noteq> 58) (rev s)) in Some (take (length s - length p - 1) s, p)
      else None)"

text \<open>\<open>std::stoi\<close>; \<open>None\<close> where it throws.\<close>

definition stoi :: "str \<Rightarrow> int option" where
  "stoi s = do {
     (neg, n, _) \<leftarrow> get_number s;
     let v = (if neg then - int n else int n);
     if v < - (2 ^ 31) \<or> 2 ^ 31 \<le> v then None else Some v }"

text \<open>No port, or a port that is a number.\<close>

definition addr_ok :: "str \<Rightarrow> bool" where
  "addr_ok a \<longleftrightarrow> (case split_colon a of None \<Rightarrow> True | Some (host, p) \<Rightarrow> stoi p \<noteq> None)"

subsection \<open>The write pipeline\<close>

definition store_write :: "(str \<Rightarrow> u32) \<Rightarrow> endpoint \<Rightarrow> u64 \<Rightarrow> str \<Rightarrow> dn_world \<Rightarrow> bool \<times> dn_world" where
  "store_write crc self i data w =
     (case dw_stores w self of
        None \<Rightarrow> (False, w)
      | Some bs \<Rightarrow>
          let (ok, bs1) = WriteBlock crc (dw_now w) (dw_disk w self) i data bs
          in (ok, w\<lparr> dw_stores := (dw_stores w)(self \<mapsto> bs1) \<rparr>))"

definition ForwardToNext :: "deliver \<Rightarrow> str \<Rightarrow> write_request \<Rightarrow> dn_world \<Rightarrow> (bool \<times> dn_world) option" where
  "ForwardToNext deliver next_node req w =
     (case split_colon next_node of
        None \<Rightarrow> Some (False, w)
      | Some (host, p) \<Rightarrow> do {
          port \<leftarrow> stoi p;
          let dn_req = \<lparr> dq_op = WRITE_BLOCK, dq_request_id = wq_block_id req, dq_write = req, dq_read = no_read, dq_delete = 0 \<rparr>;
          (resp, w1) \<leftarrow> exchange deliver (host, word_of_int port) dn_req w;
          Some (case resp of None \<Rightarrow> False | Some r \<Rightarrow> dp_success r, w1) })"

definition HandlerWrite ::
    "(str \<Rightarrow> u32) \<Rightarrow> deliver \<Rightarrow> endpoint \<Rightarrow> write_request \<Rightarrow> dn_world \<Rightarrow> (write_block_response \<times> dn_world) option" where
  "HandlerWrite crc deliver self req w =
     (let (ok, w1) = store_write crc self (wq_block_id req) (wq_data req) w
      in if ok then Some (\<lparr> wp_success = False, wp_error = lit ''Failed to write block to disk'' \<rparr>, w1)
         else case wq_pipeline req of
                [] \<Rightarrow> Some (\<lparr> wp_success = True, wp_error = [] \<rparr>, w1)
              | next_node # rest \<Rightarrow> do {
                  let forward_req = \<lparr> wq_block_id = wq_block_id req, wq_data = wq_data req, wq_pipeline = rest \<rparr>;
                  (fwd, w2) \<leftarrow> ForwardToNext deliver next_node forward_req w1;
                  Some (if \<not> fwd then \<lparr> wp_success = False, wp_error = lit ''Failed to forward to '' @ next_node \<rparr>
                        else \<lparr> wp_success = True, wp_error = [] \<rparr>, w2) })"

subsection \<open>The server\<close>

definition HandleWriteBlock ::
    "(str \<Rightarrow> u32) \<Rightarrow> deliver \<Rightarrow> endpoint \<Rightarrow> write_request \<Rightarrow> dn_world \<Rightarrow> (dn_response \<times> dn_world) option" where
  "HandleWriteBlock crc deliver self req w = do {
     (r, w1) \<leftarrow> HandlerWrite crc deliver self req w;
     Some (dn_resp_new\<lparr> dp_success := wp_success r, dp_error := wp_error r, dp_write := Some r \<rparr>, w1) }"

definition HandleReadBlock :: "(str \<Rightarrow> u32) \<Rightarrow> read_request \<Rightarrow> block_store \<Rightarrow> dn_response option" where
  "HandleReadBlock crc req bs = do {
     r \<leftarrow> ReadBlock crc (rd_block_id req) (rd_offset req) (rd_length req) bs;
     Some (case r of
       Some data \<Rightarrow> dn_resp_new\<lparr> dp_success := True, dp_read := Some \<lparr> rp_success = True, rp_data = data \<rparr> \<rparr>
     | None \<Rightarrow> dn_resp_new\<lparr> dp_success := False, dp_error := lit ''Block not found or read error'' \<rparr>) }"

definition HandleDeleteBlock :: "u64 \<Rightarrow> block_store \<Rightarrow> dn_response \<times> block_store" where
  "HandleDeleteBlock i bs = (let (ok, bs1) = DeleteBlock i bs in (dn_resp_new\<lparr> dp_success := ok \<rparr>, bs1))"

definition HandleConnection :: "(str \<Rightarrow> u32) \<Rightarrow> deliver \<Rightarrow> deliver" where
  "HandleConnection crc deliver self req w =
     (case dw_stores w self of
        None \<Rightarrow> None
      | Some bs \<Rightarrow> do {
          (resp, w1) \<leftarrow>
            (case dq_op req of
               WRITE_BLOCK \<Rightarrow> HandleWriteBlock crc deliver self (dq_write req) w
             | READ_BLOCK \<Rightarrow> map_option (\<lambda>r. (r, w)) (HandleReadBlock crc (dq_read req) bs)
             | DELETE_BLOCK \<Rightarrow>
                 let (r, bs1) = HandleDeleteBlock (dq_delete req) bs
                 in Some (r, w\<lparr> dw_stores := (dw_stores w)(self \<mapsto> bs1) \<rparr>)
             | UNKNOWN_DN_OP \<Rightarrow> Some (dn_resp_new\<lparr> dp_success := False, dp_error := lit ''Unknown op'' \<rparr>, w));
          Some (resp\<lparr> dp_request_id := dq_request_id req \<rparr>, w1) })"

text \<open>
  The nodes serving one another.  A request is forwarded with a shorter pipeline, so that fuel one
  above its length is enough (\<open>serve_enough\<close>) and \<open>data_node\<close> solves the equation of the code.
\<close>

fun serve :: "(str \<Rightarrow> u32) \<Rightarrow> nat \<Rightarrow> deliver" where
  "serve crc 0 ep req w = None"
| "serve crc (Suc n) ep req w = HandleConnection crc (serve crc n) ep req w"

definition data_node :: "(str \<Rightarrow> u32) \<Rightarrow> deliver" where
  "data_node crc ep req w = serve crc (Suc (length (wq_pipeline (dq_write req)))) ep req w"

lemma HandleConnection_cong:
  fixes req :: dn_request
  assumes "\<And>ep r w. length (wq_pipeline (dq_write r)) < length (wq_pipeline (dq_write req)) \<Longrightarrow> f ep r w = g ep r w"
  shows "HandleConnection crc f self req w = HandleConnection crc g self req w"
proof -
  have ex: "exchange f ep q w' = exchange g ep q w'"
    if "length (wq_pipeline (dq_write q)) < length (wq_pipeline (dq_write req))" for ep q w'
    using assms [OF that] by (simp add: exchange_def)
  have fw: "ForwardToNext f a r w' = ForwardToNext g a r w'" if "length (wq_pipeline r) < length (wq_pipeline (dq_write req))" for a r w'
    using that by (simp add: ForwardToNext_def ex Let_def split: option.splits)
  have "HandlerWrite crc f self (dq_write req) w = HandlerWrite crc g self (dq_write req) w"
    by (cases "wq_pipeline (dq_write req)") (simp_all add: HandlerWrite_def fw Let_def cong: if_cong split: prod.split)
  note * = this
  show ?thesis unfolding HandleConnection_def HandleWriteBlock_def * ..
qed

lemma serve_fuel:
  "length (wq_pipeline (dq_write req)) < m \<Longrightarrow> length (wq_pipeline (dq_write req)) < n \<Longrightarrow>
   serve crc m ep req w = serve crc n ep req w"
proof (induction m arbitrary: n ep req w)
  case (Suc m)
  then obtain k where n: "n = Suc k" by (cases n) auto
  have "HandleConnection crc (serve crc m) ep req w = HandleConnection crc (serve crc k) ep req w"
    by (rule HandleConnection_cong) (rule Suc.IH; use Suc.prems n in simp)
  then show ?case by (simp add: n)
qed simp

lemma serve_enough: "length (wq_pipeline (dq_write req)) < n \<Longrightarrow> serve crc n ep req w = data_node crc ep req w"
  unfolding data_node_def by (rule serve_fuel) auto

lemma data_node_unfold: "data_node crc ep req w = HandleConnection crc (data_node crc) ep req w"
proof -
  have "data_node crc ep req w = HandleConnection crc (serve crc (length (wq_pipeline (dq_write req)))) ep req w"
    by (simp add: data_node_def)
  also have "\<dots> = HandleConnection crc (data_node crc) ep req w"
    by (rule HandleConnection_cong) (rule serve_enough)
  finally show ?thesis .
qed

subsection \<open>What a write does\<close>

definition disk_ok :: "write_env \<Rightarrow> bool" where
  "disk_ok env \<longleftrightarrow> we_open_tmp env \<and> we_open_meta env \<and> we_rename env"

definition data_file :: "dn_world \<Rightarrow> endpoint \<Rightarrow> u64 \<Rightarrow> str option" where
  "data_file w e i = Option.bind (dw_stores w e) (\<lambda>bs. bs_files bs (BlockDataPath bs i))"

lemma WriteBlock_ok: "fst (WriteBlock crc now env i d bs) \<longleftrightarrow> disk_ok env"
  by (simp add: WriteBlock_def WriteMeta_def disk_ok_def Let_def)

lemma WriteBlock_failed_data:
  "\<not> disk_ok env \<Longrightarrow> bs' = snd (WriteBlock crc now env i d bs) \<Longrightarrow>
   bs_files bs' (BlockDataPath bs' j) = bs_files bs (BlockDataPath bs j)"
  by (auto simp: WriteBlock_def WriteMeta_def disk_ok_def Let_def)

lemma WriteBlock_holds:
  assumes "disk_ok env" "we_written env = None" "length d < 2 ^ 63"
  shows "holds_block crc (snd (WriteBlock crc now env i d bs)) i d"
  using assms by (auto simp: WriteBlock_def WriteMeta_def disk_ok_def Let_def holds_block_def)

lemma store_write_eq:
  "dw_stores w e = Some bs \<Longrightarrow> store_write crc e i d w =
     (disk_ok (dw_disk w e), w\<lparr> dw_stores := (dw_stores w)(e \<mapsto> snd (WriteBlock crc (dw_now w) (dw_disk w e) i d bs)) \<rparr>)"
  by (simp add: store_write_def WriteBlock_ok case_prod_beta Let_def)

lemma store_write_failed:
  assumes "dw_stores w e = Some bs" "\<not> disk_ok (dw_disk w e)"
  shows "data_file (snd (store_write crc e i d w)) = data_file w"
  using WriteBlock_failed_data [OF assms(2) refl] assms(1)
  by (simp add: fun_eq_iff data_file_def store_write_eq)

text \<open>The three ways a write request ends.\<close>

lemma write_cases:
  fixes req :: dn_request
  assumes "data_node crc ep req w = Some (resp, w')" "dq_op req = WRITE_BLOCK"
  defines "w1 \<equiv> snd (store_write crc ep (wq_block_id (dq_write req)) (wq_data (dq_write req)) w)"
  obtains (stored) bs where "dw_stores w ep = Some bs" "disk_ok (dw_disk w ep)" "\<not> dp_success resp" "w' = w1"
  | (last) bs where "dw_stores w ep = Some bs" "\<not> disk_ok (dw_disk w ep)" "wq_pipeline (dq_write req) = []" "w' = w1"
  | (forward) bs a rest where "dw_stores w ep = Some bs" "\<not> disk_ok (dw_disk w ep)"
      "wq_pipeline (dq_write req) = a # rest"
      "ForwardToNext (data_node crc) a
         \<lparr> wq_block_id = wq_block_id (dq_write req), wq_data = wq_data (dq_write req), wq_pipeline = rest \<rparr> w1 =
       Some (dp_success resp, w')"
proof -
  obtain bs where bs: "dw_stores w ep = Some bs"
    using assms(1) by (cases "dw_stores w ep") (simp_all add: data_node_unfold HandleConnection_def)
  have eq: "store_write crc ep (wq_block_id (dq_write req)) (wq_data (dq_write req)) w = (disk_ok (dw_disk w ep), w1)"
    using store_write_eq [OF bs, of crc "wq_block_id (dq_write req)" "wq_data (dq_write req)"] by (simp add: w1_def)
  note * = assms(1) [unfolded data_node_unfold [of crc ep] HandleConnection_def HandleWriteBlock_def HandlerWrite_def
    assms(2) bs eq prod.case option.case dn_op.case]
  show thesis
  proof (cases "disk_ok (dw_disk w ep)")
    case True
    with * have "\<not> dp_success resp" "w' = w1" by (auto simp: dn_resp_new_def)
    with stored bs True show thesis by blast
  next
    case False
    show thesis
    proof (cases "wq_pipeline (dq_write req)")
      case Nil
      with * False have "w' = w1" by simp
      with last bs False Nil show thesis by blast
    next
      case (Cons a rest)
      with * False have "ForwardToNext (data_node crc) a
         \<lparr> wq_block_id = wq_block_id (dq_write req), wq_data = wq_data (dq_write req), wq_pipeline = rest \<rparr> w1 =
         Some (dp_success resp, w')"
        by (auto simp: Let_def bind_eq_Some_conv dn_resp_new_def split: if_splits)
      with forward bs False Cons show thesis by blast
    qed
  qed
qed

lemma forward_cases:
  assumes "ForwardToNext deliver a r w = Some (True, w')"
  obtains e resp dn_req where "dw_stores w e \<noteq> None" "deliver e dn_req w = Some (resp, w')"
    "dq_op dn_req = WRITE_BLOCK" "dq_write dn_req = r" "dp_success resp"
proof -
  obtain host p port where a: "split_colon a = Some (host, p)" "stoi p = Some port"
    using assms by (auto simp: ForwardToNext_def bind_eq_Some_conv split: option.splits)
  define e where "e = (host, word_of_int port :: u16)"
  define dn_req where "dn_req = \<lparr> dq_op = WRITE_BLOCK, dq_request_id = wq_block_id r, dq_write = r, dq_read = no_read, dq_delete = 0 \<rparr>"
  obtain resp where "exchange deliver e dn_req w = Some (Some resp, w')" "dp_success resp"
    using assms a by (auto simp: ForwardToNext_def bind_eq_Some_conv e_def dn_req_def split: option.splits)
  then have "dw_stores w e \<noteq> None" "deliver e dn_req w = Some (resp, w')"
    by (auto simp: exchange_def bind_eq_Some_conv split: if_splits)
  with \<open>dp_success resp\<close> that [of e dn_req resp] show thesis by (simp add: dn_req_def)
qed

lemma store_write_disk: "dw_disk (snd (store_write crc e i d w)) = dw_disk w"
  by (simp add: store_write_def case_prod_beta Let_def split: option.split)

lemma write_success_data:
  assumes "data_node crc ep req w = Some (resp, w')" "dq_op req = WRITE_BLOCK" "dp_success resp"
  shows "data_file w' = data_file w"
  using assms
proof (induction "wq_pipeline (dq_write req)" arbitrary: ep req w resp w')
  case Nil
  from Nil(2,3) show ?case
    by (cases rule: write_cases) (use Nil(1,4) store_write_failed in auto)
next
  case (Cons a rest)
  from Cons(3,4) show ?case
  proof (cases rule: write_cases)
    case (forward bs b ys)
    define w1 where "w1 = snd (store_write crc ep (wq_block_id (dq_write req)) (wq_data (dq_write req)) w)"
    have "ForwardToNext (data_node crc) b
        \<lparr> wq_block_id = wq_block_id (dq_write req), wq_data = wq_data (dq_write req), wq_pipeline = ys \<rparr> w1 = Some (True, w')"
      using forward(4) Cons(5) by (simp add: w1_def)
    then obtain e r dn_req where f: "data_node crc e dn_req w1 = Some (r, w')" "dq_op dn_req = WRITE_BLOCK" "dp_success r"
      and q: "dq_write dn_req = \<lparr> wq_block_id = wq_block_id (dq_write req), wq_data = wq_data (dq_write req), wq_pipeline = ys \<rparr>"
      by (rule forward_cases)
    have "rest = wq_pipeline (dq_write dn_req)" using q forward(3) Cons(2) by simp
    from Cons(1) [OF this f(1-3)] store_write_failed [OF forward(1,2)] show ?thesis by (simp add: w1_def)
  qed (use Cons(2,5) in auto)
qed

text \<open>
  C32: What the answer to a block write means.  The test in \<open>HandlerWrite\<close> is inverted: when the disk of the
  node takes the block, the block is stored there, no other machine of the pipeline is contacted, and the
  answer is a failure; and when the answer is a success, no machine of the cluster has different block
  data than before: the disks of all the nodes the request reached have failed.
\<close>

theorem write_answer_is_inverted:
  assumes "dq_op req = WRITE_BLOCK" "data_node crc ep req w = Some (resp, w')"
  shows "(disk_ok (dw_disk w ep) \<and> we_written (dw_disk w ep) = None \<and> length (wq_data (dq_write req)) < 2 ^ 63 \<longrightarrow>
           \<not> dp_success resp \<and> (\<forall>e. e \<noteq> ep \<longrightarrow> dw_stores w' e = dw_stores w e) \<and>
           (\<exists>bs'. dw_stores w' ep = Some bs' \<and> holds_block crc bs' (wq_block_id (dq_write req)) (wq_data (dq_write req)))) \<and>
         (dp_success resp \<longrightarrow> (\<forall>e i. data_file w' e i = data_file w e i))"
proof (intro conjI impI)
  assume ok: "disk_ok (dw_disk w ep) \<and> we_written (dw_disk w ep) = None \<and> length (wq_data (dq_write req)) < 2 ^ 63"
  from assms(2,1) show "\<not> dp_success resp" by (cases rule: write_cases) (use ok in auto)
  obtain bs where bs: "dw_stores w ep = Some bs"
    and w': "w' = snd (store_write crc ep (wq_block_id (dq_write req)) (wq_data (dq_write req)) w)"
    using assms(2,1) by (cases rule: write_cases) (use ok in auto)
  show "\<forall>e. e \<noteq> ep \<longrightarrow> dw_stores w' e = dw_stores w e" by (simp add: w' store_write_eq [OF bs])
  show "\<exists>bs'. dw_stores w' ep = Some bs' \<and> holds_block crc bs' (wq_block_id (dq_write req)) (wq_data (dq_write req))"
    using WriteBlock_holds ok by (simp add: w' store_write_eq [OF bs])
next
  assume "dp_success resp"
  from write_success_data [OF assms(2,1) this]
  show "\<forall>e i. data_file w' e i = data_file w e i" by simp
qed

definition one_node :: dn_world where
  "one_node = \<lparr> dw_stores = (\<lambda>_. Some (BlockStore_new [100] (\<lambda>_. None))),
     dw_disk = (\<lambda>_. \<lparr> we_open_tmp = True, we_written = None, we_open_meta = True, we_rename = True \<rparr>),
     dw_link = (\<lambda>_. Up), dw_now = 5 \<rparr>"

definition write_block_7 :: "str list \<Rightarrow> dn_request" where
  "write_block_7 pipeline = \<lparr> dq_op = WRITE_BLOCK, dq_request_id = 7,
     dq_write = \<lparr> wq_block_id = 7, wq_data = [1, 2, 3], wq_pipeline = pipeline \<rparr>, dq_read = no_read, dq_delete = 0 \<rparr>"

lemma data_node_stores:
  assumes "dw_stores w ep = Some bs" "disk_ok (dw_disk w ep)" "dq_op req = WRITE_BLOCK"
  shows "\<exists>resp w'. data_node crc ep req w = Some (resp, w')"
  using assms by (simp add: data_node_unfold [of crc ep] HandleConnection_def HandleWriteBlock_def HandlerWrite_def store_write_eq)

lemma write_answer_is_inverted_witness:
  "\<exists>resp w'. data_node (\<lambda>_. 9) (lit ''n1'', 80) (write_block_7 [lit ''n2:80'']) one_node = Some (resp, w') \<and>
     \<not> dp_success resp \<and> dw_stores w' (lit ''n2'', 80) = dw_stores one_node (lit ''n2'', 80) \<and>
     (\<exists>bs'. dw_stores w' (lit ''n1'', 80) = Some bs' \<and> holds_block (\<lambda>_. 9) bs' 7 [1, 2, 3])"
proof -
  have op: "dq_op (write_block_7 [lit ''n2:80'']) = WRITE_BLOCK" by (simp add: write_block_7_def)
  obtain resp w' where r: "data_node (\<lambda>_. 9) (lit ''n1'', 80) (write_block_7 [lit ''n2:80'']) one_node = Some (resp, w')"
    using data_node_stores [OF _ _ op] by (fastforce simp: one_node_def disk_ok_def)
  have ne: "(lit ''n2'', 80 :: u16) \<noteq> (lit ''n1'', 80)" by (simp add: lit_def)
  have "length (wq_data (dq_write (write_block_7 [lit ''n2:80'']))) < 2 ^ 63" by (simp add: write_block_7_def)
  then show ?thesis
    using write_answer_is_inverted [OF op r] r ne
    by (auto simp: one_node_def disk_ok_def write_block_7_def)
qed

end
