(* ===== verification/DataNodeClient.thy ===== *)
theory DataNodeClient
  imports NameNode DataNode
begin

text \<open>
  The data node's conversation with the name node (\<open>src/src/datanode/datanode_datanode_client.cc\<close>):
  registration, block report and heartbeat, composed with the name node's handlers (theory \<open>NameNode\<close>)
  and the block store (theory \<open>BlockStore\<close>).  The free space the system reports and the listing of the
  block directory are arguments; the loop of the heartbeat thread is in theory \<open>Heartbeats\<close>.
\<close>

definition empty_register :: register_request where
  "empty_register = \<lparr> rg_datanode_id = [], rg_host = [], rg_port = 0, rg_free_space = 0 \<rparr>"

definition empty_heartbeat :: heartbeat_request where
  "empty_heartbeat = \<lparr> hb_datanode_id = [], hb_timestamp = 0, hb_free_space = 0, hb_block_count = 0 \<rparr>"

definition empty_report :: report_request where
  "empty_report = \<lparr> br_datanode_id = [], br_blocks = [] \<rparr>"

definition nn_request_new :: "nn_op \<Rightarrow> u64 \<Rightarrow> nn_request" where
  "nn_request_new op i = \<lparr> rq_op = op, rq_request_id = i, rq_create_path = [], rq_allocate_path = [], rq_blocks_path = [],
     rq_delete_path = [], rq_list_dir = [], rq_register = empty_register, rq_heartbeat = empty_heartbeat, rq_report = empty_report \<rparr>"

subsection \<open>SendToNameNode\<close>

text \<open>One request over a connection of its own; \<open>server\<close> is the name node's dispatch.\<close>

definition SendToNameNode ::
    "(nn_request \<Rightarrow> namenode \<Rightarrow> nn_response \<times> namenode) \<Rightarrow> link \<Rightarrow> nn_request \<Rightarrow> namenode \<Rightarrow> nn_response option \<times> namenode" where
  "SendToNameNode server l req s =
     (if l = Down then (None, s)
      else let (resp, s1) = server req s
           in (if l = Reply_lost then None else Some (resp\<lparr> rs_request_id := rq_request_id req \<rparr>), s1))"

definition accepted :: "nn_response option \<Rightarrow> bool" where
  "accepted r \<longleftrightarrow> (case r of None \<Rightarrow> False | Some resp \<Rightarrow> rs_success resp)"

subsection \<open>The three requests\<close>

text \<open>\<open>None\<close>: \<open>std::stoi\<close> throws.\<close>

definition RegisterSelf ::
    "(nn_request \<Rightarrow> namenode \<Rightarrow> nn_response \<times> namenode) \<Rightarrow> link \<Rightarrow> str \<Rightarrow> s64 \<Rightarrow> namenode \<Rightarrow> (bool \<times> namenode) option" where
  "RegisterSelf server l dn_id free_space s = do {
     let rdn = empty_register\<lparr> rg_datanode_id := dn_id \<rparr>;
     rdn1 \<leftarrow> (case split_colon dn_id of
                None \<Rightarrow> Some rdn
              | Some (host, p) \<Rightarrow> do { port \<leftarrow> stoi p; Some (rdn\<lparr> rg_host := host, rg_port := word_of_int port \<rparr>) });
     let rdn2 = rdn1\<lparr> rg_free_space := free_space \<rparr>;
     let (resp, s1) = SendToNameNode server l ((nn_request_new REGISTER_DN 1)\<lparr> rq_register := rdn2 \<rparr>) s;
     Some (accepted resp, s1) }"

definition report_item_of :: "block_meta \<Rightarrow> report_item" where
  "report_item_of b = \<lparr> ri_block_id = bm_block_id b, ri_size = bm_size b, ri_crc32 = bm_crc32 b \<rparr>"

definition SendBlockReport ::
    "(nn_request \<Rightarrow> namenode \<Rightarrow> nn_response \<times> namenode) \<Rightarrow> link \<Rightarrow> str \<Rightarrow> str list \<Rightarrow> block_store \<Rightarrow> namenode \<Rightarrow> bool \<times> namenode" where
  "SendBlockReport server l dn_id names bs s =
     (let br = \<lparr> br_datanode_id = dn_id, br_blocks = map report_item_of (ListAllBlocks names bs) \<rparr>;
          (resp, s1) = SendToNameNode server l ((nn_request_new BLOCK_REPORT 2)\<lparr> rq_report := br \<rparr>) s
      in (accepted resp, s1))"

definition SendHeartbeat ::
    "(nn_request \<Rightarrow> namenode \<Rightarrow> nn_response \<times> namenode) \<Rightarrow> link \<Rightarrow> str \<Rightarrow> s64 \<Rightarrow> str list \<Rightarrow> block_store \<Rightarrow> namenode \<Rightarrow>
     bool \<times> namenode" where
  "SendHeartbeat server l dn_id free_space names bs s =
     (let n = word_of_nat (length (ListAllBlocks names bs)) :: s32;
          hb = empty_heartbeat\<lparr> hb_datanode_id := dn_id, hb_free_space := free_space, hb_block_count := scast n \<rparr>;
          (resp, s1) = SendToNameNode server l ((nn_request_new HEARTBEAT 3)\<lparr> rq_heartbeat := hb \<rparr>) s
      in (accepted resp, s1))"

text \<open>\<open>l1\<close> and \<open>l2\<close>: what the network does with the two requests.\<close>

definition DataNodeClient_Start ::
    "(nn_request \<Rightarrow> namenode \<Rightarrow> nn_response \<times> namenode) \<Rightarrow> link \<Rightarrow> link \<Rightarrow> str \<Rightarrow> s64 \<Rightarrow> str list \<Rightarrow> block_store \<Rightarrow> namenode \<Rightarrow>
     (bool \<times> namenode) option" where
  "DataNodeClient_Start server l1 l2 dn_id free_space names bs s = do {
     (ok, s1) \<leftarrow> RegisterSelf server l1 dn_id free_space s;
     if \<not> ok then Some (False, s1)
     else let (_, s2) = SendBlockReport server l2 dn_id names bs s1 in Some (True, s2) }"

definition DataNodeServer_id :: "str \<Rightarrow> nat \<Rightarrow> str" where
  "DataNodeServer_id host port = host @ lit '':'' @ dec_digits port"

subsection \<open>What the name node knows afterwards\<close>

definition located :: "metadata_store \<Rightarrow> u64 \<Rightarrow> str \<Rightarrow> bool" where
  "located ms i dn \<longleftrightarrow> dn \<in> set (MS_GetBlockLocations i ms)"

lemma located_update: "located (MS_UpdateBlockLocation j dn' ms) i dn \<longleftrightarrow> located ms i dn \<or> (i = j \<and> dn = dn')"
  by (auto simp: located_def MS_UpdateBlockLocation_def MS_GetBlockLocations_def Let_def update_conv' split: option.splits)

lemma located_report_block: "located (report_block dn' item ms) i dn \<longleftrightarrow> located ms i dn \<or> (i = ri_block_id item \<and> dn = dn')"
proof -
  define ms1 where "ms1 = MS_UpdateBlockLocation (ri_block_id item) dn' ms"
  have "bi_id b = ri_block_id item" if "map_of (ms_blocks ms1) (ri_block_id item) = Some b" for b
    using that by (auto simp: ms1_def MS_UpdateBlockLocation_def Let_def update_conv')
  then have "located (report_block dn' item ms) i dn \<longleftrightarrow> located ms1 i dn"
    by (auto simp: report_block_def ms1_def [symmetric] located_def MS_GetBlockLocations_def MS_GetBlock_def MS_UpdateBlock_def
        update_conv' split: option.splits if_splits)
  then show ?thesis by (simp add: ms1_def located_update)
qed

lemma located_report:
  "located (fold (report_block dn') items ms) i dn \<longleftrightarrow> located ms i dn \<or> (i \<in> ri_block_id ` set items \<and> dn = dn')"
  by (induction items arbitrary: ms) (auto simp: located_report_block)

lemma ListAllBlocks_set: "m \<in> set (ListAllBlocks names bs) \<longleftrightarrow> (\<exists>n\<in>set names. listed_block bs n = Some m)"
proof -
  have "set (case x of None \<Rightarrow> [] | Some m \<Rightarrow> [m]) = {m. x = Some m}" for x :: "block_meta option"
    by (cases x) auto
  then show ?thesis by (auto simp: ListAllBlocks_def)
qed

definition meta_name :: "u64 \<Rightarrow> str" where
  "meta_name i = lit ''block_'' @ pad6 i @ lit ''.meta''"

lemma listed_held:
  assumes "holds_block crc bs i d" "meta_name i \<in> set names"
  shows "i \<in> bm_block_id ` set (ListAllBlocks names bs)"
proof -
  obtain t where "ReadMeta i bs = Some \<lparr> bm_block_id = i, bm_size = word_of_nat (length d), bm_crc32 = crc d, bm_create_time = t \<rparr>"
    using assms(1) by (auto simp: holds_block_def ReadMeta_def)
  then show ?thesis using assms(2) listed_block_name [of bs i]
    by (force simp: ListAllBlocks_set meta_name_def image_iff)
qed

lemma register_ok:
  assumes "addr_ok dn_id"
  shows "\<exists>info s1. RegisterSelf (handle_request fwalk nwalk ser now wr) Up dn_id free_space s = Some (True, s1) \<and>
      nn_nodes s1 = AList.update dn_id info (nn_nodes s) \<and> nn_meta s1 = nn_meta s \<and>
      di_id info = dn_id \<and> di_status info = ALIVE \<and> di_free_space info = free_space"
proof -
  have *: "\<exists>rdn. (case split_colon dn_id of None \<Rightarrow> Some (empty_register\<lparr> rg_datanode_id := dn_id \<rparr>)
      | Some (host, p) \<Rightarrow> do { port \<leftarrow> stoi p; Some (empty_register\<lparr> rg_datanode_id := dn_id, rg_host := host, rg_port := word_of_int port \<rparr>) }) = Some rdn \<and>
      rg_datanode_id rdn = dn_id"
    using assms by (auto simp: addr_ok_def split: option.splits)
  then obtain rdn where "(case split_colon dn_id of None \<Rightarrow> Some (empty_register\<lparr> rg_datanode_id := dn_id \<rparr>)
      | Some (host, p) \<Rightarrow> do { port \<leftarrow> stoi p; Some (empty_register\<lparr> rg_datanode_id := dn_id, rg_host := host, rg_port := word_of_int port \<rparr>) }) = Some rdn"
      "rg_datanode_id rdn = dn_id" by blast
  then show ?thesis
    by (intro exI [of _ "\<lparr> di_id = dn_id, di_host = rg_host rdn, di_port = rg_port rdn, di_status = ALIVE,
          di_last_heartbeat = now, di_free_space = free_space, di_block_count = 0 \<rparr>"])
      (simp add: RegisterSelf_def SendToNameNode_def handle_request_def nn_request_new_def HandleRegisterDN_def
        DM_RegisterDataNode_def accepted_def resp_new_def Let_def)
qed

lemma report_ok:
  "\<exists>s2. SendBlockReport (handle_request fwalk nwalk ser now wr) Up dn_id names bs s = (True, s2) \<and> nn_nodes s2 = nn_nodes s \<and>
     nn_meta s2 = fold (report_block dn_id) (map report_item_of (ListAllBlocks names bs)) (nn_meta s)"
  by (simp add: SendBlockReport_def SendToNameNode_def handle_request_def nn_request_new_def HandleBlockReport_def
      accepted_def resp_new_def Let_def)

lemma report_files: "ms_files (fold (report_block dn) items ms) = ms_files ms"
proof (induction items arbitrary: ms)
  case (Cons item items)
  have "ms_files (report_block dn item ms) = ms_files ms"
    by (simp add: report_block_def MS_UpdateBlock_def MS_UpdateBlockLocation_def Let_def split: option.split)
  with Cons show ?case by simp
qed simp

text \<open>
  C27: Starting a data node over a working network makes it known.  With an address whose port is a number,
  \<open>Start\<close> succeeds; the name node then has the data node with status ALIVE, the address it gave and its
  free space, and every block the data node holds under its metadata file is located there, while every
  location known before is still known; the files of the namespace are as they were.
\<close>

theorem datanode_start_publishes_blocks:
  assumes "addr_ok dn_id"
  shows "\<exists>s' info. DataNodeClient_Start (handle_request fwalk nwalk ser now wr) Up Up dn_id free_space names bs s = Some (True, s') \<and>
    DM_GetDataNode dn_id (nn_nodes s') = Some info \<and> di_id info = dn_id \<and> di_status info = ALIVE \<and> di_free_space info = free_space \<and>
    (\<forall>crc i d. holds_block crc bs i d \<and> meta_name i \<in> set names \<longrightarrow> dn_id \<in> set (MS_GetBlockLocations i (nn_meta s'))) \<and>
    (\<forall>i dn. dn \<in> set (MS_GetBlockLocations i (nn_meta s)) \<longrightarrow> dn \<in> set (MS_GetBlockLocations i (nn_meta s'))) \<and>
    ms_files (nn_meta s') = ms_files (nn_meta s)"
proof -
  define server where "server = handle_request fwalk nwalk ser now wr"
  obtain info s1 where reg: "RegisterSelf server Up dn_id free_space s = Some (True, s1)"
      "nn_nodes s1 = AList.update dn_id info (nn_nodes s)" "nn_meta s1 = nn_meta s"
      "di_id info = dn_id" "di_status info = ALIVE" "di_free_space info = free_space"
    using register_ok [OF assms] unfolding server_def by blast
  define items where "items = map report_item_of (ListAllBlocks names bs)"
  obtain s2 where rep: "SendBlockReport server Up dn_id names bs s1 = (True, s2)" "nn_nodes s2 = nn_nodes s1"
      "nn_meta s2 = fold (report_block dn_id) items (nn_meta s1)"
    using report_ok unfolding server_def items_def by blast
  have loc: "located (nn_meta s2) i dn \<longleftrightarrow> located (nn_meta s) i dn \<or> (i \<in> bm_block_id ` set (ListAllBlocks names bs) \<and> dn = dn_id)" for i dn
    by (simp add: rep(3) reg(3) located_report items_def image_image report_item_of_def)
  show ?thesis unfolding server_def [symmetric]
  proof (intro exI [of _ s2] exI [of _ info] conjI allI impI)
    show "DataNodeClient_Start server Up Up dn_id free_space names bs s = Some (True, s2)"
      by (simp add: DataNodeClient_Start_def reg(1) rep(1))
    show "DM_GetDataNode dn_id (nn_nodes s2) = Some info" by (simp add: DM_GetDataNode_def rep(2) reg(2) update_conv')
    show "dn_id \<in> set (MS_GetBlockLocations i (nn_meta s2))" if "holds_block crc bs i d \<and> meta_name i \<in> set names" for crc i d
      using loc [of i dn_id] listed_held that unfolding located_def by blast
    show "dn \<in> set (MS_GetBlockLocations i (nn_meta s2))" if "dn \<in> set (MS_GetBlockLocations i (nn_meta s))" for i dn
      using loc [of i dn] that unfolding located_def by blast
    show "ms_files (nn_meta s2) = ms_files (nn_meta s)" by (simp add: rep(3) reg(3) report_files)
  qed (use reg in simp_all)
qed

lemma datanode_start_publishes_blocks_witness:
  "\<exists>bs s'. DataNodeClient_Start (handle_request (\<lambda>m. m) (\<lambda>m. m) (\<lambda>_. None) 5 None) Up Up (lit ''n1:80'') 7 [meta_name 3] bs
      \<lparr> nn_meta = MetadataStore_new, nn_blocks = BlockManager_new, nn_nodes = [],
         nn_log = \<lparr> el_file = [], el_ok = True \<rparr> \<rparr> = Some (True, s') \<and>
     bs_files bs (BlockDataPath bs 3) = Some [1, 2] \<and> lit ''n1:80'' \<in> set (MS_GetBlockLocations 3 (nn_meta s'))"
proof -
  define env where "env = \<lparr> we_open_tmp = True, we_written = None, we_open_meta = True, we_rename = True \<rparr>"
  define bs where "bs = snd (WriteBlock (\<lambda>_. 9) 5 env 3 [1, 2] (BlockStore_new [100] (\<lambda>_. None)))"
  have h: "holds_block (\<lambda>_. 9) bs 3 [1, 2]"
    unfolding bs_def by (rule WriteBlock_holds) (simp_all add: env_def disk_ok_def)
  have "addr_ok (lit ''n1:80'')" by code_simp
  from datanode_start_publishes_blocks [OF this] h show ?thesis
    by (fastforce simp: holds_block_def)
qed

end
