(* ===== verification/Replication.thy ===== *)
theory Replication
  imports Metadata DataNode
begin

text \<open>
  Fault handling of the name node: \<open>ReplicationMonitor\<close>, \<open>BlockReplicator\<close>, \<open>ConsistencyChecker\<close> and
  \<open>FaultDetector\<close> (\<open>src/src/namenode/namenode_{replication_monitor,block_replicator,consistency_checker,fault_detector}.cc\<close>)
  on the name node's stores (theory \<open>Metadata\<close>) and the data nodes it calls (theory \<open>DataNode\<close>).
  \<open>fwalk\<close> and \<open>nwalk\<close> are the orders in which the files and the data nodes are walked.
\<close>

subsection \<open>ReplicationMonitor\<close>

record under_replicated =
  ub_block_id :: u64
  ub_current :: int
  ub_target :: int
  ub_existing :: "str list"
  ub_dead :: "str list"

record cluster_health =
  ch_total :: nat
  ch_healthy :: nat
  ch_under :: nat
  ch_lost :: nat
  ch_over :: nat
  ch_alive :: nat
  ch_dead :: nat

definition alive_set :: "node_walk \<Rightarrow> dn_manager \<Rightarrow> str set" where
  "alive_set nwalk dm = set (map di_id (DM_GetAliveDataNodes nwalk dm))"

text \<open>The \<open>visited\<close> set of the loops over all blocks of all files.\<close>

fun first_visits :: "'a set \<Rightarrow> 'a list \<Rightarrow> 'a list" where
  "first_visits visited [] = []"
| "first_visits visited (b # bs) =
     (if b \<in> visited then first_visits visited bs else b # first_visits (insert b visited) bs)"

definition file_blocks :: "file_walk \<Rightarrow> metadata_store \<Rightarrow> u64 list" where
  "file_blocks fwalk ms = concat (map fi_blocks (MS_ListFiles fwalk [] ms))"

definition scan_block :: "str set \<Rightarrow> metadata_store \<Rightarrow> u64 \<Rightarrow> under_replicated option" where
  "scan_block alive ms bid =
     (case MS_GetBlock bid ms of
        None \<Rightarrow> None
      | Some b \<Rightarrow>
          let existing = filter (\<lambda>dn. dn \<in> alive) (bi_locations b);
              dead = filter (\<lambda>dn. dn \<notin> alive) (bi_locations b);
              urb = \<lparr> ub_block_id = bid, ub_current = int (length existing), ub_target = int kReplicationFactor,
                      ub_existing = existing, ub_dead = dead \<rparr>
          in if ub_current urb < ub_target urb then Some urb else None)"

definition ScanUnderReplicated ::
    "file_walk \<Rightarrow> node_walk \<Rightarrow> metadata_store \<Rightarrow> dn_manager \<Rightarrow> under_replicated list" where
  "ScanUnderReplicated fwalk nwalk ms dm =
     List.map_filter (scan_block (alive_set nwalk dm) ms) (first_visits {} (file_blocks fwalk ms))"

text \<open>\<open>junk\<close> is what \<open>current_replicas\<close>, which has no initialiser, holds when there is no such block.\<close>

definition CheckBlock :: "int \<Rightarrow> node_walk \<Rightarrow> u64 \<Rightarrow>
     metadata_store \<Rightarrow> dn_manager \<Rightarrow> under_replicated" where
  "CheckBlock junk nwalk bid ms dm =
     (case MS_GetBlock bid ms of
        None \<Rightarrow> \<lparr> ub_block_id = bid, ub_current = junk, ub_target = int kReplicationFactor, ub_existing = [], ub_dead = [] \<rparr>
      | Some b \<Rightarrow>
          let alive = alive_set nwalk dm;
              existing = filter (\<lambda>dn. dn \<in> alive) (bi_locations b);
              dead = filter (\<lambda>dn. dn \<notin> alive) (bi_locations b)
          in \<lparr> ub_block_id = bid, ub_current = int (length existing), ub_target = int kReplicationFactor,
               ub_existing = existing, ub_dead = dead \<rparr>)"

definition count_block :: "str set \<Rightarrow> metadata_store \<Rightarrow> u64 \<Rightarrow> cluster_health \<Rightarrow> cluster_health" where
  "count_block alive ms bid h =
     (let h1 = h\<lparr> ch_total := ch_total h + 1 \<rparr>
      in case MS_GetBlock bid ms of
           None \<Rightarrow> h1
         | Some b \<Rightarrow>
             let alive_count = length (filter (\<lambda>dn. dn \<in> alive) (bi_locations b))
             in if alive_count = 0 then h1\<lparr> ch_lost := ch_lost h1 + 1 \<rparr>
                else if alive_count < kReplicationFactor then h1\<lparr> ch_under := ch_under h1 + 1 \<rparr>
                else if alive_count = kReplicationFactor then h1\<lparr> ch_healthy := ch_healthy h1 + 1 \<rparr>
                else h1\<lparr> ch_over := ch_over h1 + 1 \<rparr>)"

definition GetClusterHealth ::
    "file_walk \<Rightarrow> node_walk \<Rightarrow> metadata_store \<Rightarrow> dn_manager \<Rightarrow> cluster_health" where
  "GetClusterHealth fwalk nwalk ms dm =
     (let n = length (DM_GetAliveDataNodes nwalk dm);
          h = \<lparr> ch_total = 0, ch_healthy = 0, ch_under = 0, ch_lost = 0, ch_over = 0,
                ch_alive = n, ch_dead = DM_TotalCount dm - n \<rparr>
      in fold (count_block (alive_set nwalk dm) ms) (first_visits {} (file_blocks fwalk ms)) h)"

subsection \<open>BlockReplicator\<close>

record nn_cluster =
  cl_meta :: metadata_store
  cl_nodes :: dn_manager
  cl_world :: dn_world
  cl_replicated :: u64
  cl_failed :: u64
  cl_rounds :: u64
  cl_repaired :: u64

record replication_task =
  rt_block_id :: u64
  rt_source :: str
  rt_target :: str

record replication_result =
  rr_block_id :: u64
  rr_success :: bool
  rr_error :: str

text \<open>One request to the data node at an address (\<open>ConnectToDN\<close>, \<open>SendMsg\<close>, \<open>RecvMsg\<close>).\<close>

definition ask :: "(str \<Rightarrow> u32) \<Rightarrow> str \<Rightarrow> dn_request \<Rightarrow> dn_world \<Rightarrow> (dn_response option \<times> dn_world) option" where
  "ask crc addr req w =
     (case split_colon addr of
        None \<Rightarrow> Some (None, w)
      | Some (host, p) \<Rightarrow> do { port \<leftarrow> stoi p; exchange (data_node crc) (host, word_of_int port) req w })"

definition FetchBlock :: "(str \<Rightarrow> u32) \<Rightarrow> str \<Rightarrow> u64 \<Rightarrow> dn_world \<Rightarrow> (str option \<times> dn_world) option" where
  "FetchBlock crc source bid w = do {
     let rb = \<lparr> rd_block_id = bid, rd_offset = 0, rd_length = 0 \<rparr>;
     (resp, w1) \<leftarrow> ask crc source
       \<lparr> dq_op = READ_BLOCK, dq_request_id = bid, dq_write = no_write, dq_read = rb, dq_delete = 0 \<rparr> w;
     Some (case resp of
             None \<Rightarrow> None
           | Some r \<Rightarrow> if \<not> dp_success r then None
                       else Some (case dp_read r of None \<Rightarrow> [] | Some d \<Rightarrow> rp_data d), w1) }"

definition PushBlock :: "(str \<Rightarrow> u32) \<Rightarrow> str \<Rightarrow> u64 \<Rightarrow> str \<Rightarrow> dn_world \<Rightarrow> (bool \<times> dn_world) option" where
  "PushBlock crc target bid data w = do {
     let wb = \<lparr> wq_block_id = bid, wq_data = data, wq_pipeline = [] \<rparr>;
     (resp, w1) \<leftarrow> ask crc target
       \<lparr> dq_op = WRITE_BLOCK, dq_request_id = bid, dq_write = wb, dq_read = no_read, dq_delete = 0 \<rparr> w;
     Some (case resp of None \<Rightarrow> False | Some r \<Rightarrow> dp_success r, w1) }"

definition Replicate :: "(str \<Rightarrow> u32) \<Rightarrow> replication_task \<Rightarrow> nn_cluster \<Rightarrow> (replication_result \<times> nn_cluster) option" where
  "Replicate crc task c = do {
     (data, w1) \<leftarrow> FetchBlock crc (rt_source task) (rt_block_id task) (cl_world c);
     let c1 = c\<lparr> cl_world := w1 \<rparr>;
     case data of
       None \<Rightarrow>
         Some (\<lparr> rr_block_id = rt_block_id task, rr_success = False, rr_error = lit ''FetchBlock failed from '' @ rt_source task \<rparr>,
               c1\<lparr> cl_failed := cl_failed c1 + 1 \<rparr>)
     | Some d \<Rightarrow> do {
         (ok, w2) \<leftarrow> PushBlock crc (rt_target task) (rt_block_id task) d (cl_world c1);
         let c2 = c1\<lparr> cl_world := w2 \<rparr>;
         Some (if \<not> ok
               then (\<lparr> rr_block_id = rt_block_id task, rr_success = False, rr_error = lit ''PushBlock failed to '' @ rt_target task \<rparr>,
                     c2\<lparr> cl_failed := cl_failed c2 + 1 \<rparr>)
               else (\<lparr> rr_block_id = rt_block_id task, rr_success = True, rr_error = [] \<rparr>,
                     c2\<lparr> cl_meta := MS_UpdateBlockLocation (rt_block_id task) (rt_target task) (cl_meta c2),
                         cl_replicated := cl_replicated c2 + 1 \<rparr>)) } }"

definition SelectTargetNodes ::
    "node_walk \<Rightarrow> under_replicated \<Rightarrow> int \<Rightarrow> dn_manager \<Rightarrow> str list" where
  "SelectTargetNodes nwalk urb need_count dm =
     (let excluded = set (ub_existing urb) \<union> set (ub_dead urb);
          candidates = map di_id (filter (\<lambda>dn. di_id dn \<notin> excluded \<and> kBlockSize \<le> sint (di_free_space dn))
                                         (DM_GetAliveDataNodes nwalk dm));
          actual = min (int (length candidates)) need_count
      in take (nat actual) candidates)"

fun replicate_all :: "(str \<Rightarrow> u32) \<Rightarrow> u64 \<Rightarrow> str \<Rightarrow> str list \<Rightarrow> nn_cluster \<Rightarrow> (bool \<times> nn_cluster) option" where
  "replicate_all crc bid source [] c = Some (True, c)"
| "replicate_all crc bid source (dn # targets) c = do {
     (result, c1) \<leftarrow> Replicate crc \<lparr> rt_block_id = bid, rt_source = source, rt_target = dn \<rparr> c;
     (block_ok, c2) \<leftarrow> replicate_all crc bid source targets c1;
     Some (rr_success result \<and> block_ok, c2) }"

definition repair_block ::
    "(str \<Rightarrow> u32) \<Rightarrow> node_walk \<Rightarrow> under_replicated \<Rightarrow> nn_cluster \<Rightarrow>
     (bool \<times> nn_cluster) option" where
  "repair_block crc nwalk urb c =
     (case ub_existing urb of
        [] \<Rightarrow> Some (False, c)
      | source # _ \<Rightarrow>
          let need_count = ub_target urb - ub_current urb
          in if need_count \<le> 0 then Some (False, c)
             else let targets = SelectTargetNodes nwalk urb need_count (cl_nodes c)
                  in if targets = [] then Some (False, c)
                     else replicate_all crc (ub_block_id urb) source targets c)"

fun RepairUnderReplicated ::
    "(str \<Rightarrow> u32) \<Rightarrow> node_walk \<Rightarrow> under_replicated list \<Rightarrow> nn_cluster \<Rightarrow>
     (nat \<times> nn_cluster) option" where
  "RepairUnderReplicated crc nwalk [] c = Some (0, c)"
| "RepairUnderReplicated crc nwalk (urb # urbs) c = do {
     (ok, c1) \<leftarrow> repair_block crc nwalk urb c;
     (repaired, c2) \<leftarrow> RepairUnderReplicated crc nwalk urbs c1;
     Some ((if ok then 1 else 0) + repaired, c2) }"

subsection \<open>ConsistencyChecker\<close>

record block_check =
  ck_block_id :: u64
  ck_datanode :: str
  ck_reachable :: bool
  ck_crc_ok :: bool
  ck_actual_crc :: u32
  ck_actual_size :: "64 word"
  ck_error :: str

text \<open>
  The checksum is computed over the \<open>std::string\<close> object itself (\<open>&data\<close>), \<open>size()\<close> bytes of it: the
  bytes of the object are an argument, and past its end (32 bytes) there is nothing to read.
\<close>

definition sizeof_string :: nat where "sizeof_string = 32"

definition ComputeCRC32 :: "(str \<Rightarrow> u32) \<Rightarrow> (str \<Rightarrow> str) \<Rightarrow> str \<Rightarrow> u32 option" where
  "ComputeCRC32 crc object data =
     (if length data \<le> sizeof_string then Some (crc (take (length data) (object data))) else None)"

definition FetchAndVerify ::
    "(str \<Rightarrow> u32) \<Rightarrow> (str \<Rightarrow> str) \<Rightarrow> str \<Rightarrow> u64 \<Rightarrow> dn_world \<Rightarrow> ((str \<times> u32) option \<times> dn_world) option" where
  "FetchAndVerify crc object dn bid w = do {
     let rb = \<lparr> rd_block_id = bid, rd_offset = 0, rd_length = 0 \<rparr>;
     (resp, w1) \<leftarrow> ask crc dn
       \<lparr> dq_op = READ_BLOCK, dq_request_id = bid, dq_write = no_write, dq_read = rb, dq_delete = 0 \<rparr> w;
     case resp of
       None \<Rightarrow> Some (None, w1)
     | Some r \<Rightarrow>
         if \<not> dp_success r then Some (None, w1)
         else do {
           let data = (case dp_read r of None \<Rightarrow> [] | Some d \<Rightarrow> rp_data d);
           c \<leftarrow> ComputeCRC32 crc object data;
           Some (Some (data, c), w1) } }"

definition CheckBlockOnDN ::
    "(str \<Rightarrow> u32) \<Rightarrow> (str \<Rightarrow> str) \<Rightarrow> u64 \<Rightarrow> str \<Rightarrow> metadata_store \<Rightarrow> dn_world \<Rightarrow> (block_check \<times> dn_world) option" where
  "CheckBlockOnDN crc object bid dn ms w = do {
     (got, w1) \<leftarrow> FetchAndVerify crc object dn bid w;
     Some (case got of
       None \<Rightarrow> (\<lparr> ck_block_id = bid, ck_datanode = dn, ck_reachable = False, ck_crc_ok = False, ck_actual_crc = 0,
                  ck_actual_size = 0, ck_error = lit ''Cannot fetch block from '' @ dn \<rparr>, w1)
     | Some (data, c) \<Rightarrow>
         let sz = word_of_nat (length data);
             r = \<lparr> ck_block_id = bid, ck_datanode = dn, ck_reachable = True, ck_crc_ok = False, ck_actual_crc = c,
                   ck_actual_size = sz, ck_error = [] \<rparr>
         in (case MS_GetBlock bid ms of
               Some b \<Rightarrow>
                 if 0 < sint (bi_size b)
                 then if bi_size b = sz then r\<lparr> ck_crc_ok := True \<rparr>
                      else r\<lparr> ck_crc_ok := False,
                              ck_error := lit ''Size mismatch: expected='' @ put_signed (sint (bi_size b)) @
                                          lit '' actual='' @ put_signed (sint sz) \<rparr>
                 else r\<lparr> ck_crc_ok := 0 < sint sz \<rparr>
             | None \<Rightarrow> r\<lparr> ck_crc_ok := 0 < sint sz \<rparr>, w1)) }"

fun check_locations ::
    "(str \<Rightarrow> u32) \<Rightarrow> (str \<Rightarrow> str) \<Rightarrow> str set \<Rightarrow> u64 \<Rightarrow> str list \<Rightarrow> metadata_store \<Rightarrow> dn_world \<Rightarrow> (block_check list \<times> dn_world) option" where
  "check_locations crc object alive bid [] ms w = Some ([], w)"
| "check_locations crc object alive bid (dn # dns) ms w = do {
     (r, w1) \<leftarrow>
       (if dn \<notin> alive
        then Some (\<lparr> ck_block_id = bid, ck_datanode = dn, ck_reachable = False, ck_crc_ok = False, ck_actual_crc = 0,
                     ck_actual_size = 0, ck_error = lit ''DataNode is dead'' \<rparr>, w)
        else CheckBlockOnDN crc object bid dn ms w);
     (rs, w2) \<leftarrow> check_locations crc object alive bid dns ms w1;
     Some (r # rs, w2) }"

definition CheckBlockAllReplicas ::
    "(str \<Rightarrow> u32) \<Rightarrow> (str \<Rightarrow> str) \<Rightarrow> node_walk \<Rightarrow> u64 \<Rightarrow>
     metadata_store \<Rightarrow> dn_manager \<Rightarrow> dn_world \<Rightarrow> (block_check list \<times> dn_world) option" where
  "CheckBlockAllReplicas crc object nwalk bid ms dm w =
     (case MS_GetBlock bid ms of
        None \<Rightarrow> Some ([], w)
      | Some b \<Rightarrow> check_locations crc object (alive_set nwalk dm) bid (bi_locations b) ms w)"

fun check_blocks ::
    "(str \<Rightarrow> u32) \<Rightarrow> (str \<Rightarrow> str) \<Rightarrow> node_walk \<Rightarrow> u64 list \<Rightarrow>
     metadata_store \<Rightarrow> dn_manager \<Rightarrow> dn_world \<Rightarrow> (block_check list \<times> dn_world) option" where
  "check_blocks crc object nwalk [] ms dm w = Some ([], w)"
| "check_blocks crc object nwalk (bid # bids) ms dm w = do {
     (rs, w1) \<leftarrow> CheckBlockAllReplicas crc object nwalk bid ms dm w;
     (bad, w2) \<leftarrow> check_blocks crc object nwalk bids ms dm w1;
     Some (filter (\<lambda>r. \<not> ck_crc_ok r \<or> \<not> ck_reachable r) rs @ bad, w2) }"

definition ScanAllBlocks ::
    "(str \<Rightarrow> u32) \<Rightarrow> (str \<Rightarrow> str) \<Rightarrow> file_walk \<Rightarrow> node_walk \<Rightarrow> metadata_store \<Rightarrow> dn_manager \<Rightarrow> dn_world \<Rightarrow> (block_check list \<times> dn_world) option" where
  "ScanAllBlocks crc object fwalk nwalk ms dm w =
     check_blocks crc object nwalk (first_visits {} (file_blocks fwalk ms)) ms dm w"

subsection \<open>FaultDetector\<close>

definition HandleDeadNodes :: "64 word \<Rightarrow> nn_cluster \<Rightarrow> nn_cluster" where
  "HandleDeadNodes now c = c\<lparr> cl_nodes := DM_CheckDataNodeHealth now (cl_nodes c) \<rparr>"

definition RepairReplicas ::
    "(str \<Rightarrow> u32) \<Rightarrow> file_walk \<Rightarrow> node_walk \<Rightarrow> nn_cluster \<Rightarrow> nn_cluster option" where
  "RepairReplicas crc fwalk nwalk c =
     (let under = ScanUnderReplicated fwalk nwalk (cl_meta c) (cl_nodes c)
      in if under = [] then Some c
         else do {
           (repaired, c1) \<leftarrow> RepairUnderReplicated crc nwalk under c;
           Some (c1\<lparr> cl_repaired := cl_repaired c1 + word_of_nat repaired \<rparr>) })"

definition VerifyConsistency ::
    "(str \<Rightarrow> u32) \<Rightarrow> (str \<Rightarrow> str) \<Rightarrow> file_walk \<Rightarrow> node_walk \<Rightarrow> nn_cluster \<Rightarrow> (block_check list \<times> nn_cluster) option" where
  "VerifyConsistency crc object fwalk nwalk c = do {
     (bad, w) \<leftarrow> ScanAllBlocks crc object fwalk nwalk (cl_meta c) (cl_nodes c) (cl_world c);
     Some (bad, c\<lparr> cl_world := w \<rparr>) }"

definition RunOnce ::
    "(str \<Rightarrow> u32) \<Rightarrow> (str \<Rightarrow> str) \<Rightarrow> file_walk \<Rightarrow> node_walk \<Rightarrow> 64 word \<Rightarrow> nn_cluster \<Rightarrow> nn_cluster option" where
  "RunOnce crc object fwalk nwalk now c = do {
     let c1 = HandleDeadNodes now c;
     c2 \<leftarrow> RepairReplicas crc fwalk nwalk c1;
     (_, c3) \<leftarrow> VerifyConsistency crc object fwalk nwalk c2;
     Some (c3\<lparr> cl_rounds := cl_rounds c3 + 1 \<rparr>) }"

subsection \<open>Scans\<close>

lemma first_visits_set: "set (first_visits V bs) = set bs - V"
  by (induction V bs rule: first_visits.induct) auto

lemma first_visits_distinct: "distinct (first_visits V bs)"
  by (induction V bs rule: first_visits.induct) (auto simp: first_visits_set)

lemma file_blocks_set:
  "walk_ok fwalk \<Longrightarrow> set (file_blocks fwalk ms) = (\<Union>(_, f)\<in>set (ms_files ms). set (fi_blocks f))"
  by (auto simp: file_blocks_def MS_ListFiles_def starts_with_def walk_ok_def)

lemma alive_set_eq:
  "walk_ok nwalk \<Longrightarrow> alive_set nwalk dm = {di_id i |k i. (k, i) \<in> set dm \<and> di_status i = ALIVE}"
  unfolding alive_set_def DM_GetAliveDataNodes_def walk_ok_def by (force simp: image_iff)

lemma scan_block_Some:
  "scan_block alive ms bid = Some u \<longleftrightarrow>
     (\<exists>b. MS_GetBlock bid ms = Some b \<and> length (filter (\<lambda>dn. dn \<in> alive) (bi_locations b)) < kReplicationFactor \<and>
          u = \<lparr> ub_block_id = bid, ub_current = int (length (filter (\<lambda>dn. dn \<in> alive) (bi_locations b))),
                ub_target = int kReplicationFactor, ub_existing = filter (\<lambda>dn. dn \<in> alive) (bi_locations b),
                ub_dead = filter (\<lambda>dn. dn \<notin> alive) (bi_locations b) \<rparr>)"
  by (auto simp: scan_block_def Let_def split: option.splits)

lemma map_filter_set: "set (List.map_filter f xs) = {y. \<exists>x\<in>set xs. f x = Some y}"
  by (induction xs) (auto simp: List.map_filter_simps split: option.splits)

lemma map_filter_distinct:
  "distinct xs \<Longrightarrow> (\<And>x y. f x = Some y \<Longrightarrow> g y = x) \<Longrightarrow> distinct (map g (List.map_filter f xs))"
  by (induction xs) (auto simp: List.map_filter_simps map_filter_set split: option.splits)

lemma ScanUnderReplicated_set:
  "walk_ok fwalk \<Longrightarrow> u \<in> set (ScanUnderReplicated fwalk nwalk ms dm) \<longleftrightarrow>
     (\<exists>(path, f)\<in>set (ms_files ms). ub_block_id u \<in> set (fi_blocks f)) \<and> scan_block (alive_set nwalk dm) ms (ub_block_id u) = Some u"
  unfolding ScanUnderReplicated_def map_filter_set
  by (fastforce simp: first_visits_set file_blocks_set scan_block_Some)

text \<open>
  C26: The scan finds exactly the blocks that need repair.  A block is reported exactly when a file of the
  namespace lists it, the block table knows it, and fewer than three of its recorded locations are data
  nodes with status ALIVE; no block is reported twice, and the report carries the number of live replicas
  and splits the locations into the live and the dead ones, in their order.
\<close>

theorem under_replicated_scan_exact:
  assumes "walk_ok fwalk" "walk_ok nwalk"
  shows "let scan = ScanUnderReplicated fwalk nwalk ms dm;
             alive = {di_id i |k i. (k, i) \<in> set dm \<and> di_status i = ALIVE} in
    distinct (map ub_block_id scan) \<and>
    (\<forall>u. u \<in> set scan \<longleftrightarrow>
       (\<exists>path f b. (path, f) \<in> set (ms_files ms) \<and> ub_block_id u \<in> set (fi_blocks f) \<and>
          MS_GetBlock (ub_block_id u) ms = Some b \<and>
          length (filter (\<lambda>dn. dn \<in> alive) (bi_locations b)) < 3 \<and>
          u = \<lparr> ub_block_id = ub_block_id u, ub_current = int (length (filter (\<lambda>dn. dn \<in> alive) (bi_locations b))),
                ub_target = 3, ub_existing = filter (\<lambda>dn. dn \<in> alive) (bi_locations b),
                ub_dead = filter (\<lambda>dn. dn \<notin> alive) (bi_locations b) \<rparr>))"
  unfolding Let_def alive_set_eq [OF assms(2), symmetric]
proof (intro conjI allI)
  show "distinct (map ub_block_id (ScanUnderReplicated fwalk nwalk ms dm))"
    unfolding ScanUnderReplicated_def
    by (rule map_filter_distinct [OF first_visits_distinct]) (auto simp: scan_block_Some)
next
  fix u
  show "u \<in> set (ScanUnderReplicated fwalk nwalk ms dm) \<longleftrightarrow>
       (\<exists>path f b. (path, f) \<in> set (ms_files ms) \<and> ub_block_id u \<in> set (fi_blocks f) \<and>
          MS_GetBlock (ub_block_id u) ms = Some b \<and>
          length (filter (\<lambda>dn. dn \<in> alive_set nwalk dm) (bi_locations b)) < 3 \<and>
          u = \<lparr> ub_block_id = ub_block_id u, ub_current = int (length (filter (\<lambda>dn. dn \<in> alive_set nwalk dm) (bi_locations b))),
                ub_target = 3, ub_existing = filter (\<lambda>dn. dn \<in> alive_set nwalk dm) (bi_locations b),
                ub_dead = filter (\<lambda>dn. dn \<notin> alive_set nwalk dm) (bi_locations b) \<rparr>)"
    unfolding ScanUnderReplicated_set [OF assms(1)] scan_block_Some by (auto simp: kReplicationFactor_def)
qed

lemma walk_ok_same: "walk_ok (\<lambda>m. m)"
  by (simp add: walk_ok_def)

lemma under_replicated_scan_exact_witness:
  "\<exists>ms dm u. u \<in> set (ScanUnderReplicated (\<lambda>m. m) (\<lambda>m. m) ms dm) \<and> ub_block_id u = 1 \<and> ub_existing u = [lit ''n1:1'']"
proof -
  define ms where "ms = \<lparr> ms_files = [(lit ''f'', (empty_file (lit ''f'') 0)\<lparr> fi_blocks := [1] \<rparr>)],
    ms_blocks = [(1 :: u64, \<lparr> bi_id = 1, bi_size = 0, bi_locations = [lit ''n1:1''] \<rparr>)] \<rparr>"
  define dm :: dn_manager where "dm = [(lit ''n1:1'', \<lparr> di_id = lit ''n1:1'', di_host = [], di_port = 0, di_status = ALIVE,
    di_last_heartbeat = 0, di_free_space = 0, di_block_count = 0 \<rparr>)]"
  define u where "u = \<lparr> ub_block_id = 1, ub_current = 1, ub_target = 3, ub_existing = [lit ''n1:1''], ub_dead = [] \<rparr>"
  note t = under_replicated_scan_exact [OF walk_ok_same walk_ok_same, of ms dm, unfolded Let_def, THEN conjunct2, rule_format, of u]
  have "u \<in> set (ScanUnderReplicated (\<lambda>m. m) (\<lambda>m. m) ms dm)"
    unfolding t by (simp add: ms_def dm_def u_def MS_GetBlock_def)
  then show ?thesis by (intro exI [of _ ms] exI [of _ dm] exI [of _ u]) (simp add: u_def)
qed

subsection \<open>Repair\<close>

lemma data_node_read:
  assumes "dw_stores w ep \<noteq> None" "dq_op req = READ_BLOCK" "rd_offset (dq_read req) = 0" "rd_length (dq_read req) = 0"
  shows "\<exists>resp. data_node crc ep req w = Some (resp, w)"
  using assms by (auto simp: data_node_unfold [of crc ep] HandleConnection_def HandleReadBlock_def ReadBlock_def Let_def
      split: option.splits if_splits)

lemma data_node_write:
  assumes "dw_stores w ep \<noteq> None" "dq_op req = WRITE_BLOCK" "disk_ok (dw_disk w ep)"
  shows "\<exists>resp w1. data_node crc ep req w = Some (resp, w1) \<and> \<not> dp_success resp \<and> dw_disk w1 = dw_disk w"
  using assms by (auto simp: data_node_unfold [of crc ep] HandleConnection_def HandleWriteBlock_def HandlerWrite_def
      store_write_eq dn_resp_new_def)

lemma ask_cases:
  assumes "addr_ok a"
  obtains (bad) "ask crc a = (\<lambda>req w. Some (None, w))" | (node) ep where "ask crc a = exchange (data_node crc) ep"
proof (cases "split_colon a")
  case None
  then have "ask crc a = (\<lambda>req w. Some (None, w))" by (simp add: ask_def fun_eq_iff)
  then show thesis by (rule bad)
next
  case (Some hp)
  then obtain host p where hp: "split_colon a = Some (host, p)" by (cases hp) simp
  with assms obtain port where "stoi p = Some port" by (auto simp: addr_ok_def)
  with hp have "ask crc a = exchange (data_node crc) (host, word_of_int port)" by (simp add: ask_def fun_eq_iff)
  then show thesis by (rule node)
qed

lemma FetchBlock_returns:
  assumes "addr_ok source"
  shows "\<exists>d. FetchBlock crc source bid w = Some (d, w)"
proof -
  define req where "req = \<lparr> dq_op = READ_BLOCK, dq_request_id = bid, dq_write = no_write,
      dq_read = \<lparr> rd_block_id = bid, rd_offset = 0, rd_length = 0 \<rparr>, dq_delete = 0 \<rparr>"
  have "\<exists>r. exchange (data_node crc) ep req w = Some (r, w)" for ep
  proof (cases "dw_stores w ep = None \<or> dw_link w ep = Down")
    case False
    with data_node_read [of w ep req crc] obtain resp where "data_node crc ep req w = Some (resp, w)"
      by (auto simp: req_def)
    with False show ?thesis by (simp add: exchange_def)
  qed (simp add: exchange_def)
  then have "\<exists>r. ask crc source req w = Some (r, w)" by (cases rule: ask_cases [OF assms, of crc]) simp_all
  then show ?thesis by (auto simp: FetchBlock_def req_def [symmetric])
qed

lemma PushBlock_fails:
  assumes "addr_ok target" "\<forall>ep. disk_ok (dw_disk w ep)"
  shows "\<exists>w1. PushBlock crc target bid d w = Some (False, w1) \<and> dw_disk w1 = dw_disk w"
proof -
  define req where "req = \<lparr> dq_op = WRITE_BLOCK, dq_request_id = bid,
      dq_write = \<lparr> wq_block_id = bid, wq_data = d, wq_pipeline = [] \<rparr>, dq_read = no_read, dq_delete = 0 \<rparr>"
  have op: "dq_op req = WRITE_BLOCK" by (simp add: req_def)
  have ex: "\<exists>r w1. exchange (data_node crc) ep req w = Some (r, w1) \<and> dw_disk w1 = dw_disk w \<and>
      (case r of None \<Rightarrow> True | Some resp \<Rightarrow> \<not> dp_success resp)" for ep
  proof (cases "dw_stores w ep = None \<or> dw_link w ep = Down")
    case False
    then have "dw_stores w ep \<noteq> None" by simp
    from data_node_write [OF this op spec [OF assms(2)]]
    obtain resp w1 where "data_node crc ep req w = Some (resp, w1)" "\<not> dp_success resp" "dw_disk w1 = dw_disk w" by blast
    with False show ?thesis by (simp add: exchange_def)
  qed (simp add: exchange_def)
  have "\<exists>r w1. ask crc target req w = Some (r, w1) \<and> dw_disk w1 = dw_disk w \<and>
      (case r of None \<Rightarrow> True | Some resp \<Rightarrow> \<not> dp_success resp)"
    using ex by (cases rule: ask_cases [OF assms(1), of crc]) simp_all
  then obtain r w1 where r: "ask crc target req w = Some (r, w1)" "dw_disk w1 = dw_disk w"
      "case r of None \<Rightarrow> True | Some resp \<Rightarrow> \<not> dp_success resp" by blast
  from r(1) have "PushBlock crc target bid d w = Some (case r of None \<Rightarrow> False | Some resp \<Rightarrow> dp_success resp, w1)"
    by (simp add: PushBlock_def req_def [symmetric])
  with r(2,3) show ?thesis by (cases r) simp_all
qed

text \<open>The data do get there: the target holds what the source holds, only the answer says otherwise.\<close>

lemma Replicate_copies:
  assumes "ask crc (rt_source task) = exchange (data_node crc) src" "dw_stores (cl_world c) src = Some bs" "dw_link (cl_world c) src = Up"
    "holds_block crc bs (rt_block_id task) d"
    "ask crc (rt_target task) = exchange (data_node crc) dst" "dw_stores (cl_world c) dst = Some bs'" "dw_link (cl_world c) dst = Up"
    "disk_ok (dw_disk (cl_world c) dst)" "we_written (dw_disk (cl_world c) dst) = None"
  shows "\<exists>r c' bs''. Replicate crc task c = Some (r, c') \<and> \<not> rr_success r \<and> cl_meta c' = cl_meta c \<and>
    dw_stores (cl_world c') dst = Some bs'' \<and> holds_block crc bs'' (rt_block_id task) d"
proof -
  define w where "w = cl_world c"
  have "FetchBlock crc (rt_source task) (rt_block_id task) w = Some (Some d, w)"
    using assms(1-4) holds_block_read [OF assms(4), of 0 0]
    by (simp add: w_def FetchBlock_def exchange_def data_node_unfold [of crc src] HandleConnection_def HandleReadBlock_def
        slice_def dn_resp_new_def)
  moreover have "PushBlock crc (rt_target task) (rt_block_id task) d w =
      Some (False, w\<lparr> dw_stores := (dw_stores w)(dst \<mapsto> snd (WriteBlock crc (dw_now w) (dw_disk w dst) (rt_block_id task) d bs')) \<rparr>)"
    using assms(5-8)
    by (simp add: w_def PushBlock_def exchange_def data_node_unfold [of crc dst] HandleConnection_def HandleWriteBlock_def
        HandlerWrite_def store_write_eq dn_resp_new_def)
  moreover have "length d < 2 ^ 63" using assms(4) by (simp add: holds_block_def)
  ultimately show ?thesis using WriteBlock_holds [OF assms(8,9)] by (simp add: Replicate_def w_def)
qed

text \<open>What a repair leaves alone when the disks work.\<close>

definition unregistered :: "nn_cluster \<Rightarrow> nn_cluster \<Rightarrow> bool" where
  "unregistered c c' \<longleftrightarrow> cl_meta c' = cl_meta c \<and> cl_nodes c' = cl_nodes c \<and> cl_replicated c' = cl_replicated c \<and>
     cl_repaired c' = cl_repaired c \<and> cl_rounds c' = cl_rounds c \<and> dw_disk (cl_world c') = dw_disk (cl_world c)"

lemma unregistered_refl [simp]: "unregistered c c"
  by (simp add: unregistered_def)

lemma unregistered_trans: "unregistered c c' \<Longrightarrow> unregistered c' c'' \<Longrightarrow> unregistered c c''"
  by (simp add: unregistered_def)

lemma Replicate_fails:
  assumes "addr_ok (rt_source task)" "addr_ok (rt_target task)" "\<forall>ep. disk_ok (dw_disk (cl_world c) ep)"
  shows "\<exists>r c'. Replicate crc task c = Some (r, c') \<and> \<not> rr_success r \<and> unregistered c c'"
proof -
  obtain d where d: "FetchBlock crc (rt_source task) (rt_block_id task) (cl_world c) = Some (d, cl_world c)"
    using FetchBlock_returns [OF assms(1)] by blast
  show ?thesis
  proof (cases d)
    case None
    with d show ?thesis by (simp add: Replicate_def unregistered_def)
  next
    case (Some data)
    obtain w1 where "PushBlock crc (rt_target task) (rt_block_id task) data (cl_world c) = Some (False, w1)" "dw_disk w1 = dw_disk (cl_world c)"
      using PushBlock_fails [OF assms(2,3)] by blast
    with d Some show ?thesis by (simp add: Replicate_def unregistered_def)
  qed
qed

lemma replicate_all_fails:
  assumes "addr_ok source" "\<forall>a\<in>set targets. addr_ok a" "\<forall>ep. disk_ok (dw_disk (cl_world c) ep)"
  shows "\<exists>c'. replicate_all crc bid source targets c = Some (targets = [], c') \<and> unregistered c c'"
  using assms(2,3)
proof (induction targets arbitrary: c)
  case (Cons dn targets)
  obtain r c1 where r: "Replicate crc \<lparr> rt_block_id = bid, rt_source = source, rt_target = dn \<rparr> c = Some (r, c1)"
      "\<not> rr_success r" "unregistered c c1"
    using Replicate_fails [of "\<lparr> rt_block_id = bid, rt_source = source, rt_target = dn \<rparr>" c crc] assms(1) Cons.prems by auto
  then have "\<forall>ep. disk_ok (dw_disk (cl_world c1) ep)" using Cons.prems(2) by (simp add: unregistered_def)
  with Cons.IH [of c1] Cons.prems(1) obtain c2 where
      "replicate_all crc bid source targets c1 = Some (targets = [], c2)" "unregistered c1 c2" by auto
  with r unregistered_trans show ?case by auto
qed simp

lemma SelectTargetNodes_from:
  assumes "a \<in> set (SelectTargetNodes nwalk urb n dm)"
  shows "\<exists>i\<in>set (DM_GetAliveDataNodes nwalk dm). a = di_id i \<and> kBlockSize \<le> sint (di_free_space i) \<and>
    a \<notin> set (ub_existing urb) \<and> a \<notin> set (ub_dead urb)"
  using assms by (auto simp: SelectTargetNodes_def Let_def dest!: in_set_takeD)

lemma repair_block_fails:
  assumes "\<forall>a\<in>set (ub_existing urb). addr_ok a" "\<forall>i\<in>set (DM_GetAliveDataNodes nwalk (cl_nodes c)). addr_ok (di_id i)"
    "\<forall>ep. disk_ok (dw_disk (cl_world c) ep)"
  shows "\<exists>c'. repair_block crc nwalk urb c = Some (False, c') \<and> unregistered c c'"
proof (cases "ub_existing urb")
  case (Cons source more)
  define targets where "targets = SelectTargetNodes nwalk urb (ub_target urb - ub_current urb) (cl_nodes c)"
  have "\<forall>a\<in>set targets. addr_ok a" using SelectTargetNodes_from assms(2) by (fastforce simp: targets_def)
  then obtain c' where "replicate_all crc (ub_block_id urb) source targets c = Some (targets = [], c')" "unregistered c c'"
    using replicate_all_fails [of source targets c crc "ub_block_id urb"] assms(1,3) Cons by auto
  then show ?thesis by (auto simp: repair_block_def Cons Let_def targets_def [symmetric])
qed (simp add: repair_block_def)

lemma RepairUnderReplicated_fails:
  assumes "\<forall>urb\<in>set urbs. \<forall>a\<in>set (ub_existing urb). addr_ok a"
    "\<forall>i\<in>set (DM_GetAliveDataNodes nwalk (cl_nodes c)). addr_ok (di_id i)" "\<forall>ep. disk_ok (dw_disk (cl_world c) ep)"
  shows "\<exists>c'. RepairUnderReplicated crc nwalk urbs c = Some (0, c') \<and> unregistered c c'"
  using assms
proof (induction urbs arbitrary: c)
  case (Cons urb urbs)
  obtain c1 where c1: "repair_block crc nwalk urb c = Some (False, c1)" "unregistered c c1"
    using repair_block_fails [of urb nwalk c crc] Cons.prems by auto
  then have "cl_nodes c1 = cl_nodes c" "dw_disk (cl_world c1) = dw_disk (cl_world c)" by (simp_all add: unregistered_def)
  with Cons.IH [of c1] Cons.prems obtain c2 where
      "RepairUnderReplicated crc nwalk urbs c1 = Some (0, c2)" "unregistered c1 c2" by auto
  with c1 unregistered_trans show ?case by auto
qed simp

text \<open>
  C33: Repair and the inverted answer of the data nodes together.  When the disks of the data nodes work, a
  round of repair returns, but never records a replica: the block table, the number of replications and
  the number of repaired blocks are what they were before, however many blocks are under-replicated and
  whatever the network does.  So the same blocks are found again, and copied again, in every round.
\<close>

theorem repair_registers_nothing:
  assumes "walk_ok fwalk" "walk_ok nwalk" "\<forall>(k, i)\<in>set (cl_nodes c). addr_ok (di_id i)"
    "\<forall>ep. disk_ok (dw_disk (cl_world c) ep)"
  shows "\<exists>c'. RepairReplicas crc fwalk nwalk c = Some c' \<and> cl_meta c' = cl_meta c \<and>
    cl_replicated c' = cl_replicated c \<and> cl_repaired c' = cl_repaired c \<and>
    ScanUnderReplicated fwalk nwalk (cl_meta c') (cl_nodes c') = ScanUnderReplicated fwalk nwalk (cl_meta c) (cl_nodes c)"
proof -
  define urbs where "urbs = ScanUnderReplicated fwalk nwalk (cl_meta c) (cl_nodes c)"
  have alive: "\<forall>i\<in>set (DM_GetAliveDataNodes nwalk (cl_nodes c)). addr_ok (di_id i)"
    using assms(2,3) by (auto simp: DM_GetAliveDataNodes_def walk_ok_def)
  have "\<forall>urb\<in>set urbs. \<forall>a\<in>set (ub_existing urb). addr_ok a"
  proof (intro ballI)
    fix urb a
    assume "urb \<in> set urbs" "a \<in> set (ub_existing urb)"
    then have "a \<in> alive_set nwalk (cl_nodes c)"
      unfolding urbs_def ScanUnderReplicated_set [OF assms(1)] scan_block_Some by (cases urb) auto
    with alive show "addr_ok a" by (auto simp: alive_set_def)
  qed
  then obtain c' where "RepairUnderReplicated crc nwalk urbs c = Some (0, c')" "unregistered c c'"
    using RepairUnderReplicated_fails [of urbs nwalk c crc] alive assms(4) by blast
  then show ?thesis
    by (auto simp: RepairReplicas_def urbs_def [symmetric] unregistered_def Let_def)
qed

definition node_at :: "string \<Rightarrow> str \<times> datanode_info" where
  "node_at a = (lit a, \<lparr> di_id = lit a, di_host = [], di_port = 0, di_status = ALIVE, di_last_heartbeat = 0,
     di_free_space = 2 ^ 40, di_block_count = 0 \<rparr>)"

definition two_nodes :: nn_cluster where
  "two_nodes = \<lparr> cl_meta = \<lparr> ms_files = [(lit ''f'', (empty_file (lit ''f'') 0)\<lparr> fi_blocks := [1] \<rparr>)],
       ms_blocks = [(1, \<lparr> bi_id = 1, bi_size = 0, bi_locations = [lit ''n1:1''] \<rparr>)] \<rparr>,
     cl_nodes = [node_at ''n1:1'', node_at ''n2:1''], cl_world = one_node,
     cl_replicated = 0, cl_failed = 0, cl_rounds = 0, cl_repaired = 0 \<rparr>"

lemma repair_registers_nothing_witness:
  "\<exists>c'. RepairReplicas (\<lambda>_. 9) (\<lambda>m. m) (\<lambda>m. m) two_nodes = Some c' \<and> cl_replicated c' = 0 \<and>
     map ub_block_id (ScanUnderReplicated (\<lambda>m. m) (\<lambda>m. m) (cl_meta c') (cl_nodes c')) = [1]"
proof -
  have "addr_ok (lit ''n1:1'')" "addr_ok (lit ''n2:1'')" by code_simp+
  then have "\<forall>(k, i)\<in>set (cl_nodes two_nodes). addr_ok (di_id i)" by (simp add: two_nodes_def node_at_def)
  moreover have "\<forall>ep. disk_ok (dw_disk (cl_world two_nodes) ep)"
    by (simp add: two_nodes_def one_node_def disk_ok_def)
  moreover have "map ub_block_id (ScanUnderReplicated (\<lambda>m. m) (\<lambda>m. m) (cl_meta two_nodes) (cl_nodes two_nodes)) = [1]"
    by (simp add: two_nodes_def ScanUnderReplicated_def file_blocks_def MS_ListFiles_def starts_with_def scan_block_def
        MS_GetBlock_def List.map_filter_simps kReplicationFactor_def Let_def le_imp_less_Suc length_filter_le)
  ultimately show ?thesis using repair_registers_nothing [OF walk_ok_same walk_ok_same, of two_nodes "\<lambda>_. 9"]
    by (auto simp: two_nodes_def)
qed

text \<open>The checker reads past the end of a \<open>std::string\<close> object for a block of more than 32 bytes.\<close>

lemma check_reads_past_object:
  assumes "ask crc dn = exchange (data_node crc) ep" "dw_stores w ep = Some bs" "dw_link w ep = Up"
    "holds_block crc bs i d" "32 < length d"
  shows "CheckBlockOnDN crc object i dn ms w = None"
  using assms(2-) holds_block_read [OF assms(4), of 0 0]
  by (simp add: CheckBlockOnDN_def FetchAndVerify_def assms(1) exchange_def data_node_unfold [of crc ep]
      HandleConnection_def HandleReadBlock_def slice_def dn_resp_new_def ComputeCRC32_def sizeof_string_def)

end
