(* ===== verification/Heartbeats.thy ===== *)
theory Heartbeats
  imports NameNodeProps DataNodeClient
begin

text \<open>
  Failure detection: the heartbeat thread of a data node (\<open>datanode_datanode_client.cc\<close>), the health check
  of the name node (\<open>namenode_namenode_server.cc\<close>) and the loop of the fault detector
  (\<open>namenode_fault_detector.cc\<close>) as loops over a clock, and what the handlers of theory \<open>NameNode\<close> make of
  the requests and checks that arrive over time.  Times are milliseconds; how late a sleep ends, how long
  the work of a round takes and when the stop flag is seen are the environment's.
\<close>

subsection \<open>Threads that sleep and work\<close>

record clock =
  ck_stop :: "nat \<Rightarrow> bool"           \<comment> \<open>the stop flag, read at a time\<close>
  ck_sleep :: "nat \<Rightarrow> nat \<Rightarrow> nat"     \<comment> \<open>when a sleep of some length, begun at a time, is over\<close>
  ck_work :: "nat \<Rightarrow> nat"            \<comment> \<open>when the work begun at a time is done\<close>

text \<open>The wait in slices of 100 ms that both waiting loops have.\<close>

fun nap :: "clock \<Rightarrow> nat \<Rightarrow> nat \<Rightarrow> nat" where
  "nap k 0 t = t"
| "nap k (Suc n) t = (if ck_stop k t then t else nap k n (ck_sleep k 100 t))"

text \<open>
  The loops: for at most so many rounds from a time on, when the rounds begin their work, and when the
  thread ends; \<open>None\<close> if it is still running.
\<close>

fun sliced_loop :: "nat \<Rightarrow> clock \<Rightarrow> nat \<Rightarrow> nat \<Rightarrow> nat list \<times> nat option" where
  "sliced_loop slices k 0 t = ([], None)"
| "sliced_loop slices k (Suc n) t =
     (if ck_stop k t then ([], Some t)
      else let t1 = nap k slices t in
        if ck_stop k t1 then ([], Some t1)
        else let (hs, e) = sliced_loop slices k n (ck_work k t1) in (t1 # hs, e))"

definition HeartbeatLoop :: "clock \<Rightarrow> nat \<Rightarrow> nat \<Rightarrow> nat list \<times> nat option" where
  "HeartbeatLoop k n t = sliced_loop 30 k n t"

definition DetectLoop :: "nat \<Rightarrow> clock \<Rightarrow> nat \<Rightarrow> nat \<Rightarrow> nat list \<times> nat option" where
  "DetectLoop interval_sec k n t = sliced_loop (interval_sec * 10) k n t"

fun HealthCheckLoop :: "clock \<Rightarrow> nat \<Rightarrow> nat \<Rightarrow> nat list \<times> nat option" where
  "HealthCheckLoop k 0 t = ([], None)"
| "HealthCheckLoop k (Suc n) t =
     (if ck_stop k t then ([], Some t)
      else let t1 = ck_sleep k 5000 t in
        if \<not> ck_stop k t1 then let (hs, e) = HealthCheckLoop k n (ck_work k t1) in (t1 # hs, e)
        else HealthCheckLoop k n t1)"

text \<open>Sleeps last as long as asked and at most \<open>late\<close> longer, work at most \<open>busy\<close>.\<close>

definition punctual :: "nat \<Rightarrow> nat \<Rightarrow> clock \<Rightarrow> bool" where
  "punctual late busy k \<longleftrightarrow> (\<forall>ms t. t + ms \<le> ck_sleep k ms t \<and> ck_sleep k ms t \<le> t + ms + late) \<and>
     (\<forall>t. t \<le> ck_work k t \<and> ck_work k t \<le> t + busy)"

lemma punctualD:
  assumes "punctual late busy k"
  shows "t + ms \<le> ck_sleep k ms t" "ck_sleep k ms t \<le> t + ms + late" "t \<le> ck_work k t" "ck_work k t \<le> t + busy"
  using assms by (auto simp: punctual_def)

lemma nap_bounds:
  assumes "punctual late busy k"
  shows "t \<le> nap k n t \<and> nap k n t \<le> t + n * (100 + late) \<and> (\<not> ck_stop k (nap k n t) \<longrightarrow> t + n * 100 \<le> nap k n t)"
proof (induction n arbitrary: t)
  case (Suc n)
  show ?case using punctualD(1,2) [OF assms, where ms = 100 and t = t] Suc [of "ck_sleep k 100 t"] by auto
qed simp

definition stopped_from :: "nat \<Rightarrow> clock \<Rightarrow> bool" where
  "stopped_from T k \<longleftrightarrow> (\<forall>t. ck_stop k t \<longleftrightarrow> T \<le> t)"

lemma nap_stops:
  assumes "punctual late busy k" "stopped_from T k" "t \<le> T"
  shows "nap k n t \<le> T + 100 + late"
  using assms(3)
proof (induction n arbitrary: t)
  case (Suc n)
  show ?case
  proof (cases "ck_sleep k 100 t \<le> T")
    case True
    from Suc.IH [OF this] Suc.prems show ?thesis by simp
  next
    case False
    then have "nap k n (ck_sleep k 100 t) = ck_sleep k 100 t" using assms(2) by (cases n) (auto simp: stopped_from_def)
    with punctualD(2) [OF assms(1), of 100 t] Suc.prems show ?thesis by simp
  qed
qed simp

text \<open>
  What the loops have in common: \<open>wait\<close> is where the wait of a round ends, at least \<open>lo\<close> and at most \<open>hi\<close>
  after its beginning, and \<open>slack\<close> is how long a wait goes on after the stop.
\<close>

locale waiting_loop =
  fixes loop :: "clock \<Rightarrow> nat \<Rightarrow> nat \<Rightarrow> nat list \<times> nat option"
    and wait :: "clock \<Rightarrow> nat \<Rightarrow> nat" and lo :: nat and hi slack :: "nat \<Rightarrow> nat"
  assumes lo: "0 < lo"
    and no_rounds: "loop k 0 t = ([], None)"
    and at_rest: "ck_stop k t \<Longrightarrow> loop k (Suc n) t = ([], Some t)"
    and round: "\<not> ck_stop k t \<Longrightarrow> \<not> ck_stop k (wait k t) \<Longrightarrow>
      loop k (Suc n) t = (wait k t # fst (loop k n (ck_work k (wait k t))), snd (loop k n (ck_work k (wait k t))))"
    and leaves: "\<not> ck_stop k t \<Longrightarrow> ck_stop k (wait k t) \<Longrightarrow> loop k (Suc (Suc n)) t = ([], Some (wait k t))"
    and waits: "punctual late busy k \<Longrightarrow> \<not> ck_stop k (wait k t) \<Longrightarrow> t + lo \<le> wait k t"
    and wakes: "punctual late busy k \<Longrightarrow> wait k t \<le> t + hi late"
    and wakes_to_stop: "punctual late busy k \<Longrightarrow> stopped_from T k \<Longrightarrow> t \<le> T \<Longrightarrow> wait k t \<le> T + slack late"
begin

lemma covers:
  assumes p: "punctual late busy k"
    and "\<And>u. u \<le> l + hi late + 2 * busy \<Longrightarrow> \<not> ck_stop k u"
    and "t \<le> l + busy" "l + busy < t + lo * n"
  shows "\<exists>h\<in>set (fst (loop k n t)). l < h \<and> ck_work k h \<le> l + hi late + 2 * busy"
  using assms(2-)
proof (induction n arbitrary: t)
  case (Suc n)
  define h where "h = wait k t"
  have h: "h \<le> t + hi late" unfolding h_def by (rule wakes [OF p])
  then have s: "\<not> ck_stop k h" "\<not> ck_stop k t" using Suc.prems(1,2) by simp_all
  then have lo: "t + lo \<le> h" unfolding h_def by (intro waits [OF p])
  have r: "fst (loop k (Suc n) t) = h # fst (loop k n (ck_work k h))" using round s by (simp add: h_def)
  show ?case
  proof (cases "l < h")
    case True
    then show ?thesis using r h Suc.prems(2) punctualD(4) [OF p, of h] by force
  next
    case False
    have "\<exists>h'\<in>set (fst (loop k n (ck_work k h))). l < h' \<and> ck_work k h' \<le> l + hi late + 2 * busy"
      using Suc.prems(3) lo False punctualD(3,4) [OF p, of h] by (intro Suc.IH Suc.prems(1)) simp_all
    then show ?thesis by (auto simp: r)
  qed
qed simp

lemma stops:
  assumes p: "punctual late busy k" and s: "stopped_from T k" and "t \<le> T + busy" "T + busy + 1 < t + n"
  shows "\<exists>hs e. loop k n t = (hs, Some e) \<and> (\<forall>h\<in>set hs. h < T) \<and> e \<le> T + max (slack late) busy"
  using assms(3,4)
proof (induction n arbitrary: t)
  case (Suc n)
  show ?case
  proof (cases "T \<le> t")
    case True
    then show ?thesis using at_rest [of k t n] s Suc.prems by (auto simp: stopped_from_def)
  next
    case False
    then obtain m where n: "n = Suc m" using Suc.prems by (cases n) auto
    define h where "h = wait k t"
    have t: "\<not> ck_stop k t" using s False by (simp add: stopped_from_def)
    show ?thesis
    proof (cases "ck_stop k h")
      case True
      with leaves [OF t, of m] wakes_to_stop [OF p s, of t] False n show ?thesis by (auto simp: h_def)
    next
      case h: False
      then have "h < T" "t + lo \<le> h" using s waits [OF p, of t] by (auto simp: stopped_from_def h_def)
      then obtain hs e where "loop k n (ck_work k h) = (hs, Some e)" "\<forall>h\<in>set hs. h < T" "e \<le> T + max (slack late) busy"
        using Suc.IH [of "ck_work k h"] punctualD(3,4) [OF p, of h] lo Suc.prems by fastforce
      with round [OF t, of n] h \<open>h < T\<close> show ?thesis by (auto simp: h_def)
    qed
  qed
qed simp

end

lemma sliced_waiting:
  assumes "0 < slices"
  shows "waiting_loop (sliced_loop slices) (\<lambda>k. nap k slices) (slices * 100) (\<lambda>late. slices * (100 + late)) (\<lambda>late. 100 + late)"
proof
  show "sliced_loop slices k (Suc n) t = (nap k slices t # fst (sliced_loop slices k n (ck_work k (nap k slices t))),
      snd (sliced_loop slices k n (ck_work k (nap k slices t))))"
    if "\<not> ck_stop k t" "\<not> ck_stop k (nap k slices t)" for k n t
    using that by (simp add: Let_def case_prod_beta)
qed (use assms nap_bounds nap_stops in \<open>auto simp: Let_def add.assoc\<close>)

interpretation heartbeat: waiting_loop HeartbeatLoop "\<lambda>k. nap k 30" 3000 "\<lambda>late. 30 * (100 + late)" "\<lambda>late. 100 + late"
  using sliced_waiting [of 30] by (simp add: HeartbeatLoop_def [abs_def])

interpretation detector: waiting_loop "DetectLoop 15" "\<lambda>k. nap k 150" 15000 "\<lambda>late. 150 * (100 + late)" "\<lambda>late. 100 + late"
  using sliced_waiting [of 150] by (simp add: DetectLoop_def [abs_def])

interpretation health: waiting_loop HealthCheckLoop "\<lambda>k. ck_sleep k 5000" 5000 "\<lambda>late. 5000 + late" "\<lambda>late. 5000 + late"
proof
  show "HealthCheckLoop k (Suc n) t = (ck_sleep k 5000 t # fst (HealthCheckLoop k n (ck_work k (ck_sleep k 5000 t))),
      snd (HealthCheckLoop k n (ck_work k (ck_sleep k 5000 t))))"
    if "\<not> ck_stop k t" "\<not> ck_stop k (ck_sleep k 5000 t)" for k n t
    using that by (simp add: Let_def case_prod_beta)
  show "ck_sleep k 5000 t \<le> T + (5000 + late)" if "punctual late busy k" "stopped_from T k" "t \<le> T" for late busy k T t
    using punctualD(2) [OF that(1), of 5000 t] that(3) by simp
  show "ck_sleep k 5000 t \<le> t + (5000 + late)" if "punctual late busy k" for late busy k t
    using punctualD(2) [OF that, of 5000 t] by simp
qed (use punctualD(1) in \<open>auto simp: Let_def\<close>)

subsection \<open>The name node over time\<close>

text \<open>What reaches the name node, with its time: a request (with the fate of its log write), or a health check.\<close>

datatype input = Asked "nat option" nn_request | Checked

fun nn_input :: "file_walk \<Rightarrow> node_walk \<Rightarrow> (nn_request \<Rightarrow> str option) \<Rightarrow> nat \<times> input \<Rightarrow> namenode \<Rightarrow> namenode" where
  "nn_input fwalk nwalk ser (t, Asked wr req) s = snd (handle_request fwalk nwalk ser (word_of_nat t) wr req s)"
| "nn_input fwalk nwalk ser (t, Checked) s = health_check (word_of_nat t) s"

definition contact :: "str \<Rightarrow> input \<Rightarrow> bool" where
  "contact dn x \<longleftrightarrow> (case x of Checked \<Rightarrow> False
     | Asked wr req \<Rightarrow> (rq_op req = REGISTER_DN \<and> rg_datanode_id (rq_register req) = dn) \<or>
                      (rq_op req = HEARTBEAT \<and> hb_datanode_id (rq_heartbeat req) = dn))"

text \<open>The specification: the time of the last contact, and of the last check since.\<close>

fun watch :: "str \<Rightarrow> (nat \<times> input) list \<Rightarrow> nat \<times> nat \<Rightarrow> nat \<times> nat" where
  "watch dn [] lc = lc"
| "watch dn ((t, x) # xs) (l, c) =
     watch dn xs (if contact dn x then (t, t) else if x = Checked then (l, t) else (l, c))"

definition judged :: "nat \<Rightarrow> nat \<Rightarrow> dn_status" where
  "judged l c = (if 30000 < c - l then DEAD else if 10000 < c - l then SUSPECT else ALIVE)"

definition seen :: "str \<Rightarrow> nat \<Rightarrow> dn_status \<Rightarrow> namenode \<Rightarrow> bool" where
  "seen dn l st s \<longleftrightarrow> (\<exists>info. DM_GetDataNode dn (nn_nodes s) = Some info \<and> di_last_heartbeat info = word_of_nat l \<and> di_status info = st)"

lemma sint_elapsed:
  assumes "l \<le> t" "t < 2 ^ 63"
  shows "sint (word_of_nat t - word_of_nat l :: s64) = int t - int l"
proof -
  have "(word_of_nat t - word_of_nat l :: s64) = word_of_nat (t - l)" using assms(1) by (simp add: of_nat_diff)
  then show ?thesis using assms sint_length [of "t - l"] by simp
qed

lemma check_node_judged:
  assumes "l \<le> c" "c \<le> t" "t < 2 ^ 63" "di_last_heartbeat i = word_of_nat l" "di_status i = judged l c"
  shows "di_last_heartbeat (check_node (word_of_nat t) i) = word_of_nat l" "di_status (check_node (word_of_nat t) i) = judged l t"
  using assms sint_elapsed [of l t] by (auto simp: check_node_def kHeartbeatTimeoutSec_def judged_def Let_def)

lemma request_nodes:
  "rq_op req \<notin> {REGISTER_DN, HEARTBEAT} \<Longrightarrow> nn_nodes (snd (handle_request fwalk nwalk ser now wr req s)) = nn_nodes s"
  by (cases "rq_op req") (auto simp: handle_request_def HandleCreateFile_def HandleAllocateBlock_def HandleDeleteFile_def
      HandleBlockReport_def log_request_def Let_def case_prod_beta split: option.split sum.split)

lemma seen_input:
  assumes "seen dn l (judged l c) s" "l \<le> c" "c \<le> t" "t < 2 ^ 63" "watch dn [(t, x)] (l, c) = (l', c')"
  shows "seen dn l' (judged l' c') (nn_input fwalk nwalk ser (t, x) s) \<and> l' \<le> c' \<and> c' \<le> t"
proof (cases x)
  case Checked
  then show ?thesis using assms check_node_judged [OF assms(2-4)]
    by (auto simp: contact_def seen_def DM_GetDataNode_def health_check_def DM_CheckDataNodeHealth_def map_of_map split: if_splits)
next
  case (Asked wr req)
  show ?thesis
  proof (cases "rq_op req \<in> {REGISTER_DN, HEARTBEAT}")
    case True
    then show ?thesis using assms Asked
      by (auto simp: contact_def seen_def judged_def DM_GetDataNode_def handle_request_def HandleRegisterDN_def HandleHeartbeat_def
          DM_RegisterDataNode_def DM_HandleHeartbeat_def Let_def update_conv' split: option.splits if_splits)
  next
    case False
    then have "nn_nodes (snd (handle_request fwalk nwalk ser (word_of_nat t) wr req s)) = nn_nodes s"
      by (rule request_nodes)
    with False show ?thesis using assms Asked by (auto simp: contact_def seen_def split: if_splits)
  qed
qed

lemma seen_inputs:
  assumes "seen dn l (judged l c) s" "l \<le> c" "sorted (c # map fst xs)" "\<forall>(t, x)\<in>set xs. t < 2 ^ 63" "watch dn xs (l, c) = (l', c')"
  shows "seen dn l' (judged l' c') (fold (nn_input fwalk nwalk ser) xs s)"
  using assms
proof (induction xs arbitrary: l c s)
  case (Cons e xs)
  obtain t x where e: "e = (t, x)" by (cases e)
  obtain l1 c1 where lc: "watch dn [(t, x)] (l, c) = (l1, c1)" by fastforce
  have *: "seen dn l1 (judged l1 c1) (nn_input fwalk nwalk ser (t, x) s) \<and> l1 \<le> c1 \<and> c1 \<le> t"
    using Cons.prems e lc by (intro seen_input) auto
  have "watch dn xs (l1, c1) = (l', c')" using Cons.prems(5) lc by (simp add: e split: if_splits)
  moreover have "sorted (c1 # map fst xs)" using Cons.prems(3) * by (auto simp: e)
  ultimately have "seen dn l' (judged l' c') (fold (nn_input fwalk nwalk ser) xs (nn_input fwalk nwalk ser (t, x) s))"
    using * Cons.prems(4) by (intro Cons.IH [of l1 c1]) auto
  then show ?case by (simp add: e)
qed simp

text \<open>No contact is later than the last one, and no check since it later than the last check.\<close>

lemma watch_last:
  assumes "watch dn xs (l, c) = (l', c')" "l \<le> c" "sorted (c # map fst xs)"
  shows "l \<le> l' \<and> c \<le> c' \<and> l' \<le> c' \<and> (c' = l' \<or> c' = c \<or> c' \<in> fst ` set xs) \<and> (l' = l \<or> (\<exists>x. (l', x) \<in> set xs \<and> contact dn x)) \<and>
    (\<forall>(t, x)\<in>set xs. (contact dn x \<longrightarrow> t \<le> l') \<and> (x = Checked \<longrightarrow> t \<le> c'))"
  using assms
proof (induction xs arbitrary: l c)
  case (Cons e xs)
  obtain t x where e: "e = (t, x)" by (cases e)
  define l1 c1 where lc: "l1 = (if contact dn x then t else l)" "c1 = (if contact dn x \<or> x = Checked then t else c)"
  have "watch dn xs (l1, c1) = (l', c')" using Cons.prems(1) by (auto simp: e lc split: if_splits)
  moreover have "l1 \<le> c1" "sorted (c1 # map fst xs)" using Cons.prems(2,3) by (auto simp: e lc)
  ultimately have "l1 \<le> l' \<and> c1 \<le> c' \<and> l' \<le> c' \<and> (c' = l' \<or> c' = c1 \<or> c' \<in> fst ` set xs) \<and> (l' = l1 \<or> (\<exists>x. (l', x) \<in> set xs \<and> contact dn x)) \<and>
    (\<forall>(t, x)\<in>set xs. (contact dn x \<longrightarrow> t \<le> l') \<and> (x = Checked \<longrightarrow> t \<le> c'))" and "c1 = c \<or> c1 = t" "l1 = l \<or> (l1 = t \<and> contact dn x)"
    by (rule Cons.IH) (auto simp: lc)
  moreover have "l \<le> l1" "c \<le> c1" "contact dn x \<Longrightarrow> t = l1" "x = Checked \<Longrightarrow> t = c1" using Cons.prems(2,3) by (auto simp: e lc)
  ultimately show ?case by (auto simp: e lc split: if_splits)
qed simp

text \<open>
  What the name node believes of a data node.  Let the data node be registered at time \<open>t0\<close>, and let
  any requests (of anybody) and health checks follow in the order of time, before the clock reaches
  \<open>2 ^ 63\<close> ms.  At every moment the name node still knows the data node, with the time of its last
  contact (heartbeat or registration), and believes it alive, suspect or dead exactly if the last check since then came
  at most 10 seconds, at most 30 seconds, or later after it.
\<close>

theorem node_status_exact:
  assumes "DM_GetDataNode dn (nn_nodes s) = Some info" "di_status info = ALIVE" "di_last_heartbeat info = word_of_nat t0"
    and "sorted (t0 # map fst xs)" "\<forall>(t, x)\<in>set xs. t < 2 ^ 63"
  shows "\<exists>info'. DM_GetDataNode dn (nn_nodes (fold (nn_input fwalk nwalk ser) xs s)) = Some info' \<and>
    (case watch dn xs (t0, t0) of (l, c) \<Rightarrow> di_last_heartbeat info' = word_of_nat l \<and> di_status info' = judged l c)"
proof -
  obtain l c where lc: "watch dn xs (t0, t0) = (l, c)" by fastforce
  have "seen dn t0 (judged t0 t0) s" using assms(1-3) by (auto simp: seen_def judged_def)
  from seen_inputs [OF this order_refl assms(4,5) lc] show ?thesis by (auto simp: seen_def lc)
qed

subsection \<open>The threads and the name node together\<close>

text \<open>Every round of a loop that is over by \<open>T\<close> has brought the name node an input of the kind.\<close>

definition brings :: "clock \<Rightarrow> nat list \<Rightarrow> nat \<Rightarrow> (input \<Rightarrow> bool) \<Rightarrow> (nat \<times> input) list \<Rightarrow> bool" where
  "brings k hs T kind xs \<longleftrightarrow> (\<forall>h\<in>set hs. ck_work k h \<le> T \<longrightarrow> (\<exists>(a, x)\<in>set xs. h \<le> a \<and> a \<le> ck_work k h \<and> kind x))"

lemma SendHeartbeat_contacts:
  assumes "l \<noteq> Down"
  shows "\<exists>req. contact dn (Asked wr req) \<and>
    snd (SendHeartbeat (handle_request fwalk nwalk ser (word_of_nat t) wr) l dn free_space names bs s) = nn_input fwalk nwalk ser (t, Asked wr req) s"
  using assms
  by (auto simp: SendHeartbeat_def SendToNameNode_def contact_def nn_request_new_def Let_def case_prod_beta empty_heartbeat_def
      intro!: exI [of _ "(nn_request_new HEARTBEAT 3)\<lparr> rq_heartbeat := empty_heartbeat\<lparr> hb_datanode_id := dn, hb_free_space := free_space,
        hb_block_count := scast (word_of_nat (length (ListAllBlocks names bs)) :: s32) \<rparr> \<rparr>"])

text \<open>
  C13: the failure detector is accurate and complete.  Let a data node be registered at \<open>t0\<close>, and look at
  the name node at \<open>T\<close>, after any further requests (of anybody) and checks.  If the heartbeat thread has
  been running since \<open>t0\<close>, its heartbeats get through, and lateness of a sleep and duration of a round satisfy
  \<open>30 * late + 2 * busy \<le> 7000\<close> ms, then the data node is believed alive, no matter when the checks come.
  If, on the other hand, nothing came from it after \<open>l\<close> and the health check thread has been running since,
  then from 35 seconds (and the lateness of the check) after \<open>l\<close> on it is believed dead.
\<close>

theorem failure_detector_correct:
  assumes "DM_GetDataNode dn (nn_nodes s) = Some info" "di_status info = ALIVE" "di_last_heartbeat info = word_of_nat t0"
    and "sorted (t0 # map fst xs)" "\<forall>(t, x)\<in>set xs. t \<le> T" "T < 2 ^ 63"
    and "punctual late busy k" "\<forall>u. u \<le> T \<longrightarrow> \<not> ck_stop k u"
  shows "\<exists>i. DM_GetDataNode dn (nn_nodes (fold (nn_input fwalk nwalk ser) xs s)) = Some i \<and>
    (30 * late + 2 * busy \<le> 7000 \<and> brings k (fst (HeartbeatLoop k T t0)) T (contact dn) xs \<longrightarrow> di_status i = ALIVE) \<and>
    (t1 \<le> l \<and> t0 \<le> l \<and> l + 35000 + late + 2 * busy \<le> T \<and> (\<forall>(t, x)\<in>set xs. contact dn x \<longrightarrow> t \<le> l) \<and>
     brings k (fst (HealthCheckLoop k T t1)) T (\<lambda>x. x = Checked) xs \<longrightarrow> di_status i = DEAD)"
proof -
  obtain l' c where lc: "watch dn xs (t0, t0) = (l', c)" by fastforce
  have "seen dn t0 (judged t0 t0) s" using assms(1-3) by (auto simp: seen_def judged_def)
  from seen_inputs [OF this order_refl assms(4) _ lc] assms(5,6)
  obtain i where i: "DM_GetDataNode dn (nn_nodes (fold (nn_input fwalk nwalk ser) xs s)) = Some i" "di_status i = judged l' c"
    by (fastforce simp: seen_def)
  note w = watch_last [OF lc order_refl assms(4)]
  show ?thesis
  proof (intro exI [of _ i] conjI impI i(1))
    assume a: "30 * late + 2 * busy \<le> 7000 \<and> brings k (fst (HeartbeatLoop k T t0)) T (contact dn) xs"
    have "c \<le> l' + 10000"
    proof (rule ccontr)
      assume n: "\<not> c \<le> l' + 10000"
      then have T: "l' + 30 * (100 + late) + 2 * busy \<le> T" "0 < T" using w a assms(5) by auto
      then obtain h where "h \<in> set (fst (HeartbeatLoop k T t0))" "l' < h" "ck_work k h \<le> T"
        using heartbeat.covers [OF assms(7), of l' t0 T] w assms(8) by fastforce
      then obtain b x where "(b, x) \<in> set xs" "h \<le> b" "contact dn x" using a unfolding brings_def by blast
      with w \<open>l' < h\<close> show False by fastforce
    qed
    then show "di_status i = ALIVE" by (simp add: i judged_def)
  next
    assume a: "t1 \<le> l \<and> t0 \<le> l \<and> l + 35000 + late + 2 * busy \<le> T \<and> (\<forall>(t, x)\<in>set xs. contact dn x \<longrightarrow> t \<le> l) \<and>
      brings k (fst (HealthCheckLoop k T t1)) T (\<lambda>x. x = Checked) xs"
    then have T: "(l + 30000) + (5000 + late) + 2 * busy \<le> T" "0 < T" by simp_all
    then obtain h where "h \<in> set (fst (HealthCheckLoop k T t1))" "l + 30000 < h" "ck_work k h \<le> T"
      using health.covers [OF assms(7), of "l + 30000" t1 T] a assms(8) by fastforce
    then obtain b where "(b, Checked) \<in> set xs" "h \<le> b" using a unfolding brings_def by blast
    then have "l + 30000 < c" using w \<open>l + 30000 < h\<close> by fastforce
    moreover have "l' \<le> l" using w a by auto
    ultimately show "di_status i = DEAD" by (simp add: i judged_def)
  qed
qed

subsection \<open>A data node outlives the name node's memory of it\<close>

text \<open>
  The heartbeat thread with what it does to the name node: in a round it calls \<open>SendHeartbeat\<close> and only
  prints when that fails.  What a round meets is the environment's: the requests of others and the
  health checks since the last round, the fate of its connection, the disk and the block store.
\<close>

record beat_env =
  be_others :: "(nat \<times> input) list"
  be_link :: link
  be_free_space :: s64
  be_names :: "str list"
  be_blocks :: block_store

definition heartbeat_round ::
    "file_walk \<Rightarrow> node_walk \<Rightarrow> (nn_request \<Rightarrow> str option) \<Rightarrow> (nat \<Rightarrow> beat_env) \<Rightarrow> str \<Rightarrow> nat \<Rightarrow> bool list \<times> namenode \<Rightarrow> bool list \<times> namenode" where
  "heartbeat_round fwalk nwalk ser env dn t x =
     (let (answers, s) = x; e = env t;
          s1 = fold (nn_input fwalk nwalk ser) (be_others e) s;
          (ok, s2) = SendHeartbeat (handle_request fwalk nwalk ser (word_of_nat t) None) (be_link e) dn
                       (be_free_space e) (be_names e) (be_blocks e) s1
      in (answers @ [ok], s2))"

fun sliced_run :: "nat \<Rightarrow> clock \<Rightarrow> (nat \<Rightarrow> 's \<Rightarrow> 's) \<Rightarrow> nat \<Rightarrow> nat \<Rightarrow> 's \<Rightarrow> (nat list \<times> nat option) \<times> 's" where
  "sliced_run slices k body 0 t x = (([], None), x)"
| "sliced_run slices k body (Suc n) t x =
     (if ck_stop k t then (([], Some t), x)
      else let t1 = nap k slices t in
        if ck_stop k t1 then (([], Some t1), x)
        else let ((hs, e), x') = sliced_run slices k body n (ck_work k t1) (body t1 x) in ((t1 # hs, e), x'))"

definition HeartbeatLoop_run ::
    "file_walk \<Rightarrow> node_walk \<Rightarrow> (nn_request \<Rightarrow> str option) \<Rightarrow> (nat \<Rightarrow> beat_env) \<Rightarrow> str \<Rightarrow> clock \<Rightarrow> nat \<Rightarrow> nat \<Rightarrow> namenode \<Rightarrow>
     (nat list \<times> nat option) \<times> bool list \<times> namenode" where
  "HeartbeatLoop_run fwalk nwalk ser env dn k n t s = sliced_run 30 k (heartbeat_round fwalk nwalk ser env dn) n t ([], s)"

text \<open>The rounds of the run begin when those of \<open>HeartbeatLoop\<close> do.\<close>

lemma sliced_run_times: "fst (sliced_run slices k body n t x) = sliced_loop slices k n t"
proof (induction n arbitrary: t x)
  case (Suc n)
  have "fst (sliced_run slices k body n u (body v x)) = sliced_loop slices k n u" for u v by (rule Suc)
  then show ?case by (simp add: Let_def case_prod_beta prod_eq_iff)
qed simp

lemma HeartbeatLoop_run_times: "fst (HeartbeatLoop_run fwalk nwalk ser env dn k n t s) = HeartbeatLoop k n t"
  by (simp add: HeartbeatLoop_run_def HeartbeatLoop_def sliced_run_times)

text \<open>A name node to which a data node is unknown, and what keeps it so.\<close>

definition unknown :: "str \<Rightarrow> dn_manager \<Rightarrow> bool" where
  "unknown dn dm \<longleftrightarrow> (\<forall>(n, i) \<in> set dm. n \<noteq> dn \<and> di_id i \<noteq> dn)"

lemma unknown_not_found: "unknown dn dm \<Longrightarrow> DM_GetDataNode dn dm = None"
  by (force simp: unknown_def DM_GetDataNode_def map_of_eq_None_iff)

lemma unknown_no_candidate:
  assumes "unknown dn dm" "walk_ok walk"
  shows "dn \<notin> di_id ` set (DM_GetAliveDataNodes walk dm)"
proof -
  have "set (walk dm) = set dm" using assms(2) by (simp add: walk_ok_def)
  with assms(1) show ?thesis by (force simp: DM_GetAliveDataNodes_def unknown_def)
qed

lemma unknown_update: "unknown dn dm \<Longrightarrow> n \<noteq> dn \<Longrightarrow> di_id i \<noteq> dn \<Longrightarrow> unknown dn (AList.update n i dm)"
  by (induction dm) (auto simp: unknown_def)

text \<open>An input that does not register the data node.\<close>

fun foreign :: "str \<Rightarrow> input \<Rightarrow> bool" where
  "foreign dn Checked \<longleftrightarrow> True"
| "foreign dn (Asked wr req) \<longleftrightarrow> (rq_op req = REGISTER_DN \<longrightarrow> rg_datanode_id (rq_register req) \<noteq> dn)"

lemma unknown_request:
  assumes u: "unknown dn (nn_nodes s)" and f: "foreign dn (Asked wr req)"
  shows "unknown dn (nn_nodes (snd (handle_request fwalk nwalk ser now wr' req s)))"
proof (cases "rq_op req \<in> {REGISTER_DN, HEARTBEAT}")
  case True
  have known: "n \<noteq> dn \<and> di_id i \<noteq> dn" if "map_of (nn_nodes s) n = Some i" for n i
    using u map_of_SomeD [OF that] by (auto simp: unknown_def)
  from True show ?thesis
  proof (elim insertE emptyE)
    assume "rq_op req = REGISTER_DN"
    with f show ?thesis
      by (auto simp: handle_request_def HandleRegisterDN_def DM_RegisterDataNode_def Let_def intro!: unknown_update [OF u])
  next
    assume h: "rq_op req = HEARTBEAT"
    show ?thesis
    proof (cases "map_of (nn_nodes s) (hb_datanode_id (rq_heartbeat req))")
      case None
      with h u show ?thesis by (simp add: handle_request_def HandleHeartbeat_def DM_HandleHeartbeat_def Let_def del: map_of_eq_None_iff)
    next
      case (Some i)
      from known [OF Some] h show ?thesis
        by (auto simp: handle_request_def HandleHeartbeat_def DM_HandleHeartbeat_def Let_def Some simp del: map_of_eq_Some_iff
            intro!: unknown_update [OF u])
    qed
  qed
next
  case False
  from request_nodes [OF this] u show ?thesis by simp
qed

lemma unknown_input:
  assumes u: "unknown dn (nn_nodes s)" and f: "foreign dn x"
  shows "unknown dn (nn_nodes (nn_input fwalk nwalk ser (t, x) s))"
proof (cases x)
  case (Asked wr req)
  with unknown_request [OF u] f show ?thesis by simp
next
  case Checked
  have "di_id (check_node now i) = di_id i" for now i by (simp add: check_node_def Let_def)
  with u Checked show ?thesis by (auto simp: health_check_def DM_CheckDataNodeHealth_def unknown_def)
qed

lemma unknown_inputs:
  "unknown dn (nn_nodes s) \<Longrightarrow> \<forall>(t, x)\<in>set xs. foreign dn x \<Longrightarrow> unknown dn (nn_nodes (fold (nn_input fwalk nwalk ser) xs s))"
proof (induction xs arbitrary: s)
  case (Cons e xs)
  obtain t x where e: "e = (t, x)" by (cases e)
  have "unknown dn (nn_nodes (nn_input fwalk nwalk ser (t, x) s))" using Cons.prems by (intro unknown_input) (auto simp: e)
  with Cons show ?case by (simp add: e)
qed simp

text \<open>What \<open>SendHeartbeat\<close> makes of a name node that does not know the data node.\<close>

lemma SendHeartbeat_unknown:
  assumes "unknown dn (nn_nodes s)"
  shows "fst (SendHeartbeat (handle_request fwalk nwalk ser now wr) l dn free_space names bs s) = False"
    and "unknown dn (nn_nodes (snd (SendHeartbeat (handle_request fwalk nwalk ser now wr) l dn free_space names bs s)))"
proof -
  have n: "map_of (nn_nodes s) dn = None" using unknown_not_found [OF assms] by (simp only: DM_GetDataNode_def)
  show "fst (SendHeartbeat (handle_request fwalk nwalk ser now wr) l dn free_space names bs s) = False"
    using n by (simp add: SendHeartbeat_def SendToNameNode_def nn_request_new_def handle_request_def HandleHeartbeat_def empty_heartbeat_def
        DM_HandleHeartbeat_def accepted_def resp_fail_def resp_new_def Let_def del: map_of_eq_None_iff)
  show "unknown dn (nn_nodes (snd (SendHeartbeat (handle_request fwalk nwalk ser now wr) l dn free_space names bs s)))"
    using assms unknown_request [OF assms] by (auto simp: SendHeartbeat_def SendToNameNode_def nn_request_new_def Let_def case_prod_beta)
qed

lemma heartbeat_round_unknown:
  assumes "unknown dn (nn_nodes s)" "\<forall>(u, x)\<in>set (be_others (env t)). foreign dn x"
    and "heartbeat_round fwalk nwalk ser env dn t (answers, s) = (answers', s')"
  shows "answers' = answers @ [False] \<and> unknown dn (nn_nodes s')"
proof -
  define s1 where "s1 = fold (nn_input fwalk nwalk ser) (be_others (env t)) s"
  have "unknown dn (nn_nodes s1)" unfolding s1_def by (rule unknown_inputs [OF assms(1,2)])
  from SendHeartbeat_unknown [OF this] assms(3) show ?thesis
    by (auto simp: heartbeat_round_def Let_def s1_def [symmetric] case_prod_beta)
qed

lemma sliced_run_unknown:
  assumes "unknown dn (nn_nodes s)" "\<forall>t. \<forall>(u, x)\<in>set (be_others (env t)). foreign dn x"
    and "sliced_run slices k (heartbeat_round fwalk nwalk ser env dn) n t (answers, s) = ((hs, e), answers', s')"
  shows "answers' = answers @ replicate (length hs) False \<and> unknown dn (nn_nodes s')"
  using assms(1,3)
proof (induction n arbitrary: t answers s hs)
  case (Suc n)
  let ?h = "nap k slices t"
  show ?case
  proof (cases "ck_stop k t \<or> ck_stop k ?h")
    case True
    with Suc.prems show ?thesis by (auto simp: Let_def split: if_splits)
  next
    case False
    obtain answers1 s1 where r: "heartbeat_round fwalk nwalk ser env dn ?h (answers, s) = (answers1, s1)"
      by (cases "heartbeat_round fwalk nwalk ser env dn ?h (answers, s)")
    then have 1: "answers1 = answers @ [False]" "unknown dn (nn_nodes s1)"
      using heartbeat_round_unknown [OF Suc.prems(1) spec [OF assms(2)] r] by simp_all
    from False Suc.prems(2) obtain hs1 where hs: "hs = ?h # hs1"
      "sliced_run slices k (heartbeat_round fwalk nwalk ser env dn) n (ck_work k ?h) (answers1, s1) = ((hs1, e), answers', s')"
      by (auto simp: r Let_def case_prod_beta prod_eq_iff)
    from Suc.IH [OF 1(2) hs(2)] show ?thesis by (simp add: hs(1) 1(1))
  qed
qed simp

text \<open>
  C31: a restarted name node does not get its data nodes back.  Let the name node be constructed anew while
  the heartbeat thread of a data node runs on, with any clock and connection, for any number of rounds, and
  with any checks and requests of others in between, of which none registers under this data node's id.
  Every heartbeat fails, and the data node stays unknown and is no candidate for a block: what the loop
  does after a failed heartbeat never registers it again.
\<close>

theorem restart_orphans_data_nodes:
  assumes "NameNodeServer_new parse now data_dir old can_open = Inr s"
    and "\<forall>t. \<forall>(u, x)\<in>set (be_others (env t)). foreign dn x"
    and "HeartbeatLoop_run fwalk nwalk ser env dn k n t s = ((rounds, ended), answers, s')"
  shows "answers = replicate (length rounds) False \<and> DM_GetDataNode dn (nn_nodes s') = None \<and>
    (\<forall>walk. walk_ok walk \<longrightarrow> dn \<notin> di_id ` set (DM_GetAliveDataNodes walk (nn_nodes s')))"
proof -
  have "unknown dn (nn_nodes s)" using assms(1) by (auto simp: NameNodeServer_new_def unknown_def split: sum.splits)
  from sliced_run_unknown [OF this assms(2) assms(3) [unfolded HeartbeatLoop_run_def]] show ?thesis
    using unknown_not_found unknown_no_candidate by auto
qed

subsection \<open>The listening thread of a data node\<close>

text \<open>
  \<open>DataNodeServer::ListenLoop\<close>: \<open>None\<close> is an \<open>accept\<close> that fails, \<open>stopped\<close> the stop flag before it; the
  result is the connections that get a thread of their own.
\<close>

fun accept_loop :: "(bool \<times> nat option) list \<Rightarrow> nat list" where
  "accept_loop [] = []"
| "accept_loop ((stopped, client_fd) # rest) =
     (if stopped then [] else case client_fd of None \<Rightarrow> [] | Some fd \<Rightarrow> fd # accept_loop rest)"

definition ListenLoop :: "bool \<Rightarrow> (bool \<times> nat option) list \<Rightarrow> nat list" where
  "ListenLoop bound accepts = (if \<not> bound then [] else accept_loop accepts)"

text \<open>\<open>DataNodeServer::Start\<close>: its result, whether the listening thread was started, and the name node.\<close>

definition DataNodeServer_Start ::
    "(nn_request \<Rightarrow> namenode \<Rightarrow> nn_response \<times> namenode) \<Rightarrow> link \<Rightarrow> link \<Rightarrow> str \<Rightarrow> nat \<Rightarrow> s64 \<Rightarrow> str list \<Rightarrow> block_store \<Rightarrow> namenode \<Rightarrow>
     (bool \<times> bool \<times> namenode) option" where
  "DataNodeServer_Start server l1 l2 host port free_space names bs s = do {
     (ok, s1) \<leftarrow> DataNodeClient_Start server l1 l2 (DataNodeServer_id host port) free_space names bs s;
     if \<not> ok then Some (False, False, s1) else Some (True, True, s1) }"

text \<open>
  One failed \<open>accept\<close> ends the service, and without a port it never begins; the heartbeats go on, so that
  the name node takes the node for alive all the same.
\<close>

lemma accept_error_ends_service: "accept_loop (xs @ (b, None) # ys) = accept_loop xs"
  by (induction xs) (auto split: option.split)

lemma ListenLoop_serves: "bound \<Longrightarrow> ListenLoop bound (map (\<lambda>fd. (False, Some fd)) fds) = fds"
  by (induction fds) (simp_all add: ListenLoop_def)

definition steady :: clock where
  "steady = \<lparr> ck_stop = (\<lambda>_. False), ck_sleep = (\<lambda>ms t. t + ms), ck_work = (\<lambda>t. t) \<rparr>"

definition fresh_nn :: namenode where
  "fresh_nn = \<lparr> nn_meta = MetadataStore_new, nn_blocks = BlockManager_new, nn_nodes = [], nn_log = \<lparr> el_file = [], el_ok = True \<rparr> \<rparr>"

definition beat_of :: "str \<Rightarrow> nn_request" where
  "beat_of dn = (nn_request_new HEARTBEAT 3)\<lparr> rq_heartbeat := empty_heartbeat\<lparr> hb_datanode_id := dn \<rparr> \<rparr>"

definition joined :: namenode where
  "joined = snd (handle_request (\<lambda>m. m) (\<lambda>m. m) (\<lambda>_. None) 100 None
     ((nn_request_new REGISTER_DN 1)\<lparr> rq_register := empty_register\<lparr> rg_datanode_id := [110] \<rparr> \<rparr>) fresh_nn)"

lemma joined_node:
  "\<exists>i. DM_GetDataNode [110] (nn_nodes joined) = Some i \<and> di_status i = ALIVE \<and> di_last_heartbeat i = word_of_nat 100"
  by (simp add: joined_def handle_request_def nn_request_new_def HandleRegisterDN_def DM_RegisterDataNode_def DM_GetDataNode_def
      fresh_nn_def empty_register_def)

text \<open>A beat at 3.1 s, then nothing; the checks at 5 s, 15 s and 40 s.\<close>

lemma node_status_exact_witness:
  "\<exists>info'. DM_GetDataNode [110] (nn_nodes (fold (nn_input (\<lambda>m. m) (\<lambda>m. m) (\<lambda>_. None))
      [(3100, Asked None (beat_of [110])), (5100, Checked), (15100, Checked), (40100, Checked)] joined)) = Some info' \<and>
    di_last_heartbeat info' = 3100 \<and> di_status info' = DEAD"
proof -
  obtain i where i: "DM_GetDataNode [110] (nn_nodes joined) = Some i" "di_status i = ALIVE" "di_last_heartbeat i = word_of_nat 100"
    using joined_node by blast
  show ?thesis
    using node_status_exact [OF i, of "[(3100, Asked None (beat_of [110])), (5100, Checked), (15100, Checked), (40100, Checked)]"
        "\<lambda>m. m" "\<lambda>m. m" "\<lambda>_. None"]
    by (simp add: contact_def beat_of_def nn_request_new_def empty_heartbeat_def judged_def)
qed

lemma failure_detector_correct_witness:
  "\<exists>i. DM_GetDataNode [110] (nn_nodes (fold (nn_input (\<lambda>m. m) (\<lambda>m. m) (\<lambda>_. None))
      (map (\<lambda>n. (100 + 5000 * n, Checked)) [1, 2, 3, 4, 5, 6, 7, 8]) joined)) = Some i \<and> di_status i = DEAD"
proof -
  obtain i where i: "DM_GetDataNode [110] (nn_nodes joined) = Some i" "di_status i = ALIVE" "di_last_heartbeat i = word_of_nat 100"
    using joined_node by blast
  define xs :: "(nat \<times> input) list" where "xs = map (\<lambda>n. (100 + 5000 * n, Checked)) [1, 2, 3, 4, 5, 6, 7, 8]"
  have p: "punctual 0 0 steady" "\<forall>u. u \<le> 40100 \<longrightarrow> \<not> ck_stop steady u" by (simp_all add: punctual_def steady_def)
  have h: "h \<le> 40100 \<longrightarrow> (h, Checked) \<in> set xs" if "h \<in> set (fst (HealthCheckLoop steady n 100))" for n h
  proof -
    have "\<exists>m. 0 < m \<and> h = 100 + 5000 * (j + m)" if "h \<in> set (fst (HealthCheckLoop steady n (100 + 5000 * j)))" for j
      using that
    proof (induction n arbitrary: j)
      case (Suc n)
      show ?case
      proof (cases "h = 100 + 5000 * (j + 1)")
        case False
        have "h \<in> set (fst (HealthCheckLoop steady n (100 + 5000 * (j + 1))))"
          using Suc.prems False by (simp add: steady_def Let_def case_prod_beta algebra_simps)
        from Suc.IH [OF this] obtain m where "h = 100 + 5000 * (j + 1 + m)" by blast
        then show ?thesis by (intro exI [of _ "m + 1"]) simp
      qed (auto intro: exI [of _ 1])
    qed simp
    from this [of 0] that obtain m where m: "0 < m" "h = 100 + 5000 * m" by auto
    have "m \<in> {1, 2, 3, 4, 5, 6, 7, 8}" if "m \<le> 8" using that m(1) by auto
    then show ?thesis using m by (auto simp: xs_def)
  qed
  have b: "brings steady (fst (HealthCheckLoop steady 40100 100)) 40100 (\<lambda>x. x = Checked) xs"
    unfolding brings_def using h by (fastforce simp: steady_def)
  have "sorted (100 # map fst xs)" "\<forall>(t, x)\<in>set xs. t \<le> 40100" "\<forall>(t, x)\<in>set xs. contact [110] x \<longrightarrow> t \<le> 100"
    by (auto simp: xs_def contact_def)
  from failure_detector_correct [OF i this(1,2) _ p, of "\<lambda>m. m" "\<lambda>m. m" "\<lambda>_. None" 100 100] this(3) b
  show ?thesis by (auto simp: xs_def)
qed

text \<open>Ten rounds of a data node that can reach the name node, with a check before each.\<close>

definition plain_env :: "nat \<Rightarrow> beat_env" where
  "plain_env t = \<lparr> be_others = [(t, Checked)], be_link = Up, be_free_space = 0, be_names = [],
     be_blocks = \<lparr> bs_data_dir = [], bs_files = (\<lambda>_. None) \<rparr> \<rparr>"

lemma restart_orphans_data_nodes_witness:
  "\<exists>s s' rounds ended. NameNodeServer_new (\<lambda>_. None) 0 [100] [] True = Inr s \<and>
    HeartbeatLoop_run (\<lambda>m. m) (\<lambda>m. m) (\<lambda>_. None) plain_env [110] steady 10 0 s = ((rounds, ended), replicate 10 False, s') \<and>
    DM_GetDataNode [110] (nn_nodes s') = None"
proof -
  obtain s where s: "NameNodeServer_new (\<lambda>_. None) 0 [100] [] True = Inr s"
    by (auto simp: NameNodeServer_new_def EditLog_open_def)
  obtain rounds ended answers s' where run: "HeartbeatLoop_run (\<lambda>m. m) (\<lambda>m. m) (\<lambda>_. None) plain_env [110] steady 10 0 s = ((rounds, ended), answers, s')"
    by (metis prod.exhaust)
  have "\<forall>t. \<forall>(u, x)\<in>set (be_others (plain_env t)). foreign [110] x" by (simp add: plain_env_def)
  from restart_orphans_data_nodes [OF s this run] have "answers = replicate (length rounds) False" "DM_GetDataNode [110] (nn_nodes s') = None" by auto
  moreover have "length (fst (sliced_loop m steady n t)) = n" for m n t
    by (induction n arbitrary: t) (auto simp: steady_def Let_def case_prod_beta)
  then have "length rounds = 10" using run HeartbeatLoop_run_times [of "\<lambda>m. m" "\<lambda>m. m" "\<lambda>_. None" plain_env "[110]" steady 10 0 s]
    by (metis HeartbeatLoop_def fst_conv)
  ultimately show ?thesis using s run by auto
qed

end
