(* ===== verification/Answers.thy ===== *)
theory Answers
  imports HANameNode DataNode NameNodeProps
begin

text \<open>
  What a client may rely on when it reads an answer.  A \<open>NameNodeResponse\<close> and a \<open>DataNodeResponse\<close> carry
  the results of all operations side by side, and every handler fills in its own part; the inductive
  predicates \<open>answers\<close> and \<open>dn_answers\<close> give each operation the form of its answers, as a typing judgement
  does, and both name nodes and the data node are shown to send no other.
\<close>

subsection \<open>The name nodes\<close>

definition plain :: "nn_response \<Rightarrow> bool" where
  "plain r \<longleftrightarrow> rs_allocate r = None \<and> rs_blocks r = None \<and> rs_list r = None"

inductive answers :: "nn_op \<Rightarrow> nn_response \<Rightarrow> bool" where
  refused: "\<not> rs_success r \<Longrightarrow> rs_error r \<noteq> [] \<Longrightarrow> plain r \<Longrightarrow> answers op r"
| acknowledged: "op \<in> {CREATE_FILE, DELETE_FILE, REGISTER_DN, HEARTBEAT, BLOCK_REPORT} \<Longrightarrow>
    rs_success r \<Longrightarrow> rs_error r = [] \<Longrightarrow> plain r \<Longrightarrow> answers op r"
| allocated: "rs_success r \<Longrightarrow> rs_error r = [] \<Longrightarrow> rs_allocate r = Some a \<Longrightarrow> al_success a \<Longrightarrow>
    rs_blocks r = None \<Longrightarrow> rs_list r = None \<Longrightarrow> answers ALLOCATE_BLOCK r"
| blocks: "rs_success r \<Longrightarrow> rs_error r = [] \<Longrightarrow> rs_blocks r = Some b \<Longrightarrow> gb_success b \<Longrightarrow>
    rs_allocate r = None \<Longrightarrow> rs_list r = None \<Longrightarrow> answers GET_FILE_BLOCKS r"
| listed: "rs_success r \<Longrightarrow> rs_error r = [] \<Longrightarrow> rs_list r = Some (True, fs) \<Longrightarrow>
    rs_allocate r = None \<Longrightarrow> rs_blocks r = None \<Longrightarrow> answers LIST_FILES r"

inductive_cases answers_allocate: "answers ALLOCATE_BLOCK r"
inductive_cases answers_blocks: "answers GET_FILE_BLOCKS r"
inductive_cases answers_unknown: "answers UNKNOWN_OP r"

lemma answers_id [simp]: "answers op (r\<lparr> rs_request_id := i \<rparr>) \<longleftrightarrow> answers op r"
proof
  assume "answers op (r\<lparr> rs_request_id := i \<rparr>)"
  then show "answers op r" by cases (auto intro: answers.intros simp: plain_def)
next
  assume "answers op r"
  then show "answers op (r\<lparr> rs_request_id := i \<rparr>)" by cases (auto intro: answers.intros simp: plain_def)
qed

lemma answers_fail [simp, intro]: "msg \<noteq> [] \<Longrightarrow> answers op (resp_fail msg)"
  by (rule refused) (simp_all add: resp_fail_def resp_new_def plain_def)

lemma answers_done [simp, intro]:
  "op \<in> {CREATE_FILE, DELETE_FILE, REGISTER_DN, HEARTBEAT, BLOCK_REPORT} \<Longrightarrow> answers op (resp_new\<lparr> rs_success := True \<rparr>)"
  by (rule acknowledged) (simp_all add: resp_new_def plain_def)

lemma answers_allocated [simp, intro]:
  "al_success a \<Longrightarrow> answers ALLOCATE_BLOCK (resp_new\<lparr> rs_success := True, rs_allocate := Some a \<rparr>)"
  by (rule allocated) (simp_all add: resp_new_def)

lemma answers_located [simp, intro]:
  "gb_success b \<Longrightarrow> answers GET_FILE_BLOCKS (resp_new\<lparr> rs_success := True, rs_blocks := Some b \<rparr>)"
  by (rule blocks) (simp_all add: resp_new_def)

lemma answers_listed [simp, intro]: "answers LIST_FILES (resp_new\<lparr> rs_success := True, rs_list := Some (True, fs) \<rparr>)"
  by (rule listed) (simp_all add: resp_new_def)

lemma lit_append: "s \<noteq> [] \<Longrightarrow> lit s @ xs \<noteq> []" and lit_nonempty: "s \<noteq> [] \<Longrightarrow> lit s \<noteq> []"
  by (simp_all add: lit_def)

lemmas handler_defs = HandleCreateFile_def HandleGetFileBlocks_def HandleDeleteFile_def HandleListFiles_def
  HandleRegisterDN_def HandleHeartbeat_def HandleBlockReport_def

lemma allocate_answers: "answers ALLOCATE_BLOCK (fst (HandleAllocateBlock walk path now s))"
proof -
  have "e \<noteq> []" if "AllocateBlock nodes bm = Inl e" for nodes bm e
    using that by (auto simp: AllocateBlock_def Let_def lit_nonempty split: if_splits prod.splits)
  then show ?thesis
    by (auto simp: HandleAllocateBlock_def Let_def lit_append lit_nonempty split: sum.split option.split)
qed

lemma handle_request_answers: "answers (rq_op req) (fst (handle_request fwalk nwalk ser now wr req s))"
  using allocate_answers [of nwalk]
  by (auto simp: handle_request_def handler_defs Let_def lit_append lit_nonempty split: nn_op.split prod.split option.split)

lemma write_response_answers:
  "answers (rq_op req) (write_response req ms)"
  by (auto simp: write_response_def Let_def lit_append lit_nonempty split: nn_op.split option.split)

lemma ProposeWrite_answers:
  "ProposeWrite walk ser parse parse_snap rpc now wakeups later req s = Some (r, s') \<Longrightarrow> answers (rq_op req) r"
  by (auto simp: ProposeWrite_def Let_def lit_append lit_nonempty bind_eq_Some_conv write_response_answers split: if_splits option.splits)

lemma HA_handle_request_answers:
  assumes "HA_handle_request fwalk nwalk ser parse parse_snap rpc now wakeups later req s = Some (r, s')"
  shows "answers (rq_op req) r"
proof (cases "rq_op req \<in> {CREATE_FILE, DELETE_FILE, ALLOCATE_BLOCK}")
  case True
  with assms have "ProposeWrite nwalk ser parse parse_snap rpc now wakeups later req s = Some (r, s')"
    by (auto simp: HA_handle_request_def)
  then show ?thesis by (rule ProposeWrite_answers)
next
  case False
  then show ?thesis using assms
    by (cases "rq_op req")
      (auto simp: HA_handle_request_def HA_HandleGetFileBlocks_def HA_HandleListFiles_def HA_HandleRegisterDN_def
        HA_HandleHeartbeat_def HA_HandleBlockReport_def Let_def lit_append lit_nonempty split: option.splits prod.splits if_splits)
qed

lemma name_node_answers_typed:
  "(case fst (ProcessRequest fwalk nwalk ser parse now wr data s) of
      None \<Rightarrow> parse data = None
    | Some r \<Rightarrow> \<exists>req. parse data = Some req \<and> rs_request_id r = rq_request_id req \<and> answers (rq_op req) r) \<and>
   (case ProcessClientRequest fwalk nwalk ser parse parse_snap rpc now wakeups later data h of
      None \<Rightarrow> True
    | Some (None, _) \<Rightarrow> parse data = None
    | Some (Some r, _) \<Rightarrow> \<exists>req. parse data = Some req \<and> rs_request_id r = rq_request_id req \<and> answers (rq_op req) r)"
proof (cases "parse data")
  case (Some req)
  have "answers (rq_op req) r" if "HA_handle_request fwalk nwalk ser parse parse_snap rpc now wakeups later req h = Some (r, h')" for r h'
    using that by (rule HA_handle_request_answers)
  then show ?thesis using Some handle_request_answers [of req fwalk nwalk ser now wr s]
    by (auto simp: ProcessRequest_def ProcessClientRequest_def case_prod_beta bind_eq_Some_conv split: option.split)
qed (simp add: ProcessRequest_def ProcessClientRequest_def)

subsection \<open>The data node\<close>

inductive dn_answers :: "dn_op \<Rightarrow> dn_response \<Rightarrow> bool" where
  wrote: "dp_write r = Some wr \<Longrightarrow> dp_success r = wp_success wr \<Longrightarrow> dp_error r = wp_error wr \<Longrightarrow>
    dp_success r \<longleftrightarrow> dp_error r = [] \<Longrightarrow> dp_read r = None \<Longrightarrow> dn_answers WRITE_BLOCK r"
| got: "dp_success r \<Longrightarrow> dp_error r = [] \<Longrightarrow> dp_read r = Some rr \<Longrightarrow> rp_success rr \<Longrightarrow> dp_write r = None \<Longrightarrow>
    dn_answers READ_BLOCK r"
| deleted: "dp_error r = [] \<Longrightarrow> dp_read r = None \<Longrightarrow> dp_write r = None \<Longrightarrow> dn_answers DELETE_BLOCK r"
| denied: "op \<in> {READ_BLOCK, UNKNOWN_DN_OP} \<Longrightarrow> \<not> dp_success r \<Longrightarrow> dp_error r \<noteq> [] \<Longrightarrow>
    dp_read r = None \<Longrightarrow> dp_write r = None \<Longrightarrow> dn_answers op r"

lemma dn_answers_id [simp]: "dn_answers op r \<Longrightarrow> dn_answers op (r\<lparr> dp_request_id := i \<rparr>)"
  by (erule dn_answers.cases) (auto intro: dn_answers.intros)

lemma HandlerWrite_answers:
  assumes "HandlerWrite crc deliver self q w = Some (r, w')"
  shows "wp_success r \<longleftrightarrow> wp_error r = []"
  using assms
  by (cases "wq_pipeline q")
    (auto simp: HandlerWrite_def Let_def lit_append lit_nonempty bind_eq_Some_conv case_prod_beta simp del: append_is_Nil_conv
      split: if_splits)

lemma HandleWriteBlock_answers:
  "HandleWriteBlock crc deliver self q w = Some (r, w') \<Longrightarrow> dn_answers WRITE_BLOCK r"
  by (auto simp: HandleWriteBlock_def bind_eq_Some_conv dn_resp_new_def HandlerWrite_answers intro!: wrote)

lemma HandleReadBlock_answers:
  assumes "HandleReadBlock crc q bs = Some r"
  shows "dn_answers READ_BLOCK r"
proof -
  obtain d where d: "ReadBlock crc (rd_block_id q) (rd_offset q) (rd_length q) bs = Some d"
    and r: "r = (case d of
       Some data \<Rightarrow> dn_resp_new\<lparr> dp_success := True, dp_read := Some \<lparr> rp_success = True, rp_data = data \<rparr> \<rparr>
     | None \<Rightarrow> dn_resp_new\<lparr> dp_success := False, dp_error := lit ''Block not found or read error'' \<rparr>)"
    using assms by (auto simp: HandleReadBlock_def bind_eq_Some_conv)
  show ?thesis
  proof (cases d)
    case None
    show ?thesis by (rule denied) (simp_all add: r None dn_resp_new_def lit_nonempty)
  next
    case (Some data)
    show ?thesis by (rule got [of _ "\<lparr> rp_success = True, rp_data = data \<rparr>"]) (simp_all add: r Some dn_resp_new_def)
  qed
qed

lemma HandleConnection_answers:
  assumes "HandleConnection crc deliver self req w = Some (r, w')"
  shows "dp_request_id r = dq_request_id req \<and> dn_answers (dq_op req) r"
proof -
  have "dn_answers DELETE_BLOCK (dn_resp_new\<lparr> dp_success := ok \<rparr>)" for ok
    by (rule deleted) (simp_all add: dn_resp_new_def)
  moreover have "dn_answers UNKNOWN_DN_OP (dn_resp_new\<lparr> dp_success := False, dp_error := lit ''Unknown op'' \<rparr>)"
    by (rule denied) (simp_all add: dn_resp_new_def lit_nonempty)
  ultimately show ?thesis using assms
    by (cases "dq_op req")
      (auto simp: HandleConnection_def HandleDeleteBlock_def Let_def bind_eq_Some_conv case_prod_beta
        dest: HandleWriteBlock_answers HandleReadBlock_answers split: option.splits)
qed

lemma data_node_answers_typed:
  "case data_node crc ep req w of None \<Rightarrow> True | Some (r, w') \<Rightarrow> dp_request_id r = dq_request_id req \<and> dn_answers (dq_op req) r"
  using HandleConnection_answers [of crc "data_node crc" ep req w] by (auto simp: data_node_unfold [of crc ep] split: option.split)

text \<open>
  C19: every answer has the type of its request.  The two name nodes answer exactly the requests that can be
  parsed, with the id of the request; whatever the state, the answer to an operation is either a refusal
  (an error text, and no result) or a success without an error text whose result is the one of that
  operation: a block for an allocation, a file's blocks, a listing, and nothing for the others; an unknown
  operation is always refused.  The replicated name node sends the same types whether or not it leads and
  whatever becomes of the proposal.  A data node answers a write with the result of the pipeline, which is
  a failure exactly when it has an error text; a read with data and no error text or the other way round;
  a deletion with neither; and refuses an unknown operation, whatever disks, links and other nodes do.
  (The outer \<open>None\<close> of the last two is undefined behaviour or an exception, and there is no answer then.)
\<close>

theorem answers_are_typed:
  "(case fst (ProcessRequest fwalk nwalk ser parse now wr data s) of
      None \<Rightarrow> parse data = None
    | Some r \<Rightarrow> \<exists>req. parse data = Some req \<and> rs_request_id r = rq_request_id req \<and> answers (rq_op req) r) \<and>
   (case ProcessClientRequest fwalk nwalk ser parse parse_snap rpc now wakeups later data h of
      None \<Rightarrow> True
    | Some (None, _) \<Rightarrow> parse data = None
    | Some (Some r, _) \<Rightarrow> \<exists>req. parse data = Some req \<and> rs_request_id r = rq_request_id req \<and> answers (rq_op req) r) \<and>
   (case data_node crc ep dreq w of
      None \<Rightarrow> True
    | Some (r, w') \<Rightarrow> dp_request_id r = dq_request_id dreq \<and> dn_answers (dq_op dreq) r)"
  using conjI [OF name_node_answers_typed data_node_answers_typed] by (simp only: conj_assoc)

end
