(* ===== verification/Net.thy ===== *)
theory Net
  imports EditLog
begin

text \<open>
  Messages on the wire.  \<open>src/src/net/net_io_helpers.h\<close> is the blocking side (\<open>SendMsg\<close>, \<open>RecvMsg\<close>),
  \<open>src/src/net/net_tcp_connection.cc\<close> the event-driven one (\<open>TcpConnection\<close>); both use the frame of theory
  \<open>EditLog\<close>.  What each \<open>read\<close> and \<open>write\<close> returns is an argument.  The event loop that calls the
  handlers is not modelled: any sequence of calls is allowed.
\<close>

subsection \<open>net\_io\_helpers.h\<close>

text \<open>
  \<open>ws\<close>: what the calls of \<open>write\<close> return, the last \<open>[]\<close> being a failure; a call writes no more than it is
  given.  The result: the bytes written, the returns not used, and the \<open>bool\<close> of the source.
\<close>

fun WriteAll :: "int list \<Rightarrow> str \<Rightarrow> str \<times> int list \<times> bool" where
  "WriteAll ws [] = ([], ws, True)"
| "WriteAll [] p = ([], [], False)"
| "WriteAll (w # ws) p =
     (if w \<le> 0 then ([], ws, False)
      else let (out, ws1, ok) = WriteAll ws (drop (nat w) p) in (take (nat w) p @ out, ws1, ok))"

text \<open>\<open>s\<close> is what the peer has sent.\<close>

fun ReadAll :: "int list \<Rightarrow> nat \<Rightarrow> str \<Rightarrow> str \<times> int list \<times> str \<times> bool" where
  "ReadAll rs 0 s = ([], rs, s, True)"
| "ReadAll [] n s = ([], [], s, False)"
| "ReadAll (r # rs) n s =
     (if r \<le> 0 \<or> s = [] then ([], rs, s, False)
      else let k = min (min (nat r) n) (length s);
               (buf, rs1, s1, ok) = ReadAll rs (n - k) (drop k s) in (take k s @ buf, rs1, s1, ok))"

definition SendMsg :: "int list \<Rightarrow> str \<Rightarrow> str \<times> bool" where
  "SendMsg ws data =
     (let (out1, ws1, ok1) = WriteAll ws (htonl_bytes (word_of_nat (length data)))
      in if \<not> ok1 then (out1, False) else let (out2, _, ok2) = WriteAll ws1 data in (out1 @ out2, ok2))"

definition RecvMsg :: "int list \<Rightarrow> str \<Rightarrow> str option \<times> str" where
  "RecvMsg rs s =
     (let (buf, rs1, s1, ok1) = ReadAll rs 4 s
      in if \<not> ok1 then (None, s1)
         else case ntohl_bytes buf of
                None \<Rightarrow> (None, s1)
              | Some len \<Rightarrow> let (data, _, s2, ok2) = ReadAll rs1 (unat len) s1
                            in (if ok2 then Some data else None, s2))"

lemma WriteAll_ok: "WriteAll ws p = (out, ws1, True) \<Longrightarrow> out = p"
  by (induction ws p arbitrary: out ws1 rule: WriteAll.induct) (auto split: if_splits prod.splits)

lemma ReadAll_ok: "ReadAll rs n s = (buf, rs1, s1, True) \<Longrightarrow> length buf = n \<and> s = buf @ s1"
proof (induction rs n s arbitrary: buf rs1 s1 rule: ReadAll.induct)
  case (3 r rs n s)
  define k where "k = min (min (nat r) (Suc n)) (length s)"
  obtain buf' rs' s' where rec: "ReadAll rs (Suc n - k) (drop k s) = (buf', rs', s', True)"
      "buf = take k s @ buf'" "s1 = s'" "\<not> (r \<le> 0 \<or> s = [])"
    using 3(2) by (auto simp: Let_def k_def split: if_splits prod.splits)
  from 3(1) [OF rec(4) k_def rec(1)]
  have "length buf' = Suc n - k" "drop k s = buf' @ s'" by auto
  moreover have "k \<le> Suc n" "k \<le> length s" by (simp_all add: k_def)
  ultimately show ?case using rec(2,3) by (metis append_assoc append_take_drop_id length_append length_take le_add_diff_inverse min.absorb2)
qed auto

text \<open>What \<open>SendMsg\<close> says it sent, \<open>RecvMsg\<close> delivers if it says so, whatever the calls return.\<close>

lemma SendMsg_frame: "SendMsg ws data = (out, True) \<Longrightarrow> out = frame data"
  by (auto simp: SendMsg_def frame_def Let_def split: prod.splits if_splits dest!: WriteAll_ok)

lemma RecvMsg_frame:
  assumes "RecvMsg rs (frame data @ rest) = (Some data', rest')" "frame_valid data"
  shows "data' = data \<and> rest' = rest"
proof -
  obtain buf rs1 s1 where 1: "ReadAll rs 4 (frame data @ rest) = (buf, rs1, s1, True)"
    using assms(1) by (auto simp: RecvMsg_def Let_def split: prod.splits if_splits)
  from ReadAll_ok [OF this] have "length buf = 4" "frame data @ rest = buf @ s1" by auto
  then have buf: "buf = htonl_bytes (word_of_nat (length data))" "s1 = data @ rest" by (auto simp: frame_def append_eq_append_conv)
  then have "ntohl_bytes buf = Some (word_of_nat (length data))" using ntohl_htonl [of _ "[]"] by simp
  then obtain d rs2 s2 where 2: "ReadAll rs1 (length data) (data @ rest) = (d, rs2, s2, True)" "data' = d" "rest' = s2"
    using assms 1 buf by (auto simp: RecvMsg_def Let_def split: prod.splits if_splits)
  from ReadAll_ok [OF 2(1)] show ?thesis unfolding 2(2,3) by (metis append_eq_append_conv)
qed

subsection \<open>TcpConnection\<close>

record tcp_connection =
  tc_read_buf :: str
  tc_write_buf :: str
  tc_reading :: bool
  tc_writing :: bool
  tc_closed :: bool

definition TcpConnection_Start :: tcp_connection where
  "TcpConnection_Start = \<lparr> tc_read_buf = [], tc_write_buf = [], tc_reading = True, tc_writing = False, tc_closed = False \<rparr>"

definition HandleClose :: "tcp_connection \<Rightarrow> tcp_connection" where
  "HandleClose c = c\<lparr> tc_reading := False, tc_writing := False, tc_closed := True \<rparr>"

text \<open>
  The messages that are complete, and what stays in the buffer; \<open>None\<close> if the loop never ends.  The
  number of bytes erased is \<open>msg_len + 4\<close> in 32 bits.
\<close>

partial_function (option) ProcessMessages :: "str \<Rightarrow> str list \<Rightarrow> (str list \<times> str) option" where
  "ProcessMessages buf acc =
     (case ntohl_bytes buf of
        None \<Rightarrow> Some (acc, buf)
      | Some msg_len \<Rightarrow>
          if length buf < 4 + unat msg_len then Some (acc, buf)
          else ProcessMessages (drop (unat (msg_len + 4)) buf) (acc @ [take (unat msg_len) (drop 4 buf)]))"

datatype read_result = Got str | Eof | Read_again | Read_error

fun HandleRead :: "read_result list \<Rightarrow> tcp_connection \<Rightarrow> (str list \<times> tcp_connection) option" where
  "HandleRead [] c = Some ([], c)"
| "HandleRead (Got chunk # rs) c = do {
     (ms, rest) \<leftarrow> ProcessMessages (tc_read_buf c @ chunk) [];
     (ms', c1) \<leftarrow> HandleRead rs (c\<lparr> tc_read_buf := rest \<rparr>);
     Some (ms @ ms', c1) }"
| "HandleRead (Eof # rs) c = Some ([], HandleClose c)"
| "HandleRead (Read_again # rs) c = Some ([], c)"
| "HandleRead (Read_error # rs) c = Some ([], HandleClose c)"

datatype write_result = Wrote nat | Write_again | Write_error

text \<open>The bytes that go to the kernel, and the connection.\<close>

definition Send :: "write_result \<Rightarrow> str \<Rightarrow> tcp_connection \<Rightarrow> str \<times> tcp_connection" where
  "Send wr data c =
     (let framed = htonl_bytes (word_of_nat (length data)) @ data
      in if tc_write_buf c \<noteq> [] then ([], c\<lparr> tc_write_buf := tc_write_buf c @ framed \<rparr>)
         else case wr of
                Write_error \<Rightarrow> ([], HandleClose c)
              | Write_again \<Rightarrow> ([], c\<lparr> tc_write_buf := framed, tc_writing := True \<rparr>)
              | Wrote n \<Rightarrow>
                  if n < length framed
                  then (take n framed, c\<lparr> tc_write_buf := drop n framed, tc_writing := True \<rparr>)
                  else (framed, c))"

definition HandleWrite :: "write_result \<Rightarrow> tcp_connection \<Rightarrow> str \<times> tcp_connection" where
  "HandleWrite wr c =
     (if tc_write_buf c = [] then ([], c\<lparr> tc_writing := False \<rparr>)
      else case wr of
             Wrote n \<Rightarrow>
               let c1 = c\<lparr> tc_write_buf := drop n (tc_write_buf c) \<rparr>
               in (take n (tc_write_buf c), if tc_write_buf c1 = [] then c1\<lparr> tc_writing := False \<rparr> else c1)
           | Write_again \<Rightarrow> ([], c)
           | Write_error \<Rightarrow> ([], HandleClose c))"

subsection \<open>Cutting the stream into messages\<close>

definition small :: "str \<Rightarrow> bool" where
  "small m \<longleftrightarrow> length m + 4 < 2 ^ 32"

lemma ProcessMessages_stop: "unframe buf = None \<Longrightarrow> ProcessMessages buf acc = Some (acc, buf)"
  by (subst ProcessMessages.simps) (auto simp: unframe_def split: option.splits if_splits)

lemma ProcessMessages_frame:
  assumes "small m"
  shows "ProcessMessages (frame m @ r) acc = ProcessMessages r (acc @ [m])"
proof -
  have l: "length m + 4 < 4294967296" using assms by (simp add: small_def)
  have "unat (word_of_nat (length m) + 4 :: u32) = length m + 4"
    using unat_of_nat_u32 [OF l] by simp
  moreover have "unat (word_of_nat (length m) :: u32) = length m" using l by simp
  ultimately show ?thesis
    by (subst ProcessMessages.simps) (simp add: frame_def ntohl_htonl)
qed

lemma ProcessMessages_prefix:
  assumes "buf @ tail = concat (map frame ms)" "\<forall>m\<in>set ms. small m"
  shows "\<exists>k rest. ProcessMessages buf acc = Some (acc @ take k ms, rest) \<and> k \<le> length ms \<and>
    rest @ tail = concat (map frame (drop k ms)) \<and> unframe rest = None"
  using assms
proof (induction ms arbitrary: buf acc)
  case Nil
  then have "buf = []" "tail = []" by simp_all
  moreover have "unframe [] = None" by (rule fr.dec_end)
  ultimately show ?case using ProcessMessages_stop [of "[]" acc] by simp
next
  case (Cons m ms)
  then have m: "small m" "frame_valid m" by (simp_all add: small_def)
  show ?case
  proof (cases "length buf < 4 + length m")
    case True
    have "buf = take (length buf) (frame m @ concat (map frame ms))" using Cons.prems(1) by (metis append_eq_conv_conj concat.simps(2) list.map(2))
    then have "buf = take (length buf) (frame m)" using True by simp
    then have "unframe buf = None" using unframe_torn [OF m(2) True] by simp
    then show ?thesis using ProcessMessages_stop Cons.prems(1) by (intro exI [of _ 0] exI [of _ buf]) simp
  next
    case False
    define buf' where "buf' = drop (4 + length m) buf"
    have "take (4 + length m) (buf @ tail) = frame m" using Cons.prems(1) by simp
    then have "take (4 + length m) buf = frame m" using False by simp
    then have buf: "buf = frame m @ buf'" unfolding buf'_def by (metis append_take_drop_id)
    then have "buf' @ tail = concat (map frame ms)" using Cons.prems(1) by simp
    then obtain k rest where k: "ProcessMessages buf' (acc @ [m]) = Some ((acc @ [m]) @ take k ms, rest)" "k \<le> length ms"
        "rest @ tail = concat (map frame (drop k ms))" "unframe rest = None"
      using Cons.IH [of buf' "acc @ [m]"] Cons.prems(2) by auto
    have "ProcessMessages buf acc = Some (acc @ take (Suc k) (m # ms), rest)"
      unfolding buf ProcessMessages_frame [OF m(1)] using k(1) by simp
    with k(2-) show ?thesis by (intro exI [of _ "Suc k"] exI [of _ rest]) simp
  qed
qed

text \<open>\<open>msg_len + 4\<close> wraps: on a frame of \<open>2 ^ 32 - 4\<close> bytes nothing is erased and the loop never ends.\<close>

lemma ProcessMessages_wraps:
  assumes "ntohl_bytes buf = Some (- 4)" "2 ^ 32 \<le> length buf"
  shows "ProcessMessages buf acc = None"
proof (rule ccontr)
  assume "ProcessMessages buf acc \<noteq> None"
  then obtain r where "ProcessMessages buf acc = Some r" by auto
  have "buf \<noteq> buf"
  proof (rule ProcessMessages.raw_induct [where P = "\<lambda>b a r. b \<noteq> buf", OF _ \<open>ProcessMessages buf acc = Some r\<close>])
    fix f :: "str \<Rightarrow> str list \<Rightarrow> (str list \<times> str) option" and b a r
    assume IH: "\<And>b a r. f b a = Some r \<Longrightarrow> b \<noteq> buf"
      and eq: "(case ntohl_bytes b of None \<Rightarrow> Some (a, b)
        | Some msg_len \<Rightarrow> if length b < 4 + unat msg_len then Some (a, b)
            else f (drop (unat (msg_len + 4)) b) (a @ [take (unat msg_len) (drop 4 b)])) = Some r"
    have u: "unat (- 4 :: u32) = 4294967292" by simp
    show "b \<noteq> buf"
    proof
      assume b: "b = buf"
      have "f b (a @ [take 4294967292 (drop 4 b)]) = Some r" using eq assms u by (simp add: b)
      with IH b show False by blast
    qed
  qed
  then show False by simp
qed

subsection \<open>A stream of messages\<close>

text \<open>
  One direction of a connection: the sender, the bytes under way, the receiver, and two histories, the
  messages handed to \<open>Send\<close> and the messages given to the callback.  In any order messages are sent, the
  sender's socket becomes writable, and any part of the bytes under way arrives.
\<close>

record stream =
  st_sender :: tcp_connection
  st_wire :: str
  st_receiver :: tcp_connection
  st_sent :: "str list"
  st_delivered :: "str list"

definition stream_start :: stream where
  "stream_start = \<lparr> st_sender = TcpConnection_Start, st_wire = [], st_receiver = TcpConnection_Start, st_sent = [], st_delivered = [] \<rparr>"

inductive stream_step :: "stream \<Rightarrow> stream \<Rightarrow> bool" where
  send: "small m \<Longrightarrow> Send wr m (st_sender s) = (out, c) \<Longrightarrow>
    stream_step s (s\<lparr> st_sender := c, st_wire := st_wire s @ out, st_sent := st_sent s @ [m] \<rparr>)"
| writable: "HandleWrite wr (st_sender s) = (out, c) \<Longrightarrow>
    stream_step s (s\<lparr> st_sender := c, st_wire := st_wire s @ out \<rparr>)"
| arrive: "st_wire s = chunk @ rest \<Longrightarrow> HandleRead [Got chunk, Read_again] (st_receiver s) = Some (ms, c) \<Longrightarrow>
    stream_step s (s\<lparr> st_wire := rest, st_receiver := c, st_delivered := st_delivered s @ ms \<rparr>)"

inductive stream_reachable :: "stream \<Rightarrow> bool" where
  start: "stream_reachable stream_start"
| step: "stream_reachable s \<Longrightarrow> stream_step s s' \<Longrightarrow> stream_reachable s'"

definition stream_inv :: "stream \<Rightarrow> bool" where
  "stream_inv s \<longleftrightarrow> tc_closed (st_sender s) \<or>
     (\<exists>k \<le> length (st_sent s). st_delivered s = take k (st_sent s) \<and>
        tc_read_buf (st_receiver s) @ st_wire s @ tc_write_buf (st_sender s) = concat (map frame (drop k (st_sent s)))) \<and>
     unframe (tc_read_buf (st_receiver s)) = None \<and> (\<forall>m\<in>set (st_sent s). small m)"

lemma Send_frame:
  "Send wr m c =
     (if tc_write_buf c \<noteq> [] then ([], c\<lparr> tc_write_buf := tc_write_buf c @ frame m \<rparr>)
      else case wr of
             Write_error \<Rightarrow> ([], HandleClose c)
           | Write_again \<Rightarrow> ([], c\<lparr> tc_write_buf := frame m, tc_writing := True \<rparr>)
           | Wrote n \<Rightarrow>
               if n < length (frame m)
               then (take n (frame m), c\<lparr> tc_write_buf := drop n (frame m), tc_writing := True \<rparr>)
               else (frame m, c))"
  unfolding Send_def Let_def frame_def [symmetric] ..

lemma Send_bytes:
  assumes "Send wr m c = (out, c')" "\<not> tc_closed c'"
  shows "\<not> tc_closed c \<and> out @ tc_write_buf c' = tc_write_buf c @ frame m"
  using assms by (auto simp: Send_frame HandleClose_def split: write_result.splits if_splits)

lemma HandleWrite_bytes:
  assumes "HandleWrite wr c = (out, c')" "\<not> tc_closed c'"
  shows "\<not> tc_closed c \<and> out @ tc_write_buf c' = tc_write_buf c"
  using assms by (auto simp: HandleWrite_def HandleClose_def Let_def split: write_result.splits if_splits)

lemma arrive_messages:
  assumes "stream_inv s" "\<not> tc_closed (st_sender s)" "st_wire s = chunk @ rest"
  shows "\<exists>ms c. HandleRead [Got chunk, Read_again] (st_receiver s) = Some (ms, c) \<and>
    stream_inv (s\<lparr> st_wire := rest, st_receiver := c, st_delivered := st_delivered s @ ms \<rparr>)"
proof -
  obtain k where k: "k \<le> length (st_sent s)" "st_delivered s = take k (st_sent s)"
      "(tc_read_buf (st_receiver s) @ chunk) @ rest @ tc_write_buf (st_sender s) = concat (map frame (drop k (st_sent s)))"
    and small: "\<forall>m\<in>set (st_sent s). small m"
    using assms by (auto simp: stream_inv_def)
  have "\<forall>m\<in>set (drop k (st_sent s)). small m" using small by (auto dest: in_set_dropD)
  from ProcessMessages_prefix [OF k(3) this, of "[]"]
  obtain j r where j: "ProcessMessages (tc_read_buf (st_receiver s) @ chunk) [] = Some (take j (drop k (st_sent s)), r)"
      "j \<le> length (drop k (st_sent s))" "r @ rest @ tc_write_buf (st_sender s) = concat (map frame (drop j (drop k (st_sent s))))"
      "unframe r = None" by auto
  have "st_delivered s @ take j (drop k (st_sent s)) = take (k + j) (st_sent s)" by (simp add: k(2) take_add)
  moreover have "k + j \<le> length (st_sent s)" using j(2) k(1) by simp
  ultimately have "stream_inv (s\<lparr> st_wire := rest, st_receiver := (st_receiver s)\<lparr> tc_read_buf := r \<rparr>,
      st_delivered := st_delivered s @ take j (drop k (st_sent s)) \<rparr>)"
    using j(3,4) small by (auto simp: stream_inv_def add.commute intro!: exI [of _ "k + j"])
  with j(1) show ?thesis by simp
qed

lemma stream_inv_step:
  assumes "stream_inv s" "stream_step s s'"
  shows "stream_inv s'"
  using assms(2)
proof cases
  case (send m wr out c)
  show ?thesis
  proof (cases "tc_closed c")
    case False
    from Send_bytes [OF send(3) False] assms(1) obtain k where k: "k \<le> length (st_sent s)" "st_delivered s = take k (st_sent s)"
        "tc_read_buf (st_receiver s) @ st_wire s @ out @ tc_write_buf c = concat (map frame (drop k (st_sent s))) @ frame m"
      by (auto simp: stream_inv_def)
    then show ?thesis using assms(1) send(2) Send_bytes [OF send(3) False]
      by (auto simp: send(1) stream_inv_def intro!: exI [of _ k])
  qed (simp add: send(1) stream_inv_def)
next
  case (writable wr out c)
  show ?thesis
  proof (cases "tc_closed c")
    case False
    from HandleWrite_bytes [OF writable(2) False] assms(1) show ?thesis by (auto simp: writable(1) stream_inv_def)
  qed (simp add: writable(1) stream_inv_def)
next
  case (arrive chunk rest ms c)
  show ?thesis
  proof (cases "tc_closed (st_sender s)")
    case False
    from arrive_messages [OF assms(1) this arrive(2)] arrive(3) show ?thesis by (auto simp: arrive(1))
  qed (simp add: arrive(1) stream_inv_def)
qed

lemma stream_reachable_inv: "stream_reachable s \<Longrightarrow> stream_inv s"
proof (induction rule: stream_reachable.induct)
  case start
  show ?case using fr.dec_end by (simp add: stream_inv_def stream_start_def TcpConnection_Start_def)
qed (rule stream_inv_step)

text \<open>
  C12: Messages arrive whole, once and in order.  However the kernel splits the writes of the sender and
  however the bytes are cut on their way, as long as the connection was not closed by a write error and
  every message is shorter than 2^32 - 4 bytes: the messages delivered are a prefix of the messages sent;
  when nothing is buffered or under way all of them are delivered and the receive buffer is empty; and
  cutting up whatever arrives always ends.
\<close>

theorem messages_arrive_in_order:
  assumes "stream_reachable s" "\<not> tc_closed (st_sender s)"
  shows "(\<exists>more. st_sent s = st_delivered s @ more) \<and>
    (st_wire s = [] \<and> tc_write_buf (st_sender s) = [] \<longrightarrow> st_delivered s = st_sent s \<and> tc_read_buf (st_receiver s) = []) \<and>
    (\<forall>chunk rest. st_wire s = chunk @ rest \<longrightarrow> HandleRead [Got chunk, Read_again] (st_receiver s) \<noteq> None)"
proof (intro conjI allI impI)
  note inv = stream_reachable_inv [OF assms(1)]
  then obtain k where k: "st_delivered s = take k (st_sent s)"
      "tc_read_buf (st_receiver s) @ st_wire s @ tc_write_buf (st_sender s) = concat (map frame (drop k (st_sent s)))"
      "unframe (tc_read_buf (st_receiver s)) = None" "\<forall>m\<in>set (st_sent s). small m"
    using assms(2) by (auto simp: stream_inv_def)
  show "\<exists>more. st_sent s = st_delivered s @ more" using k(1) by (metis append_take_drop_id)
  have all_done: "drop k (st_sent s) = []" if "st_wire s = [] \<and> tc_write_buf (st_sender s) = []"
  proof (rule ccontr)
    assume "drop k (st_sent s) \<noteq> []"
    then obtain m ms where m: "drop k (st_sent s) = m # ms" by (cases "drop k (st_sent s)") auto
    then have "m \<in> set (drop k (st_sent s))" by simp
    then have "m \<in> set (st_sent s)" by (rule in_set_dropD)
    then have "frame_valid m" using k(4) by (auto simp: small_def)
    then show False using k(2,3) that m unframe_frame [of m "concat (map frame ms)"] by simp
  qed
  show "st_delivered s = st_sent s" if *: "st_wire s = [] \<and> tc_write_buf (st_sender s) = []"
    using all_done [OF *] k(1) by (metis append_Nil2 append_take_drop_id)
  show "tc_read_buf (st_receiver s) = []" if *: "st_wire s = [] \<and> tc_write_buf (st_sender s) = []"
    using all_done [OF *] k(2) * by simp
  show "HandleRead [Got chunk, Read_again] (st_receiver s) \<noteq> None" if "st_wire s = chunk @ rest" for chunk rest
    using arrive_messages [OF inv assms(2) that] by auto
qed

lemma messages_arrive_in_order_witness:
  "\<exists>s. stream_reachable s \<and> \<not> tc_closed (st_sender s) \<and> st_sent s = [[7]] \<and> st_delivered s = [[7]]"
proof -
  define s1 where "s1 = stream_start\<lparr> st_wire := frame [7], st_sent := [[7]] \<rparr>"
  have sm: "small [7]" by (simp add: small_def)
  have "stream_step stream_start s1"
    using stream_step.send [OF sm, of "Wrote 5" stream_start "frame [7]" TcpConnection_Start]
    by (simp add: Send_frame stream_start_def TcpConnection_Start_def s1_def)
  then have r1: "stream_reachable s1" using stream_reachable.intros by blast
  have c1: "\<not> tc_closed (st_sender s1)" by (simp add: s1_def stream_start_def TcpConnection_Start_def)
  have w: "st_wire s1 = frame [7] @ []" by (simp add: s1_def)
  obtain ms c where h: "HandleRead [Got (frame [7]), Read_again] (st_receiver s1) = Some (ms, c)"
    using messages_arrive_in_order [OF r1 c1] w by (metis not_None_eq prod.exhaust)
  define s2 where "s2 = s1\<lparr> st_wire := [], st_receiver := c, st_delivered := st_delivered s1 @ ms \<rparr>"
  have r2: "stream_reachable s2" unfolding s2_def by (rule stream_reachable.step [OF r1 stream_step.arrive [OF w h]])
  have c2: "\<not> tc_closed (st_sender s2)" using c1 by (simp add: s2_def)
  have "st_wire s2 = [] \<and> tc_write_buf (st_sender s2) = []" by (simp add: s2_def s1_def stream_start_def TcpConnection_Start_def)
  with messages_arrive_in_order [OF r2 c2] have "st_delivered s2 = st_sent s2" by blast
  moreover have "st_sent s2 = [[7]]" by (simp add: s2_def s1_def)
  ultimately show ?thesis using r2 c2 by metis
qed

end
