(* ===== verification/ThreadPool.thy ===== *)
theory ThreadPool
  imports Main "HOL-Library.Multiset"
begin

text \<open>
  The thread pool (\<open>src/src/net/net_thread_pool.cc\<close>) with its threads interleaved.  A worker is where its
  loop is: about to take the mutex, evaluating the predicate with the mutex, committed to wait with
  the mutex still held, asleep in the condition variable, running a task, or gone.  \<open>Submit\<close> and \<open>Stop\<close>
  are split where other threads can come in between: the push is done under the mutex and the
  notification after it, \<open>stop_\<close> is stored without the mutex.  Tasks are any values.
\<close>

datatype 'a worker = Locking | Checking | Blocking | Sleeping | Running 'a | Exited

record 'a pool =
  tp_queue :: "'a list"
  tp_workers :: "'a worker list"
  tp_owner :: "nat option"
  tp_stop :: bool
  tp_notify_one :: nat
  tp_notify_all :: bool
  tp_submitted :: "'a list"
  tp_started :: "'a list"
  tp_done :: "'a list"

text \<open>
  \<open>tp_owner\<close> is the worker that holds the mutex; \<open>tp_notify_one\<close> and \<open>tp_notify_all\<close> are the
  notifications still to come; the last three fields are histories.
\<close>

definition ThreadPool_new :: "nat \<Rightarrow> 'a pool" where
  "ThreadPool_new num_threads = \<lparr> tp_queue = [], tp_workers = replicate num_threads Locking, tp_owner = None, tp_stop = False,
     tp_notify_one = 0, tp_notify_all = False, tp_submitted = [], tp_started = [], tp_done = [] \<rparr>"

definition QueueSize :: "'a pool \<Rightarrow> nat" where
  "QueueSize p = length (tp_queue p)"

definition set_worker :: "nat \<Rightarrow> 'a worker \<Rightarrow> 'a pool \<Rightarrow> 'a pool" where
  "set_worker i w p = p\<lparr> tp_workers := (tp_workers p)[i := w] \<rparr>"

subsection \<open>Submit and Stop\<close>

text \<open>\<open>None\<close>: the thread has to wait.\<close>

definition Submit_push :: "'a \<Rightarrow> 'a pool \<Rightarrow> 'a pool option" where
  "Submit_push task p =
     (if tp_owner p = None
      then Some (p\<lparr> tp_queue := tp_queue p @ [task], tp_notify_one := tp_notify_one p + 1, tp_submitted := tp_submitted p @ [task] \<rparr>)
      else None)"

text \<open>\<open>notify_one\<close> wakes a sleeping worker \<open>i\<close>, if there is one.\<close>

definition Submit_notify :: "nat \<Rightarrow> 'a pool \<Rightarrow> 'a pool option" where
  "Submit_notify i p =
     (if tp_notify_one p = 0 then None
      else let p1 = p\<lparr> tp_notify_one := tp_notify_one p - 1 \<rparr>
           in if Sleeping \<notin> set (tp_workers p) then Some p1
              else if i < length (tp_workers p) \<and> tp_workers p ! i = Sleeping then Some (set_worker i Locking p1)
              else None)"

definition Stop_store :: "'a pool \<Rightarrow> 'a pool" where
  "Stop_store p = p\<lparr> tp_stop := True, tp_notify_all := True \<rparr>"

definition Stop_notify :: "'a pool \<Rightarrow> 'a pool option" where
  "Stop_notify p =
     (if tp_notify_all p
      then Some (p\<lparr> tp_notify_all := False, tp_workers := map (\<lambda>w. if w = Sleeping then Locking else w) (tp_workers p) \<rparr>)
      else None)"

text \<open>The \<open>join\<close>s of \<open>Stop\<close> return.\<close>

definition Stop_joined :: "'a pool \<Rightarrow> bool" where
  "Stop_joined p \<longleftrightarrow> tp_stop p \<and> (\<forall>w\<in>set (tp_workers p). w = Exited)"

subsection \<open>WorkerLoop\<close>

definition WorkerLoop :: "nat \<Rightarrow> 'a pool \<Rightarrow> 'a pool option" where
  "WorkerLoop i p =
     (if length (tp_workers p) \<le> i then None
      else case tp_workers p ! i of
        Locking \<Rightarrow> if tp_owner p = None then Some (set_worker i Checking (p\<lparr> tp_owner := Some i \<rparr>)) else None
      | Checking \<Rightarrow>
          if tp_queue p = [] \<and> \<not> tp_stop p then Some (set_worker i Blocking p)
          else (case tp_queue p of
                  [] \<Rightarrow> Some (set_worker i Exited (p\<lparr> tp_owner := None \<rparr>))
                | task # rest \<Rightarrow>
                    Some (set_worker i (Running task)
                      (p\<lparr> tp_owner := None, tp_queue := rest, tp_started := tp_started p @ [task] \<rparr>)))
      | Blocking \<Rightarrow> Some (set_worker i Sleeping (p\<lparr> tp_owner := None \<rparr>))
      | Sleeping \<Rightarrow> None
      | Running task \<Rightarrow> Some (set_worker i Locking (p\<lparr> tp_done := tp_done p @ [task] \<rparr>))
      | Exited \<Rightarrow> None)"

subsection \<open>Interleavings\<close>

inductive pool_step :: "'a pool \<Rightarrow> 'a pool \<Rightarrow> bool" where
  push: "Submit_push task p = Some p' \<Longrightarrow> pool_step p p'"
| notify_one: "Submit_notify i p = Some p' \<Longrightarrow> pool_step p p'"
| store: "pool_step p (Stop_store p)"
| notify_all: "Stop_notify p = Some p' \<Longrightarrow> pool_step p p'"
| work: "WorkerLoop i p = Some p' \<Longrightarrow> pool_step p p'"
| spurious: "i < length (tp_workers p) \<Longrightarrow> tp_workers p ! i = Sleeping \<Longrightarrow> pool_step p (set_worker i Locking p)"

inductive pool_reachable :: "nat \<Rightarrow> 'a pool \<Rightarrow> bool" for n where
  new: "pool_reachable n (ThreadPool_new n)"
| step: "pool_reachable n p \<Longrightarrow> pool_step p p' \<Longrightarrow> pool_reachable n p'"

subsection \<open>The invariant\<close>

fun task_of :: "'a worker \<Rightarrow> 'a list" where
  "task_of (Running task) = [task]"
| "task_of _ = []"

definition in_hand :: "'a worker list \<Rightarrow> 'a multiset" where
  "in_hand ws = mset (concat (map task_of ws))"

lemma in_hand_update:
  "i < length ws \<Longrightarrow> in_hand (ws[i := w]) + mset (task_of (ws ! i)) = in_hand ws + mset (task_of w)"
proof (induction ws arbitrary: i)
  case (Cons v ws)
  then show ?case by (cases i) (auto simp: in_hand_def ac_simps)
qed simp

lemma in_hand_update_idle:
  "i < length ws \<Longrightarrow> task_of (ws ! i) = [] \<Longrightarrow> task_of w = [] \<Longrightarrow> in_hand (ws[i := w]) = in_hand ws"
  using in_hand_update [of i ws w] by simp

definition holding :: "'a worker \<Rightarrow> bool" where
  "holding w \<longleftrightarrow> w = Checking \<or> w = Blocking"

text \<open>The histories fit, the mutex has one owner, and a queued task has a worker coming for it.\<close>

definition tasks_inv :: "'a pool \<Rightarrow> bool" where
  "tasks_inv p \<longleftrightarrow> tp_submitted p = tp_started p @ tp_queue p \<and> mset (tp_started p) = mset (tp_done p) + in_hand (tp_workers p)"

definition mutex_inv :: "'a pool \<Rightarrow> bool" where
  "mutex_inv p \<longleftrightarrow> (\<forall>i < length (tp_workers p). holding (tp_workers p ! i) \<longleftrightarrow> tp_owner p = Some i) \<and>
     (\<forall>i. tp_owner p = Some i \<longrightarrow> i < length (tp_workers p))"

definition wake_inv :: "'a pool \<Rightarrow> bool" where
  "wake_inv p \<longleftrightarrow> (Blocking \<in> set (tp_workers p) \<longrightarrow> tp_queue p = []) \<and> (Exited \<in> set (tp_workers p) \<longrightarrow> tp_stop p) \<and>
     (tp_queue p \<noteq> [] \<and> tp_notify_one p = 0 \<and> tp_workers p \<noteq> [] \<and> \<not> tp_stop p \<longrightarrow> (\<exists>w\<in>set (tp_workers p). w \<noteq> Sleeping))"

text \<open>What one call of each operation does, for the three parts of the invariant.\<close>

lemma push_inv:
  assumes "Submit_push t p = Some p'" "tasks_inv p" "mutex_inv p" "wake_inv p"
  shows "tasks_inv p' \<and> mutex_inv p' \<and> wake_inv p'"
proof -
  have p': "tp_owner p = None" "p' = p\<lparr> tp_queue := tp_queue p @ [t], tp_notify_one := tp_notify_one p + 1, tp_submitted := tp_submitted p @ [t] \<rparr>"
    using assms(1) by (simp_all add: Submit_push_def split: if_splits)
  have "Blocking \<notin> set (tp_workers p)"
    using assms(3) p'(1) by (auto simp: mutex_inv_def holding_def in_set_conv_nth)
  with assms(2-4) show ?thesis by (auto simp: p'(2) tasks_inv_def mutex_inv_def wake_inv_def)
qed

lemma wake_one_inv:
  assumes "i < length (tp_workers p)" "tp_workers p ! i = Sleeping" "tasks_inv p" "mutex_inv p"
  shows "tasks_inv (set_worker i Locking p) \<and> mutex_inv (set_worker i Locking p)"
  using assms by (auto simp: tasks_inv_def mutex_inv_def set_worker_def holding_def nth_list_update in_hand_update_idle)

lemma set_Locking:
  "i < length ws \<Longrightarrow> ws ! i = Sleeping \<Longrightarrow> Locking \<in> set (ws[i := Locking]) \<and> set (ws[i := Locking]) \<subseteq> insert Locking (set ws)"
  by (simp add: set_update_memI set_update_subset_insert)

lemma wake_one_wake_inv:
  assumes "i < length (tp_workers p)" "tp_workers p ! i = Sleeping" "wake_inv p"
  shows "wake_inv (set_worker i Locking p)"
  using assms set_Locking [OF assms(1,2)] unfolding wake_inv_def set_worker_def by fastforce

lemma notify_inv:
  assumes "Submit_notify i p = Some p'" "tasks_inv p" "mutex_inv p" "wake_inv p"
  shows "tasks_inv p' \<and> mutex_inv p' \<and> wake_inv p'"
proof -
  define p1 where "p1 = p\<lparr> tp_notify_one := tp_notify_one p - 1 \<rparr>"
  have 1: "tasks_inv p1" "mutex_inv p1" using assms(2,3) by (simp_all add: p1_def tasks_inv_def mutex_inv_def)
  show ?thesis
  proof (cases "Sleeping \<in> set (tp_workers p)")
    case False
    then have "p' = p1" using assms(1) by (simp add: Submit_notify_def p1_def split: if_splits)
    moreover have "tp_workers p \<noteq> [] \<Longrightarrow> \<exists>w\<in>set (tp_workers p). w \<noteq> Sleeping" using False by (cases "tp_workers p") auto
    then have "wake_inv p1" using assms(4) by (auto simp: wake_inv_def p1_def)
    ultimately show ?thesis using 1 by simp
  next
    case True
    then have i: "i < length (tp_workers p1)" "tp_workers p1 ! i = Sleeping" "p' = set_worker i Locking p1"
      using assms(1) by (auto simp: Submit_notify_def p1_def Let_def split: if_splits)
    have "wake_inv p'"
      using assms(4) set_Locking [OF i(1,2)] unfolding i(3) wake_inv_def set_worker_def p1_def by fastforce
    with wake_one_inv [OF i(1,2) 1] i(3) show ?thesis by simp
  qed
qed

lemma stop_store_inv: "tasks_inv p \<Longrightarrow> mutex_inv p \<Longrightarrow> wake_inv p \<Longrightarrow>
    tasks_inv (Stop_store p) \<and> mutex_inv (Stop_store p) \<and> wake_inv (Stop_store p)"
  by (auto simp: Stop_store_def tasks_inv_def mutex_inv_def wake_inv_def)

lemma stop_notify_inv:
  assumes "Stop_notify p = Some p'" "tasks_inv p" "mutex_inv p" "wake_inv p"
  shows "tasks_inv p' \<and> mutex_inv p' \<and> wake_inv p'"
proof -
  define f where "f = (\<lambda>w :: 'a worker. if w = Sleeping then Locking else w)"
  have p': "p' = p\<lparr> tp_notify_all := False, tp_workers := map f (tp_workers p) \<rparr>"
    using assms(1) by (simp add: Stop_notify_def f_def split: if_splits)
  have f: "task_of (f w) = task_of w" "holding (f w) = holding w" "f w \<noteq> Sleeping" for w by (auto simp: f_def holding_def)
  have "in_hand (map f ws) = in_hand ws" for ws by (simp add: in_hand_def f(1) comp_def)
  moreover have "Blocking \<in> f ` S \<longleftrightarrow> Blocking \<in> S" "Exited \<in> f ` S \<longleftrightarrow> Exited \<in> S" for S by (auto simp: f_def)
  moreover have "tp_workers p \<noteq> [] \<Longrightarrow> \<exists>w\<in>set (tp_workers p). f w \<noteq> Sleeping" using f(3) by (cases "tp_workers p") auto
  ultimately show ?thesis using assms(2-4) by (auto simp: p' tasks_inv_def mutex_inv_def wake_inv_def f(2))
qed

lemma worker_set: "i < length ws \<Longrightarrow> set (ws[i := w]) \<subseteq> insert w (set ws) \<and> w \<in> set (ws[i := w])"
  by (simp add: set_update_memI set_update_subset_insert)

text \<open>Taking and giving back the mutex.\<close>

lemma mutex_take:
  "mutex_inv p \<Longrightarrow> i < length (tp_workers p) \<Longrightarrow> tp_owner p = None \<Longrightarrow> holding w \<Longrightarrow>
   tp_workers p' = (tp_workers p)[i := w] \<Longrightarrow> tp_owner p' = Some i \<Longrightarrow> mutex_inv p'"
  by (auto simp: mutex_inv_def nth_list_update)

lemma mutex_keep:
  "mutex_inv p \<Longrightarrow> i < length (tp_workers p) \<Longrightarrow> holding w = holding (tp_workers p ! i) \<Longrightarrow>
   tp_workers p' = (tp_workers p)[i := w] \<Longrightarrow> tp_owner p' = tp_owner p \<Longrightarrow> mutex_inv p'"
  by (auto simp: mutex_inv_def nth_list_update)

lemma mutex_release:
  "mutex_inv p \<Longrightarrow> i < length (tp_workers p) \<Longrightarrow> holding (tp_workers p ! i) \<Longrightarrow> \<not> holding w \<Longrightarrow>
   tp_workers p' = (tp_workers p)[i := w] \<Longrightarrow> tp_owner p' = None \<Longrightarrow> mutex_inv p'"
  by (auto simp: mutex_inv_def nth_list_update)

lemma holding_once:
  "mutex_inv p \<Longrightarrow> i < length (tp_workers p) \<Longrightarrow> tp_workers p ! i = Checking \<Longrightarrow> Blocking \<notin> set (tp_workers p)"
  by (auto simp: mutex_inv_def holding_def in_set_conv_nth) (metis option.inject worker.distinct(11))

text \<open>Only one worker changes; \<open>q\<close> is the new queue.\<close>

lemma wake_change:
  assumes "wake_inv p" "i < length (tp_workers p)" "w \<noteq> Exited \<or> tp_stop p" "w \<noteq> Blocking \<or> q = []"
    "q \<noteq> [] \<Longrightarrow> Blocking \<notin> set (tp_workers p)" "w \<noteq> Sleeping \<or> q = []"
    "tp_workers p' = (tp_workers p)[i := w]" "tp_queue p' = q" "tp_stop p' = tp_stop p"
  shows "wake_inv p'"
proof -
  have s: "x \<in> set (tp_workers p') \<Longrightarrow> x = w \<or> x \<in> set (tp_workers p)" for x
    using worker_set [OF assms(2), of w] assms(7) by auto
  have w: "w \<in> set (tp_workers p')" using worker_set [OF assms(2), of w] assms(7) by simp
  show ?thesis unfolding wake_inv_def assms(8,9)
  proof (intro conjI impI)
    assume "Blocking \<in> set (tp_workers p')"
    then show "q = []" using s [of Blocking] assms(4,5) by auto
  next
    assume "Exited \<in> set (tp_workers p')"
    then show "tp_stop p" using s [of Exited] assms(1,3) by (auto simp: wake_inv_def)
  next
    assume "q \<noteq> [] \<and> tp_notify_one p' = 0 \<and> tp_workers p' \<noteq> [] \<and> \<not> tp_stop p"
    then show "\<exists>w\<in>set (tp_workers p'). w \<noteq> Sleeping" using w assms(6) by auto
  qed
qed

lemma work_inv:
  assumes "WorkerLoop i p = Some p'" "tasks_inv p" "mutex_inv p" "wake_inv p"
  shows "tasks_inv p' \<and> mutex_inv p' \<and> wake_inv p'"
proof -
  have i: "i < length (tp_workers p)" using assms(1) by (simp add: WorkerLoop_def split: if_splits)
  then have mem: "tp_workers p ! i \<in> set (tp_workers p)" by simp
  have block_queue: "tp_queue p \<noteq> [] \<Longrightarrow> Blocking \<notin> set (tp_workers p)" using assms(4) by (auto simp: wake_inv_def)
  note upd = worker_set [OF i] in_hand_update [OF i] in_hand_update_idle [OF i]
  show ?thesis
  proof (cases "tp_workers p ! i")
    case Locking
    then have p': "tp_owner p = None" "p' = set_worker i Checking (p\<lparr> tp_owner := Some i \<rparr>)"
      using assms(1) i by (simp_all add: WorkerLoop_def split: if_splits)
    have "mutex_inv p'" by (rule mutex_take [OF assms(3) i p'(1)]) (simp_all add: p'(2) set_worker_def holding_def)
    moreover have "wake_inv p'"
      by (rule wake_change [OF assms(4) i, of Checking "tp_queue p"]) (use block_queue in \<open>auto simp: p'(2) set_worker_def\<close>)
    moreover have "tasks_inv p'" using assms(2) Locking upd(2) [of Checking] by (simp add: p'(2) set_worker_def tasks_inv_def)
    ultimately show ?thesis by simp
  next
    case Checking
    note nb = holding_once [OF assms(3) i Checking]
    consider (wait) "tp_queue p = []" "\<not> tp_stop p" | (leave) "tp_queue p = []" "tp_stop p" | (take) t rest where "tp_queue p = t # rest"
      by (cases "tp_queue p") auto
    then show ?thesis
    proof cases
      case wait
      then have p': "p' = set_worker i Blocking p" using assms(1) i Checking by (simp add: WorkerLoop_def)
      have "mutex_inv p'" by (rule mutex_keep [OF assms(3) i]) (simp_all add: p' set_worker_def holding_def Checking)
      moreover have "wake_inv p'"
        by (rule wake_change [OF assms(4) i, of Blocking "[]"]) (use wait in \<open>auto simp: p' set_worker_def\<close>)
      moreover have "tasks_inv p'" using assms(2) Checking upd(2) [of Blocking] by (simp add: p' set_worker_def tasks_inv_def)
      ultimately show ?thesis by simp
    next
      case leave
      then have p': "p' = set_worker i Exited (p\<lparr> tp_owner := None \<rparr>)" using assms(1) i Checking by (simp add: WorkerLoop_def)
      have "mutex_inv p'" by (rule mutex_release [OF assms(3) i]) (simp_all add: p' set_worker_def holding_def Checking)
      moreover have "wake_inv p'"
        by (rule wake_change [OF assms(4) i, of Exited "[]"]) (use leave in \<open>auto simp: p' set_worker_def\<close>)
      moreover have "tasks_inv p'" using assms(2) Checking upd(2) [of Exited] by (simp add: p' set_worker_def tasks_inv_def)
      ultimately show ?thesis by simp
    next
      case (take t rest)
      then have p': "p' = set_worker i (Running t) (p\<lparr> tp_owner := None, tp_queue := rest, tp_started := tp_started p @ [t] \<rparr>)"
        using assms(1) i Checking by (simp add: WorkerLoop_def)
      have "mutex_inv p'" by (rule mutex_release [OF assms(3) i]) (simp_all add: p' set_worker_def holding_def Checking)
      moreover have "tasks_inv p'" using assms(2) take Checking upd(2) [of "Running t"]
        by (simp add: p' set_worker_def tasks_inv_def)
      moreover have "wake_inv p'"
        by (rule wake_change [OF assms(4) i, of "Running t" rest]) (use nb in \<open>auto simp: p' set_worker_def\<close>)
      ultimately show ?thesis by simp
    qed
  next
    case Blocking
    then have p': "p' = set_worker i Sleeping (p\<lparr> tp_owner := None \<rparr>)" using assms(1) i by (simp add: WorkerLoop_def)
    have q: "tp_queue p = []" using assms(4) mem Blocking by (auto simp: wake_inv_def)
    have "mutex_inv p'" by (rule mutex_release [OF assms(3) i]) (simp_all add: p' set_worker_def holding_def Blocking)
    moreover have "wake_inv p'"
      by (rule wake_change [OF assms(4) i, of Sleeping "[]"]) (use q in \<open>auto simp: p' set_worker_def\<close>)
    moreover have "tasks_inv p'" using assms(2) Blocking upd(2) [of Sleeping] by (simp add: p' set_worker_def tasks_inv_def)
    ultimately show ?thesis by simp
  next
    case (Running t)
    then have p': "p' = set_worker i Locking (p\<lparr> tp_done := tp_done p @ [t] \<rparr>)" using assms(1) i by (simp add: WorkerLoop_def)
    have "mutex_inv p'" by (rule mutex_keep [OF assms(3) i]) (simp_all add: p' set_worker_def holding_def Running)
    moreover have "tasks_inv p'" using assms(2) Running upd(2) [of Locking] by (simp add: p' set_worker_def tasks_inv_def)
    moreover have "wake_inv p'"
      by (rule wake_change [OF assms(4) i, of Locking "tp_queue p"]) (use block_queue in \<open>auto simp: p' set_worker_def\<close>)
    ultimately show ?thesis by simp
  qed (use assms(1) i in \<open>simp_all add: WorkerLoop_def\<close>)
qed

lemma pool_step_inv:
  assumes "pool_step p p'" "tasks_inv p \<and> mutex_inv p \<and> wake_inv p"
  shows "tasks_inv p' \<and> mutex_inv p' \<and> wake_inv p'"
proof -
  have inv: "tasks_inv p" "mutex_inv p" "wake_inv p" using assms(2) by simp_all
  from assms(1) show ?thesis
  proof cases
    case (push t)
    from push_inv [OF this inv] show ?thesis .
  next
    case (notify_one i)
    from notify_inv [OF this inv] show ?thesis .
  next
    case store
    from stop_store_inv [OF inv] show ?thesis unfolding store .
  next
    case notify_all
    from stop_notify_inv [OF this inv] show ?thesis .
  next
    case (work i)
    from work_inv [OF this inv] show ?thesis .
  next
    case (spurious i)
    from wake_one_inv [OF spurious(2,3) inv(1,2)] wake_one_wake_inv [OF spurious(2,3) inv(3)]
    show ?thesis unfolding spurious(1) by simp
  qed
qed

lemma pool_new_inv: "tasks_inv (ThreadPool_new n) \<and> mutex_inv (ThreadPool_new n) \<and> wake_inv (ThreadPool_new n)"
  by (auto simp: ThreadPool_new_def tasks_inv_def mutex_inv_def wake_inv_def in_hand_def holding_def)

lemma pool_inv: "pool_reachable n p \<Longrightarrow> tasks_inv p \<and> mutex_inv p \<and> wake_inv p"
proof (induction rule: pool_reachable.induct)
  case new
  show ?case by (rule pool_new_inv)
next
  case (step p p')
  from pool_step_inv [OF step(2,3)] show ?case .
qed

subsection \<open>What the pool promises\<close>

lemma set_worker_length [simp]: "length (tp_workers (set_worker i w p)) = length (tp_workers p)"
  by (simp add: set_worker_def)

lemma pool_step_length: "pool_step p p' \<Longrightarrow> length (tp_workers p') = length (tp_workers p)"
proof (induction rule: pool_step.induct)
  case (work i p p')
  then show ?case by (auto simp: WorkerLoop_def split: if_splits worker.splits list.splits)
qed (auto simp: Submit_push_def Submit_notify_def Stop_store_def Stop_notify_def Let_def split: if_splits)

lemma pool_length: "pool_reachable n p \<Longrightarrow> length (tp_workers p) = n"
  by (induction rule: pool_reachable.induct) (simp_all add: ThreadPool_new_def pool_step_length)

text \<open>The last worker leaves an empty queue.\<close>

lemma last_worker_leaves:
  assumes "WorkerLoop i p = Some p'" "Stop_joined p'"
  shows "tp_queue p' = []"
proof -
  have i: "i < length (tp_workers p)" using assms(1) by (simp add: WorkerLoop_def split: if_splits)
  then have "length (tp_workers p') = length (tp_workers p)" using pool_step_length [OF pool_step.work [OF assms(1)]] by simp
  with i assms(2) have "tp_workers p' ! i = Exited" by (auto simp: Stop_joined_def)
  then show ?thesis using assms(1) i
    by (auto simp: WorkerLoop_def set_worker_def split: if_splits worker.splits list.splits)
qed

text \<open>
  C16: Every task runs once, in the order of submission, for any number of threads and any interleaving.
  The tasks taken by the workers are a prefix of the tasks submitted, the rest is the queue; every task
  taken is in the hands of one worker or done; the mutex is held by at most one worker; while the pool is
  not stopped, a task in the queue with no notification to come finds a worker that is awake; and when
  the last worker leaves after \<open>Stop\<close>, every task submitted has been done.
\<close>

theorem thread_pool_runs_tasks_once:
  assumes "pool_reachable n p"
  shows "tp_submitted p = tp_started p @ tp_queue p \<and>
    mset (tp_started p) = mset (tp_done p) + mset (concat (map task_of (tp_workers p))) \<and>
    (\<forall>i j. i < n \<and> j < n \<and> holding (tp_workers p ! i) \<and> holding (tp_workers p ! j) \<longrightarrow> i = j) \<and>
    (tp_queue p \<noteq> [] \<and> tp_notify_one p = 0 \<and> 0 < n \<and> \<not> tp_stop p \<longrightarrow> (\<exists>w\<in>set (tp_workers p). w \<noteq> Sleeping)) \<and>
    (\<forall>i p'. WorkerLoop i p = Some p' \<and> Stop_joined p' \<longrightarrow> mset (tp_done p') = mset (tp_submitted p'))"
proof (intro conjI allI impI)
  note inv = pool_inv [OF assms] and len = pool_length [OF assms]
  show "tp_submitted p = tp_started p @ tp_queue p"
    "mset (tp_started p) = mset (tp_done p) + mset (concat (map task_of (tp_workers p)))"
    using inv by (simp_all add: tasks_inv_def in_hand_def)
  show "i = j" if "i < n \<and> j < n \<and> holding (tp_workers p ! i) \<and> holding (tp_workers p ! j)" for i j
    using inv that len by (auto simp: mutex_inv_def)
  show "\<exists>w\<in>set (tp_workers p). w \<noteq> Sleeping" if "tp_queue p \<noteq> [] \<and> tp_notify_one p = 0 \<and> 0 < n \<and> \<not> tp_stop p"
    using inv that len by (auto simp: wake_inv_def)
  show "mset (tp_done p') = mset (tp_submitted p')" if w: "WorkerLoop i p = Some p' \<and> Stop_joined p'" for i p'
  proof -
    have "tasks_inv p'" using pool_step_inv [OF pool_step.work inv] w by blast
    moreover have "tp_queue p' = []" using last_worker_leaves w by blast
    moreover have "in_hand ws = {#}" if "\<forall>w\<in>set ws. w = Exited" for ws :: "'a worker list"
      using that by (induction ws) (auto simp: in_hand_def)
    then have "in_hand (tp_workers p') = {#}" using w by (simp add: Stop_joined_def)
    ultimately show ?thesis by (simp add: tasks_inv_def)
  qed
qed

lemma pool_reachable_work: "pool_reachable n p \<Longrightarrow> WorkerLoop i p = Some p' \<Longrightarrow> pool_reachable n p'"
  by (rule pool_reachable.step [OF _ pool_step.work])

lemma thread_pool_runs_tasks_once_witness:
  "\<exists>p. pool_reachable 2 p \<and> tp_submitted p = [7 :: nat] \<and> tp_queue p = [7] \<and> tp_started p = []"
proof -
  define p where "p = the (Submit_push (7 :: nat) (ThreadPool_new 2))"
  have "pool_step (ThreadPool_new 2) p" by (rule pool_step.push [of 7]) (simp add: p_def Submit_push_def ThreadPool_new_def)
  then have r: "pool_reachable 2 p" by (rule pool_reachable.step [OF pool_reachable.new])
  have "tp_queue p = [7]" "tp_submitted p = [7]" by (simp_all add: p_def Submit_push_def ThreadPool_new_def)
  with thread_pool_runs_tasks_once [OF r] r show ?thesis by auto
qed

text \<open>A worker asleep stays asleep through the work of the others.\<close>

lemma sleeping_stays:
  assumes "WorkerLoop j p = Some p'" "i < length (tp_workers p)" "tp_workers p ! i = Sleeping"
  shows "i < length (tp_workers p') \<and> tp_workers p' ! i = Sleeping"
proof -
  have "j \<noteq> i" using assms by (auto simp: WorkerLoop_def)
  moreover have "\<exists>w. tp_workers p' = (tp_workers p)[j := w]"
    using assms(1) by (auto simp: WorkerLoop_def set_worker_def split: if_splits worker.splits list.splits)
  ultimately show ?thesis using assms(2,3) by auto
qed

lemma sleeping_forever:
  "(\<lambda>a b. \<exists>j. WorkerLoop j a = Some b)\<^sup>*\<^sup>* p q \<Longrightarrow> i < length (tp_workers p) \<Longrightarrow> tp_workers p ! i = Sleeping \<Longrightarrow>
   i < length (tp_workers q) \<and> tp_workers q ! i = Sleeping"
proof (induction rule: rtranclp_induct)
  case (step q r)
  then show ?case using sleeping_stays by blast
qed simp

text \<open>
  C24: \<open>Stop\<close> can wait for ever.  \<open>stop_\<close> is stored and \<open>notify_all\<close> called without the mutex; a worker that
  has evaluated its predicate before and goes to sleep after misses the notification.  For any positive
  number of threads there is a run in which nothing was ever submitted, \<open>Stop\<close> has notified, no notification
  is to come, and, however the workers go on, \<open>join\<close> never returns (short of a spurious wake-up).
\<close>

theorem thread_pool_stop_can_hang:
  "\<exists>p :: 'a pool. pool_reachable (Suc m) p \<and> tp_stop p \<and> \<not> tp_notify_all p \<and> tp_notify_one p = 0 \<and> tp_submitted p = [] \<and>
    \<not> (\<exists>q. (\<lambda>a b. \<exists>j. WorkerLoop j a = Some b)\<^sup>*\<^sup>* p q \<and> Stop_joined q)"
proof -
  define p0 :: "'a pool" where "p0 = ThreadPool_new (Suc m)"
  define p1 where "p1 = set_worker 0 Checking (p0\<lparr> tp_owner := Some 0 \<rparr>)"
  define p2 where "p2 = set_worker 0 Blocking p1"
  define p3 where "p3 = Stop_store p2"
  define p4 where "p4 = p3\<lparr> tp_notify_all := False \<rparr>"
  define p5 where "p5 = set_worker 0 Sleeping (p4\<lparr> tp_owner := None \<rparr>)"
  note defs = p5_def p4_def p3_def p2_def p1_def p0_def ThreadPool_new_def set_worker_def Stop_store_def
  have "pool_reachable (Suc m) p0" unfolding p0_def by (rule pool_reachable.new)
  moreover have "WorkerLoop 0 p0 = Some p1" by (simp add: WorkerLoop_def defs)
  ultimately have "pool_reachable (Suc m) p1" by (rule pool_reachable_work)
  moreover have "WorkerLoop 0 p1 = Some p2" by (simp add: WorkerLoop_def defs)
  ultimately have "pool_reachable (Suc m) p2" by (rule pool_reachable_work)
  then have "pool_reachable (Suc m) p3" unfolding p3_def by (rule pool_reachable.step [OF _ pool_step.store])
  moreover have "Stop_notify p3 = Some p4"
    by (simp add: Stop_notify_def defs map_replicate_const)
  ultimately have "pool_reachable (Suc m) p4" by (rule pool_reachable.step [OF _ pool_step.notify_all])
  moreover have "WorkerLoop 0 p4 = Some p5" by (simp add: WorkerLoop_def defs)
  ultimately have "pool_reachable (Suc m) p5" by (rule pool_reachable_work)
  moreover have "tp_stop p5 \<and> \<not> tp_notify_all p5 \<and> tp_notify_one p5 = 0 \<and> tp_submitted p5 = []" by (simp add: defs)
  moreover have "\<not> Stop_joined q" if "(\<lambda>a b. \<exists>j. WorkerLoop j a = Some b)\<^sup>*\<^sup>* p5 q" for q
  proof -
    have "0 < length (tp_workers p5)" "tp_workers p5 ! 0 = Sleeping" by (simp_all add: defs)
    from sleeping_forever [OF that this] have "Sleeping \<in> set (tp_workers q)" by (metis nth_mem)
    then show ?thesis by (auto simp: Stop_joined_def)
  qed
  ultimately show ?thesis by blast
qed

end
