(* ===== verification/Reactor.thy ===== *)
theory Reactor
  imports Prelude
begin

text \<open>
  Who owns what in the event loop: \<open>Channel\<close> (\<open>src/src/net/net_channel.cpp\<close>), the registration half of
  \<open>EventLoop\<close> (\<open>net_event_loop.cc\<close>), \<open>TcpServer::HandleNewConnection\<close> (\<open>net_tcp_server.cc\<close>), and the end of
  a \<open>TcpConnection\<close> (\<open>net_tcp_connection.cc\<close>).  Channels are objects in a heap, named by their address;
  the loop holds their addresses by file descriptor, the kernel holds the interest list of the epoll
  instance.  An outer \<open>None\<close> is a use of a channel that was freed.
\<close>

definition EPOLLIN :: u32 where "EPOLLIN = 1"
definition EPOLLOUT :: u32 where "EPOLLOUT = 4"
definition EPOLLERR :: u32 where "EPOLLERR = 8"
definition EPOLLHUP :: u32 where "EPOLLHUP = 16"

record channel =
  ch_fd :: int
  ch_events :: u32

record reactor =
  rc_heap :: "nat \<Rightarrow> channel option"
  rc_channels :: "int \<Rightarrow> nat option"
  rc_epoll :: "int \<Rightarrow> u32 option"

subsection \<open>EventLoop\<close>

text \<open>\<open>EPOLL_CTL_ADD\<close> fails for a descriptor that is there, \<open>EPOLL_CTL_MOD\<close> for one that is not; nobody looks.\<close>

definition UpdateChannel :: "nat \<Rightarrow> reactor \<Rightarrow> reactor option" where
  "UpdateChannel a r = do {
     ch \<leftarrow> rc_heap r a;
     let fd = ch_fd ch;
     let events = ch_events ch;
     Some (if rc_channels r fd = None
           then r\<lparr> rc_channels := (rc_channels r)(fd \<mapsto> a),
                   rc_epoll := (if rc_epoll r fd = None then (rc_epoll r)(fd \<mapsto> events) else rc_epoll r) \<rparr>
           else if events = 0
           then r\<lparr> rc_channels := (rc_channels r)(fd := None), rc_epoll := (rc_epoll r)(fd := None) \<rparr>
           else r\<lparr> rc_epoll := (if rc_epoll r fd = None then rc_epoll r else (rc_epoll r)(fd \<mapsto> events)) \<rparr>) }"

definition RemoveChannel :: "nat \<Rightarrow> reactor \<Rightarrow> reactor option" where
  "RemoveChannel a r = do {
     ch \<leftarrow> rc_heap r a;
     Some (r\<lparr> rc_channels := (rc_channels r)(ch_fd ch := None), rc_epoll := (rc_epoll r)(ch_fd ch := None) \<rparr>) }"

subsection \<open>Channel\<close>

definition set_events :: "nat \<Rightarrow> (u32 \<Rightarrow> u32) \<Rightarrow> reactor \<Rightarrow> reactor option" where
  "set_events a f r = do {
     ch \<leftarrow> rc_heap r a;
     Some (r\<lparr> rc_heap := (rc_heap r)(a \<mapsto> ch\<lparr> ch_events := f (ch_events ch) \<rparr>) \<rparr>) }"

definition EnableReading :: "nat \<Rightarrow> reactor \<Rightarrow> reactor option" where
  "EnableReading a r = Option.bind (set_events a (\<lambda>e. e OR EPOLLIN) r) (UpdateChannel a)"

definition DisableReading :: "nat \<Rightarrow> reactor \<Rightarrow> reactor option" where
  "DisableReading a r = Option.bind (set_events a (\<lambda>e. e AND NOT EPOLLIN) r) (UpdateChannel a)"

definition EnableWriting :: "nat \<Rightarrow> reactor \<Rightarrow> reactor option" where
  "EnableWriting a r = Option.bind (set_events a (\<lambda>e. e OR EPOLLOUT) r) (UpdateChannel a)"

definition DisableWriting :: "nat \<Rightarrow> reactor \<Rightarrow> reactor option" where
  "DisableWriting a r = Option.bind (set_events a (\<lambda>e. e AND NOT EPOLLOUT) r) (UpdateChannel a)"

definition DisableAll :: "nat \<Rightarrow> reactor \<Rightarrow> reactor option" where
  "DisableAll a r = do {
     ch \<leftarrow> rc_heap r a;
     if ch_events ch \<noteq> 0 then Option.bind (set_events a (\<lambda>_. 0) r) (RemoveChannel a) else Some r }"

definition Channel_new :: "nat \<Rightarrow> int \<Rightarrow> reactor \<Rightarrow> reactor" where
  "Channel_new a fd r = r\<lparr> rc_heap := (rc_heap r)(a \<mapsto> \<lparr> ch_fd = fd, ch_events = 0 \<rparr>) \<rparr>"

definition Channel_destroy :: "nat \<Rightarrow> reactor \<Rightarrow> reactor option" where
  "Channel_destroy a r = do { r1 \<leftarrow> DisableAll a r; Some (r1\<lparr> rc_heap := (rc_heap r1)(a := None) \<rparr>) }"

text \<open>The callbacks are arguments; each \<open>if (cb)\<close> reads the channel.\<close>

definition Channel_HandleEvent ::
    "(reactor \<Rightarrow> reactor option) \<Rightarrow> (reactor \<Rightarrow> reactor option) \<Rightarrow> (reactor \<Rightarrow> reactor option) \<Rightarrow> (reactor \<Rightarrow> reactor option) \<Rightarrow>
     nat \<Rightarrow> u32 \<Rightarrow> reactor \<Rightarrow> reactor option" where
  "Channel_HandleEvent close_cb error_cb read_cb write_cb a revents r =
     (if rc_heap r a = None then None
      else if revents AND EPOLLHUP \<noteq> 0 \<and> revents AND EPOLLIN = 0 then close_cb r
      else if revents AND EPOLLERR \<noteq> 0 then error_cb r
      else do {
        r1 \<leftarrow> (if revents AND EPOLLIN \<noteq> 0 then read_cb r else Some r);
        if revents AND EPOLLOUT \<noteq> 0 then (if rc_heap r1 a = None then None else write_cb r1) else Some r1 })"

text \<open>One round of \<open>Loop\<close> over the events the kernel reports.\<close>

fun Loop_events :: "(nat \<Rightarrow> u32 \<Rightarrow> reactor \<Rightarrow> reactor option) \<Rightarrow> (int \<times> u32) list \<Rightarrow> reactor \<Rightarrow> reactor option" where
  "Loop_events handle [] r = Some r"
| "Loop_events handle ((fd, revents) # evs) r = do {
     r1 \<leftarrow> (case rc_channels r fd of None \<Rightarrow> Some r | Some a \<Rightarrow> handle a revents r);
     Loop_events handle evs r1 }"

subsection \<open>A connection comes and goes\<close>

text \<open>\<open>accept\<close> gave the descriptor \<open>fd\<close>; the connection's channel is at \<open>a\<close>.\<close>

definition HandleNewConnection :: "nat \<Rightarrow> int \<Rightarrow> reactor \<Rightarrow> reactor option" where
  "HandleNewConnection a fd r = EnableReading a (Channel_new a fd r)"

text \<open>\<open>close\<close> takes the descriptor out of every epoll instance.\<close>

definition close_fd :: "int \<Rightarrow> reactor \<Rightarrow> reactor" where
  "close_fd fd r = r\<lparr> rc_epoll := (rc_epoll r)(fd := None) \<rparr>"

definition TcpConnection_destroy :: "nat \<Rightarrow> reactor \<Rightarrow> reactor option" where
  "TcpConnection_destroy a r = do {
     ch \<leftarrow> rc_heap r a;
     r1 \<leftarrow> DisableAll a r;
     Channel_destroy a (close_fd (ch_fd ch) r1) }"

text \<open>
  \<open>HandleClose\<close>: the close callback erases the server's \<open>shared_ptr\<close>; the connection dies with it unless
  somebody else (\<open>shared\<close>: a request in the thread pool) holds one.
\<close>

definition Connection_HandleClose :: "bool \<Rightarrow> nat \<Rightarrow> reactor \<Rightarrow> reactor option" where
  "Connection_HandleClose shared a r = do {
     r1 \<leftarrow> DisableAll a r;
     if shared then Some r1 else TcpConnection_destroy a r1 }"

subsection \<open>Registration\<close>

text \<open>What should hold of a channel at all times: it is registered, with its events, exactly if it wants some.\<close>

definition registered :: "reactor \<Rightarrow> nat \<Rightarrow> bool" where
  "registered r a \<longleftrightarrow> (case rc_heap r a of None \<Rightarrow> False
     | Some ch \<Rightarrow> if ch_events ch = 0 then rc_channels r (ch_fd ch) = None \<and> rc_epoll r (ch_fd ch) = None
                  else rc_channels r (ch_fd ch) = Some a \<and> rc_epoll r (ch_fd ch) = Some (ch_events ch))"

definition returns_with :: "reactor option \<Rightarrow> (reactor \<Rightarrow> bool) \<Rightarrow> bool" where
  "returns_with f P \<longleftrightarrow> (case f of None \<Rightarrow> False | Some r \<Rightarrow> P r)"

lemmas reactor_defs = UpdateChannel_def RemoveChannel_def set_events_def EnableReading_def DisableReading_def
  EnableWriting_def DisableWriting_def DisableAll_def Channel_new_def Channel_destroy_def close_fd_def
  TcpConnection_destroy_def Connection_HandleClose_def HandleNewConnection_def Let_def

lemma bit_events: "(e OR EPOLLIN :: u32) \<noteq> 0" "(e OR EPOLLOUT :: u32) \<noteq> 0"
  by (simp_all add: EPOLLIN_def EPOLLOUT_def or_eq_0_iff)

lemma EnableReading_registered:
  "registered r a \<Longrightarrow> returns_with (EnableReading a r) (\<lambda>r. registered r a)"
  using bit_events by (auto simp: registered_def reactor_defs returns_with_def split: option.splits if_splits)

lemma EnableWriting_registered:
  "registered r a \<Longrightarrow> returns_with (EnableWriting a r) (\<lambda>r. registered r a)"
  using bit_events by (auto simp: registered_def reactor_defs returns_with_def split: option.splits if_splits)

text \<open>Giving up an interest keeps it only for a channel that has some.\<close>

lemma Disable_registered:
  assumes "registered r a" "rc_heap r a = Some ch" "ch_events ch \<noteq> 0"
  shows "returns_with (DisableReading a r) (\<lambda>r. registered r a)" "returns_with (DisableWriting a r) (\<lambda>r. registered r a)"
  using assms by (auto simp: registered_def reactor_defs returns_with_def)

lemma DisableAll_registered: "registered r a \<Longrightarrow> returns_with (DisableAll a r) (\<lambda>r. registered r a)"
  by (auto simp: registered_def reactor_defs returns_with_def split: option.splits if_splits)

lemma HandleNewConnection_registered:
  "rc_channels r fd = None \<Longrightarrow> rc_epoll r fd = None \<Longrightarrow> returns_with (HandleNewConnection a fd r) (\<lambda>r. registered r a)"
  by (auto simp: registered_def reactor_defs EPOLLIN_def returns_with_def)

text \<open>A connection that is registered leaves nothing behind.\<close>

lemma destroy_registered:
  assumes "registered r a" "rc_heap r a = Some ch"
  shows "\<exists>r'. TcpConnection_destroy a r = Some r' \<and> rc_heap r' a = None \<and> rc_channels r' (ch_fd ch) = None \<and> rc_epoll r' (ch_fd ch) = None"
  using assms by (auto simp: registered_def reactor_defs)

subsection \<open>Two ways it goes wrong\<close>

text \<open>
  The peer closes while the socket is also writable, and the two events come together: reading closes the
  connection and frees the channel whose \<open>HandleEvent\<close> is running, which then looks for its write callback.
\<close>

lemma event_after_free:
  assumes "registered r a" "rc_heap r a = Some ch" "ch_events ch \<noteq> 0"
  shows "Channel_HandleEvent cl er (Connection_HandleClose False a) wr a (EPOLLIN OR EPOLLOUT) r = None"
  using assms by (auto simp: Channel_HandleEvent_def registered_def reactor_defs EPOLLIN_def EPOLLOUT_def EPOLLHUP_def EPOLLERR_def)

text \<open>
  The same while a request of the connection is still in the thread pool: the write callback empties the
  buffer and gives up writing, and this registers the closed channel again.  When the request lets go of the
  connection the loop keeps the address of a freed channel, and the next connection with this descriptor
  is never registered with the kernel.
\<close>

lemma stale_registration:
  assumes "registered r a" "rc_heap r a = Some ch" "ch_events ch \<noteq> 0" "b \<noteq> a"
  shows "\<exists>r1 r2 r3. Channel_HandleEvent cl er (Connection_HandleClose True a) (DisableWriting a) a (EPOLLIN OR EPOLLOUT) r = Some r1 \<and>
    TcpConnection_destroy a r1 = Some r2 \<and> rc_heap r2 a = None \<and> rc_channels r2 (ch_fd ch) = Some a \<and>
    HandleNewConnection b (ch_fd ch) r2 = Some r3 \<and> rc_channels r3 (ch_fd ch) = Some a \<and> rc_epoll r3 (ch_fd ch) = None"
  using assms by (auto simp: Channel_HandleEvent_def registered_def reactor_defs EPOLLIN_def EPOLLOUT_def EPOLLHUP_def EPOLLERR_def)

end
