(* ===== verification/EventLoop.thy ===== *)
theory EventLoop
  imports Reactor
begin

text \<open>
  The event loop (\<open>src/src/net/net_event_loop.cc\<close>) as one thread among others: polling, the descriptor that
  wakes it up, the tasks that other threads give it, and how it ends.  The channels it dispatches to are those
  of theory \<open>Reactor\<close>.  A task is any value, \<open>run\<close> is what it does to the channels, \<open>handle\<close> is
  \<open>Channel::HandleEvent\<close>.  Other threads come in between any two steps.
\<close>

text \<open>What \<open>epoll_wait\<close> reports: the wake-up descriptor, or a channel's.\<close>

datatype report = Woken | Ready int u32

text \<open>Where the loop's thread is.\<close>

datatype 'a loop_point = At_test | In_poll | Handling "report list" nat | At_swap | Running "'a list" | Returned

text \<open>
  \<open>el_counter\<close> is the value of the eventfd.  \<open>el_wakes\<close> counts the threads that have pushed a task, or set
  \<open>quit_\<close>, and are about to write to it.  The last two fields are histories.
\<close>

record 'a event_loop =
  el_reactor :: reactor
  el_pending_tasks :: "'a list"
  el_counter :: nat
  el_quit :: bool
  el_events :: nat
  el_at :: "'a loop_point"
  el_wakes :: nat
  el_submitted :: "'a list"
  el_done :: "'a list"

definition EventLoop_new :: "'a event_loop" where
  "EventLoop_new = \<lparr> el_reactor = \<lparr> rc_heap = (\<lambda>_. None), rc_channels = (\<lambda>_. None), rc_epoll = (\<lambda>_. None) \<rparr>,
     el_pending_tasks = [], el_counter = 0, el_quit = False, el_events = 16, el_at = At_test, el_wakes = 0, el_submitted = [], el_done = [] \<rparr>"

subsection \<open>Other threads\<close>

definition RunInLoop :: "'a \<Rightarrow> 'a event_loop \<Rightarrow> 'a event_loop" where
  "RunInLoop task s = s\<lparr> el_pending_tasks := el_pending_tasks s @ [task], el_wakes := el_wakes s + 1, el_submitted := el_submitted s @ [task] \<rparr>"

definition Quit :: "'a event_loop \<Rightarrow> 'a event_loop" where
  "Quit s = s\<lparr> el_quit := True, el_wakes := el_wakes s + 1 \<rparr>"

text \<open>A write to the eventfd adds one; at its maximum it would block, and as it must not, it fails.\<close>

definition WakeUp :: "'a event_loop \<Rightarrow> 'a event_loop option" where
  "WakeUp s = (if el_wakes s = 0 then None
     else Some (s\<lparr> el_wakes := el_wakes s - 1, el_counter := (if el_counter s < 2 ^ 64 - 2 then el_counter s + 1 else el_counter s) \<rparr>))"

subsection \<open>The loop's thread\<close>

definition HandleWakeUp :: "'a event_loop \<Rightarrow> 'a event_loop" where
  "HandleWakeUp s = s\<lparr> el_counter := 0 \<rparr>"

text \<open>What \<open>epoll_wait\<close> may answer, at most ten milliseconds later.\<close>

definition reportable :: "report list \<Rightarrow> 'a event_loop \<Rightarrow> bool" where
  "reportable reports s \<longleftrightarrow> length reports \<le> el_events s \<and> distinct reports \<and> (Woken \<in> set reports \<longrightarrow> 0 < el_counter s)"

text \<open>\<open>HandlePendingTasks\<close>: the swap under the mutex, then the tasks, one at a time.\<close>

definition HandlePendingTasks_swap :: "'a event_loop \<Rightarrow> 'a event_loop" where
  "HandlePendingTasks_swap s = s\<lparr> el_pending_tasks := [], el_at := Running (el_pending_tasks s) \<rparr>"

definition Loop_step ::
    "(nat \<Rightarrow> u32 \<Rightarrow> reactor \<Rightarrow> reactor option) \<Rightarrow> ('a \<Rightarrow> reactor \<Rightarrow> reactor option) \<Rightarrow> report list \<Rightarrow> 'a event_loop \<Rightarrow> 'a event_loop option" where
  "Loop_step handle run reports s =
     (case el_at s of
        At_test \<Rightarrow> Some (s\<lparr> el_at := (if el_quit s then Returned else In_poll) \<rparr>)
      | In_poll \<Rightarrow> if reportable reports s then Some (s\<lparr> el_at := Handling reports (length reports) \<rparr>) else None
      | Handling [] n \<Rightarrow> Some (s\<lparr> el_events := (if n = el_events s then el_events s * 2 else el_events s), el_at := At_swap \<rparr>)
      | Handling (Woken # rs) n \<Rightarrow> Some ((HandleWakeUp s)\<lparr> el_at := Handling rs n \<rparr>)
      | Handling (Ready fd revents # rs) n \<Rightarrow> do {
          r \<leftarrow> Loop_events handle [(fd, revents)] (el_reactor s);
          Some (s\<lparr> el_reactor := r, el_at := Handling rs n \<rparr>) }
      | At_swap \<Rightarrow> Some (HandlePendingTasks_swap s)
      | Running [] \<Rightarrow> Some (s\<lparr> el_at := At_test \<rparr>)
      | Running (t # ts) \<Rightarrow> do {
          r \<leftarrow> run t (el_reactor s);
          Some (s\<lparr> el_reactor := r, el_done := el_done s @ [t], el_at := Running ts \<rparr>) }
      | Returned \<Rightarrow> None)"

inductive el_step ::
    "(nat \<Rightarrow> u32 \<Rightarrow> reactor \<Rightarrow> reactor option) \<Rightarrow> ('a \<Rightarrow> reactor \<Rightarrow> reactor option) \<Rightarrow> 'a event_loop \<Rightarrow> 'a event_loop \<Rightarrow> bool"
  for handle run where
  submit: "el_step handle run s (RunInLoop task s)"
| quit: "el_step handle run s (Quit s)"
| wake: "WakeUp s = Some s' \<Longrightarrow> el_step handle run s s'"
| loop: "Loop_step handle run reports s = Some s' \<Longrightarrow> el_step handle run s s'"

abbreviation el_reachable ::
    "(nat \<Rightarrow> u32 \<Rightarrow> reactor \<Rightarrow> reactor option) \<Rightarrow> ('a \<Rightarrow> reactor \<Rightarrow> reactor option) \<Rightarrow> 'a event_loop \<Rightarrow> bool" where
  "el_reachable handle run s \<equiv> (el_step handle run)\<^sup>*\<^sup>* EventLoop_new s"

subsection \<open>No task and no wake-up is lost\<close>

fun in_hand :: "'a loop_point \<Rightarrow> 'a list" where
  "in_hand (Running ts) = ts"
| "in_hand _ = []"

text \<open>Past the poll and before the swap the loop will look at the tasks anyway.\<close>

fun will_look :: "'a loop_point \<Rightarrow> bool" where
  "will_look (Handling rs n) \<longleftrightarrow> True"
| "will_look At_swap \<longleftrightarrow> True"
| "will_look _ \<longleftrightarrow> False"

definition el_inv :: "'a event_loop \<Rightarrow> bool" where
  "el_inv s \<longleftrightarrow> el_submitted s = el_done s @ in_hand (el_at s) @ el_pending_tasks s \<and>
     (el_pending_tasks s \<noteq> [] \<longrightarrow> 0 < el_wakes s \<or> 0 < el_counter s \<or> will_look (el_at s)) \<and>
     (el_quit s \<longrightarrow> 0 < el_wakes s \<or> 0 < el_counter s \<or> will_look (el_at s) \<or> (\<exists>ts. el_at s = Running ts) \<or> el_at s \<in> {At_test, Returned})"

lemma Loop_step_inv:
  assumes "Loop_step handle run reports s = Some s'" "el_inv s"
  shows "el_inv s'"
proof (cases "el_at s")
  case (Handling rs n)
  show ?thesis
  proof (cases rs)
    case Nil
    with assms Handling show ?thesis by (auto simp: Loop_step_def el_inv_def)
  next
    case (Cons r rs')
    with assms Handling show ?thesis by (cases r) (auto simp: Loop_step_def el_inv_def HandleWakeUp_def bind_eq_Some_conv split: option.splits)
  qed
next
  case (Running ts)
  with assms show ?thesis by (cases ts) (auto simp: Loop_step_def el_inv_def bind_eq_Some_conv)
qed (use assms in \<open>auto simp: Loop_step_def el_inv_def HandlePendingTasks_swap_def split: if_splits\<close>)

lemma el_step_inv: "el_step handle run s s' \<Longrightarrow> el_inv s \<Longrightarrow> el_inv s'"
proof (induction rule: el_step.induct)
  case (wake s s')
  then show ?case by (auto simp: WakeUp_def el_inv_def split: if_splits)
next
  case (loop reports s s')
  then show ?case by (rule Loop_step_inv)
qed (auto simp: RunInLoop_def Quit_def el_inv_def)

lemma el_reachable_inv: "el_reachable handle run s \<Longrightarrow> el_inv s"
proof (induction rule: rtranclp_induct)
  case base
  show ?case by (simp add: EventLoop_new_def el_inv_def)
next
  case (step s s')
  then show ?case using el_step_inv by blast
qed

lemma returned_stays: "el_step handle run s s' \<Longrightarrow> el_at s = Returned \<Longrightarrow> el_at s' = Returned \<and> el_done s' = el_done s"
  by (induction rule: el_step.induct) (auto simp: RunInLoop_def Quit_def WakeUp_def Loop_step_def split: if_splits)

lemma returned_forever: "(el_step handle run)\<^sup>*\<^sup>* s s' \<Longrightarrow> el_at s = Returned \<Longrightarrow> el_at s' = Returned \<and> el_done s' = el_done s"
proof (induction rule: rtranclp_induct)
  case (step s' s'')
  then show ?case using returned_stays [OF step(2)] by simp
qed simp

text \<open>
  C14: the loop loses no task and no wake-up.  Under every interleaving, the tasks submitted are, in this
  order, the tasks done, those in hand and those pending, so each is done at most once and in the order of
  submission; when the loop waits in \<open>epoll_wait\<close> with a task pending or a quit asked for, and no thread is
  about to write to the eventfd, the eventfd is readable, so that the wait ends at once; and when \<open>Loop\<close> has
  returned, no task is done any more, whatever is still submitted.
\<close>

theorem event_loop_loses_nothing:
  assumes "el_reachable handle run s"
  shows "el_submitted s = el_done s @ in_hand (el_at s) @ el_pending_tasks s \<and>
    (el_at s = In_poll \<and> (el_pending_tasks s \<noteq> [] \<or> el_quit s) \<and> el_wakes s = 0 \<longrightarrow> 0 < el_counter s) \<and>
    (el_at s = Returned \<longrightarrow> (\<forall>s'. (el_step handle run)\<^sup>*\<^sup>* s s' \<longrightarrow> el_done s' = el_done s))"
proof (intro conjI impI allI)
  note inv = el_reachable_inv [OF assms]
  show "el_submitted s = el_done s @ in_hand (el_at s) @ el_pending_tasks s" using inv by (simp add: el_inv_def)
  show "0 < el_counter s" if "el_at s = In_poll \<and> (el_pending_tasks s \<noteq> [] \<or> el_quit s) \<and> el_wakes s = 0"
    using inv that by (auto simp: el_inv_def)
  show "el_done s' = el_done s" if "el_at s = Returned" "(el_step handle run)\<^sup>*\<^sup>* s s'" for s'
    using returned_forever [OF that(2,1)] by simp
qed

lemma reach_step: "el_reachable handle run s \<Longrightarrow> el_step handle run s s' \<Longrightarrow> el_reachable handle run s'"
  by simp

lemma reach_loop: "el_reachable handle run s \<Longrightarrow> Loop_step handle run reports s = Some s' \<Longrightarrow> el_reachable handle run s'"
  by (rule rtranclp.rtrancl_into_rtrancl) (auto intro: el_step.loop)

theorem event_loop_loses_nothing_witness:
  "\<exists>s :: nat event_loop. el_reachable (\<lambda>_ _ r. Some r) (\<lambda>_ r. Some r) s \<and> el_at s = In_poll \<and> el_pending_tasks s = [7] \<and> el_wakes s = 0 \<and> 0 < el_counter s"
proof -
  define s1 where "s1 = (EventLoop_new :: nat event_loop)\<lparr> el_at := In_poll \<rparr>"
  define s2 where "s2 = RunInLoop 7 s1"
  define s3 where "s3 = s2\<lparr> el_wakes := 0, el_counter := 1 \<rparr>"
  have "el_reachable (\<lambda>_ _ r. Some r) (\<lambda>_ r. Some r) s1"
    by (rule reach_loop [of _ _ EventLoop_new "[]"]) (simp_all add: Loop_step_def EventLoop_new_def s1_def)
  then have "el_reachable (\<lambda>_ _ r. Some r) (\<lambda>_ r. Some r) s2" unfolding s2_def by (rule reach_step) (rule el_step.submit)
  moreover have "WakeUp s2 = Some s3" by (simp add: WakeUp_def s3_def s2_def s1_def RunInLoop_def EventLoop_new_def)
  ultimately have r: "el_reachable (\<lambda>_ _ r. Some r) (\<lambda>_ r. Some r) s3" by (rule reach_step [OF _ el_step.wake])
  have s3: "el_at s3 = In_poll" "el_pending_tasks s3 = [7]" "el_wakes s3 = 0" by (simp_all add: s3_def s2_def s1_def RunInLoop_def EventLoop_new_def)
  have "0 < el_counter s3" using event_loop_loses_nothing [OF r] by (auto simp: s3)
  with r s3 show ?thesis by blast
qed

subsection \<open>Every round does what is pending\<close>

abbreviation loop_alone ::
    "(nat \<Rightarrow> u32 \<Rightarrow> reactor \<Rightarrow> reactor option) \<Rightarrow> ('a \<Rightarrow> reactor \<Rightarrow> reactor option) \<Rightarrow> 'a event_loop \<Rightarrow> 'a event_loop \<Rightarrow> bool" where
  "loop_alone handle run \<equiv> (\<lambda>s s'. \<exists>reports. Loop_step handle run reports s = Some s')\<^sup>*\<^sup>*"

lemma alone_step: "Loop_step handle run reports s = Some s1 \<Longrightarrow> loop_alone handle run s1 s' \<Longrightarrow> loop_alone handle run s s'"
  by (rule converse_rtranclp_into_rtranclp) auto

lemma Loop_events_total:
  assumes "\<forall>a e r. handle a e r \<noteq> None"
  shows "\<exists>q. Loop_events handle [(fd, e)] r = Some q"
proof (cases "rc_channels r fd")
  case (Some a)
  then obtain q where "handle a e r = Some q" using assms by blast
  with Some show ?thesis by simp
qed simp

lemma running_ends:
  assumes "\<forall>t r. run t r \<noteq> None" "el_at s = Running ts"
  shows "\<exists>s'. loop_alone handle run s s' \<and> el_at s' = At_test \<and> el_done s' = el_done s @ ts \<and> el_pending_tasks s' = el_pending_tasks s"
  using assms(2)
proof (induction ts arbitrary: s)
  case Nil
  then have "Loop_step handle run [] s = Some (s\<lparr> el_at := At_test \<rparr>)" by (simp add: Loop_step_def)
  from alone_step [OF this] show ?case by (intro exI [of _ "s\<lparr> el_at := At_test \<rparr>"]) simp
next
  case (Cons t ts)
  obtain r where "run t (el_reactor s) = Some r" using assms(1) by blast
  then have step: "Loop_step handle run [] s = Some (s\<lparr> el_reactor := r, el_done := el_done s @ [t], el_at := Running ts \<rparr>)"
    using Cons.prems by (simp add: Loop_step_def)
  from Cons.IH [of "s\<lparr> el_reactor := r, el_done := el_done s @ [t], el_at := Running ts \<rparr>"] alone_step [OF step] show ?case by auto
qed

lemma handling_ends:
  assumes "\<forall>a e r. handle a e r \<noteq> None" "el_at s = Handling rs n"
  shows "\<exists>s'. loop_alone handle run s s' \<and> el_at s' = At_swap \<and> el_done s' = el_done s \<and> el_pending_tasks s' = el_pending_tasks s"
  using assms(2)
proof (induction rs arbitrary: s)
  case Nil
  then obtain s' where s': "Loop_step handle run [] s = Some s'" "el_at s' = At_swap" "el_done s' = el_done s" "el_pending_tasks s' = el_pending_tasks s"
    by (simp add: Loop_step_def)
  then show ?case using alone_step [OF s'(1)] by blast
next
  case (Cons r rs)
  have "\<exists>s'. Loop_step handle run [] s = Some s' \<and> el_at s' = Handling rs n \<and> el_done s' = el_done s \<and> el_pending_tasks s' = el_pending_tasks s"
  proof (cases r)
    case Woken
    with Cons.prems show ?thesis by (simp add: Loop_step_def HandleWakeUp_def)
  next
    case (Ready fd e)
    obtain q where "Loop_events handle [(fd, e)] (el_reactor s) = Some q" using Loop_events_total [OF assms(1)] by blast
    with Ready Cons.prems have "Loop_step handle run [] s = Some (s\<lparr> el_reactor := q, el_at := Handling rs n \<rparr>)"
      unfolding Loop_step_def by (simp del: Loop_events.simps)
    then show ?thesis by simp
  qed
  then obtain s1 where s1: "Loop_step handle run [] s = Some s1" "el_at s1 = Handling rs n" "el_done s1 = el_done s" "el_pending_tasks s1 = el_pending_tasks s"
    by blast
  from Cons.IH [OF s1(2)] obtain s' where s': "loop_alone handle run s1 s'" "el_at s' = At_swap" "el_done s' = el_done s" "el_pending_tasks s' = el_pending_tasks s"
    unfolding s1(3,4) by blast
  have "loop_alone handle run s s'" by (rule alone_step [OF s1(1) s'(1)])
  with s'(2-4) show ?case by blast
qed

text \<open>
  The loop is never stuck and serves everybody.  Whatever \<open>epoll_wait\<close> reports, and as long as handlers
  and tasks themselves return, the loop's thread comes back to the test of \<open>quit_\<close> by its own steps, and by then
  has done every task that had been submitted when it began to wait.
\<close>

theorem event_loop_round_does_all:
  assumes "el_reachable handle run s" and "el_at s = In_poll" and "reportable reports s"
    and "\<forall>a e r. handle a e r \<noteq> None" and "\<forall>t r. run t r \<noteq> None"
  shows "\<exists>s'. loop_alone handle run s s' \<and> el_at s' = At_test \<and> el_done s' = el_submitted s \<and> el_pending_tasks s' = []"
proof -
  have all: "el_submitted s = el_done s @ el_pending_tasks s" using el_reachable_inv [OF assms(1)] assms(2) by (simp add: el_inv_def)
  have poll: "Loop_step handle run reports s = Some (s\<lparr> el_at := Handling reports (length reports) \<rparr>)"
    using assms(2,3) by (simp add: Loop_step_def)
  obtain s2 where s2: "loop_alone handle run (s\<lparr> el_at := Handling reports (length reports) \<rparr>) s2" "el_at s2 = At_swap" "el_done s2 = el_done s"
    "el_pending_tasks s2 = el_pending_tasks s"
    using handling_ends [where s = "s\<lparr> el_at := Handling reports (length reports) \<rparr>", OF assms(4)] by auto
  have swap: "Loop_step handle run [] s2 = Some (HandlePendingTasks_swap s2)" using s2(2) by (simp add: Loop_step_def)
  obtain s4 where s4: "loop_alone handle run (HandlePendingTasks_swap s2) s4" "el_at s4 = At_test" "el_done s4 = el_done s2 @ el_pending_tasks s2" "el_pending_tasks s4 = []"
    using running_ends [where s = "HandlePendingTasks_swap s2", OF assms(5)] by (auto simp: HandlePendingTasks_swap_def)
  have "loop_alone handle run s s2" by (rule alone_step [OF poll s2(1)])
  moreover have "loop_alone handle run s2 s4" by (rule alone_step [OF swap s4(1)])
  ultimately have "loop_alone handle run s s4" by (rule rtranclp_trans)
  with s4 s2 all show ?thesis by auto
qed

theorem event_loop_round_does_all_witness:
  "\<exists>s s' :: nat event_loop. el_submitted s = [7] \<and> el_done s = [] \<and> loop_alone (\<lambda>_ _ r. Some r) (\<lambda>_ r. Some r) s s' \<and> el_at s' = At_test \<and> el_done s' = [7]"
proof -
  define s1 where "s1 = (EventLoop_new :: nat event_loop)\<lparr> el_at := In_poll \<rparr>"
  define s2 where "s2 = RunInLoop 7 s1"
  have "el_reachable (\<lambda>_ _ r. Some r) (\<lambda>_ r. Some r) s1"
    by (rule reach_loop [of _ _ EventLoop_new "[]"]) (simp_all add: Loop_step_def EventLoop_new_def s1_def)
  then have r: "el_reachable (\<lambda>_ _ r. Some r) (\<lambda>_ r. Some r) s2" unfolding s2_def by (rule reach_step) (rule el_step.submit)
  have s2: "el_at s2 = In_poll" "reportable [] s2" "el_submitted s2 = [7]" "el_done s2 = []"
    by (simp_all add: s2_def s1_def RunInLoop_def EventLoop_new_def reportable_def)
  from event_loop_round_does_all [OF r s2(1,2)] s2 show ?thesis by fastforce
qed

text \<open>A task given to the loop after its last look is never done: \<open>NameNodeServer\<close> answers requests this way.\<close>

lemma quit_drops_tasks:
  "\<exists>s :: nat event_loop. el_reachable handle run s \<and> el_at s = Returned \<and> el_pending_tasks s = [7] \<and> el_done s = []"
proof -
  define s1 where "s1 = Quit (EventLoop_new :: nat event_loop)"
  define s2 where "s2 = RunInLoop 7 s1"
  define s3 where "s3 = s2\<lparr> el_at := Returned \<rparr>"
  have "el_reachable handle run s1" unfolding s1_def by (rule reach_step [OF _ el_step.quit]) simp
  then have "el_reachable handle run s2" unfolding s2_def by (rule reach_step) (rule el_step.submit)
  moreover have "Loop_step handle run [] s2 = Some s3"
    by (simp add: Loop_step_def s3_def s2_def s1_def RunInLoop_def Quit_def EventLoop_new_def)
  ultimately have "el_reachable handle run s3" by (rule reach_loop)
  then show ?thesis by (intro exI [of _ s3]) (simp add: s3_def s2_def s1_def RunInLoop_def Quit_def EventLoop_new_def)
qed

end
