(* ===== verification/TcpServer.thy ===== *)
theory TcpServer
  imports Reactor "HOL-Library.Multiset"
begin

text \<open>
  The server (\<open>src/src/net/net_tcp_server.cc\<close>): its listening channel, its table of connections, and who keeps
  a connection alive: the table, and requests of the connection that are still in the thread pool.  The steps
  are the callbacks with everything they can do, also the two reports of theory \<open>Reactor\<close> with which it goes
  wrong; for runs without such reports it is shown to go right.
\<close>

record tcp_server =
  sv_reactor :: reactor
  sv_server_fd :: int
  sv_accept_channel :: "nat option"
  sv_connections :: "int \<Rightarrow> nat option"
  sv_held :: "nat multiset"

definition TcpServer_new :: "reactor \<Rightarrow> tcp_server" where
  "TcpServer_new r = \<lparr> sv_reactor = r, sv_server_fd = -1, sv_accept_channel = None, sv_connections = (\<lambda>_. None), sv_held = {#} \<rparr>"

text \<open>\<open>sock\<close>, \<open>bound\<close> and \<open>listening\<close> are what the system calls answer, \<open>a\<close> is where the channel is allocated.\<close>

definition TcpServer_Start :: "int \<Rightarrow> bool \<Rightarrow> bool \<Rightarrow> nat \<Rightarrow> tcp_server \<Rightarrow> (bool \<times> tcp_server) option" where
  "TcpServer_Start sock bound listening a s =
     (let s1 = s\<lparr> sv_server_fd := sock \<rparr> in
      if sock < 0 then Some (False, s1)
      else if \<not> bound then Some (False, s1)
      else if \<not> listening then Some (False, s1)
      else do {
        r \<leftarrow> EnableReading a (Channel_new a sock (sv_reactor s1));
        Some (True, s1\<lparr> sv_accept_channel := Some a, sv_reactor := r \<rparr>) })"

text \<open>A \<open>shared_ptr\<close> to the connection at \<open>a\<close> is given up; the last one destroys it.\<close>

definition drop_connection :: "nat \<Rightarrow> tcp_server \<Rightarrow> tcp_server option" where
  "drop_connection a s =
     (if a \<in># sv_held s \<or> a \<in> ran (sv_connections s) then Some s
      else do { r \<leftarrow> TcpConnection_destroy a (sv_reactor s); Some (s\<lparr> sv_reactor := r \<rparr>) })"

text \<open>\<open>client_fd\<close> is what \<open>accept\<close> answers; a connection that was in the table under it loses its place.\<close>

definition TcpServer_HandleNewConnection :: "int \<Rightarrow> nat \<Rightarrow> tcp_server \<Rightarrow> tcp_server option" where
  "TcpServer_HandleNewConnection client_fd a s =
     (if client_fd < 0 then Some s
      else do {
        let s1 = s\<lparr> sv_reactor := Channel_new a client_fd (sv_reactor s), sv_connections := (sv_connections s)(client_fd \<mapsto> a) \<rparr>;
        s2 \<leftarrow> (case sv_connections s client_fd of None \<Rightarrow> Some s1 | Some b \<Rightarrow> drop_connection b s1);
        r \<leftarrow> EnableReading a (sv_reactor s2);
        Some (s2\<lparr> sv_reactor := r \<rparr>) })"

text \<open>\<open>TcpConnection::HandleClose\<close> with the close callback the server sets.\<close>

definition TcpServer_HandleClose :: "nat \<Rightarrow> tcp_server \<Rightarrow> tcp_server option" where
  "TcpServer_HandleClose a s = do {
     ch \<leftarrow> rc_heap (sv_reactor s) a;
     r \<leftarrow> DisableAll a (sv_reactor s);
     drop_connection a (s\<lparr> sv_reactor := r, sv_connections := (sv_connections s)(ch_fd ch := None) \<rparr>) }"

text \<open>A request goes to the thread pool with a \<open>shared_ptr\<close> to its connection, and is done.\<close>

definition hold :: "nat \<Rightarrow> tcp_server \<Rightarrow> tcp_server" where
  "hold a s = s\<lparr> sv_held := add_mset a (sv_held s) \<rparr>"

definition release :: "nat \<Rightarrow> tcp_server \<Rightarrow> tcp_server option" where
  "release a s = drop_connection a (s\<lparr> sv_held := sv_held s - {#a#} \<rparr>)"

subsection \<open>What can happen to a running server\<close>

text \<open>How reading ends (nothing more to read; the end of the stream or an error), and what writing does.\<close>

datatype read_end = Drained | Ended
datatype write_end = Kept | Emptied | Broken

text \<open>
  \<open>TcpConnection::HandleRead\<close>, \<open>gives\<close> being whether a message is complete and goes to the pool, and
  \<open>TcpConnection::HandleWrite\<close>.
\<close>

definition read_cb :: "nat \<Rightarrow> bool \<Rightarrow> read_end \<Rightarrow> tcp_server \<Rightarrow> tcp_server option" where
  "read_cb a gives e s =
     (let s1 = (if gives then hold a s else s)
      in case e of Drained \<Rightarrow> Some s1 | Ended \<Rightarrow> TcpServer_HandleClose a s1)"

definition write_cb :: "nat \<Rightarrow> write_end \<Rightarrow> tcp_server \<Rightarrow> tcp_server option" where
  "write_cb a w s =
     (case w of Kept \<Rightarrow> Some s
      | Emptied \<Rightarrow> map_option (\<lambda>r. s\<lparr> sv_reactor := r \<rparr>) (DisableWriting a (sv_reactor s))
      | Broken \<Rightarrow> TcpServer_HandleClose a s)"

text \<open>\<open>Channel::HandleEvent\<close> of a connection's channel, with the callbacks \<open>TcpConnection::Start\<close> sets.\<close>

definition connection_event :: "nat \<Rightarrow> u32 \<Rightarrow> bool \<Rightarrow> read_end \<Rightarrow> write_end \<Rightarrow> tcp_server \<Rightarrow> tcp_server option" where
  "connection_event a revents gives e w s =
     (if rc_heap (sv_reactor s) a = None then None
      else if revents AND EPOLLHUP \<noteq> 0 \<and> revents AND EPOLLIN = 0 then TcpServer_HandleClose a s
      else if revents AND EPOLLERR \<noteq> 0 then TcpServer_HandleClose a s
      else do {
        s1 \<leftarrow> (if revents AND EPOLLIN \<noteq> 0 then read_cb a gives e s else Some s);
        if revents AND EPOLLOUT \<noteq> 0 then (if rc_heap (sv_reactor s1) a = None then None else write_cb a w s1) else Some s1 })"

text \<open>
  Everything that happens to the channels of a running server: \<open>accept\<close> answers, the loop dispatches a report, a
  task of the pool sends and wants a writable socket, it closes the connection, or it gives its pointer up.
\<close>

datatype sv_act =
    Accepted int nat
  | Reported nat u32 bool read_end write_end
  | Sending nat
  | Closing nat
  | Released nat

fun sv_act_run :: "sv_act \<Rightarrow> tcp_server \<Rightarrow> tcp_server option" where
  "sv_act_run (Accepted fd a) s = TcpServer_HandleNewConnection fd a s"
| "sv_act_run (Reported a revents gives e w) s = connection_event a revents gives e w s"
| "sv_act_run (Sending a) s = map_option (\<lambda>r. s\<lparr> sv_reactor := r \<rparr>) (EnableWriting a (sv_reactor s))"
| "sv_act_run (Closing a) s = TcpServer_HandleClose a s"
| "sv_act_run (Released a) s = release a s"

text \<open>
  When it can happen.  Descriptors and addresses that \<open>accept\<close> and the allocator give are not in use; the loop
  dispatches to the channel it has for a descriptor; only who has a pointer to a connection uses it.
\<close>

fun sv_may :: "sv_act \<Rightarrow> tcp_server \<Rightarrow> bool" where
  "sv_may (Accepted fd a) s \<longleftrightarrow> sv_accept_channel s \<noteq> None \<and>
     (0 \<le> fd \<longrightarrow> rc_heap (sv_reactor s) a = None \<and> (\<forall>b x. rc_heap (sv_reactor s) b = Some x \<longrightarrow> ch_fd x \<noteq> fd))"
| "sv_may (Reported a revents gives e w) s \<longleftrightarrow> a \<in> ran (rc_channels (sv_reactor s)) \<and> sv_accept_channel s \<noteq> Some a"
| "sv_may (Sending a) s \<longleftrightarrow> a \<in> ran (sv_connections s) \<or> a \<in># sv_held s"
| "sv_may (Closing a) s \<longleftrightarrow> a \<in> ran (sv_connections s) \<or> a \<in># sv_held s"
| "sv_may (Released a) s \<longleftrightarrow> a \<in># sv_held s"

text \<open>The histories of a server.\<close>

inductive sv_history :: "reactor \<Rightarrow> sv_act list \<Rightarrow> tcp_server \<Rightarrow> bool" for r where
  start: "TcpServer_Start sock bound listening a (TcpServer_new r) = Some (ok, s) \<Longrightarrow> sv_history r [] s"
| act: "sv_history r acts s \<Longrightarrow> sv_may x s \<Longrightarrow> sv_act_run x s = Some s' \<Longrightarrow> sv_history r (acts @ [x]) s'"

text \<open>A report that is not calm: readable and writable at once, and reading finds the end.\<close>

fun calm :: "sv_act \<Rightarrow> bool" where
  "calm (Reported a revents gives e w) \<longleftrightarrow>
     \<not> (revents AND EPOLLIN \<noteq> 0 \<and> revents AND EPOLLERR = 0 \<and> revents AND EPOLLOUT \<noteq> 0 \<and> e = Ended)"
| "calm _ \<longleftrightarrow> True"

subsection \<open>What the operations do to a channel that is registered\<close>

definition put :: "nat \<Rightarrow> int \<Rightarrow> u32 \<Rightarrow> reactor \<Rightarrow> reactor" where
  "put a fd e r = r\<lparr> rc_heap := (rc_heap r)(a \<mapsto> \<lparr> ch_fd = fd, ch_events = e \<rparr>),
     rc_channels := (rc_channels r)(fd := (if e = 0 then None else Some a)),
     rc_epoll := (rc_epoll r)(fd := (if e = 0 then None else Some e)) \<rparr>"

definition wipe :: "nat \<Rightarrow> int \<Rightarrow> reactor \<Rightarrow> reactor" where
  "wipe a fd r = r\<lparr> rc_heap := (rc_heap r)(a := None), rc_channels := (rc_channels r)(fd := None), rc_epoll := (rc_epoll r)(fd := None) \<rparr>"

lemma operations_put:
  assumes "registered r a" "rc_heap r a = Some ch"
  shows "EnableReading a r = Some (put a (ch_fd ch) (ch_events ch OR EPOLLIN) r)"
    and "EnableWriting a r = Some (put a (ch_fd ch) (ch_events ch OR EPOLLOUT) r)"
    and "ch_events ch \<noteq> 0 \<Longrightarrow> DisableWriting a r = Some (put a (ch_fd ch) (ch_events ch AND NOT EPOLLOUT) r)"
    and "DisableAll a r = Some (put a (ch_fd ch) 0 r)"
    and "TcpConnection_destroy a r = Some (wipe a (ch_fd ch) r)"
  using assms bit_events [of "ch_events ch"]
  by (auto simp: registered_def reactor_defs put_def wipe_def fun_upd_idem_iff split: if_splits intro!: reactor.equality)

lemma new_put:
  assumes "rc_channels r fd = None" "rc_epoll r fd = None"
  shows "EnableReading a (Channel_new a fd r) = Some (put a fd EPOLLIN r)"
  using assms by (simp add: reactor_defs put_def EPOLLIN_def)

subsection \<open>Nothing dangles\<close>

definition tidy :: "reactor \<Rightarrow> bool" where
  "tidy r \<longleftrightarrow> (\<forall>a. rc_heap r a \<noteq> None \<longrightarrow> registered r a) \<and>
     (\<forall>a b x y. rc_heap r a = Some x \<and> rc_heap r b = Some y \<and> ch_fd x = ch_fd y \<longrightarrow> a = b) \<and>
     (\<forall>fd. rc_channels r fd \<noteq> None \<or> rc_epoll r fd \<noteq> None \<longrightarrow> (\<exists>a x. rc_heap r a = Some x \<and> ch_fd x = fd))"

lemma tidy_registered: "tidy r \<Longrightarrow> rc_heap r a = Some ch \<Longrightarrow> registered r a"
  by (simp add: tidy_def)

lemma tidy_free: "tidy r \<Longrightarrow> (\<And>a x. rc_heap r a = Some x \<Longrightarrow> ch_fd x \<noteq> fd) \<Longrightarrow> rc_channels r fd = None \<and> rc_epoll r fd = None"
  by (meson tidy_def)

text \<open>An operation on one channel leaves the others as they are, because no two share a descriptor.\<close>

lemma tidy_put:
  assumes "tidy r" "\<And>b y. rc_heap r b = Some y \<Longrightarrow> ch_fd y = fd \<longleftrightarrow> b = a" "rc_heap r a = None \<or> (\<exists>ch. rc_heap r a = Some ch \<and> ch_fd ch = fd)"
  shows "tidy (put a fd e r)"
proof -
  have reg: "registered (put a fd e r) b" if b: "rc_heap (put a fd e r) b \<noteq> None" for b
  proof (cases "b = a")
    case True
    then show ?thesis by (simp add: registered_def put_def)
  next
    case False
    with b obtain y where y: "rc_heap r b = Some y" by (auto simp: put_def)
    then have "ch_fd y \<noteq> fd" using assms(2) [OF y] False by simp
    with tidy_registered [OF assms(1) y] y False show ?thesis by (simp add: registered_def put_def)
  qed
  have only: "b = a" if "rc_heap (put a fd e r) b = Some x" "ch_fd x = fd" for b x
  proof (rule ccontr)
    assume "b \<noteq> a"
    with that(1) have "rc_heap r b = Some x" by (simp add: put_def)
    from assms(2) [OF this] that(2) \<open>b \<noteq> a\<close> show False by simp
  qed
  have "b = c" if h: "rc_heap (put a fd e r) b = Some x" "rc_heap (put a fd e r) c = Some y" "ch_fd x = ch_fd y" for b c x y
  proof (cases "ch_fd x = fd")
    case True
    then show ?thesis using only [OF h(1)] only [OF h(2)] h(3) by simp
  next
    case False
    with h have "b \<noteq> a" "c \<noteq> a" by (auto simp: put_def)
    with h have "rc_heap r b = Some x" "rc_heap r c = Some y" by (simp_all add: put_def)
    with h(3) assms(1) show ?thesis unfolding tidy_def by blast
  qed
  moreover have "\<exists>b x. rc_heap (put a fd e r) b = Some x \<and> ch_fd x = fd'" if "rc_channels (put a fd e r) fd' \<noteq> None \<or> rc_epoll (put a fd e r) fd' \<noteq> None" for fd'
  proof (cases "fd' = fd")
    case True
    then show ?thesis by (intro exI [of _ a]) (simp add: put_def)
  next
    case False
    with that have "rc_channels r fd' \<noteq> None \<or> rc_epoll r fd' \<noteq> None" by (simp add: put_def)
    with assms(1) obtain b x where bx: "rc_heap r b = Some x" "ch_fd x = fd'" unfolding tidy_def by blast
    with assms(3) False have "b \<noteq> a" by auto
    with bx show ?thesis by (intro exI [of _ b] exI [of _ x]) (simp add: put_def)
  qed
  ultimately show ?thesis using reg unfolding tidy_def by blast
qed

lemma tidy_wipe:
  assumes "tidy r" "rc_heap r a = Some ch"
  shows "tidy (wipe a (ch_fd ch) r)"
proof -
  have other: "ch_fd y \<noteq> ch_fd ch" if "rc_heap r b = Some y" "b \<noteq> a" for b y
    using assms that unfolding tidy_def by metis
  have reg: "registered (wipe a (ch_fd ch) r) b" if b: "rc_heap (wipe a (ch_fd ch) r) b \<noteq> None" for b
  proof -
    from b obtain y where y: "rc_heap r b = Some y" "b \<noteq> a" by (auto simp: wipe_def split: if_splits)
    with tidy_registered [OF assms(1) y(1)] other [OF y] show ?thesis by (simp add: registered_def wipe_def)
  qed
  have "b = c" if "rc_heap (wipe a (ch_fd ch) r) b = Some x" "rc_heap (wipe a (ch_fd ch) r) c = Some y" "ch_fd x = ch_fd y" for b c x y
    using that assms(1) unfolding tidy_def wipe_def by (auto split: if_splits)
  moreover have "\<exists>b x. rc_heap (wipe a (ch_fd ch) r) b = Some x \<and> ch_fd x = fd"
    if "rc_channels (wipe a (ch_fd ch) r) fd \<noteq> None \<or> rc_epoll (wipe a (ch_fd ch) r) fd \<noteq> None" for fd
  proof -
    from that have ne: "fd \<noteq> ch_fd ch" "rc_channels r fd \<noteq> None \<or> rc_epoll r fd \<noteq> None" by (auto simp: wipe_def split: if_splits)
    with assms(1) obtain b x where "rc_heap r b = Some x" "ch_fd x = fd" unfolding tidy_def by blast
    with ne(1) assms(2) show ?thesis by (intro exI [of _ b] exI [of _ x]) (auto simp: wipe_def)
  qed
  ultimately show ?thesis using reg unfolding tidy_def by blast
qed

subsection \<open>The invariant\<close>

definition owned :: "tcp_server \<Rightarrow> nat \<Rightarrow> bool" where
  "owned s a \<longleftrightarrow> sv_accept_channel s = Some a \<or> a \<in> ran (sv_connections s) \<or> a \<in># sv_held s"

definition sv_inv :: "tcp_server \<Rightarrow> bool" where
  "sv_inv s \<longleftrightarrow> tidy (sv_reactor s) \<and> (\<forall>a. rc_heap (sv_reactor s) a \<noteq> None \<longleftrightarrow> owned s a) \<and>
     (\<forall>fd a. sv_connections s fd = Some a \<longrightarrow> (\<exists>x. rc_heap (sv_reactor s) a = Some x \<and> ch_fd x = fd)) \<and>
     (\<forall>a. sv_accept_channel s = Some a \<longrightarrow> a \<notin> ran (sv_connections s) \<and> a \<notin># sv_held s)"

lemma inv_put:
  assumes "sv_inv s" "rc_heap (sv_reactor s) a = Some ch"
  shows "sv_inv (s\<lparr> sv_reactor := put a (ch_fd ch) e (sv_reactor s) \<rparr>)"
proof -
  have t: "tidy (sv_reactor s)" using assms(1) by (simp add: sv_inv_def)
  then have "ch_fd y = ch_fd ch \<longleftrightarrow> b = a" if "rc_heap (sv_reactor s) b = Some y" for b y
    using that assms(2) unfolding tidy_def by (metis option.inject)
  then have "tidy (put a (ch_fd ch) e (sv_reactor s))" using assms(2) by (intro tidy_put [OF t]) auto
  moreover have "rc_heap (put a (ch_fd ch) e (sv_reactor s)) b \<noteq> None \<longleftrightarrow> rc_heap (sv_reactor s) b \<noteq> None" for b
    using assms(2) by (simp add: put_def)
  moreover have "(\<exists>x. rc_heap (put a (ch_fd ch) e (sv_reactor s)) b = Some x \<and> ch_fd x = fd) \<longleftrightarrow> (\<exists>x. rc_heap (sv_reactor s) b = Some x \<and> ch_fd x = fd)" for b fd
    using assms(2) by (auto simp: put_def)
  ultimately show ?thesis using assms(1) by (simp add: sv_inv_def owned_def)
qed

text \<open>Giving up the last pointer to a connection destroys it; the invariant then holds, though not before.\<close>

lemma inv_drop:
  assumes "drop_connection a s = Some s'" "tidy (sv_reactor s)" "\<And>b. rc_heap (sv_reactor s) b \<noteq> None \<longleftrightarrow> owned s b \<or> b = a"
    "\<And>fd b. sv_connections s fd = Some b \<Longrightarrow> \<exists>x. rc_heap (sv_reactor s) b = Some x \<and> ch_fd x = fd"
    "\<And>b. sv_accept_channel s = Some b \<Longrightarrow> b \<notin> ran (sv_connections s) \<and> b \<notin># sv_held s \<and> b \<noteq> a"
  shows "sv_inv s'"
proof (cases "a \<in># sv_held s \<or> a \<in> ran (sv_connections s)")
  case True
  then have "s' = s" "owned s a" using assms(1) by (auto simp: drop_connection_def owned_def)
  with assms(2-5) show ?thesis unfolding sv_inv_def by metis
next
  case False
  obtain ch where ch: "rc_heap (sv_reactor s) a = Some ch" using assms(3) [of a] by auto
  have s': "s' = s\<lparr> sv_reactor := wipe a (ch_fd ch) (sv_reactor s) \<rparr>"
    using assms(1) False operations_put(5) [OF tidy_registered [OF assms(2) ch] ch] by (auto simp: drop_connection_def)
  have "\<not> owned s a" using False assms(5) by (auto simp: owned_def)
  moreover have "tidy (wipe a (ch_fd ch) (sv_reactor s))" by (rule tidy_wipe [OF assms(2) ch])
  moreover have "\<exists>x. rc_heap (wipe a (ch_fd ch) (sv_reactor s)) b = Some x \<and> ch_fd x = fd" if "sv_connections s fd = Some b" for fd b
    using assms(4) [OF that] False that by (auto simp: wipe_def ran_def)
  ultimately show ?thesis using assms(3,5) unfolding sv_inv_def s' by (auto simp: wipe_def owned_def)
qed

lemma owned_channel: "sv_inv s \<Longrightarrow> owned s a \<Longrightarrow> \<exists>ch. rc_heap (sv_reactor s) a = Some ch \<and> registered (sv_reactor s) a"
  unfolding sv_inv_def using tidy_registered by blast

lemma inv_accept:
  assumes "sv_inv s" "0 \<le> fd" "rc_heap (sv_reactor s) a = None"
    "\<And>b x. rc_heap (sv_reactor s) b = Some x \<Longrightarrow> ch_fd x \<noteq> fd" "TcpServer_HandleNewConnection fd a s = Some s'"
  shows "sv_inv s'"
proof -
  have t: "tidy (sv_reactor s)" using assms(1) by (simp add: sv_inv_def)
  note free = tidy_free [OF t assms(4)]
  have none: "sv_connections s fd = None" using assms(1,4) unfolding sv_inv_def by (metis not_None_eq)
  have s': "s' = s\<lparr> sv_connections := (sv_connections s)(fd \<mapsto> a), sv_reactor := put a fd EPOLLIN (sv_reactor s) \<rparr>"
    using assms(2,5) none new_put [of "sv_reactor s" fd a] free by (simp add: TcpServer_HandleNewConnection_def Let_def)
  have "tidy (put a fd EPOLLIN (sv_reactor s))"
  proof (rule tidy_put [OF t])
    show "ch_fd y = fd \<longleftrightarrow> b = a" if "rc_heap (sv_reactor s) b = Some y" for b y using assms(3,4) that by auto
  qed (simp add: assms(3))
  moreover have "\<not> owned s a" using assms(1,3) unfolding sv_inv_def by blast
  moreover have "owned s' b \<longleftrightarrow> owned s b \<or> b = a" for b
    using ran_map_upd [of "sv_connections s", OF none, of a] unfolding s' owned_def by auto
  ultimately show ?thesis using assms(1) none ran_map_upd [of "sv_connections s", OF none, of a] unfolding sv_inv_def s'
    by (auto simp: put_def owned_def dest: ranI)
qed

lemma inv_close:
  assumes "sv_inv s" "a \<in> ran (sv_connections s) \<or> a \<in># sv_held s" "TcpServer_HandleClose a s = Some s'"
  shows "sv_inv s'"
proof -
  have "owned s a" using assms(2) by (auto simp: owned_def)
  from owned_channel [OF assms(1) this] obtain ch where ch: "rc_heap (sv_reactor s) a = Some ch" "registered (sv_reactor s) a" by blast
  define s1 where "s1 = s\<lparr> sv_reactor := put a (ch_fd ch) 0 (sv_reactor s) \<rparr>"
  define s2 where "s2 = s1\<lparr> sv_connections := (sv_connections s)(ch_fd ch := None) \<rparr>"
  have inv1: "sv_inv s1" unfolding s1_def by (rule inv_put [OF assms(1) ch(1)])
  have drop: "drop_connection a s2 = Some s'"
    using assms(3) ch operations_put(4) [OF ch(2,1)] by (simp add: TcpServer_HandleClose_def s2_def s1_def)
  have conns: "b = a" if "sv_connections s (ch_fd ch) = Some b" for b
  proof -
    obtain x where "rc_heap (sv_reactor s) b = Some x" "ch_fd x = ch_fd ch" using assms(1) \<open>sv_connections s (ch_fd ch) = Some b\<close> unfolding sv_inv_def by blast
    with ch(1) assms(1) show ?thesis unfolding sv_inv_def tidy_def by metis
  qed
  have sub: "ran (sv_connections s2) \<subseteq> ran (sv_connections s)" by (auto simp: s2_def ran_def split: if_splits)
  have own: "owned s1 b \<longleftrightarrow> owned s2 b \<or> b = a" for b
  proof -
    have "b \<in> ran (sv_connections s) \<longleftrightarrow> b \<in> ran (sv_connections s2)" if "b \<noteq> a" for b
    proof
      assume "b \<in> ran (sv_connections s)"
      then obtain fd where fd: "sv_connections s fd = Some b" by (auto simp: ran_def)
      with conns that have "fd \<noteq> ch_fd ch" by auto
      with fd show "b \<in> ran (sv_connections s2)" by (intro ranI [of _ fd]) (simp add: s2_def)
    qed (auto simp: s2_def ran_def split: if_splits)
    then show ?thesis using \<open>owned s a\<close> sub by (cases "b = a") (auto simp: owned_def s2_def s1_def)
  qed
  show ?thesis
  proof (rule inv_drop [OF drop])
    show "tidy (sv_reactor s2)" using inv1 by (simp add: sv_inv_def s2_def)
    show "rc_heap (sv_reactor s2) b \<noteq> None \<longleftrightarrow> owned s2 b \<or> b = a" for b
      using inv1 own [of b] by (simp add: sv_inv_def s2_def)
    show "\<exists>x. rc_heap (sv_reactor s2) b = Some x \<and> ch_fd x = fd" if "sv_connections s2 fd = Some b" for fd b
      using inv1 that unfolding sv_inv_def by (auto simp: s2_def s1_def split: if_splits)
    show "b \<notin> ran (sv_connections s2) \<and> b \<notin># sv_held s2 \<and> b \<noteq> a" if "sv_accept_channel s2 = Some b" for b
      using assms(1,2) that unfolding sv_inv_def by (auto simp: s2_def s1_def ran_def split: if_splits)
  qed
qed

lemma inv_release:
  assumes "sv_inv s" "a \<in># sv_held s" "release a s = Some s'"
  shows "sv_inv s'"
proof -
  define s1 where "s1 = s\<lparr> sv_held := sv_held s - {#a#} \<rparr>"
  have drop: "drop_connection a s1 = Some s'" using assms(3) by (simp add: release_def s1_def)
  have own: "owned s b \<longleftrightarrow> owned s1 b \<or> b = a" for b
    using assms(2) by (auto simp: owned_def s1_def in_diff_count dest: in_diffD)
  have "b \<notin># sv_held s1 \<and> b \<noteq> a" if "b \<notin># sv_held s" for b using assms(2) that by (auto simp: s1_def dest: in_diffD)
  with assms(1) own show ?thesis by (intro inv_drop [OF drop]) (auto simp: sv_inv_def s1_def)
qed

text \<open>The steps return.\<close>

lemma drop_returns: "(a \<notin># sv_held s \<Longrightarrow> a \<notin> ran (sv_connections s) \<Longrightarrow> registered (sv_reactor s) a) \<Longrightarrow> drop_connection a s \<noteq> None"
  using operations_put(5) [of "sv_reactor s" a] by (auto simp: drop_connection_def registered_def split: option.splits)

lemma close_step:
  assumes "sv_inv s" "a \<in> ran (sv_connections s) \<or> a \<in># sv_held s"
  shows "\<exists>s'. TcpServer_HandleClose a s = Some s' \<and> sv_inv s'"
proof -
  have "owned s a" using assms(2) by (auto simp: owned_def)
  from owned_channel [OF assms(1) this] obtain ch where ch: "rc_heap (sv_reactor s) a = Some ch" "registered (sv_reactor s) a" by blast
  have "registered (put a (ch_fd ch) 0 (sv_reactor s)) a" by (simp add: registered_def put_def)
  then have "TcpServer_HandleClose a s \<noteq> None"
    using operations_put(4) [OF ch(2,1)] by (simp add: TcpServer_HandleClose_def ch(1) drop_returns)
  with inv_close [OF assms] show ?thesis by blast
qed

lemma release_step:
  assumes "sv_inv s" "a \<in># sv_held s"
  shows "\<exists>s'. release a s = Some s' \<and> sv_inv s'"
proof -
  have "owned s a" using assms(2) by (auto simp: owned_def)
  from owned_channel [OF assms(1) this] have "release a s \<noteq> None" unfolding release_def by (intro drop_returns) simp
  with inv_release [OF assms] show ?thesis by blast
qed

lemma accept_step:
  assumes "sv_inv s" "sv_may (Accepted fd a) s"
  shows "\<exists>s'. TcpServer_HandleNewConnection fd a s = Some s' \<and> sv_inv s'"
proof (cases "fd < 0")
  case False
  then have m: "0 \<le> fd" "rc_heap (sv_reactor s) a = None" "\<And>b x. rc_heap (sv_reactor s) b = Some x \<Longrightarrow> ch_fd x \<noteq> fd"
    using assms(2) by simp_all
  have t: "tidy (sv_reactor s)" using assms(1) by (simp add: sv_inv_def)
  note free = tidy_free [OF t m(3)]
  have "sv_connections s fd = None" using assms(1) m(3) unfolding sv_inv_def by (metis not_None_eq)
  then have "TcpServer_HandleNewConnection fd a s \<noteq> None"
    using False new_put [of "sv_reactor s" fd a] free by (simp add: TcpServer_HandleNewConnection_def Let_def)
  then obtain s' where s': "TcpServer_HandleNewConnection fd a s = Some s'" by blast
  have "sv_inv s'" by (rule inv_accept [OF assms(1) m(1,2) _ s']) (rule m(3))
  with s' show ?thesis by blast
qed (use assms(1) in \<open>simp add: TcpServer_HandleNewConnection_def\<close>)

lemma hold_inv: "sv_inv s \<Longrightarrow> owned s a \<Longrightarrow> sv_accept_channel s \<noteq> Some a \<Longrightarrow> sv_inv (hold a s)"
  by (auto simp: sv_inv_def hold_def owned_def)

text \<open>The channel a report is dispatched to exists, wants something and belongs to a connection.\<close>

lemma reported_channel:
  assumes "sv_inv s" "sv_may (Reported a revents gives e w) s"
  shows "a \<in> ran (sv_connections s) \<or> a \<in># sv_held s"
    and "\<exists>ch. rc_heap (sv_reactor s) a = Some ch \<and> ch_events ch \<noteq> 0 \<and> registered (sv_reactor s) a"
proof -
  obtain fd where fd: "rc_channels (sv_reactor s) fd = Some a" using assms(2) by (auto simp: ran_def)
  have t: "tidy (sv_reactor s)" using assms(1) by (simp add: sv_inv_def)
  then obtain b x where b: "rc_heap (sv_reactor s) b = Some x" "ch_fd x = fd" using fd unfolding tidy_def by blast
  have r: "registered (sv_reactor s) b" by (rule tidy_registered [OF t b(1)])
  with b fd have "b = a" "ch_events x \<noteq> 0" by (auto simp: registered_def split: if_splits)
  with b r show "\<exists>ch. rc_heap (sv_reactor s) a = Some ch \<and> ch_events ch \<noteq> 0 \<and> registered (sv_reactor s) a" by blast
  have "owned s a" using assms(1) b(1) \<open>b = a\<close> unfolding sv_inv_def by blast
  with assms(2) show "a \<in> ran (sv_connections s) \<or> a \<in># sv_held s" by (auto simp: owned_def)
qed

lemma write_step:
  assumes "sv_inv s" "sv_may (Reported a revents gives e w) s"
  shows "\<exists>s'. write_cb a w s = Some s' \<and> sv_inv s'"
proof (cases w)
  case Emptied
  obtain ch where ch: "rc_heap (sv_reactor s) a = Some ch" "ch_events ch \<noteq> 0" "registered (sv_reactor s) a"
    using reported_channel(2) [OF assms] by blast
  with Emptied inv_put [OF assms(1) ch(1)] operations_put(3) [OF ch(3,1,2)] show ?thesis by (simp add: write_cb_def)
qed (use assms(1) close_step [OF assms(1) reported_channel(1) [OF assms]] in \<open>simp_all add: write_cb_def\<close>)

lemma report_step:
  assumes inv: "sv_inv s" and may: "sv_may (Reported a revents gives e w) s" and c: "calm (Reported a revents gives e w)"
  shows "\<exists>s'. connection_event a revents gives e w s = Some s' \<and> sv_inv s'"
proof -
  note own = reported_channel(1) [OF inv may]
  have heap: "rc_heap (sv_reactor s) a \<noteq> None" using reported_channel(2) [OF inv may] by blast
  define s1 where "s1 = (if gives then hold a s else s)"
  have inv1: "sv_inv s1" unfolding s1_def using inv may own by (simp add: hold_inv owned_def)
  have own1: "a \<in> ran (sv_connections s1) \<or> a \<in># sv_held s1" using own by (auto simp: s1_def hold_def)
  have r1: "sv_reactor s1 = sv_reactor s" and may1: "sv_may (Reported a revents gives e w) s1" using may by (simp_all add: s1_def hold_def)
  consider "revents AND EPOLLHUP \<noteq> 0 \<and> revents AND EPOLLIN = 0 \<or> revents AND EPOLLERR \<noteq> 0"
    | "revents AND EPOLLERR = 0" "revents AND EPOLLIN = 0" "revents AND EPOLLHUP = 0"
    | "revents AND EPOLLERR = 0" "revents AND EPOLLIN \<noteq> 0" by blast
  then show ?thesis
  proof cases
    case 1
    with close_step [OF inv own] heap show ?thesis by (auto simp: connection_event_def)
  next
    case 2
    with write_step [OF inv may] inv heap show ?thesis by (auto simp: connection_event_def)
  next
    case 3
    show ?thesis
    proof (cases e)
      case Drained
      then have "read_cb a gives e s = Some s1" by (simp add: read_cb_def s1_def Let_def)
      with 3 write_step [OF inv1 may1] inv1 heap r1 show ?thesis by (auto simp: connection_event_def)
    next
      case Ended
      then have "read_cb a gives e s = TcpServer_HandleClose a s1" by (simp add: read_cb_def s1_def Let_def)
      with 3 c Ended close_step [OF inv1 own1] heap show ?thesis by (auto simp: connection_event_def)
    qed
  qed
qed

lemma sv_act_step:
  assumes "sv_inv s" "sv_may x s" "calm x"
  shows "\<exists>s'. sv_act_run x s = Some s' \<and> sv_inv s'"
proof (cases x)
  case (Sending a)
  then have "owned s a" using assms(2) by (auto simp: owned_def)
  from owned_channel [OF assms(1) this] obtain ch where ch: "rc_heap (sv_reactor s) a = Some ch" "registered (sv_reactor s) a" by blast
  with Sending inv_put [OF assms(1) ch(1)] operations_put(2) [OF ch(2,1)] show ?thesis by simp
qed (use assms accept_step report_step close_step release_step in \<open>simp_all del: sv_may.simps(1)\<close>)

lemma sv_start_inv:
  assumes "TcpServer_Start sock bound listening a (TcpServer_new r) = Some (ok, s)"
    and "r = \<lparr> rc_heap = (\<lambda>_. None), rc_channels = (\<lambda>_. None), rc_epoll = (\<lambda>_. None) \<rparr>"
  shows "sv_inv s"
proof (cases "sock < 0 \<or> \<not> bound \<or> \<not> listening")
  case True
  with assms show ?thesis
    by (auto simp: TcpServer_Start_def TcpServer_new_def Let_def sv_inv_def tidy_def owned_def split: if_splits)
next
  case False
  have t: "tidy r" by (simp add: tidy_def assms(2))
  have "s = (TcpServer_new r)\<lparr> sv_server_fd := sock, sv_accept_channel := Some a, sv_reactor := put a sock EPOLLIN r \<rparr>"
    using assms(1) False new_put [of r sock a] by (simp add: TcpServer_Start_def TcpServer_new_def Let_def assms(2))
  moreover have "tidy (put a sock EPOLLIN r)" by (rule tidy_put [OF t]) (simp_all add: assms(2))
  ultimately show ?thesis by (simp add: sv_inv_def TcpServer_new_def owned_def put_def assms(2))
qed

abbreviation no_channels :: reactor where
  "no_channels \<equiv> \<lparr> rc_heap = (\<lambda>_. None), rc_channels = (\<lambda>_. None), rc_epoll = (\<lambda>_. None) \<rparr>"

lemma sv_history_inv: "sv_history no_channels acts s \<Longrightarrow> list_all calm acts \<Longrightarrow> sv_inv s"
proof (induction rule: sv_history.induct)
  case start
  then show ?case using sv_start_inv by blast
next
  case (act acts s x s')
  then show ?case using sv_act_step [of s x] by auto
qed


text \<open>
  What the excluded report does.  With no request in the pool, reading destroys the connection, and the channel
  that is handling the event looks for its write callback in freed memory.
\<close>

theorem uncalm_report_uses_freed_channel:
  assumes "sv_history no_channels acts s" "list_all calm acts" "sv_may (Reported a (EPOLLIN OR EPOLLOUT) False Ended w) s" "a \<notin># sv_held s"
  shows "sv_act_run (Reported a (EPOLLIN OR EPOLLOUT) False Ended w) s = None"
proof -
  have inv: "sv_inv s" by (rule sv_history_inv [OF assms(1,2)])
  note own = reported_channel(1) [OF inv assms(3)]
  obtain s' where s': "TcpServer_HandleClose a s = Some s'" "sv_inv s'" using close_step [OF inv own] by blast
  obtain ch where ch: "rc_heap (sv_reactor s) a = Some ch" "registered (sv_reactor s) a"
    using reported_channel(2) [OF inv assms(3)] by blast
  have "a \<notin> ran ((sv_connections s)(ch_fd ch := None))"
  proof
    assume "a \<in> ran ((sv_connections s)(ch_fd ch := None))"
    then obtain fd where "sv_connections s fd = Some a" "fd \<noteq> ch_fd ch" by (auto simp: ran_def split: if_splits)
    with inv ch(1) show False unfolding sv_inv_def by force
  qed
  then have "rc_heap (sv_reactor s') a = None"
    using s'(1) assms(4) ch operations_put(4) [OF ch(2,1)] operations_put(5) [of "put a (ch_fd ch) 0 (sv_reactor s)" a]
    by (auto simp: TcpServer_HandleClose_def drop_connection_def registered_def put_def wipe_def)
  then show ?thesis
    using s'(1) by (simp add: connection_event_def read_cb_def EPOLLIN_def EPOLLOUT_def EPOLLHUP_def EPOLLERR_def)
qed

text \<open>
  With a request of the connection still in the pool, giving up writing registers the closed channel again.  When
  the request lets go of its pointer, the loop keeps the address of a freed channel.
\<close>

theorem uncalm_report_leaves_stale_channel:
  assumes "sv_history no_channels acts s" "list_all calm acts" "sv_may (Reported a (EPOLLIN OR EPOLLOUT) True Ended Emptied) s"
    and "a \<notin># sv_held s" "rc_heap (sv_reactor s) a = Some ch"
  shows "\<exists>s1 s2. sv_act_run (Reported a (EPOLLIN OR EPOLLOUT) True Ended Emptied) s = Some s1 \<and> sv_may (Released a) s1 \<and>
    sv_act_run (Released a) s1 = Some s2 \<and> rc_heap (sv_reactor s2) a = None \<and> rc_channels (sv_reactor s2) (ch_fd ch) = Some a"
proof -
  have inv: "sv_inv s" by (rule sv_history_inv [OF assms(1,2)])
  have ch: "rc_heap (sv_reactor s) a = Some ch" "registered (sv_reactor s) a" "ch_events ch \<noteq> 0"
    using reported_channel(2) [OF inv assms(3)] assms(5) by auto
  have gone: "a \<notin> ran ((sv_connections s)(ch_fd ch := None))"
  proof
    assume "a \<in> ran ((sv_connections s)(ch_fd ch := None))"
    then obtain fd where "sv_connections s fd = Some a" "fd \<noteq> ch_fd ch" by (auto simp: ran_def split: if_splits)
    with inv ch(1) show False unfolding sv_inv_def by force
  qed
  define r1 where "r1 = put a (ch_fd ch) 0 (sv_reactor s)"
  define r2 where "r2 = r1\<lparr> rc_channels := (rc_channels r1)(ch_fd ch \<mapsto> a), rc_epoll := (rc_epoll r1)(ch_fd ch \<mapsto> 0) \<rparr>"
  define s1 where "s1 = s\<lparr> sv_held := add_mset a (sv_held s), sv_reactor := r2, sv_connections := (sv_connections s)(ch_fd ch := None) \<rparr>"
  have "DisableWriting a r1 = Some r2"
    by (auto simp: reactor_defs r1_def r2_def put_def intro!: reactor.equality)
  then have "sv_act_run (Reported a (EPOLLIN OR EPOLLOUT) True Ended Emptied) s = Some s1"
    using ch operations_put(4) [OF ch(2,1)]
    by (simp add: connection_event_def read_cb_def write_cb_def hold_def TcpServer_HandleClose_def drop_connection_def s1_def r1_def
        EPOLLIN_def EPOLLOUT_def EPOLLHUP_def EPOLLERR_def) (simp add: put_def)
  moreover obtain r3 where r3: "TcpConnection_destroy a r2 = Some r3" "rc_heap r3 a = None" "rc_channels r3 (ch_fd ch) = Some a"
    by (simp add: reactor_defs r1_def r2_def put_def)
  have "sv_act_run (Released a) s1 = Some (s1\<lparr> sv_held := sv_held s, sv_reactor := r3 \<rparr>)"
    using assms(4) gone r3(1) by (simp add: release_def drop_connection_def s1_def)
  ultimately show ?thesis using r3
    by (intro exI [of _ s1] exI [of _ "s1\<lparr> sv_held := sv_held s, sv_reactor := r3 \<rparr>"]) (simp add: s1_def)
qed



end
