(* ===== verification/Spec2Isabelle.thy ===== *)
theory Spec2Isabelle
  imports Coding Crc32 WriteBatch Wal Bloom LruCache MemTable Raft RaftNode RaftCluster RaftElection RaftProps
    RaftReplication RaftTimer
    SSTable DB DBProps DBSpec DBHistory DBRecovery DBTheorems
    Decimal Histories Metadata EditLog NameNode NameNodeProps HANameNode HAProps HASnapshot
    BlockStore DataNode DataNodeClient Replication Heartbeats Answers Net ThreadPool Reactor EventLoop TcpServer
begin

text \<open>
  A verification library for my-mini-hdfs-ceph, a small distributed file store in C++.  Its parts are an
  LSM-tree storage engine (\<open>src/src/engine\<close>), Raft (\<open>src/src/raft\<close>), a name node, alone or replicated
  by Raft (\<open>src/src/namenode\<close>), data nodes (\<open>src/src/datanode\<close>), and the network layer (\<open>src/src/net\<close>).

  \<^bold>\<open>Conventions.\<close>  A \<open>std::string\<close> is a list of bytes, an integer of n bits a word of n bits, a struct or
  class a record with one field per member (a prefix names the record), an \<open>unordered_map\<close> an association
  list with distinct keys that is walked in an order given as an argument, a \<open>std::map\<close> a sorted list or a
  function.  Operations keep the names of the source; state is passed and returned.  An outer \<open>None\<close> is a
  computation that never returns, undefined behaviour or an exception nobody catches (each theory says
  which); failure the source reports is an inner \<open>option\<close>, a \<open>bool\<close>, or \<open>Inl\<close>.  Clocks, random draws, what
  system calls return, and what protobuf and zlib compute are arguments, with hypotheses such as
  \<open>parse (ser x) = Some x\<close> where a property needs them.

  \<^bold>\<open>Shared.\<close>  \<open>Prelude\<close>: bytes, buffers, the \<open>codec\<close> contract of every format that is read back.
  \<open>Histories\<close>: the contracts \<open>keeps\<close> (an invariant) and \<open>refines\<close> (an abstract machine) with their lemmas
  about histories.  \<open>Decimal\<close>: numbers as text, as file names and metadata files have them.

  \<^bold>\<open>Storage engine.\<close>
  \<^item> \<open>Coding\<close> and \<open>Crc32\<close> (\<open>coding.cc\<close>): fixed and variable length integers, strings, the checksum and the
    polynomial division it stands for.  The varint encoder is a \<open>partial_function\<close>: it does not return
    from 128 on, and everything that is built on it inherits this.
  \<^item> \<open>WriteBatch\<close> (\<open>db_write_batch.cc\<close>), \<open>Wal\<close> (\<open>log_writer.cc\<close>, \<open>log_reader.cc\<close>): what is appended is read
    back, what is torn or damaged is not.
  \<^item> \<open>Bloom\<close> (\<open>BloomFilter.h\<close>), \<open>LruCache\<close> (\<open>LruCache.cc\<close>), \<open>MemTable\<close> (\<open>MemTable.cc\<close>): the last two on an
    explicit heap of nodes, refined to a list in the order of use and to an ordered map; the contracts
    \<open>membership_filter\<close>, \<open>read_cache\<close> and \<open>ordered_map\<close> are interpreted on them.
  \<^item> \<open>SSTable\<close> (\<open>SSTableBuilder.cc\<close>, \<open>SSTableReader.cc\<close>): table files, their index, blocks and iterator.
  \<^item> \<open>DB\<close> (\<open>db.cc\<close>): opening, recovery, put, get, delete, flush and compaction.  \<open>DBProps\<close>: one lemma per
    operation; \<open>DBHistory\<close>, \<open>DBSpec\<close>: histories of calls (put, delete, get, flush, compaction, each with what the
    log's disk answers) against a finite map; \<open>DBRecovery\<close>: opening the files again; \<open>DBTheorems\<close>: the
    promises, and where they stop (no flush of 124 bytes or more returns; a log flush that fails is not
    noticed).

  \<^bold>\<open>Raft.\<close>
  \<^item> \<open>Raft\<close> (\<open>raft_node.cc\<close>, \<open>raft_rpc.cc\<close>): the state of a node with its two files, every handler, election,
    replication, snapshots, dispatch of messages.  What each write of the state file comes to (complete, not
    opened, cut) is the environment's; the handlers ignore it, as the source does.  \<open>RaftNode\<close>: lemmas per
    handler; \<open>RaftProps\<close>: votes, commitment, application, the order of the log, restart.
  \<^item> \<open>RaftCluster\<close>: all nodes with the vote messages in flight, as a step relation with histories (the votes
    cast, the nodes elected, whether a node came back without its vote); \<open>RaftElection\<close>: its invariants, step
    by step, election safety, and a run in which one lost write elects two leaders.
  \<^item> \<open>RaftReplication\<close>: a leader and one follower, round by round: catching up, conflicts, a compacted log.
  \<^item> \<open>RaftTimer\<close>: the timer thread; the order in which the threads take the two mutexes, and the deadlines
    against a clock, with messages of every kind between the turns of the timer.

  \<^bold>\<open>Name node.\<close>
  \<^item> \<open>Metadata\<close> (\<open>namenode_metadata_store.cc\<close>, \<open>namenode_block_manager.cc\<close>, \<open>namenode_datanode_manager.cc\<close>,
    \<open>common_types.h\<close>): files, blocks, data nodes; placement; the health check.
  \<^item> \<open>EditLog\<close> (\<open>namenode_edit_log.cc\<close>): the four-byte frame, which the wire uses too, and the log.
  \<^item> \<open>NameNode\<close> (\<open>namenode_namenode_server.cc\<close>): constructor with replay, dispatch and the handlers;
    \<open>NameNodeProps\<close>: the invariant of the namespace under requests, health checks and recorded replicas, each
    run to its end; what two handlers that overlap do to it; placement, and what a restart does.
  \<^item> \<open>HANameNode\<close> (\<open>namenode_ha_server.cc\<close>): the same stores driven by the committed commands of the Raft node
    of theory \<open>Raft\<close>, with its snapshots; \<open>HAProps\<close>: on what replicas agree and on what not, snapshots, restart;
    \<open>HASnapshot\<close>: writes after the health check has compacted the log.
  \<^item> \<open>Replication\<close> (\<open>namenode_replication_monitor.cc\<close>, \<open>namenode_block_replicator.cc\<close>,
    \<open>namenode_consistency_checker.cc\<close>, \<open>namenode_fault_detector.cc\<close>): finding blocks with too few live
    replicas, copying them, checking them, one round of the fault detector.
  \<^item> \<open>Answers\<close>: the form of the answers of both name nodes and of a data node, as a typing judgement.

  \<^bold>\<open>Data node.\<close>
  \<^item> \<open>BlockStore\<close> (\<open>datanode_block_store.cc\<close>): block and metadata files on a map from path to bytes, refined to
    a map from block id to bytes.
  \<^item> \<open>DataNode\<close> (\<open>datanode_datanode_server.cc\<close>, \<open>datanode_pipeline_handler.cc\<close>): the handlers and the write
    pipeline, on a cluster of data nodes: a map from endpoint to block store, with what disks and links
    do.  A forwarded request has a shorter pipeline, so the nodes serving one another take fuel one above
    its length (\<open>serve_enough\<close>).
  \<^item> \<open>DataNodeClient\<close> (\<open>datanode_datanode_client.cc\<close>): registration, block report and heartbeat, composed with
    the handlers of theory \<open>NameNode\<close>.
  \<^item> \<open>Heartbeats\<close>: the loops of the heartbeat, health check and fault detector threads against a clock, as
    interpretations of the contract \<open>waiting_loop\<close>, and what the name node believes of a data node over time;
    the heartbeat loop with what its rounds do to the name node; the listening thread of a data node.  The fuel of a loop is a number of rounds; \<open>stops\<close> shows that
    a loop whose stop flag is set ends, \<open>covers\<close> that one which runs comes back in time.

  \<^bold>\<open>Network.\<close>
  \<^item> \<open>Net\<close> (\<open>net_io_helpers.h\<close>, \<open>net_tcp_connection.cc\<close>): sending and receiving framed messages; a connection as
    a step relation in which any part of the bytes may arrive at any time.
  \<^item> \<open>ThreadPool\<close> (\<open>net_thread_pool.cc\<close>): all interleavings of workers, submitters and \<open>Stop\<close>, with the mutex
    and the condition variable.
  \<^item> \<open>Reactor\<close> (\<open>net_channel.cpp\<close>, \<open>net_event_loop.cc\<close>): which channels are registered, and which are freed
    while they are still in use.
  \<^item> \<open>EventLoop\<close> (\<open>net_event_loop.cc\<close>): the loop's thread with its tasks and its wake-up descriptor, among the
    threads that submit tasks and quit it.
  \<^item> \<open>TcpServer\<close> (\<open>net_tcp_server.cc\<close>): start, new and closed connections, and who keeps one alive, over histories
    of everything a report, a task of the pool or \<open>accept\<close> can do; and the one kind of report that breaks it.

  \<^bold>\<open>What the properties show.\<close>  Raft: at most one leader per term as long as no node restarts without its
  vote, which complete writes of the state files ensure (C1), the commit rule (C2), application in order (C3),
  votes and what is on file then (C4), a follower whose log matches catches up (C5) and is kept by a punctual
  leader while no later term appears (C6), log discipline and the one message that breaks it (C18); and where it
  fails: conflicting entries (C20), a deadlock (C21), compaction (C22, C23).  Storage engine: a database
  answers like a map (C7), also after the crash that ends its first run (C8), and makes progress on short
  keys and values while it need not flush (C9); no flush of a real buffer returns (C34); its parts implement
  their abstractions (C35 to C40).  Name node: the namespace invariant (C10), the names and block ids on which
  replicas agree (C15), placement (C25), the scan for under-replicated blocks (C26); what restarts lose or
  resurrect (C29 to C31).  Data node: the block store is a map (C11); a start makes a data node known (C27).
  Composition: running data nodes are believed alive and silent ones dead (C13); answers have the type of the
  request (C19); a write is answered with the opposite of what happened (C32), and for this reason a repair
  is never recorded (C33).  Network: messages arrive whole, once and in order (C12), the event loop loses
  no task (C14), pool tasks run once (C16), server and loop agree on the connections while no report is
  readable and writable at once as the stream ends (C17); \<open>Stop\<close> can hang (C24).

  \<^bold>\<open>Not modelled.\<close>  The generated protobuf code (messages are records, parsing and serialising arguments);
  epoll, sockets and file descriptors below \<open>read\<close> and \<open>write\<close>, of which only what the calls report enters;
  the start of threads and the order in which the servers stop their parts; the locks of components that
  lock themselves around each operation, so that the handlers of the name node run one after the other in
  its histories; accesses without a lock to plain members, such as \<open>quit_\<close>, which
  are data races in C++ and single steps here; console output; what a power failure takes of a file whose
  write was complete (nothing in the source calls \<open>fsync\<close>); file system errors where the source does not look
  at them, except those of the Raft state file and of the engine's log, and where a theory says so.  Sizes of messages and of collections are taken to stay
  below \<open>2 ^ 31\<close> where the source narrows them to \<open>int\<close>.
\<close>

end
